(* ===== verification/Prelude.thy ===== *)
theory Prelude
  imports Main "HOL-Library.AList" "HOL-Library.Sublist" "HOL-Library.Char_ord"
    "HOL-Library.List_Lexorder" "HOL-Library.Multiset"
begin

text \<open>
  Shared vocabulary of the development: Python exceptions as values, the result type with its
  sequencing operator, the few \<^verbatim>\<open>str\<close> methods the sources use, insertion-ordered dictionaries
  (association lists with \<^verbatim>\<open>AList.update\<close> and \<^verbatim>\<open>AList.delete\<close>), and the two interfaces that several
  components share: ancestor walks in a checkpoint registry, and the partition of a list into
  labelled buckets.

  Strings are lists of characters with code points below 256. The sources treat process maps, shell
  commands and file names as text; every character the code tests for is ASCII.
\<close>

named_theorems rsimps \<open>rewriting results and sequencing\<close>
named_theorems bounds \<open>numeric bounds of decoded values\<close>

section \<open>Errors as values\<close>

text \<open>The exception classes that the modelled code raises, each with its message.\<close>

datatype py_error =
    ValueError string
  | RuntimeError string
  | KeyError string
  | TypeError string
  | IndexError string
  | ZeroDivisionError string
  | TimeoutError string
  | FileNotFoundError string
  | OSError string
  | NotADirectoryError string
  | UnsupportedAsyncResources string
  | DumpUnavailableError string
  | AttributeError string
  | SystemExit string
  | BrokenPipeError string
  | FileExistsError string
  | IsADirectoryError string
  | TimeoutExpired string
  | WorkerError string

text \<open>\<^verbatim>\<open>type(e).__name__\<close> and \<^verbatim>\<open>str(e)\<close>.\<close>

fun err_name :: "py_error \<Rightarrow> string" where
  "err_name (ValueError _) = ''ValueError''"
| "err_name (RuntimeError _) = ''RuntimeError''"
| "err_name (KeyError _) = ''KeyError''"
| "err_name (TypeError _) = ''TypeError''"
| "err_name (IndexError _) = ''IndexError''"
| "err_name (ZeroDivisionError _) = ''ZeroDivisionError''"
| "err_name (TimeoutError _) = ''TimeoutError''"
| "err_name (FileNotFoundError _) = ''FileNotFoundError''"
| "err_name (OSError _) = ''OSError''"
| "err_name (NotADirectoryError _) = ''NotADirectoryError''"
| "err_name (UnsupportedAsyncResources _) = ''UnsupportedAsyncResources''"
| "err_name (DumpUnavailableError _) = ''DumpUnavailableError''"
| "err_name (AttributeError _) = ''AttributeError''"
| "err_name (SystemExit _) = ''SystemExit''"
| "err_name (BrokenPipeError _) = ''BrokenPipeError''"
| "err_name (FileExistsError _) = ''FileExistsError''"
| "err_name (IsADirectoryError _) = ''IsADirectoryError''"
| "err_name (TimeoutExpired _) = ''TimeoutExpired''"
| "err_name (WorkerError _) = ''WorkerError''"

fun err_msg :: "py_error \<Rightarrow> string" where
  "err_msg (ValueError m) = m"
| "err_msg (RuntimeError m) = m"
| "err_msg (KeyError m) = m"
| "err_msg (TypeError m) = m"
| "err_msg (IndexError m) = m"
| "err_msg (ZeroDivisionError m) = m"
| "err_msg (TimeoutError m) = m"
| "err_msg (FileNotFoundError m) = m"
| "err_msg (OSError m) = m"
| "err_msg (NotADirectoryError m) = m"
| "err_msg (UnsupportedAsyncResources m) = m"
| "err_msg (DumpUnavailableError m) = m"
| "err_msg (AttributeError m) = m"
| "err_msg (SystemExit m) = m"
| "err_msg (BrokenPipeError m) = m"
| "err_msg (FileExistsError m) = m"
| "err_msg (IsADirectoryError m) = m"
| "err_msg (TimeoutExpired m) = m"
| "err_msg (WorkerError m) = m"

text \<open>\<^verbatim>\<open>isinstance(e, OSError)\<close>.\<close>

fun os_error :: "py_error \<Rightarrow> bool" where
  "os_error (OSError _) = True"
| "os_error (FileNotFoundError _) = True"
| "os_error (NotADirectoryError _) = True"
| "os_error (TimeoutError _) = True"
| "os_error (BrokenPipeError _) = True"
| "os_error (FileExistsError _) = True"
| "os_error (IsADirectoryError _) = True"
| "os_error _ = False"

type_synonym 'a result = "py_error + 'a"

text \<open>Statement sequencing: an exception ends the computation.\<close>

definition andthen :: "'e + 'a \<Rightarrow> ('a \<Rightarrow> 'e + 'b) \<Rightarrow> 'e + 'b" where
  "andthen r f = (case r of Inl e \<Rightarrow> Inl e | Inr a \<Rightarrow> f a)"

lemma andthen_simps [simp, rsimps]:
  "andthen (Inl e) f = Inl e"
  "andthen (Inr a) f = f a"
  by (simp_all add: andthen_def)

lemma andthen_cong [fundef_cong]:
  "\<lbrakk>r = r'; \<And>a. r' = Inr a \<Longrightarrow> f a = g a\<rbrakk> \<Longrightarrow> andthen r f = andthen r' g"
  by (cases r') simp_all

lemma andthen_Inr_iff: "andthen r f = Inr b \<longleftrightarrow> (\<exists>a. r = Inr a \<and> f a = Inr b)"
  by (cases r) simp_all

lemma andthen_InrE [elim]:
  assumes "andthen r f = Inr b"
  obtains a where "r = Inr a" "f a = Inr b"
  using assms by (auto simp: andthen_Inr_iff)

text \<open>\<^verbatim>\<open>if cond: raise error\<close>.\<close>

definition raise_if :: "bool \<Rightarrow> 'e \<Rightarrow> 'e + unit" where
  "raise_if c e = (if c then Inl e else Inr ())"

lemma raise_if_iff [simp, rsimps]: "raise_if c e = Inr u \<longleftrightarrow> \<not> c"
  by (simp add: raise_if_def)

lemma raise_if_simps [simp]: "raise_if True e = Inl e" "raise_if False e = Inr ()"
  by (simp_all add: raise_if_def)

text \<open>A loop that may raise, over a list, threading a state.\<close>

fun fold_result :: "('a \<Rightarrow> 's \<Rightarrow> 'e + 's) \<Rightarrow> 'a list \<Rightarrow> 's \<Rightarrow> 'e + 's" where
  "fold_result f [] s = Inr s"
| "fold_result f (x # xs) s = andthen (f x s) (fold_result f xs)"

lemma fold_result_append:
  "fold_result f (xs @ ys) s = andthen (fold_result f xs s) (fold_result f ys)"
  by (induction xs arbitrary: s) (auto simp: andthen_def split: sum.splits)

lemma fold_result_invariant:
  assumes "fold_result f xs s = Inr s'" and "P s"
    and "\<And>x s s'. \<lbrakk>x \<in> set xs; P s; f x s = Inr s'\<rbrakk> \<Longrightarrow> P s'"
  shows "P s'"
  using assms
proof (induction xs arbitrary: s)
  case Nil
  then show ?case by simp
next
  case (Cons x xs)
  then obtain s1 where "f x s = Inr s1" and rest: "fold_result f xs s1 = Inr s'"
    by (auto simp: andthen_Inr_iff)
  with Cons.prems have "P s1" by (meson list.set_intros(1))
  with rest show ?case using Cons.IH Cons.prems(3) by (meson list.set_intros(2))
qed

fun map_result :: "('a \<Rightarrow> 'e + 'b) \<Rightarrow> 'a list \<Rightarrow> 'e + 'b list" where
  "map_result f [] = Inr []"
| "map_result f (x # xs) = andthen (f x) (\<lambda>y. andthen (map_result f xs) (\<lambda>ys. Inr (y # ys)))"

lemma map_result_Inr_iff:
  "map_result f xs = Inr ys \<longleftrightarrow> list_all2 (\<lambda>x y. f x = Inr y) xs ys"
proof (induction xs arbitrary: ys)
  case Nil
  then show ?case by auto
next
  case (Cons x xs)
  then show ?case by (cases ys) (auto simp: andthen_Inr_iff)
qed

lemma map_result_cong [fundef_cong]:
  "\<lbrakk>xs = ys; \<And>x. x \<in> set ys \<Longrightarrow> f x = g x\<rbrakk> \<Longrightarrow> map_result f xs = map_result g ys"
proof (induction ys arbitrary: xs)
  case Nil
  then show ?case by simp
next
  case (Cons y ys)
  then show ?case by simp
qed

section \<open>State that survives an exception\<close>

text \<open>
  A method that mutates objects and may raise returns its result together with the state it leaves,
  so that the effects of the statements before a \<^verbatim>\<open>raise\<close> stay visible.
\<close>

type_synonym ('a, 's) eff = "'a result \<times> 's"

definition bind_eff :: "('a, 's) eff \<Rightarrow> ('a \<Rightarrow> 's \<Rightarrow> ('b, 's) eff) \<Rightarrow> ('b, 's) eff" where
  "bind_eff m f = (case m of (Inl e, s) \<Rightarrow> (Inl e, s) | (Inr a, s) \<Rightarrow> f a s)"

lemma bind_eff_simps [simp, rsimps]:
  "bind_eff (Inl e, s) f = (Inl e, s)"
  "bind_eff (Inr a, s) f = f a s"
  by (simp_all add: bind_eff_def)

lemma bind_eff_Inr_iff:
  "bind_eff m f = (Inr b, s') \<longleftrightarrow> (\<exists>a s. m = (Inr a, s) \<and> f a s = (Inr b, s'))"
  by (auto simp: bind_eff_def split: prod.splits sum.splits)

lemma bind_eff_Inl_iff:
  "bind_eff m f = (Inl e, s') \<longleftrightarrow> m = (Inl e, s') \<or> (\<exists>a s. m = (Inr a, s) \<and> f a s = (Inl e, s'))"
  by (auto simp: bind_eff_def split: prod.splits sum.splits)

text \<open>A \<^verbatim>\<open>for\<close> statement over a list; the first exception leaves the loop.\<close>

fun for_eff :: "('x \<Rightarrow> 's \<Rightarrow> (unit, 's) eff) \<Rightarrow> 'x list \<Rightarrow> 's \<Rightarrow> (unit, 's) eff" where
  "for_eff f [] s = (Inr (), s)"
| "for_eff f (x # xs) s = bind_eff (f x s) (\<lambda>_. for_eff f xs)"

lemma for_eff_invariant:
  assumes "for_eff f xs s = (r, s')" and "P s"
    and "\<And>x s r s'. \<lbrakk>x \<in> set xs; P s; f x s = (r, s')\<rbrakk> \<Longrightarrow> P s'"
  shows "P s'"
  using assms
proof (induction xs arbitrary: s)
  case Nil
  then show ?case by simp
next
  case (Cons x xs)
  obtain r1 s1 where f: "f x s = (r1, s1)" by fastforce
  with Cons.prems(2,3) have P1: "P s1" by (meson list.set_intros(1))
  show ?case
  proof (cases r1)
    case (Inl e)
    with Cons.prems(1) f P1 show ?thesis by simp
  next
    case (Inr u)
    with Cons.prems(1) f have "for_eff f xs s1 = (r, s')" by simp
    with Cons.IH P1 Cons.prems(3) show ?thesis by (meson list.set_intros(2))
  qed
qed

lemma for_eff_invariant_ok:
  assumes "for_eff f xs s = (Inr (), s')" and "P s"
    and "\<And>x s s'. \<lbrakk>P s; f x s = (Inr (), s')\<rbrakk> \<Longrightarrow> P s'"
  shows "P s'"
  using assms(1,2)
proof (induction xs arbitrary: s)
  case Nil
  then show ?case by simp
next
  case (Cons x xs)
  then obtain s1 where "f x s = (Inr (), s1)" "for_eff f xs s1 = (Inr (), s')"
    by (auto simp: bind_eff_Inr_iff)
  with Cons assms(3) show ?case by blast
qed

section \<open>Insertion-ordered dictionaries\<close>

text \<open>
  A Python \<^verbatim>\<open>dict\<close> keeps its keys in insertion order; \<^verbatim>\<open>AList.update\<close> overwrites in place or appends,
  \<^verbatim>\<open>AList.delete\<close> removes, \<^verbatim>\<open>map_of\<close> looks up.
\<close>

lemma update_new_key: "k \<notin> fst ` set d \<Longrightarrow> AList.update k v d = d @ [(k, v)]"
  by (induction d) auto

lemma keys_update: "fst ` set (AList.update k v d) = insert k (fst ` set d)"
  by (metis dom_map_of_conv_image_fst dom_update insert_def update_conv' dom_fun_upd option.simps(3))

definition dict_get :: "('k \<times> 'v) list \<Rightarrow> 'k \<Rightarrow> 'v \<Rightarrow> 'v" where
  "dict_get d k dflt = (case map_of d k of Some v \<Rightarrow> v | None \<Rightarrow> dflt)"

lemma dict_get_Cons [simp]:
  "dict_get [] k dflt = dflt"
  "dict_get ((k', v) # d) k dflt = (if k = k' then v else dict_get d k dflt)"
  by (simp_all add: dict_get_def)

lemma dict_get_elem: "dict_get d k dflt \<in> insert dflt (snd ` set d)"
  by (auto simp: dict_get_def split: option.splits dest: map_of_SomeD intro: rev_image_eqI)

lemma dict_get_mem: "k \<in> fst ` set d \<Longrightarrow> dict_get d k dflt \<in> snd ` set d"
  by (auto simp: dict_get_def split: option.splits
    dest: map_of_SomeD intro: rev_image_eqI simp: map_of_eq_None_iff)

section \<open>Python strings\<close>

text \<open>\<^verbatim>\<open>str.isspace\<close> and the class \<^verbatim>\<open>\s\<close> of \<^verbatim>\<open>re\<close>, below code point 256.\<close>

definition is_space :: "char \<Rightarrow> bool" where
  "is_space c = (let n = of_char c :: nat in (9 \<le> n \<and> n \<le> 13) \<or> (28 \<le> n \<and> n \<le> 32) \<or> n = 133 \<or> n = 160)"

definition is_digit :: "char \<Rightarrow> bool" where
  "is_digit c = (let n = of_char c :: nat in 48 \<le> n \<and> n \<le> 57)"

text \<open>\<^verbatim>\<open>str.isdigit\<close>: nonempty, digits only; the superscript digits count as digits.\<close>

definition isdigit :: "string \<Rightarrow> bool" where
  "isdigit s \<longleftrightarrow> s \<noteq> [] \<and> list_all (\<lambda>c. is_digit c \<or> (of_char c :: nat) \<in> {178, 179, 185}) s"

text \<open>\<^verbatim>\<open>repr(s)\<close> of a string without quotes, backslashes and control characters.\<close>

definition py_repr :: "string \<Rightarrow> string" where
  "py_repr s = CHR 0x27 # s @ [CHR 0x27]"

text \<open>\<^verbatim>\<open>str(n)\<close> and \<^verbatim>\<open>int(s)\<close> for decimal numerals.\<close>

definition digit_char :: "nat \<Rightarrow> char" where
  "digit_char d = char_of (48 + d)"

fun dec :: "nat \<Rightarrow> string" where
  "dec n = (if n < 10 then [digit_char n] else dec (n div 10) @ [digit_char (n mod 10)])"

declare dec.simps [simp del]

definition dec_val :: "string \<Rightarrow> nat" where
  "dec_val s = foldl (\<lambda>a c. 10 * a + (of_char c - 48)) 0 s"

lemma digit_char_val: "d < 10 \<Longrightarrow> of_char (digit_char d) = 48 + d"
  by (simp add: digit_char_def)

lemma is_digit_digit_char: "d < 10 \<Longrightarrow> is_digit (digit_char d)"
  by (simp add: is_digit_def digit_char_val)

lemma dec_val_dec: "dec_val (dec n) = n"
proof (induction n rule: dec.induct)
  case (1 n)
  show ?case
  proof (cases "n < 10")
    case True
    then show ?thesis by (simp add: dec.simps [of n] dec_val_def digit_char_val)
  next
    case False
    have "dec_val (dec n) = 10 * dec_val (dec (n div 10)) + n mod 10"
      using False by (simp add: dec.simps [of n] dec_val_def digit_char_val)
    with 1 [OF False] show ?thesis by simp
  qed
qed

lemma dec_inj: "dec m = dec n \<longleftrightarrow> m = n"
  by (metis dec_val_dec)

lemma isdigit_dec: "isdigit (dec n)"
proof (induction n rule: dec.induct)
  case (1 n)
  then show ?case
    by (cases "n < 10") (simp_all add: dec.simps [of n] isdigit_def is_digit_digit_char)
qed

lemma map_of_filter_key: "map_of (filter (\<lambda>x. P (fst x)) xs) k = (if P k then map_of xs k else None)"
  by (induction xs) auto

lemma map_of_filter_pair: "map_of (filter (\<lambda>(k, e). P k) xs) k = (if P k then map_of xs k else None)"
  using map_of_filter_key [of P xs k] by (simp add: case_prod_unfold)

end
