(* ===== verification/Paths.thy ===== *)
theory Paths
  imports Prelude
begin

text \<open>
  The string and path functions of the Python standard library that the components share:
  \<^verbatim>\<open>str.split\<close> and \<^verbatim>\<open>str.join\<close> with a one-character separator, \<^verbatim>\<open>os.path.join\<close> and
  \<^verbatim>\<open>os.path.normpath\<close> (the POSIX versions).
\<close>

section \<open>Splitting and joining\<close>

fun split_on :: "char \<Rightarrow> string \<Rightarrow> string list" where
  "split_on sep [] = [[]]"
| "split_on sep (c # cs) =
     (if c = sep then [] # split_on sep cs
      else (case split_on sep cs of p # ps \<Rightarrow> (c # p) # ps | [] \<Rightarrow> [[c]]))"

fun join_on :: "char \<Rightarrow> string list \<Rightarrow> string" where
  "join_on sep [] = []"
| "join_on sep [p] = p"
| "join_on sep (p # q # ps) = p @ sep # join_on sep (q # ps)"

lemma split_on_ne [simp]: "split_on sep s \<noteq> []"
  by (cases s) (auto split: list.splits)

lemma join_on_Cons: "ps \<noteq> [] \<Longrightarrow> join_on sep (p # ps) = p @ sep # join_on sep ps"
  by (cases ps) auto

lemma split_on_plain: "sep \<notin> set p \<Longrightarrow> split_on sep p = [p]"
  by (induction p) auto

lemma split_on_append: "sep \<notin> set p \<Longrightarrow> split_on sep (p @ sep # s) = p # split_on sep s"
  by (induction p) auto

lemma split_on_join:
  "\<lbrakk>\<forall>p \<in> set ps. sep \<notin> set p; ps \<noteq> []\<rbrakk> \<Longrightarrow> split_on sep (join_on sep ps) = ps"
  by (induction sep ps rule: join_on.induct) (auto simp: split_on_plain split_on_append)

lemma join_on_split: "join_on sep (split_on sep s) = s"
proof (induction s)
  case Nil
  then show ?case by simp
next
  case (Cons c s)
  obtain p ps where "split_on sep s = p # ps" using split_on_ne [of sep s] by (cases "split_on sep s") auto
  with Cons show ?case by (cases ps) (auto simp: join_on_Cons)
qed

lemma split_on_no_sep: "p \<in> set (split_on sep s) \<Longrightarrow> sep \<notin> set p"
proof (induction s arbitrary: p)
  case Nil
  then show ?case by simp
next
  case (Cons c s)
  obtain q qs where q: "split_on sep s = q # qs" using split_on_ne [of sep s] by (cases "split_on sep s") auto
  with Cons.IH have "sep \<notin> set q" "\<And>r. r \<in> set qs \<Longrightarrow> sep \<notin> set r" by auto
  with q Cons.prems show ?case by (auto split: if_splits)
qed

section \<open>Paths\<close>

definition path_join :: "string \<Rightarrow> string \<Rightarrow> string" where
  "path_join a b =
     (if prefix ''/'' b then b
      else if a = [] \<or> suffix ''/'' a then a @ b
      else a @ ''/'' @ b)"

lemma first_sep_unique:
  "\<lbrakk>z \<notin> set xs; z \<notin> set ys; xs @ z # us = ys @ z # vs\<rbrakk> \<Longrightarrow> xs = ys \<and> us = vs"
proof (induction xs arbitrary: ys)
  case Nil
  then show ?case by (cases ys) auto
next
  case (Cons x xs)
  then show ?case by (cases ys) auto
qed

lemma path_join_relative: "\<lbrakk>\<not> prefix ''/'' x; \<not> prefix ''/'' y\<rbrakk> \<Longrightarrow> path_join a x = path_join a y \<longleftrightarrow> x = y"
  by (simp add: path_join_def)

lemma path_join_inject:
  assumes "path_join a x = path_join b y" "x \<noteq> []" "y \<noteq> []" "CHR ''/'' \<notin> set x" "CHR ''/'' \<notin> set y"
    "a \<noteq> []" "b \<noteq> []" "\<not> suffix ''/'' a" "\<not> suffix ''/'' b"
  shows "a = b \<and> x = y"
proof -
  have "path_join a x = a @ CHR ''/'' # x" "path_join b y = b @ CHR ''/'' # y"
    using assms by (cases x; cases y; auto simp: path_join_def)+
  with assms(1) have eq: "a @ CHR ''/'' # x = b @ CHR ''/'' # y" by simp
  then have "rev x @ CHR ''/'' # rev a = rev y @ CHR ''/'' # rev b"
    by (metis append.assoc append_Cons append_Nil rev.simps(2) rev_append)
  with assms show ?thesis using first_sep_unique [of _ "rev x" "rev y" "rev a" "rev b"] by auto
qed

text \<open>\<^verbatim>\<open>posixpath.normpath\<close>: \<^verbatim>\<open>new_comps\<close> is kept with its last component first.\<close>

definition norm_step :: "bool \<Rightarrow> string \<Rightarrow> string list \<Rightarrow> string list" where
  "norm_step rooted c new_comps =
     (if c = [] \<or> c = ''.'' then new_comps
      else if c \<noteq> ''..'' \<or> (\<not> rooted \<and> new_comps = []) \<or> (new_comps \<noteq> [] \<and> hd new_comps = ''..'')
      then c # new_comps
      else tl new_comps)"

definition initial_slashes :: "string \<Rightarrow> string" where
  "initial_slashes path =
     (if prefix ''//'' path \<and> \<not> prefix ''///'' path then ''//''
      else if prefix ''/'' path then ''/'' else [])"

definition normpath :: "string \<Rightarrow> string" where
  "normpath path =
     (if path = [] then ''.''
      else let pre = initial_slashes path;
               comps = rev (fold (norm_step (pre \<noteq> [])) (split_on (CHR ''/'') path) []);
               res = pre @ join_on (CHR ''/'') comps in
        if res = [] then ''.'' else res)"

text \<open>The components of a normal path: no empty one, no dot, and \<^verbatim>\<open>..\<close> only in front of a relative path.\<close>

fun norm_stack :: "bool \<Rightarrow> string list \<Rightarrow> bool" where
  "norm_stack rooted [] = True"
| "norm_stack rooted (c # cs) =
     (c \<noteq> [] \<and> c \<noteq> ''.'' \<and> CHR ''/'' \<notin> set c
      \<and> (c = ''..'' \<longrightarrow> \<not> rooted \<and> (cs = [] \<or> hd cs = ''..'')) \<and> norm_stack rooted cs)"

lemma norm_step_stack:
  "\<lbrakk>norm_stack rooted cs; CHR ''/'' \<notin> set c\<rbrakk> \<Longrightarrow> norm_stack rooted (norm_step rooted c cs)"
  by (cases cs) (auto simp: norm_step_def)

lemma fold_norm_stack:
  "\<lbrakk>norm_stack rooted cs; \<forall>p \<in> set ps. CHR ''/'' \<notin> set p\<rbrakk>
    \<Longrightarrow> norm_stack rooted (fold (norm_step rooted) ps cs)"
  by (induction ps arbitrary: cs) (auto simp: norm_step_stack)

lemma fold_norm_id:
  "norm_stack rooted (rev ps @ cs) \<Longrightarrow> fold (norm_step rooted) ps cs = rev ps @ cs"
proof (induction ps arbitrary: cs)
  case Nil
  then show ?case by simp
next
  case (Cons p ps)
  have "norm_stack rooted (xs @ ys) \<Longrightarrow> norm_stack rooted ys" for xs ys
    by (induction xs) auto
  with Cons.prems have "norm_stack rooted (p # cs)" by (metis append.assoc append_Cons append_Nil rev.simps(2))
  then have "norm_step rooted p cs = p # cs" by (cases cs) (auto simp: norm_step_def)
  with Cons show ?case by simp
qed

lemma norm_stack_comps: "norm_stack rooted cs \<Longrightarrow> c \<in> set cs \<Longrightarrow> c \<noteq> [] \<and> CHR ''/'' \<notin> set c"
  by (induction cs) auto

lemma fold_norm_slashes:
  "pre \<in> {[], ''/'', ''//''} \<Longrightarrow>
    fold (norm_step r) (split_on (CHR ''/'') (pre @ s)) cs = fold (norm_step r) (split_on (CHR ''/'') s) cs"
  by (auto simp: norm_step_def)

lemma initial_slashes_set: "initial_slashes p \<in> {[], ''/'', ''//''}"
  by (simp add: initial_slashes_def)

lemma join_on_head:
  assumes "norm_stack r (rev ps)"
  shows "\<not> prefix ''/'' (join_on (CHR ''/'') ps)" "join_on (CHR ''/'') ps = [] \<longleftrightarrow> ps = []"
proof -
  have "ps \<noteq> [] \<Longrightarrow> hd ps \<noteq> [] \<and> CHR ''/'' \<notin> set (hd ps)"
    using norm_stack_comps [OF assms, of "hd ps"] by simp
  then show "\<not> prefix ''/'' (join_on (CHR ''/'') ps)" "join_on (CHR ''/'') ps = [] \<longleftrightarrow> ps = []"
    by (cases ps; cases "tl ps"; auto simp: neq_Nil_conv)+
qed

lemma initial_slashes_norm:
  assumes "norm_stack r (rev ps)"
  shows "initial_slashes (initial_slashes p @ join_on (CHR ''/'') ps) = initial_slashes p"
proof -
  have n: "\<not> prefix ''/'' (join_on (CHR ''/'') ps)" using join_on_head [OF assms] by simp
  then have "\<not> prefix ''//'' (join_on (CHR ''/'') ps)" by (cases "join_on (CHR ''/'') ps") auto
  note n = n this
  from initial_slashes_set [of p] consider "initial_slashes p = []" | "initial_slashes p = ''/''"
    | "initial_slashes p = ''//''" by blast
  then show ?thesis using n
    by cases (auto simp: initial_slashes_def prefix_Cons split: if_splits)
qed

text \<open>\<^verbatim>\<open>normpath\<close> yields a normal form: normalising a path a second time changes nothing.\<close>

lemma normpath_idempotent: "normpath (normpath path) = normpath path"
proof (cases "path = []")
  case True
  then show ?thesis by (simp add: normpath_def initial_slashes_def norm_step_def)
next
  case False
  define pre where "pre = initial_slashes path"
  define ps where "ps = rev (fold (norm_step (pre \<noteq> [])) (split_on (CHR ''/'') path) [])"
  have st: "norm_stack (pre \<noteq> []) (rev ps)"
    unfolding ps_def by (simp, rule fold_norm_stack) (auto dest: split_on_no_sep)
  have np: "normpath path
      = (if pre @ join_on (CHR ''/'') ps = [] then ''.'' else pre @ join_on (CHR ''/'') ps)"
    using False unfolding normpath_def Let_def pre_def ps_def by (simp only: if_False)
  show ?thesis
  proof (cases "pre @ join_on (CHR ''/'') ps = []")
    case True
    then have "normpath path = ''.''" unfolding np by simp
    then show ?thesis by (simp add: normpath_def initial_slashes_def norm_step_def)
  next
    case ne: False
    then have n: "normpath path = pre @ join_on (CHR ''/'') ps"
      unfolding np by (simp only: if_False)
    have pre: "initial_slashes (pre @ join_on (CHR ''/'') ps) = pre"
      unfolding pre_def by (rule initial_slashes_norm [OF st])
    have "fold (norm_step (pre \<noteq> [])) (split_on (CHR ''/'') (pre @ join_on (CHR ''/'') ps)) []
      = fold (norm_step (pre \<noteq> [])) (split_on (CHR ''/'') (join_on (CHR ''/'') ps)) []"
      by (rule fold_norm_slashes) (use initial_slashes_set [of path] in \<open>simp add: pre_def\<close>)
    also have "\<dots> = rev ps"
    proof (cases "ps = []")
      case True
      then show ?thesis by (simp add: norm_step_def)
    next
      case False
      then have "split_on (CHR ''/'') (join_on (CHR ''/'') ps) = ps"
        using norm_stack_comps [OF st] by (intro split_on_join) auto
      then show ?thesis using fold_norm_id [of "pre \<noteq> []" ps "[]"] st by simp
    qed
    finally show ?thesis unfolding n using ne by (simp add: normpath_def [of "pre @ _"] pre Let_def)
  qed
qed


section \<open>Relative paths\<close>

text \<open>\<^verbatim>\<open>os.path.relpath(path, start)\<close> for absolute paths.\<close>

definition comps :: "string \<Rightarrow> string list" where
  "comps p = filter (\<lambda>c. c \<noteq> []) (split_on (CHR ''/'') (normpath p))"

definition relpath :: "string \<Rightarrow> string \<Rightarrow> string" where
  "relpath path start =
     (let start_list = comps start; path_list = comps path;
          i = length (longest_common_prefix start_list path_list);
          rel_list = replicate (length start_list - i) ''..'' @ drop i path_list in
      if rel_list = [] then ''.'' else join_on (CHR ''/'') rel_list)"

text \<open>An absolute normal path and its components.\<close>

definition abs_of :: "string list \<Rightarrow> string" where
  "abs_of ps = CHR ''/'' # join_on (CHR ''/'') ps"

lemma norm_stack_append: "norm_stack r (xs @ ys) \<Longrightarrow> norm_stack r ys"
  by (induction xs) auto

lemma normpath_abs:
  assumes "\<not> prefix ''//'' (CHR ''/'' # p)"
  shows "normpath (CHR ''/'' # p) = abs_of (rev (fold (norm_step True) (split_on (CHR ''/'') p) []))"
proof -
  have "initial_slashes (CHR ''/'' # p) = ''/''" using assms by (simp add: initial_slashes_def)
  then show ?thesis by (simp add: normpath_def Let_def abs_of_def norm_step_def)
qed

lemma normpath_abs_of:
  assumes "norm_stack True (rev ps)"
  shows "normpath (abs_of ps) = abs_of ps"
proof -
  have np: "\<not> prefix ''//'' (CHR ''/'' # join_on (CHR ''/'') ps)"
    using join_on_head(1) [OF assms] by simp
  have "fold (norm_step True) (split_on (CHR ''/'') (join_on (CHR ''/'') ps)) [] = rev ps"
  proof (cases "ps = []")
    case False
    then have "split_on (CHR ''/'') (join_on (CHR ''/'') ps) = ps"
      using norm_stack_comps [OF assms] by (intro split_on_join) auto
    then show ?thesis using fold_norm_id [of True ps "[]"] assms by simp
  qed (simp add: norm_step_def)
  then show ?thesis using normpath_abs [OF np] by (simp add: abs_of_def)
qed

lemma comps_abs_of:
  assumes "norm_stack True (rev ps)"
  shows "comps (abs_of ps) = ps"
proof (cases "ps = []")
  case True
  then show ?thesis by (simp add: comps_def normpath_abs_of [of "[]"]) (simp add: abs_of_def)
next
  case False
  then have "split_on (CHR ''/'') (join_on (CHR ''/'') ps) = ps"
    using norm_stack_comps [OF assms] by (intro split_on_join) auto
  moreover have "filter (\<lambda>c. c \<noteq> []) ps = ps" using norm_stack_comps [OF assms] by (auto intro: filter_True)
  moreover have "split_on (CHR ''/'') (abs_of ps) = [] # split_on (CHR ''/'') (join_on (CHR ''/'') ps)" by (simp add: abs_of_def)
  ultimately show ?thesis by (simp add: comps_def normpath_abs_of [OF assms])
qed

lemma fold_norm_up:
  "norm_stack True (xs @ cs) \<Longrightarrow> fold (norm_step True) (replicate (length xs) ''..'') (xs @ cs) = cs"
  by (induction xs) (auto simp: norm_step_def)

lemma norm_stack_append_iff:
  "norm_stack True (xs @ ys) \<longleftrightarrow> norm_stack True xs \<and> norm_stack True ys"
  by (induction xs) auto

text \<open>Following the relative path from its start leads to the path.\<close>

lemma relpath_resolves:
  assumes "norm_stack True (rev ps)" "norm_stack True (rev ss)" "ss \<noteq> []"
  shows "normpath (path_join (abs_of ss) (relpath (abs_of ps) (abs_of ss))) = abs_of ps"
proof -
  define lcp where "lcp = longest_common_prefix ss ps"
  obtain sr where sr: "ss = lcp @ sr" using longest_common_prefix_prefix1 [of ss ps] by (auto simp: lcp_def prefix_def)
  obtain pr where pr: "ps = lcp @ pr" using longest_common_prefix_prefix2 [of ss ps] by (auto simp: lcp_def prefix_def)
  define rel where "rel = replicate (length sr) ''..'' @ pr"
  have relp: "relpath (abs_of ps) (abs_of ss) = (if rel = [] then ''.'' else join_on (CHR ''/'') rel)"
  proof -
    have "length ss - length lcp = length sr" "drop (length lcp) ps = pr" by (simp_all add: sr pr)
    then show ?thesis unfolding relpath_def comps_abs_of [OF assms(1)] comps_abs_of [OF assms(2)] Let_def lcp_def [symmetric] rel_def
      by (simp only:)
  qed
  have ns: "\<forall>c \<in> set ss. c \<noteq> [] \<and> CHR ''/'' \<notin> set c" using norm_stack_comps [OF assms(2)] by auto
  have nr: "\<forall>c \<in> set rel. c \<noteq> [] \<and> CHR ''/'' \<notin> set c"
    using norm_stack_comps [OF assms(1)] by (auto simp: rel_def pr)
  define r where "r = (if rel = [] then [''.''] else rel)"
  have rj: "relpath (abs_of ps) (abs_of ss) = join_on (CHR ''/'') r" by (simp add: relp r_def)
  have rne: "r \<noteq> []" "\<forall>c \<in> set r. c \<noteq> [] \<and> CHR ''/'' \<notin> set c" using nr by (auto simp: r_def)
  have hd: "\<not> prefix ''/'' (join_on (CHR ''/'') r)" using rne by (cases r; cases "tl r") (auto simp: neq_Nil_conv)
  have ls: "\<not> suffix ''/'' (abs_of ss)"
  proof -
    obtain ini l where l: "ss = ini @ [l]" using assms(3) by (cases ss rule: rev_cases) auto
    then have ll: "l \<noteq> []" "CHR ''/'' \<notin> set l" using ns by auto
    have "join_on (CHR ''/'') (xs @ [l]) = (if xs = [] then l else join_on (CHR ''/'') xs @ CHR ''/'' # l)" for xs
      by (induction xs) (auto simp: join_on_Cons)
    then have "\<exists>u. abs_of ss = u @ l" by (auto simp: abs_of_def l)
    then show ?thesis using ll by (auto simp: suffix_def dest!: arg_cong [where f = last] split: if_splits)
  qed
  have jj: "path_join (abs_of ss) (join_on (CHR ''/'') r) = CHR ''/'' # join_on (CHR ''/'') (ss @ r)"
  proof -
    have "join_on (CHR ''/'') (xs @ r) = (if xs = [] then join_on (CHR ''/'') r else join_on (CHR ''/'') xs @ CHR ''/'' # join_on (CHR ''/'') r)" for xs
      using rne(1) by (induction xs) (auto simp: join_on_Cons)
    then show ?thesis using hd ls assms(3) by (simp add: path_join_def abs_of_def)
  qed
  have sp: "split_on (CHR ''/'') (join_on (CHR ''/'') (ss @ r)) = ss @ r"
    using ns rne assms(3) by (intro split_on_join) auto
  have "\<not> prefix ''//'' (CHR ''/'' # join_on (CHR ''/'') (ss @ r))"
    using ns assms(3) by (cases ss; cases "tl ss @ r") (auto simp: neq_Nil_conv)
  from normpath_abs [OF this] have "normpath (path_join (abs_of ss) (join_on (CHR ''/'') r))
      = abs_of (rev (fold (norm_step True) (ss @ r) []))" by (simp add: jj sp)
  also have "fold (norm_step True) (ss @ r) [] = fold (norm_step True) rel (rev ss)"
    using fold_norm_id [of True ss "[]"] assms(2) by (simp add: r_def norm_step_def)
  also have "\<dots> = fold (norm_step True) pr (rev lcp)"
    using fold_norm_up [of "rev sr" "rev lcp"] assms(2) by (simp add: rel_def sr)
  also have "\<dots> = rev ps" using fold_norm_id [of True pr "rev lcp"] assms(1) by (simp add: pr)
  finally show ?thesis by (simp add: rj)
qed

end
