(* ===== verification/Semantic_Parser.thy ===== *)
theory Semantic_Parser
  imports Prelude
begin

text \<open>
  Model of \<^verbatim>\<open>backends/deltabox/gsd/semantic_parser.py\<close>: the checkpoint strategy recommended for a
  shell command. The two regular expressions, \<^verbatim>\<open>re.split\<close> and the POSIX mode of \<^verbatim>\<open>shlex.split\<close> are
  written out for what the parser uses of them; a lone \<^verbatim>\<open>ValueError\<close> of \<^verbatim>\<open>shlex\<close> is caught as in the
  source. The recursion on compound commands ends because every part is shorter than the command.
\<close>

section \<open>Strategies\<close>

datatype strategy = Lightweight | Standard | Predump

fun weight :: "strategy \<Rightarrow> nat" where
  "weight Lightweight = 0"
| "weight Standard = 1"
| "weight Predump = 2"

lemma weight_inject [simp]: "weight a = weight b \<longleftrightarrow> a = b"
  by (cases a; cases b) simp_all

text \<open>The order of the class comment: from light to heavy.\<close>

instantiation strategy :: linorder
begin

definition less_eq_strategy :: "strategy \<Rightarrow> strategy \<Rightarrow> bool" where
  "less_eq_strategy a b \<longleftrightarrow> weight a \<le> weight b"

definition less_strategy :: "strategy \<Rightarrow> strategy \<Rightarrow> bool" where
  "less_strategy a b \<longleftrightarrow> weight a < weight b"

instance
  by standard (auto simp: less_eq_strategy_def less_strategy_def)

end

lemma strategy_bounds [simp]: "Lightweight \<le> s" "s \<le> Predump"
  by (cases s; simp add: less_eq_strategy_def)+

definition READONLY_COMMANDS :: "string list" where
  "READONLY_COMMANDS =
     [''cat'', ''ls'', ''pwd'', ''whoami'', ''echo'', ''head'', ''tail'', ''grep'',
      ''find'', ''stat'', ''wc'', ''file'', ''date'', ''hostname'', ''id'', ''env'',
      ''printenv'', ''uname'', ''df'', ''du'', ''free'', ''uptime'', ''which'',
      ''type'', ''true'', ''false'', ''test'', ''sleep'']"

definition BACKGROUND_COMMANDS :: "string list" where
  "BACKGROUND_COMMANDS = [''nohup'', ''screen'', ''tmux'', ''systemctl'', ''service'']"

section \<open>String methods\<close>

definition strip :: "string \<Rightarrow> string" where
  "strip s = rev (dropWhile is_space (rev (dropWhile is_space s)))"

text \<open>\<^verbatim>\<open>pat in s\<close>.\<close>

definition contains :: "string \<Rightarrow> string \<Rightarrow> bool" where
  "contains pat s \<longleftrightarrow> list_ex (prefix pat) (suffixes s)"

definition lower_char :: "char \<Rightarrow> char" where
  "lower_char c = (let n = of_char c :: nat in
     if (65 \<le> n \<and> n \<le> 90) \<or> (192 \<le> n \<and> n \<le> 222 \<and> n \<noteq> 215) then char_of (n + 32) else c)"

text \<open>\<^verbatim>\<open>s.rsplit('/', 1)[-1]\<close>: what follows the last slash, or all of \<^verbatim>\<open>s\<close>.\<close>

definition after_slash :: "string \<Rightarrow> string" where
  "after_slash s = rev (takeWhile (\<lambda>c. c \<noteq> CHR ''/'') (rev s))"

text \<open>\<^verbatim>\<open>[s.split()[0]] if s.split() else []\<close>.\<close>

definition first_field :: "string \<Rightarrow> string list" where
  "first_field s = (let w = takeWhile (\<lambda>c. \<not> is_space c) (dropWhile is_space s) in
     if w = [] then [] else [w])"

section \<open>Redirections\<close>

text \<open>
  One match of \<^verbatim>\<open>[0-9&]?>>?\s*(?:/dev/null|&\d)\<close> at the head of the input, with the rest behind it.
  The alternatives start with a character that is neither \<^verbatim>\<open>>\<close> nor a space, and the optional prefix
  is not \<^verbatim>\<open>>\<close>, so the greedy match is the only one.
\<close>

definition safe_target :: "string \<Rightarrow> string option" where
  "safe_target s =
     (if prefix ''/dev/null'' s then Some (drop 9 s)
      else case s of
          a # d # rest \<Rightarrow> if a = CHR ''&'' \<and> is_digit d then Some rest else None
        | _ \<Rightarrow> None)"

definition optional :: "(char \<Rightarrow> bool) \<Rightarrow> string \<Rightarrow> string" where
  "optional p s = (case s of c # r \<Rightarrow> if p c then r else s | [] \<Rightarrow> [])"

definition safe_redirect :: "string \<Rightarrow> string option" where
  "safe_redirect s =
     (case optional (\<lambda>c. is_digit c \<or> c = CHR ''&'') s of
        c # r \<Rightarrow>
          if c = CHR ''>''
          then safe_target (dropWhile is_space (optional (\<lambda>c. c = CHR ''>'') r))
          else None
      | [] \<Rightarrow> None)"

lemma safe_target_shorter: "safe_target s = Some r \<Longrightarrow> length r < length s"
  by (auto simp: safe_target_def prefix_def split: if_splits list.splits)

lemma length_optional: "length (optional p s) \<le> length s"
  by (auto simp: optional_def split: list.splits)

lemma safe_redirect_shorter:
  assumes "safe_redirect s = Some r"
  shows "length r < length s"
proof -
  let ?one = "optional (\<lambda>c. is_digit c \<or> c = CHR ''&'') s"
  from assms obtain c q where q: "?one = c # q"
    "safe_target (dropWhile is_space (optional (\<lambda>c. c = CHR ''>'') q)) = Some r"
    by (auto simp: safe_redirect_def split: list.splits if_splits)
  have "length r < length (dropWhile is_space (optional (\<lambda>c. c = CHR ''>'') q))"
    using q(2) by (rule safe_target_shorter)
  also have "\<dots> \<le> length (optional (\<lambda>c. c = CHR ''>'') q)" by (rule length_dropWhile_le)
  also have "\<dots> \<le> length q" by (rule length_optional)
  also have "\<dots> < length ?one" by (simp add: q(1))
  also have "\<dots> \<le> length s" by (rule length_optional)
  finally show ?thesis .
qed

text \<open>\<^verbatim>\<open>re.sub(..., '', command_str)\<close>.\<close>

function strip_safe :: "string \<Rightarrow> string" where
  "strip_safe s = (case safe_redirect s of
       Some r \<Rightarrow> strip_safe r
     | None \<Rightarrow> (case s of [] \<Rightarrow> [] | c # cs \<Rightarrow> c # strip_safe cs))"
  by pat_completeness auto
termination
  by (relation "measure length") (auto dest: safe_redirect_shorter)

declare strip_safe.simps [simp del]

text \<open>\<^verbatim>\<open>re.search(r'>\s*\S', s)\<close>.\<close>

fun has_redirect :: "string \<Rightarrow> bool" where
  "has_redirect [] = False"
| "has_redirect (c # cs) = ((c = CHR ''>'' \<and> dropWhile is_space cs \<noteq> []) \<or> has_redirect cs)"

section \<open>Splitting\<close>

text \<open>\<^verbatim>\<open>re.split(r'&&|;', s)\<close>.\<close>

fun split_compound :: "string \<Rightarrow> string list" where
  "split_compound [] = [[]]"
| "split_compound (c # cs) =
     (if c = CHR '';'' then [] # split_compound cs
      else if c = CHR ''&'' \<and> cs \<noteq> [] \<and> hd cs = CHR ''&'' then [] # split_compound (tl cs)
      else (case split_compound cs of p # ps \<Rightarrow> (c # p) # ps | [] \<Rightarrow> [[c]]))"

definition sub_cmds :: "string \<Rightarrow> string list" where
  "sub_cmds s = filter (\<lambda>p. p \<noteq> []) (map strip (split_compound s))"

definition is_compound :: "string \<Rightarrow> bool" where
  "is_compound s \<longleftrightarrow> contains ''&&'' s \<or> contains '';'' s"

text \<open>The POSIX mode of \<^verbatim>\<open>shlex\<close> with \<^verbatim>\<open>whitespace_split\<close> and without comments.\<close>

datatype lex_state = Blank | Word | Quote char | Escape lex_state

definition lex_space :: "char \<Rightarrow> bool" where
  "lex_space c \<longleftrightarrow> c \<in> {CHR '' '', CHR 0x09, CHR 0x0D, CHR 0x0A}"

definition lex_quote :: "char \<Rightarrow> bool" where
  "lex_quote c \<longleftrightarrow> c \<in> {CHR 0x27, CHR 0x22}"

abbreviation (input) backslash :: char where "backslash \<equiv> CHR 0x5C"

fun lex :: "lex_state \<Rightarrow> string \<Rightarrow> bool \<Rightarrow> string \<Rightarrow> string list result" where
  "lex Blank token quoted [] = Inr (if token = [] \<and> \<not> quoted then [] else [token])"
| "lex Blank token quoted (c # cs) =
     (if lex_space c then
        (if token \<noteq> [] \<or> quoted
         then andthen (lex Blank [] False cs) (\<lambda>ts. Inr (token # ts))
         else lex Blank token quoted cs)
      else if c = backslash then lex (Escape Word) token quoted cs
      else if lex_quote c then lex (Quote c) token quoted cs
      else lex Word [c] quoted cs)"
| "lex (Quote q) token quoted [] = Inl (ValueError ''No closing quotation'')"
| "lex (Quote q) token quoted (c # cs) =
     (if c = q then lex Word token True cs
      else if c = backslash \<and> q = CHR 0x22 then lex (Escape (Quote q)) token True cs
      else lex (Quote q) (token @ [c]) True cs)"
| "lex (Escape st) token quoted [] = Inl (ValueError ''No escaped character'')"
| "lex (Escape st) token quoted (c # cs) =
     (let token' = (case st of Quote q \<Rightarrow> if c \<noteq> backslash \<and> c \<noteq> q then token @ [backslash] else token
                    | _ \<Rightarrow> token) in
      lex st (token' @ [c]) quoted cs)"
| "lex Word token quoted [] = Inr (if token = [] \<and> \<not> quoted then [] else [token])"
| "lex Word token quoted (c # cs) =
     (if lex_space c then
        (if token \<noteq> [] \<or> quoted
         then andthen (lex Blank [] False cs) (\<lambda>ts. Inr (token # ts))
         else lex Blank token quoted cs)
      else if lex_quote c then lex (Quote c) token quoted cs
      else if c = backslash then lex (Escape Word) token quoted cs
      else lex Word (token @ [c]) quoted cs)"

definition shlex_split :: "string \<Rightarrow> string list result" where
  "shlex_split s = lex Blank [] False s"

section \<open>The parser\<close>

text \<open>The tokens of the first command of a pipe, and the name of its program.\<close>

definition tokens_of :: "string \<Rightarrow> string list" where
  "tokens_of command_str =
     (let first_cmd_part = strip (takeWhile (\<lambda>c. c \<noteq> CHR ''|'') command_str);
          cmd_no_redir = strip (takeWhile (\<lambda>c. c \<noteq> CHR ''>'') first_cmd_part) in
      case shlex_split cmd_no_redir of Inr ts \<Rightarrow> ts | Inl _ \<Rightarrow> first_field command_str)"

definition base_cmd :: "string list \<Rightarrow> string" where
  "base_cmd tokens = after_slash (map lower_char (hd tokens))"

definition simple_strategy :: "string \<Rightarrow> strategy" where
  "simple_strategy command_str =
     (let tokens = tokens_of command_str in
      if tokens = [] then Standard
      else let base = base_cmd tokens in
        if base \<in> set BACKGROUND_COMMANDS \<or> suffix ''&'' (strip command_str) then Predump
        else if base \<in> {''python'', ''python3'', ''pytest'', ''tox''}
             \<and> (contains ''--parallel'' command_str \<or> contains ''-n'' command_str) then Predump
        else if base \<in> set READONLY_COMMANDS then Lightweight
        else if base = ''sed'' then (if ''-i'' \<in> set tokens then Standard else Lightweight)
        else if base \<in> {''cd'', ''export'', ''set'', ''unset'', ''alias'', ''source'', ''.''}
             then Lightweight
        else Standard)"

definition merge_strategies :: "strategy list \<Rightarrow> strategy" where
  "merge_strategies ss =
     (if list_ex (\<lambda>s. s = Predump) ss then Predump
      else if list_ex (\<lambda>s. s = Standard) ss then Standard
      else if ss \<noteq> [] \<and> list_all (\<lambda>s. s = Lightweight) ss then Lightweight
      else Standard)"

lemma length_strip: "length (strip s) \<le> length s"
proof -
  have "length (strip s) \<le> length (dropWhile is_space s)"
    unfolding strip_def using length_dropWhile_le [of is_space "rev (dropWhile is_space s)"] by simp
  also have "\<dots> \<le> length s" by (rule length_dropWhile_le)
  finally show ?thesis .
qed

lemma contains_Nil [simp]: "contains (a # p) [] = False"
  by (simp add: contains_def)

lemma contains_Cons [simp]:
  "contains (a # p) (c # cs) \<longleftrightarrow> prefix (a # p) (c # cs) \<or> contains (a # p) cs"
  by (auto simp: contains_def list_ex_iff)

lemma split_compound_ne [simp]: "split_compound s \<noteq> []"
  by (cases s) (simp_all split: list.splits)

abbreviation (input) is_sep :: "char \<Rightarrow> string \<Rightarrow> bool" where
  "is_sep c cs \<equiv> c = CHR ''&'' \<and> cs \<noteq> [] \<and> hd cs = CHR ''&''"

lemma split_compound_parts:
  assumes "p \<in> set (split_compound (c # cs))"
  obtains (semi) "c = CHR '';''" "p = [] \<or> p \<in> set (split_compound cs)"
  | (amp) "c \<noteq> CHR '';''" "is_sep c cs" "p = [] \<or> p \<in> set (split_compound (tl cs))"
  | (plain) q where "c \<noteq> CHR '';''" "\<not> is_sep c cs"
      "q \<in> set (split_compound cs)" "p = q \<or> p = c # q"
proof -
  obtain q qs where q: "split_compound cs = q # qs" using split_compound_ne [of cs] by (cases "split_compound cs") auto
  show thesis
  proof (cases "c = CHR '';'' \<or> is_sep c cs")
    case True
    with assms show thesis by (auto intro: semi amp split: if_splits)
  next
    case False
    with assms q have "p = c # q \<or> p \<in> set qs" by (auto split: if_splits)
    with False q show thesis using plain [of q] plain [of p] by auto
  qed
qed

lemma split_compound_length: "p \<in> set (split_compound s) \<Longrightarrow> length p \<le> length s"
proof (induction s arbitrary: p rule: split_compound.induct)
  case 1
  then show ?case by simp
next
  case (2 c cs)
  from "2.prems" show ?case
  proof (cases rule: split_compound_parts)
    case semi
    then show ?thesis using "2.IH"(1) [of p] by auto
  next
    case amp
    then show ?thesis using "2.IH"(2) [of p] by (cases cs) auto
  next
    case (plain q)
    then show ?thesis using "2.IH"(3) [of q] by auto
  qed
qed

lemma split_compound_shorter:
  "is_compound s \<Longrightarrow> p \<in> set (split_compound s) \<Longrightarrow> length p < length s"
proof (induction s arbitrary: p)
  case Nil
  then show ?case by (simp add: is_compound_def)
next
  case (Cons c cs)
  from Cons.prems(2) show ?case
  proof (cases rule: split_compound_parts)
    case semi
    then show ?thesis using split_compound_length [of p cs] by auto
  next
    case amp
    then show ?thesis using split_compound_length [of p "tl cs"] by (cases cs) auto
  next
    case (plain q)
    with Cons.prems(1) have "is_compound cs" by (cases cs) (auto simp: is_compound_def)
    with plain show ?thesis using Cons.IH [of q] by auto
  qed
qed

lemma sub_cmds_shorter:
  assumes "is_compound s" "p \<in> set (sub_cmds s)"
  shows "length p < length s"
proof -
  from assms(2) obtain q where "q \<in> set (split_compound s)" "p = strip q"
    by (auto simp: sub_cmds_def)
  with split_compound_shorter [OF assms(1)] length_strip [of q] show ?thesis by fastforce
qed

function parse_strategy :: "string \<Rightarrow> strategy" where
  "parse_strategy command_str =
     (if command_str = [] \<or> strip command_str = [] then Standard
      else if has_redirect (strip_safe command_str) then Standard
      else if is_compound command_str
           then merge_strategies (map parse_strategy (sub_cmds command_str))
      else simple_strategy command_str)"
  by pat_completeness auto
termination
  by (relation "measure length") (auto intro: sub_cmds_shorter)

declare parse_strategy.simps [simp del]

section \<open>Properties\<close>

lemma merge_strategies_max:
  "ss \<noteq> [] \<Longrightarrow> merge_strategies ss = Max (set ss)"
proof -
  assume ne: "ss \<noteq> []"
  consider "Predump \<in> set ss" | "Predump \<notin> set ss" "Standard \<in> set ss"
    | "Predump \<notin> set ss" "Standard \<notin> set ss" by blast
  then show ?thesis
  proof cases
    case 1
    then have "merge_strategies ss = Predump" by (auto simp: merge_strategies_def list_ex_iff)
    moreover have "Max (set ss) = Predump" by (rule Max_eqI) (use 1 in auto)
    ultimately show ?thesis by simp
  next
    case 2
    then have "merge_strategies ss = Standard" by (auto simp: merge_strategies_def list_ex_iff)
    moreover have "Max (set ss) = Standard"
    proof (rule Max_eqI)
      fix y assume "y \<in> set ss"
      with 2 show "y \<le> Standard" by (cases y) (auto simp: less_eq_strategy_def)
    qed (use 2 in auto)
    ultimately show ?thesis by simp
  next
    case 3
    then have all: "\<forall>y \<in> set ss. y = Lightweight" by (metis strategy.exhaust)
    with 3 ne have "merge_strategies ss = Lightweight"
      by (auto simp: merge_strategies_def list_ex_iff list_all_iff)
    moreover have "set ss = {Lightweight}" using all ne by (cases ss) auto
    ultimately show ?thesis by simp
  qed
qed


subsection \<open>Atoms of a command\<close>

text \<open>The commands whose classification a strategy rests on.\<close>

definition atoms :: "string \<Rightarrow> string list" where
  "atoms s = (if is_compound s then sub_cmds s else [s])"

definition lightweight_base :: "string list" where
  "lightweight_base = READONLY_COMMANDS @ [''sed'', ''cd'', ''export'', ''set'', ''unset'', ''alias'',
     ''source'', ''.'']"

text \<open>What the parser establishes of an atom that it classifies as lightweight.\<close>

definition reads_only :: "string \<Rightarrow> bool" where
  "reads_only p \<longleftrightarrow> \<not> has_redirect (strip_safe p) \<and> \<not> suffix ''&'' (strip p)
     \<and> tokens_of p \<noteq> [] \<and> base_cmd (tokens_of p) \<in> set lightweight_base
     \<and> (base_cmd (tokens_of p) = ''sed'' \<longrightarrow> ''-i'' \<notin> set (tokens_of p))"

lemma contains_sublist: "contains p s \<longleftrightarrow> sublist p s"
  by (auto simp: contains_def list_ex_iff sublist_altdef')

lemma sublist_strip: "sublist (strip s) s"
proof -
  have "suffix (dropWhile is_space s) s" by (rule suffix_dropWhile)
  moreover have "prefix (strip s) (dropWhile is_space s)"
    unfolding strip_def by (metis rev_rev_ident suffix_dropWhile suffix_to_prefix)
  ultimately show ?thesis by (auto simp: sublist_altdef')
qed

lemma is_compound_strip: "is_compound (strip s) \<Longrightarrow> is_compound s"
  unfolding is_compound_def contains_sublist using sublist_strip [of s] sublist_order.order_trans by blast

lemma split_compound_hd:
  "hd (split_compound s) = [] \<or> (s \<noteq> [] \<and> hd (hd (split_compound s)) = hd s)"
  by (cases s) (auto split: list.splits)

lemma split_compound_not_compound: "p \<in> set (split_compound s) \<Longrightarrow> \<not> is_compound p"
proof (induction s arbitrary: p rule: split_compound.induct)
  case 1
  then show ?case by (simp add: is_compound_def)
next
  case (2 c cs)
  show ?case
  proof (cases "c = CHR '';'' \<or> is_sep c cs")
    case True
    with "2.prems" "2.IH"(1,2) show ?thesis by (auto simp: is_compound_def split: if_splits)
  next
    case False
    obtain q qs where q: "split_compound cs = q # qs"
      using split_compound_ne [of cs] by (cases "split_compound cs") auto
    have "\<not> is_compound q" "\<And>r. r \<in> set qs \<Longrightarrow> \<not> is_compound r"
      using "2.IH"(3) False q by auto
    moreover have "\<not> is_compound (c # q)"
      using \<open>\<not> is_compound q\<close> False split_compound_hd [of cs] q
      by (cases q) (auto simp: is_compound_def)
    moreover have "p = c # q \<or> p \<in> set qs" using "2.prems" False q by (auto split: if_splits)
    ultimately show ?thesis by auto
  qed
qed

lemma sub_cmds_atomic: "p \<in> set (sub_cmds s) \<Longrightarrow> \<not> is_compound p \<and> p \<noteq> []"
  using is_compound_strip split_compound_not_compound by (auto simp: sub_cmds_def)

lemma parse_strategy_atom:
  assumes "parse_strategy p = Lightweight" "\<not> is_compound p"
  shows "reads_only p"
proof -
  have s: "simple_strategy p = Lightweight" "\<not> has_redirect (strip_safe p)"
    using assms by (auto simp: parse_strategy.simps [of p] split: if_splits)
  moreover have "''sed'' \<notin> set READONLY_COMMANDS" by (simp add: READONLY_COMMANDS_def)
  ultimately show ?thesis
    by (auto simp: reads_only_def simple_strategy_def Let_def lightweight_base_def split: if_splits)
qed

lemma merge_Lightweight: "merge_strategies ss = Lightweight \<longleftrightarrow> ss \<noteq> [] \<and> (\<forall>s \<in> set ss. s = Lightweight)"
  by (auto simp: merge_strategies_def list_ex_iff list_all_iff)



text \<open>
  A chain joined by \<^verbatim>\<open>&&\<close> or \<^verbatim>\<open>;\<close> that writes no file by redirection gets exactly the heaviest
  strategy of its parts, so adding a part never makes the checkpoint lighter than one of them.
\<close>

theorem compound_takes_heaviest:
  assumes "is_compound s" "\<not> has_redirect (strip_safe s)" "sub_cmds s \<noteq> []"
  shows "parse_strategy s = Max (parse_strategy ` set (sub_cmds s))"
proof -
  have ne: "s \<noteq> [] \<and> strip s \<noteq> []"
  proof (rule ccontr)
    assume "\<not> (s \<noteq> [] \<and> strip s \<noteq> [])"
    then have "\<forall>c \<in> set (dropWhile is_space s). is_space c" by (auto simp: strip_def dropWhile_eq_Nil_conv)
    then have sp: "\<forall>c \<in> set s. is_space c"
      by (metis Un_iff set_append set_takeWhileD takeWhile_dropWhile_id)
    have "CHR ''&'' \<in> set s \<or> CHR '';'' \<in> set s"
      using assms(1) unfolding is_compound_def contains_sublist by (auto simp: sublist_def)
    with sp show False by (auto simp: is_space_def)
  qed
  then have "parse_strategy s = merge_strategies (map parse_strategy (sub_cmds s))"
    using assms by (simp add: parse_strategy.simps [of s])
  with assms(3) show ?thesis by (simp add: merge_strategies_max)
qed

theorem compound_takes_heaviest_witness:
  "parse_strategy ''ls ; make ; nohup srv &'' = Predump"
proof -
  have "is_compound ''ls ; make ; nohup srv &''" "\<not> has_redirect (strip_safe ''ls ; make ; nohup srv &'')"
    and s: "sub_cmds ''ls ; make ; nohup srv &'' = [''ls'', ''make'', ''nohup srv &'']" by code_simp+
  then have "parse_strategy ''ls ; make ; nohup srv &''
      = Max (parse_strategy ` set [''ls'', ''make'', ''nohup srv &''])"
    using compound_takes_heaviest [of "''ls ; make ; nohup srv &''"] by simp
  also have "\<dots> = Predump" by code_simp
  finally show ?thesis .
qed

subsection \<open>Tokens\<close>

definition plain_char :: "char \<Rightarrow> bool" where
  "plain_char c \<longleftrightarrow> \<not> lex_space c \<and> \<not> lex_quote c \<and> c \<noteq> backslash"

fun join_words :: "string list \<Rightarrow> string" where
  "join_words [] = []"
| "join_words [w] = w"
| "join_words (w # ws) = w @ '' '' @ join_words ws"

lemma lex_word:
  "list_all plain_char w \<Longrightarrow> lex Word token quoted (w @ rest) = lex Word (token @ w) quoted rest"
  by (induction w arbitrary: token) (auto simp: plain_char_def)

lemma lex_first_word:
  "\<lbrakk>list_all plain_char w; w \<noteq> []\<rbrakk> \<Longrightarrow> lex Blank [] False (w @ rest) = lex Word w False rest"
  by (cases w) (auto simp: lex_word plain_char_def)

text \<open>
  The tokenizer inverts joining by blanks: any sequence of nonempty words without blanks,
  quotes and backslashes is split back into exactly these words.
\<close>

theorem shlex_split_join:
  assumes "\<forall>w \<in> set ws. w \<noteq> [] \<and> list_all plain_char w"
  shows "shlex_split (join_words ws) = Inr ws"
  using assms unfolding shlex_split_def
proof (induction ws rule: join_words.induct)
  case 1
  then show ?case by simp
next
  case (2 w)
  then show ?case using lex_first_word [of w "[]"] by simp
next
  case (3 w v ws)
  then have "lex Blank [] False (join_words (w # v # ws)) = lex Word w False (CHR '' '' # join_words (v # ws))"
    using lex_first_word [of w "CHR '' '' # join_words (v # ws)"] by simp
  also have "\<dots> = andthen (lex Blank [] False (join_words (v # ws))) (\<lambda>ts. Inr (w # ts))"
    using 3 by (simp add: lex_space_def)
  finally show ?case using 3 by simp
qed

theorem shlex_split_join_witness:
  "shlex_split ''sed -i s/a/b/ f.py'' = Inr [''sed'', ''-i'', ''s/a/b/'', ''f.py'']"
  using shlex_split_join [of "[''sed'', ''-i'', ''s/a/b/'', ''f.py'']"]
  by (simp add: plain_char_def lex_space_def lex_quote_def)

text \<open>
  The class comment requires every command that writes a file to be classified as standard. These
  three write files and are lightweight: only the bare option \<^verbatim>\<open>-i\<close> of \<^verbatim>\<open>sed\<close> is recognised, only the
  first command of a pipe is looked at, and \<^verbatim>\<open>find\<close> counts as a reader.
\<close>

lemma writers_classified_lightweight:
  "parse_strategy ''sed -i.bak s/a/b/ f.py'' = Lightweight"
  "parse_strategy ''cat f.py | tee g.py'' = Lightweight"
  "parse_strategy ''find . -name x -delete'' = Lightweight"
  by code_simp+

end
