(* ===== verification/Python_Text.thy ===== *)
theory Python_Text
  imports Paths Semantic_Parser Json_Values
begin

text \<open>
  Texts as Python programs handle them: \<^verbatim>\<open>int\<close> and \<^verbatim>\<open>str\<close> of JSON values, the newline translation of text files, \<^verbatim>\<open>splitlines\<close>,
  \<^verbatim>\<open>count\<close> and \<^verbatim>\<open>replace\<close>, and \<^verbatim>\<open>shlex.quote\<close>.
\<close>

abbreviation (input) LF :: char where "LF \<equiv> CHR 0x0A"
abbreviation (input) CR :: char where "CR \<equiv> CHR 0x0D"

section \<open>Numbers and representations\<close>

text \<open>\<^verbatim>\<open>int(s)\<close>: space around the number, a sign, and single underscores between digits.\<close>

definition split_sign :: "string \<Rightarrow> bool \<times> string" where
  "split_sign t = (case t of c # r \<Rightarrow> if c = CHR ''-'' then (True, r) else if c = CHR ''+'' then (False, r) else (False, t) | [] \<Rightarrow> (False, []))"

definition py_int :: "string \<Rightarrow> int option" where
  "py_int s = (case split_sign (strip s) of (neg, digits) \<Rightarrow>
     if list_all (\<lambda>g. g \<noteq> [] \<and> list_all is_digit g) (split_on (CHR ''_'') digits)
     then Some ((if neg then -1 else 1) * int (dec_val (filter is_digit digits))) else None)"

definition to_int :: "json \<Rightarrow> int result" where
  "to_int j = (case j of
       JInt i \<Rightarrow> Inr i
     | JBool b \<Rightarrow> Inr (if b then 1 else 0)
     | JStr s \<Rightarrow> (case py_int s of Some i \<Rightarrow> Inr i | None \<Rightarrow> Inl (ValueError (''invalid literal for int() with base 10: '' @ py_repr s)))
     | _ \<Rightarrow> Inl (TypeError (''int() argument must be a string, a bytes-like object or a real number, not '' @ py_repr (type_of j))))"

text \<open>\<^verbatim>\<open>float(x)\<close>; which texts denote numbers is an argument.\<close>

definition float_error :: "(string \<Rightarrow> bool) \<Rightarrow> json \<Rightarrow> py_error option" where
  "float_error float_text j = (case j of
       JInt _ \<Rightarrow> None
     | JBool _ \<Rightarrow> None
     | JStr s \<Rightarrow> if float_text s then None else Some (ValueError (''could not convert string to float: '' @ py_repr s))
     | _ \<Rightarrow> Some (TypeError (''float() argument must be a string or a real number, not '' @ py_repr (type_of j))))"

text \<open>\<^verbatim>\<open>str(i)\<close>, \<^verbatim>\<open>repr(x)\<close> and \<^verbatim>\<open>str(x)\<close>.\<close>

definition int_str :: "int \<Rightarrow> string" where
  "int_str i = (if i < 0 then CHR ''-'' # dec (nat (- i)) else dec (nat i))"

fun join_with :: "string \<Rightarrow> string list \<Rightarrow> string" where
  "join_with sep [] = []"
| "join_with sep [x] = x"
| "join_with sep (x # y # xs) = x @ sep @ join_with sep (y # xs)"

fun json_repr :: "json \<Rightarrow> string" where
  "json_repr JNull = ''None''"
| "json_repr (JBool b) = (if b then ''True'' else ''False'')"
| "json_repr (JInt i) = int_str i"
| "json_repr (JStr s) = py_repr s"
| "json_repr (JList xs) = ''['' @ join_with '', '' (map json_repr xs) @ '']''"
| "json_repr (JObj d) = ''{'' @ join_with '', '' (map (\<lambda>(k, v). py_repr k @ '': '' @ json_repr v) d) @ ''}''"

definition json_str :: "json \<Rightarrow> string" where
  "json_str j = (case j of JStr s \<Rightarrow> s | _ \<Rightarrow> json_repr j)"

text \<open>\<^verbatim>\<open>x == y\<close>: \<^verbatim>\<open>True\<close> equals 1, and the order of a dictionary does not count.\<close>

function py_eq :: "json \<Rightarrow> json \<Rightarrow> bool" where
  "py_eq JNull y = (y = JNull)"
| "py_eq (JBool b) y = (case y of JBool c \<Rightarrow> b = c | JInt i \<Rightarrow> i = (if b then 1 else 0) | _ \<Rightarrow> False)"
| "py_eq (JInt i) y = (case y of JInt k \<Rightarrow> i = k | JBool b \<Rightarrow> i = (if b then 1 else 0) | _ \<Rightarrow> False)"
| "py_eq (JStr s) y = (y = JStr s)"
| "py_eq (JList xs) y = (case y of JList ys \<Rightarrow> length xs = length ys \<and> list_all (\<lambda>(x, y). py_eq x y) (zip xs ys) | _ \<Rightarrow> False)"
| "py_eq (JObj d) y = (case y of JObj d' \<Rightarrow> length d = length d'
     \<and> list_all (\<lambda>(k, v). case map_of d' k of Some v' \<Rightarrow> py_eq v v' | None \<Rightarrow> False) d | _ \<Rightarrow> False)"
  by pat_completeness auto
termination
proof (relation "measure (size \<circ> fst)", goal_cases)
  case (2 xs y ys z x w)
  then have "x \<in> set xs" by (auto dest: set_zip_leftD)
  then show ?case by (simp add: size_list_estimation' [OF _ order_refl] less_Suc_eq_le)
next
  case (3 d y d' z k v v')
  then have "size_prod (\<lambda>_. 0) size (k, v) \<le> size_list (size_prod (\<lambda>_. 0) size) d" by (intro size_list_estimation') auto
  then show ?case by simp
qed simp

section \<open>Lines\<close>

text \<open>Reading a text file translates every line end to a line feed.\<close>

fun universal :: "string \<Rightarrow> string" where
  "universal [] = []"
| "universal [c] = [if c = CR then LF else c]"
| "universal (c # d # s) = (if c = CR then (if d = LF then LF # universal s else LF # universal (d # s)) else c # universal (d # s))"

lemma universal_no_CR: "CR \<notin> set (universal s)"
  by (induction s rule: universal.induct) auto

lemma universal_id: "CR \<notin> set s \<Longrightarrow> universal s = s"
  by (induction s rule: universal.induct) auto

definition breaks_line :: "char \<Rightarrow> bool" where
  "breaks_line c \<longleftrightarrow> (of_char c :: nat) \<in> {10, 11, 12, 13, 28, 29, 30, 133}"

text \<open>\<^verbatim>\<open>s.splitlines(keepends=True)\<close>, with the line read so far, and \<^verbatim>\<open>s.splitlines()\<close>.\<close>

fun split_keep :: "string \<Rightarrow> string \<Rightarrow> string list" where
  "split_keep cur [] = (if cur = [] then [] else [cur])"
| "split_keep cur [c] = [cur @ [c]]"
| "split_keep cur (c # d # s) =
     (if c = CR \<and> d = LF then (cur @ [c, d]) # split_keep [] s
      else if breaks_line c then (cur @ [c]) # split_keep [] (d # s)
      else split_keep (cur @ [c]) (d # s))"

definition lines_keep :: "string \<Rightarrow> string list" where
  "lines_keep s = split_keep [] s"

definition chomp :: "string \<Rightarrow> string" where
  "chomp l = (if suffix [CR, LF] l then take (length l - 2) l else if l \<noteq> [] \<and> breaks_line (last l) then butlast l else l)"

definition text_lines :: "string \<Rightarrow> string list" where
  "text_lines s = map chomp (lines_keep s)"

lemma concat_split_keep: "concat (split_keep cur s) = cur @ s"
  by (induction cur s rule: split_keep.induct) auto

lemma concat_lines_keep [simp]: "concat (lines_keep s) = s"
  by (simp add: lines_keep_def concat_split_keep)

text \<open>\<^verbatim>\<open>os.read(fd, 65536)\<close>; the second form computes with binary numbers.\<close>

definition chunk_of :: "string \<Rightarrow> string" where
  "chunk_of s = take 65536 s"

lemma chunk_of_code [code]: "chunk_of s = (if int (length s) \<le> 65536 then s else take 65536 s)"
  by (simp add: chunk_of_def)

section \<open>Occurrences\<close>

text \<open>\<^verbatim>\<open>s.count(pat)\<close> counts from the left without overlaps.\<close>

function count_occ :: "string \<Rightarrow> string \<Rightarrow> nat" where
  "count_occ pat [] = 0"
| "count_occ pat (c # s) = (if prefix pat (c # s) then Suc (count_occ pat (drop (length pat - 1) s)) else count_occ pat s)"
  by pat_completeness auto
termination by (relation "measure (\<lambda>(pat, s). length s)") auto

definition text_count :: "string \<Rightarrow> string \<Rightarrow> nat" where
  "text_count pat s = (if pat = [] then Suc (length s) else count_occ pat s)"

text \<open>\<^verbatim>\<open>s.replace(old, new, 1)\<close>.\<close>

fun replace_first :: "string \<Rightarrow> string \<Rightarrow> string \<Rightarrow> string" where
  "replace_first old new [] = (if old = [] then new else [])"
| "replace_first old new (c # s) = (if prefix old (c # s) then new @ drop (length old) (c # s) else c # replace_first old new s)"

lemma count_occ_split:
  "\<lbrakk>count_occ pat s = Suc n; pat \<noteq> []\<rbrakk> \<Longrightarrow> \<exists>pre post. s = pre @ pat @ post \<and> count_occ pat post = n
    \<and> (\<forall>k < length pre. \<not> prefix pat (drop k s)) \<and> (\<forall>new. replace_first pat new s = pre @ new @ post)"
proof (induction pat s rule: count_occ.induct)
  case (1 pat)
  then show ?case by simp
next
  case (2 pat c s)
  show ?case
  proof (cases "prefix pat (c # s)")
    case True
    then obtain post where post: "c # s = pat @ post" by (auto simp: prefix_def)
    have "drop (length pat - 1) s = drop (length pat) (c # s)" using 2(4) by (cases pat) auto
    then have d: "drop (length pat - 1) s = post" "drop (length pat) (c # s) = post" by (simp_all add: post)
    show ?thesis using 2(3) True d(1) by (intro exI [of _ "[]"] exI [of _ post]) (simp add: post [symmetric] True, simp add: post)
  next
    case False
    from 2(2) [OF False] 2(3,4) False obtain pre post where s: "s = pre @ pat @ post" "count_occ pat post = n"
      "\<forall>k < length pre. \<not> prefix pat (drop k s)" "\<forall>new. replace_first pat new s = pre @ new @ post" by auto
    then show ?thesis using False by (intro exI [of _ "c # pre"] exI [of _ post]) (auto simp: less_Suc_eq_0_disj)
  qed
qed

lemma count_occ_zero: "\<lbrakk>count_occ pat s = 0; pat \<noteq> []\<rbrakk> \<Longrightarrow> \<not> sublist pat s"
proof (induction pat s rule: count_occ.induct)
  case (2 pat c s)
  then show ?case by (auto simp: sublist_Cons_right split: if_splits)
qed simp

section \<open>Quoting for the shell\<close>

definition safe_char :: "char \<Rightarrow> bool" where
  "safe_char c \<longleftrightarrow> (let n = of_char c :: nat in (48 \<le> n \<and> n \<le> 57) \<or> (65 \<le> n \<and> n \<le> 90) \<or> (97 \<le> n \<and> n \<le> 122)) \<or> c \<in> set ''@%+=:,./_-''"

definition shlex_quote :: "string \<Rightarrow> string" where
  "shlex_quote s =
     (if s = [] then [CHR 0x27, CHR 0x27]
      else if list_all safe_char s then s
      else CHR 0x27 # concat (map (\<lambda>c. if c = CHR 0x27 then [CHR 0x27, CHR 0x22, CHR 0x27, CHR 0x22, CHR 0x27] else [c]) s) @ [CHR 0x27])"

text \<open>A quoted text is one word of a command line, and the text itself.\<close>

lemma lex_quoted:
  "lex (Quote (CHR 0x27)) token q (concat (map (\<lambda>c. if c = CHR 0x27 then [CHR 0x27, CHR 0x22, CHR 0x27, CHR 0x22, CHR 0x27] else [c]) s) @ CHR 0x27 # rest)
    = lex Word (token @ s) True rest"
  by (induction s arbitrary: token q) (simp_all add: lex_quote_def lex_space_def)

lemma lex_safe: "\<lbrakk>list_all safe_char s; token \<noteq> []\<rbrakk> \<Longrightarrow> lex Word token False s = Inr [token @ s]"
proof (induction s arbitrary: token)
  case (Cons c s)
  have "\<not> lex_space c" "\<not> lex_quote c" "c \<noteq> backslash" using Cons.prems by (auto simp: safe_char_def lex_space_def lex_quote_def Let_def)
  then show ?case using Cons by simp
qed simp

lemma shlex_quote_split: "shlex_split (shlex_quote s) = Inr [s]"
proof (cases s)
  case Nil
  then show ?thesis by (simp add: shlex_quote_def shlex_split_def lex_space_def lex_quote_def)
next
  case (Cons c r)
  show ?thesis
  proof (cases "list_all safe_char s")
    case True
    then have "\<not> lex_space c" "\<not> lex_quote c" "c \<noteq> backslash" using Cons by (auto simp: safe_char_def lex_space_def lex_quote_def Let_def)
    then show ?thesis using True Cons lex_safe [of r "[c]"] by (simp add: shlex_quote_def shlex_split_def)
  next
    case False
    have "s \<noteq> []" using Cons by simp
    then show ?thesis using False lex_quoted [of "[]" False s "[]"]
      by (simp only: shlex_quote_def shlex_split_def if_False) (simp add: lex_space_def lex_quote_def)
  qed
qed

end
