(* ===== verification/Repo_Files.thy ===== *)
theory Repo_Files
  imports Python_Text
begin

text \<open>
  The file system as the actions of the worker see it: regular files with their text, folders and symbolic links, at absolute paths. A
  path is its list of components, the root folder the empty list. A file holds the text that its bytes decode to as UTF-8. The operations are those of
  \<^verbatim>\<open>pathlib.Path\<close> that \<^verbatim>\<open>worker_actions.py\<close> uses; \<^verbatim>\<open>resolve\<close> raises on a loop of links, as documented up to Python 3.12.
\<close>

type_synonym fpath = "string list"

datatype node = Reg string | Folder | Link string

type_synonym file_tree = "(fpath \<times> node) list"

definition lookup :: "file_tree \<Rightarrow> fpath \<Rightarrow> node option" where
  "lookup fs p = (if p = [] then Some Folder else map_of fs p)"

definition link_at :: "file_tree \<Rightarrow> fpath \<Rightarrow> string option" where
  "link_at fs p = (case lookup fs p of Some (Link t) \<Rightarrow> Some t | _ \<Rightarrow> None)"

section \<open>Resolving links\<close>

text \<open>The components that are still to be followed, and marks where the target of a link ends.\<close>

datatype todo = Name string | Mark fpath

definition loop_error :: py_error where
  "loop_error = RuntimeError ''Symlink loop''"

definition unseen :: "file_tree \<Rightarrow> (fpath \<times> fpath option) list \<Rightarrow> fpath set" where
  "unseen fs seen = {p. link_at fs p \<noteq> None} - fst ` set seen"

lemma finite_unseen: "finite (unseen fs seen)"
proof -
  have "{p. link_at fs p \<noteq> None} \<subseteq> fst ` set fs"
    by (auto simp: link_at_def lookup_def split: option.splits if_splits dest!: map_of_SomeD intro: rev_image_eqI)
  then show ?thesis by (simp add: unseen_def finite_subset)
qed

lemma unseen_mark: "card (unseen fs (AList.update l v seen)) \<le> card (unseen fs seen)"
  using finite_unseen by (intro card_mono) (auto simp: unseen_def keys_update)

lemma unseen_link: "\<lbrakk>link_at fs p = Some t; map_of seen p = None\<rbrakk> \<Longrightarrow> card (unseen fs (AList.update p v seen)) < card (unseen fs seen)"
  using finite_unseen by (intro psubset_card_mono) (auto simp: unseen_def keys_update map_of_eq_None_iff)

function resolve_loop :: "file_tree \<Rightarrow> (fpath \<times> fpath option) list \<Rightarrow> fpath \<Rightarrow> todo list \<Rightarrow> fpath result" where
  "resolve_loop fs seen path [] = Inr path"
| "resolve_loop fs seen path (Mark l # rest) = resolve_loop fs (AList.update l (Some path) seen) path rest"
| "resolve_loop fs seen path (Name c # rest) =
     (if c = [] \<or> c = ''.'' then resolve_loop fs seen path rest
      else if c = ''..'' then resolve_loop fs seen (butlast path) rest
      else let newpath = path @ [c] in
        case link_at fs newpath of
          None \<Rightarrow> resolve_loop fs seen newpath rest
        | Some target \<Rightarrow> (case map_of seen newpath of
              Some (Some p) \<Rightarrow> resolve_loop fs seen p rest
            | Some None \<Rightarrow> Inl loop_error
            | None \<Rightarrow> resolve_loop fs (AList.update newpath None seen) (if prefix ''/'' target then [] else path)
                (map Name (split_on (CHR ''/'') target) @ Mark newpath # rest)))"
  by pat_completeness auto
termination
proof (relation "measures [\<lambda>(fs, seen, path, rest). card (unseen fs seen), \<lambda>(fs, seen, path, rest). length rest]", goal_cases)
  case (2 fs seen path l rest)
  then show ?case using unseen_mark [of fs l "Some path" seen] by auto
qed (use unseen_link in \<open>auto\<close>)

declare resolve_loop.simps [simp del]

definition resolve :: "file_tree \<Rightarrow> string \<Rightarrow> fpath result" where
  "resolve fs p = resolve_loop fs [] [] (map Name (split_on (CHR ''/'') p))"

text \<open>A path on which nothing is a link.\<close>

definition plain :: "file_tree \<Rightarrow> fpath \<Rightarrow> bool" where
  "plain fs p \<longleftrightarrow> (\<forall>q. prefix q p \<longrightarrow> link_at fs q = None)"

lemma plain_Nil [simp]: "plain fs []"
  by (simp add: plain_def link_at_def lookup_def)

lemma plain_snoc: "plain fs (p @ [c]) \<longleftrightarrow> plain fs p \<and> link_at fs (p @ [c]) = None"
  by (auto simp: plain_def)

lemma plain_butlast: "plain fs p \<Longrightarrow> plain fs (butlast p)"
  by (cases p rule: rev_cases) (simp_all add: plain_snoc)

definition names_ok :: "fpath \<Rightarrow> bool" where
  "names_ok p \<longleftrightarrow> (\<forall>c \<in> set p. c \<noteq> [] \<and> c \<noteq> ''.'' \<and> c \<noteq> ''..'' \<and> CHR ''/'' \<notin> set c)"

definition todo_ok :: "todo list \<Rightarrow> bool" where
  "todo_ok rest \<longleftrightarrow> (\<forall>c. Name c \<in> set rest \<longrightarrow> CHR ''/'' \<notin> set c)"

lemma resolve_loop_plain:
  assumes "resolve_loop fs seen path rest = Inr p" "plain fs path" "names_ok path" "todo_ok rest"
    and "\<forall>l q. map_of seen l = Some (Some q) \<longrightarrow> plain fs q \<and> names_ok q"
  shows "plain fs p \<and> names_ok p"
  using assms
proof (induction fs seen path rest rule: resolve_loop.induct)
  case (1 fs seen path)
  then show ?case by (simp add: resolve_loop.simps)
next
  case (2 fs seen path l rest)
  show ?case by (rule 2(1)) (use 2(2-) in \<open>auto simp: resolve_loop.simps todo_ok_def update_conv'\<close>)
next
  case (3 fs seen path c rest)
  have rest: "todo_ok rest" using 3(9) by (simp add: todo_ok_def)
  consider "c = [] \<or> c = ''.''" | "c = ''..''" | "c \<noteq> []" "c \<noteq> ''.''" "c \<noteq> ''..''" by blast
  then show ?case
  proof cases
    case 1
    then show ?thesis using 3(1) 3(6-) rest by (simp add: resolve_loop.simps(3))
  next
    case 2
    have "names_ok (butlast path)" using 3(8) by (auto simp: names_ok_def dest: in_set_butlastD)
    then show ?thesis using 2 3(2) 3(6-) rest by (simp add: resolve_loop.simps(3) plain_butlast)
  next
    case a: 3
    have c: "names_ok (path @ [c])" using a 3(8,9) by (simp add: names_ok_def todo_ok_def)
    note step = 3(6) [unfolded resolve_loop.simps(3) Let_def]
    show ?thesis
    proof (cases "link_at fs (path @ [c])")
      case None
      then show ?thesis using 3(3) [OF _ _ refl] a c 3(7,10) rest step by (simp add: plain_snoc)
    next
      case (Some target)
      show ?thesis
      proof (cases "map_of seen (path @ [c])")
        case None
        have "todo_ok (map Name (split_on (CHR ''/'') target) @ Mark (path @ [c]) # rest)"
          using rest by (auto simp: todo_ok_def dest: split_on_no_sep)
        moreover have "plain fs (if prefix ''/'' target then [] else path)" "names_ok (if prefix ''/'' target then [] else path)"
          using 3(7,8) by (auto simp: names_ok_def)
        ultimately show ?thesis using 3(4) [OF _ _ refl Some None] a Some None step 3(10) by (auto simp: update_conv')
      next
        case s: (Some r)
        then show ?thesis using 3(5) [OF _ _ refl Some s] a Some s step 3(10) rest by (cases r) auto
      qed
    qed
  qed
qed

lemma resolve_plain: "resolve fs p = Inr q \<Longrightarrow> plain fs q \<and> names_ok q"
  by (rule resolve_loop_plain [of fs "[]" "[]" "map Name (split_on (CHR ''/'') p)"])
    (auto simp: resolve_def todo_ok_def names_ok_def dest: split_on_no_sep)

section \<open>Operations\<close>

text \<open>What a failing system call reports: its number, its text and the path.\<close>

definition errno :: "string \<Rightarrow> fpath \<Rightarrow> string" where
  "errno what p = ''[Errno '' @ what @ '': '' @ py_repr (abs_of p)"

definition read_text :: "file_tree \<Rightarrow> fpath \<Rightarrow> string result" where
  "read_text fs p = (case lookup fs p of
       Some (Reg s) \<Rightarrow> Inr (universal s)
     | Some Folder \<Rightarrow> Inl (IsADirectoryError (errno ''21] Is a directory'' p))
     | _ \<Rightarrow> Inl (FileNotFoundError (errno ''2] No such file or directory'' p)))"

text \<open>What the disk does with a write: the file may be truncated already when the writing fails.\<close>

datatype disk = Disk_ok | Open_fails py_error | Write_fails string py_error

definition write_text :: "disk \<Rightarrow> fpath \<Rightarrow> string \<Rightarrow> file_tree \<Rightarrow> (unit, file_tree) eff" where
  "write_text d p s fs =
     (if lookup fs p = Some Folder then (Inl (IsADirectoryError (errno ''21] Is a directory'' p)), fs)
      else case lookup fs (butlast p) of
          Some Folder \<Rightarrow> (case d of
              Disk_ok \<Rightarrow> (Inr (), AList.update p (Reg s) fs)
            | Open_fails e \<Rightarrow> (Inl e, fs)
            | Write_fails t e \<Rightarrow> (Inl e, AList.update p (Reg t) fs))
        | Some (Reg _) \<Rightarrow> (Inl (NotADirectoryError (errno ''20] Not a directory'' p)), fs)
        | _ \<Rightarrow> (Inl (FileNotFoundError (errno ''2] No such file or directory'' p)), fs))"

text \<open>\<^verbatim>\<open>p.mkdir(parents=True, exist_ok=True)\<close>.\<close>

function mkdirs :: "fpath \<Rightarrow> file_tree \<Rightarrow> (unit, file_tree) eff" where
  "mkdirs p fs =
     (case lookup fs p of
        Some Folder \<Rightarrow> (Inr (), fs)
      | Some _ \<Rightarrow> (Inl (FileExistsError (errno ''17] File exists'' p)), fs)
      | None \<Rightarrow> (case lookup fs (butlast p) of
            Some Folder \<Rightarrow> (Inr (), AList.update p Folder fs)
          | Some _ \<Rightarrow> (Inl (NotADirectoryError (errno ''20] Not a directory'' p)), fs)
          | None \<Rightarrow> bind_eff (mkdirs (butlast p) fs) (\<lambda>_ fs. (Inr (), AList.update p Folder fs))))"
  by pat_completeness auto
termination
proof (relation "measure (\<lambda>(p, fs). length p)", goal_cases)
  case (2 p fs)
  then have "p \<noteq> []" by (auto simp: lookup_def)
  then show ?case by simp
qed simp

declare mkdirs.simps [simp del]

section \<open>Well-formed trees\<close>

text \<open>Whatever exists lies in a folder.\<close>

definition fs_ok :: "file_tree \<Rightarrow> bool" where
  "fs_ok fs \<longleftrightarrow> (\<forall>(p, n) \<in> set fs. p \<noteq> [] \<and> lookup fs (butlast p) = Some Folder)"

lemma fs_okD: "\<lbrakk>fs_ok fs; lookup fs p = Some n; p \<noteq> []\<rbrakk> \<Longrightarrow> lookup fs (butlast p) = Some Folder"
  by (fastforce simp: fs_ok_def lookup_def dest: map_of_SomeD)

lemma lookup_Nil [simp]: "lookup fs [] = Some Folder"
  by (simp add: lookup_def)

lemma lookup_update: "p \<noteq> [] \<Longrightarrow> lookup (AList.update p n fs) q = (if q = p then Some n else lookup fs q)"
  by (simp add: lookup_def update_conv')

lemma fs_ok_iff: "fs_ok fs \<longleftrightarrow> (\<forall>p \<in> fst ` set fs. p \<noteq> [] \<and> lookup fs (butlast p) = Some Folder)"
  by (force simp: fs_ok_def)

lemma fs_ok_update:
  assumes "fs_ok fs" "p \<noteq> []" "lookup fs (butlast p) = Some Folder" "lookup fs p = Some Folder \<longrightarrow> n = Folder"
  shows "fs_ok (AList.update p n fs)"
proof -
  have "butlast p \<noteq> p" using assms(2) by (metis append_butlast_last_id append_self_conv list.distinct(1))
  then show ?thesis using assms by (auto simp: fs_ok_iff keys_update lookup_update)
qed

text \<open>Folders above a node, up to the root.\<close>

lemma above_folder: "\<lbrakk>fs_ok fs; lookup fs (p @ q) = Some n; q \<noteq> []\<rbrakk> \<Longrightarrow> lookup fs p = Some Folder"
proof (induction q arbitrary: n rule: rev_induct)
  case (snoc c q)
  have "lookup fs (p @ q) = Some Folder" using fs_okD [OF snoc.prems(1,2)] by (simp add: butlast_append)
  then show ?case using snoc.IH [OF snoc.prems(1)] by (cases "q = []") auto
qed simp

text \<open>
  What an operation may do below a folder: the tree stays well-formed, nothing outside the folder changes, and no link appears or
  disappears.
\<close>

definition inside :: "fpath \<Rightarrow> file_tree \<Rightarrow> file_tree \<Rightarrow> bool" where
  "inside r fs fs' \<longleftrightarrow> fs_ok fs' \<and> (\<forall>q. \<not> strict_prefix r q \<longrightarrow> lookup fs' q = lookup fs q) \<and> (\<forall>q. link_at fs' q = link_at fs q)"

lemma within_refl: "fs_ok fs \<Longrightarrow> inside r fs fs"
  by (simp add: inside_def)

lemma within_trans: "\<lbrakk>inside r fs1 fs2; inside r fs2 fs3\<rbrakk> \<Longrightarrow> inside r fs1 fs3"
  by (simp add: inside_def)

lemma within_ok: "inside r fs fs' \<Longrightarrow> fs_ok fs'"
  by (simp add: inside_def)

lemma within_update:
  assumes "fs_ok fs" "lookup fs (butlast p) = Some Folder" "lookup fs p = Some Folder \<longrightarrow> n = Folder" "strict_prefix r p"
    "link_at fs p = None" "\<forall>t. n \<noteq> Link t"
  shows "inside r fs (AList.update p n fs)"
proof -
  have "p \<noteq> []" using assms(4) by auto
  then show ?thesis using assms fs_ok_update [OF assms(1) _ assms(2,3)]
    by (auto simp: inside_def lookup_update link_at_def split: node.splits)
qed

lemma write_text_within:
  assumes "fs_ok fs" "strict_prefix r p" "plain fs p" "write_text d p s fs = (x, fs')"
  shows "inside r fs fs'" "x = Inr () \<Longrightarrow> lookup fs' p = Some (Reg s)"
    "\<And>q. q \<noteq> p \<Longrightarrow> lookup fs' q = lookup fs q"
proof -
  have p: "p \<noteq> []" "link_at fs p = None" using assms(2,3) by (auto simp: plain_def)
  show "inside r fs fs'" using assms p(2)
    by (auto simp: write_text_def within_refl intro!: within_update split: if_splits option.splits node.splits disk.splits)
  show "x = Inr () \<Longrightarrow> lookup fs' p = Some (Reg s)" "\<And>q. q \<noteq> p \<Longrightarrow> lookup fs' q = lookup fs q" using assms(4) p(1)
    by (auto simp: write_text_def lookup_update split: if_splits option.splits node.splits disk.splits)
qed

lemma mkdirs_within:
  "\<lbrakk>mkdirs p fs = (x, fs'); fs_ok fs; prefix r p; plain fs p; lookup fs r = Some Folder\<rbrakk>
    \<Longrightarrow> inside r fs fs' \<and> (x = Inr () \<longrightarrow> lookup fs' p = Some Folder) \<and> (\<forall>q. \<not> prefix q p \<longrightarrow> lookup fs' q = lookup fs q)"
proof (induction p fs arbitrary: x fs' rule: mkdirs.induct)
  case (1 p fs)
  consider (there) n where "lookup fs p = Some n" | (parent) n where "lookup fs p = None" "lookup fs (butlast p) = Some n"
    | (up) "lookup fs p = None" "lookup fs (butlast p) = None" by fastforce
  then show ?case
  proof cases
    case there
    then show ?thesis using "1.prems" by (cases n) (auto simp: mkdirs.simps [of p] within_refl)
  next
    case parent
    have sp: "strict_prefix r p" using parent(1) "1.prems"(3,5) by (auto simp: strict_prefix_def)
    have "p \<noteq> []" using parent(1) by auto
    moreover have "inside r fs (AList.update p Folder fs)" if "n = Folder"
      using within_update [of fs p Folder r] parent that sp "1.prems"(2,4) by (auto simp: plain_def)
    ultimately show ?thesis using "1.prems"(1,2) parent by (cases n) (auto simp: mkdirs.simps [of p] within_refl lookup_update)
  next
    case up
    have ne: "p \<noteq> []" using up(1) by auto
    have sp: "strict_prefix r p" using up(1) "1.prems"(3,5) by (auto simp: strict_prefix_def)
    then have rb: "prefix r (butlast p)" using ne by (metis append_butlast_last_id prefix_order.less_le prefix_snoc)
    obtain y fs1 where y: "mkdirs (butlast p) fs = (y, fs1)" by fastforce
    have bp: "prefix (butlast p) p" by (metis append_butlast_last_id ne prefixI)
    note IH = "1.IH" [OF up y "1.prems"(2) rb plain_butlast [OF "1.prems"(4)] "1.prems"(5)]
    show ?thesis
    proof (cases y)
      case (Inl e)
      then show ?thesis using "1.prems"(1) up y IH bp by (auto simp: mkdirs.simps [of p] dest: prefix_order.trans)
    next
      case (Inr u)
      have l: "link_at fs1 p = None" "lookup fs1 p = None"
      proof -
        have "\<not> prefix p (butlast p)" using ne by (metis bp butlast.simps(1) prefix_order.antisym append_butlast_last_id append_self_conv list.distinct(1))
        then show "lookup fs1 p = None" using IH up(1) by auto
        then show "link_at fs1 p = None" by (simp add: link_at_def)
      qed
      then have w: "inside r fs1 (AList.update p Folder fs1)"
        using IH Inr sp by (intro within_update) (auto dest: within_ok)
      have "x = Inr ()" "fs' = AList.update p Folder fs1" using "1.prems"(1) up y Inr by (simp_all add: mkdirs.simps [of p])
      then show ?thesis using w IH ne bp by (auto simp: lookup_update intro: within_trans dest: prefix_order.trans)
    qed
  qed
qed

end
