(* ===== verification/Worker_Actions.thy ===== *)
theory Worker_Actions
  imports Repo_Files
begin

text \<open>
  The actions of the worker in the sandbox, \<^verbatim>\<open>agent/worker/worker_actions.py\<close>, and their dispatch in \<^verbatim>\<open>agent/worker/agent_worker.py\<close>. An action
  gets the arguments that the model chose, a JSON object of any shape, and returns a message and whether the task is finished; exceptions
  become messages in \<^verbatim>\<open>_execute_action\<close>. (The dash of one message is written as a hyphen.) Regular expressions, glob patterns, \<^verbatim>\<open>git\<close>, the shell and the disk are arguments. The path of the repository is absolute.
\<close>

datatype proc_answer = Done int string string | Timed_out | Raised py_error

record action_env =
  repo_path :: string
  disk :: disk
  git_diff :: "file_tree \<Rightarrow> proc_answer"
  git_apply :: "string \<Rightarrow> file_tree \<Rightarrow> proc_answer \<times> file_tree"
  run_bash :: "string \<Rightarrow> file_tree \<Rightarrow> proc_answer \<times> file_tree"
  float_text :: "string \<Rightarrow> bool"
  re_error :: "string \<Rightarrow> string option"
  re_search :: "string \<Rightarrow> string \<Rightarrow> bool"
  re_subn :: "string \<Rightarrow> json \<Rightarrow> nat \<Rightarrow> string \<Rightarrow> (string \<times> nat) result"
  fn_match :: "string \<Rightarrow> string \<Rightarrow> bool"
  path_glob :: "string \<Rightarrow> file_tree \<Rightarrow> fpath list result"

type_synonym answer = "string \<times> bool"

definition SKIP_DIRS :: "string list" where
  "SKIP_DIRS = [''.git'', ''.venv'', ''__pycache__'', ''.tox'', ''.nox'', ''node_modules'', ''locale'', ''translations'',
     ''docs'', ''doc'', ''build'', ''dist'']"

definition DEFAULT_VIEW_LINES :: int where
  "DEFAULT_VIEW_LINES = 80"

definition MAX_VIEW_LINES :: int where
  "MAX_VIEW_LINES = 140"

section \<open>Paths of the repository\<close>

definition remove_prefix :: "string \<Rightarrow> string \<Rightarrow> string" where
  "remove_prefix p s = (if prefix p s then drop (length p) s else s)"

definition need_str :: "string \<Rightarrow> json \<Rightarrow> string result" where
  "need_str method j = (case j of JStr s \<Rightarrow> Inr s | _ \<Rightarrow> Inl (AttributeError (py_repr (type_of j) @ '' object has no attribute '' @ py_repr method)))"

definition safe_path :: "action_env \<Rightarrow> file_tree \<Rightarrow> json \<Rightarrow> fpath result" where
  "safe_path env fs j = andthen (need_str ''removeprefix'' (por j (JStr []))) (\<lambda>s.
     let path = dropWhile (\<lambda>c. c = CHR ''/'') (remove_prefix ''repo/'' (remove_prefix ''/repo/'' s)) in
     andthen (resolve fs (path_join (repo_path env) path)) (\<lambda>full.
     andthen (resolve fs (repo_path env)) (\<lambda>root_resolved.
     if full \<noteq> root_resolved \<and> \<not> strict_prefix root_resolved full then Inl (ValueError (''path escapes repository root: '' @ path))
     else Inr full)))"

text \<open>The parts and the text of the \<^verbatim>\<open>Path\<close> of the repository, which is not resolved.\<close>

definition root_parts :: "action_env \<Rightarrow> fpath" where
  "root_parts env = filter (\<lambda>c. c \<noteq> [] \<and> c \<noteq> ''.'') (split_on (CHR ''/'') (repo_path env))"

definition is_hidden_or_skipped :: "action_env \<Rightarrow> bool \<Rightarrow> fpath \<Rightarrow> bool" where
  "is_hidden_or_skipped env show_hidden p =
     (if prefix (root_parts env) p
      then list_ex (\<lambda>part. part \<in> set SKIP_DIRS \<or> (\<not> show_hidden \<and> prefix ''.'' part)) (drop (length (root_parts env)) p)
      else True)"

definition rel_to :: "fpath \<Rightarrow> fpath \<Rightarrow> string result" where
  "rel_to base p = (if prefix base p then Inr (if p = base then ''.'' else join_on (CHR ''/'') (drop (length base) p))
     else Inl (ValueError (py_repr (abs_of p) @ '' is not in the subpath of '' @ py_repr (abs_of base))))"

definition run_git_diff :: "action_env \<Rightarrow> file_tree \<Rightarrow> string" where
  "run_git_diff env fs = (case git_diff env fs of
       Done _ out err \<Rightarrow> out @ err
     | Timed_out \<Rightarrow> ''(git diff unavailable: Command timed out after 20 seconds)''
     | Raised e \<Rightarrow> ''(git diff unavailable: '' @ err_msg e @ '')'')"

section \<open>Reading\<close>

text \<open>\<^verbatim>\<open>f"{i:6}\t{line}"\<close>.\<close>

definition numbered :: "int \<Rightarrow> string \<Rightarrow> string" where
  "numbered i line = replicate (6 - length (int_str i)) (CHR '' '') @ int_str i @ CHR 0x09 # line"

definition window_bounds :: "nat \<Rightarrow> json \<Rightarrow> json \<Rightarrow> (int \<times> int) result" where
  "window_bounds n start stop =
     andthen (if start = JNull \<and> stop = JNull then Inr (1, min (int n) DEFAULT_VIEW_LINES)
       else andthen (to_int (por start (JInt 1))) (\<lambda>s. let lo = max 1 s in
         andthen (to_int (por stop (JInt lo))) (\<lambda>e. Inr (lo, min (int n) e)))) (\<lambda>(lo, hi).
     Inr (lo, if hi - lo + 1 > MAX_VIEW_LINES then lo + MAX_VIEW_LINES - 1 else hi))"

definition shown_lines :: "string list \<Rightarrow> int \<Rightarrow> int \<Rightarrow> string list result" where
  "shown_lines lines lo hi = (if lines = [] then Inr [] else map_result (\<lambda>i.
     if nat (i - 1) < length lines then Inr (numbered i (lines ! nat (i - 1))) else Inl (IndexError ''list index out of range'')) [lo..max lo hi])"

definition line_window :: "string \<Rightarrow> json \<Rightarrow> json \<Rightarrow> (string list \<times> string) result" where
  "line_window s start stop =
     (let lines = text_lines s in
      andthen (window_bounds (length lines) start stop) (\<lambda>(lo, hi).
      andthen (shown_lines lines lo hi) (\<lambda>shown.
      Inr (shown, if int (length lines) > hi then LF # ''... truncated at line '' @ int_str hi @ '' of '' @ dec (length lines)
        @ ''. Call ViewCode with start_line/end_line, or grep -n to find the region.'' else []))))"

definition not_found :: "dict \<Rightarrow> answer" where
  "not_found a = (''File not found: '' @ json_str (jget a ''path''), False)"

definition view_code :: "action_env \<Rightarrow> dict \<Rightarrow> file_tree \<Rightarrow> (answer, file_tree) eff" where
  "view_code env a fs =
     (andthen (safe_path env fs (jget_or a ''path'' (JStr []))) (\<lambda>full.
        case lookup fs full of
          None \<Rightarrow> Inr (not_found a)
        | Some (Reg _) \<Rightarrow>
            andthen (read_text fs full) (\<lambda>s.
            andthen (line_window s (jget a ''start_line'') (jget a ''end_line'')) (\<lambda>(shown, suffix).
            Inr (json_str (jget a ''path'') @ LF # ''```'' @ LF # join_with [LF] shown @ suffix @ LF # ''```'', False)))
        | Some _ \<Rightarrow> Inr (''Path is not a file: '' @ json_str (jget a ''path''), False)), fs)"

definition view_diff :: "action_env \<Rightarrow> dict \<Rightarrow> file_tree \<Rightarrow> (answer, file_tree) eff" where
  "view_diff env a fs =
     (let diff = run_git_diff env fs in
      (Inr (if strip diff = [] then ''No changes detected in the workspace.'' else ''Current changes:'' @ LF # take 6000 diff, False), fs))"

text \<open>What is at a path, following links.\<close>

definition kind :: "file_tree \<Rightarrow> fpath \<Rightarrow> node option" where
  "kind fs p = (case resolve fs (abs_of p) of Inr q \<Rightarrow> lookup fs q | Inl _ \<Rightarrow> None)"

definition is_file :: "file_tree \<Rightarrow> fpath \<Rightarrow> bool" where
  "is_file fs p \<longleftrightarrow> (case kind fs p of Some (Reg _) \<Rightarrow> True | _ \<Rightarrow> False)"

definition limit_of :: "json \<Rightarrow> int \<Rightarrow> nat result" where
  "limit_of j dflt = andthen (to_int (por j (JInt dflt))) (\<lambda>i. Inr (nat (max 1 (min i 160))))"

definition children :: "file_tree \<Rightarrow> fpath \<Rightarrow> fpath list" where
  "children fs p = filter (\<lambda>q. q \<noteq> [] \<and> butlast q = p) (map fst fs)"

definition list_files :: "action_env \<Rightarrow> dict \<Rightarrow> file_tree \<Rightarrow> (answer, file_tree) eff" where
  "list_files env a fs =
     (let dir = por (jget a ''directory'') (JStr ''.'') in
      andthen (safe_path env fs dir) (\<lambda>target.
        case lookup fs target of
          None \<Rightarrow> Inr (''Error: Directory '' @ json_str dir @ '' does not exist'', False)
        | Some Folder \<Rightarrow>
            let recursive = truthy (jget_or a ''recursive'' (JBool False)); show_hidden = truthy (jget_or a ''show_hidden'' (JBool False)) in
            andthen (limit_of (jget_or a ''max_results'' (JInt 60)) 60) (\<lambda>max_results.
            let it = (if recursive then filter (strict_prefix target) (map fst fs) else children fs target);
                seen = filter (\<lambda>p. \<not> is_hidden_or_skipped env show_hidden p) it;
                rel = (\<lambda>p. if recursive then join_on (CHR ''/'') (drop (length target) p) else last p);
                dirs = map (\<lambda>p. rel p @ ''/'') (filter (\<lambda>p. kind fs p = Some Folder) seen);
                files = map rel (filter (\<lambda>p. kind fs p \<noteq> Some Folder) seen);
                entries = sort dirs @ sort files in
            andthen (if target = root_parts env then Inr ''.'' else rel_to (root_parts env) target) (\<lambda>rel_base.
            Inr (join_with [LF] ((''Contents of '' @ py_repr rel_base @ (if recursive then '' recursively'' else []) @ '':'')
                # (if take max_results entries = [] then [''(empty)''] else take max_results entries)
                @ (if length entries > max_results then [''... truncated '' @ dec (length entries - max_results) @ '' entries''] else [])), False)))
        | Some _ \<Rightarrow> Inr (''Error: '' @ json_str (jget a ''directory'') @ '' is not a directory'', False)), fs)"

text \<open>\<^verbatim>\<open>os.walk\<close> from the top, not through links: the path of a folder as the walk names it, where it is, and the files in it.\<close>

definition depth_left :: "file_tree \<Rightarrow> fpath \<Rightarrow> nat" where
  "depth_left fs p = Suc (fold max (map (length \<circ> fst) fs) 0) - length p"

lemma fold_max_ge: "(x::nat) \<in> set xs \<Longrightarrow> x \<le> fold max xs a" "a \<le> fold max xs a"
proof (induction xs arbitrary: a)
  case (Cons y ys)
  { case 1 then show ?case using Cons [of "max y a"] by auto }
  { case 2 then show ?case using Cons(2) [of "max y a"] by simp }
qed simp_all

lemma depth_child: "p \<in> set (children fs q) \<Longrightarrow> depth_left fs p < depth_left fs q"
proof -
  assume "p \<in> set (children fs q)"
  then have p: "p \<in> fst ` set fs" "p \<noteq> []" "butlast p = q" by (auto simp: children_def)
  then have "length p \<le> fold max (map (length \<circ> fst) fs) 0" by (intro fold_max_ge(1)) force
  moreover have "length p = Suc (length q)" using p(2,3) by (cases p rule: rev_cases) auto
  ultimately show ?thesis by (simp add: depth_left_def)
qed

function walk :: "file_tree \<Rightarrow> fpath \<Rightarrow> fpath \<Rightarrow> (fpath \<times> string list) list" where
  "walk fs name here =
     (name, map last (filter (\<lambda>p. kind fs p \<noteq> Some Folder) (children fs here)))
     # concat (map (\<lambda>p. walk fs (name @ [last p]) p)
         (filter (\<lambda>p. kind fs p = Some Folder \<and> last p \<notin> set SKIP_DIRS \<and> \<not> prefix ''.'' (last p) \<and> link_at fs p = None) (children fs here)))"
  by pat_completeness auto
termination by (relation "measure (\<lambda>(fs, name, here). depth_left fs here)") (simp_all add: depth_child)

declare walk.simps [simp del]

datatype glob_result = Full "string list" | Gave_up "string list"

text \<open>The loops of \<^verbatim>\<open>glob_tool\<close>: they end at the limit, or after 20000 files.\<close>

fun glob_loop :: "action_env \<Rightarrow> json \<Rightarrow> nat \<Rightarrow> fpath list \<Rightarrow> nat \<Rightarrow> string list \<Rightarrow> glob_result result" where
  "glob_loop env pattern limit [] seen matches = Inr (Full matches)"
| "glob_loop env pattern limit (p # ps) seen matches =
     (if Suc seen > 20000 then Inr (Gave_up matches)
      else if is_hidden_or_skipped env False p then glob_loop env pattern limit ps (Suc seen) matches
      else let rel = join_on (CHR ''/'') (drop (length (root_parts env)) p) in
        case pattern of
          JStr pat \<Rightarrow>
            if fn_match env rel pat \<or> fn_match env (last p) pat
            then (if Suc (length matches) \<ge> limit then Inr (Full (matches @ [rel])) else glob_loop env pattern limit ps (Suc seen) (matches @ [rel]))
            else glob_loop env pattern limit ps (Suc seen) matches
        | _ \<Rightarrow> Inl (TypeError (''expected str, bytes or os.PathLike object, not '' @ type_of pattern)))"

definition glob_tool :: "action_env \<Rightarrow> dict \<Rightarrow> file_tree \<Rightarrow> (answer, file_tree) eff" where
  "glob_tool env a fs =
     (let pattern = jget_or a ''pattern'' (JStr []) in
      andthen (limit_of (jget_or a ''max_results'' (JInt 40)) 40) (\<lambda>limit.
      let top_dir = (case resolve fs (repo_path env) of Inr q \<Rightarrow> if lookup fs q = Some Folder then [q] else [] | Inl _ \<Rightarrow> []);
          files = concat (map (\<lambda>q. concat (map (\<lambda>(dir, names). map (\<lambda>name. dir @ [name]) names) (walk fs (root_parts env) q))) top_dir) in
      andthen (glob_loop env pattern limit files 0 []) (\<lambda>r.
      case r of
        Gave_up matches \<Rightarrow> Inr (''Found '' @ dec (length matches) @ '' matches before visiting 20000 files (truncated):'' @ LF # join_with [LF] matches, False)
      | Full matches \<Rightarrow> if matches = [] then Inr (''No files found matching glob pattern '' @ py_repr (json_str pattern), False)
          else Inr (''Found '' @ dec (length matches) @ '' files matching '' @ py_repr (json_str pattern) @ '':'' @ LF # join_with [LF] (sort matches), False))), fs)"

text \<open>\<^verbatim>\<open>st_size\<close> of the encoded text.\<close>

definition utf8_size :: "string \<Rightarrow> nat" where
  "utf8_size s = sum_list (map (\<lambda>c. if (of_char c :: nat) < 128 then 1 else 2) s)"

definition file_matches :: "action_env \<Rightarrow> file_tree \<Rightarrow> string \<Rightarrow> fpath \<Rightarrow> string list" where
  "file_matches env fs pattern p =
     (case kind fs p of
        Some (Reg s) \<Rightarrow>
          if is_hidden_or_skipped env False p \<or> utf8_size s > 2000000 then []
          else map (\<lambda>(i, line). join_on (CHR ''/'') (drop (length (root_parts env)) p) @ '':'' @ dec i @ '': '' @ take 240 line)
            (filter (\<lambda>(i, line). re_search env pattern line) (List.enumerate 1 (text_lines (universal s))))
      | _ \<Rightarrow> [])"

definition grep_paths :: "action_env \<Rightarrow> file_tree \<Rightarrow> json \<Rightarrow> fpath list result" where
  "grep_paths env fs include =
     (case include of
        JInt _ \<Rightarrow> Inl (TypeError ''argument of type 'int' is not iterable'')
      | JBool _ \<Rightarrow> Inl (TypeError ''argument of type 'bool' is not iterable'')
      | _ \<Rightarrow>
        if (case include of JStr s \<Rightarrow> list_ex (\<lambda>c. c \<in> set ''*?['') s | _ \<Rightarrow> False)
        then andthen (path_glob env (json_str include) fs) (\<lambda>ps. Inr (filter (is_file fs) ps))
        else andthen (safe_path env fs include) (\<lambda>p. Inr
          (case lookup fs p of
             Some (Reg _) \<Rightarrow> [p]
           | Some Folder \<Rightarrow> filter (\<lambda>q. strict_prefix p q \<and> is_file fs q) (map fst fs)
           | _ \<Rightarrow> [])))"

text \<open>The loops stop at the limit, which is positive.\<close>

definition grep_tool :: "action_env \<Rightarrow> dict \<Rightarrow> file_tree \<Rightarrow> (answer, file_tree) eff" where
  "grep_tool env a fs =
     ((case jget_or a ''pattern'' (JStr []) of
         JStr pattern \<Rightarrow> (case re_error env pattern of
             Some e \<Rightarrow> Inr (''Invalid regex '' @ py_repr pattern @ '': '' @ e, False)
           | None \<Rightarrow> andthen (limit_of (jget_or a ''max_results'' (JInt 50)) 50) (\<lambda>limit.
               andthen (grep_paths env fs (por (jget a ''include'') (JStr ''**/*''))) (\<lambda>paths.
               let out = take limit (concat (map (file_matches env fs pattern) (sort paths))) in
               Inr (if out = [] then ''No matches for '' @ py_repr pattern
                 else ''Found '' @ dec (length out) @ '' matches for '' @ py_repr pattern @ '':'' @ LF # join_with [LF] out, False))))
       | _ \<Rightarrow> Inl (TypeError ''first argument must be string or compiled pattern'')), fs)"

section \<open>Editing\<close>

definition diff_preview :: "action_env \<Rightarrow> nat \<Rightarrow> string \<Rightarrow> file_tree \<Rightarrow> (answer, file_tree) eff" where
  "diff_preview env n msg fs = (Inr (msg @ take n (run_git_diff env fs), False), fs)"

definition replaced :: "dict \<Rightarrow> string \<Rightarrow> (answer + string) result" where
  "replaced a s =
     (let old = jget_or a ''old_str'' (JStr []); new = jget_or a ''new_str'' (JStr []); path = json_str (jget a ''path'') in
      if py_eq old new then Inr (Inl (''StringReplace no-op: old_str == new_str.'', False))
      else case old of
          JStr old \<Rightarrow>
            let count = text_count old s in
            if count = 0 then Inr (Inl (''old_str not found in '' @ path @ ''. ViewCode the region and copy the exact text before retrying.'', False))
            else if count > 1 then Inr (Inl (''old_str occurs '' @ dec count @ '' times in '' @ path @ ''; add more surrounding context so it is unique.'', False))
            else (case new of
                JStr new \<Rightarrow> Inr (Inr (replace_first old new s))
              | _ \<Rightarrow> Inl (TypeError (''replace() argument 2 must be str, not '' @ type_of new)))
        | _ \<Rightarrow> Inl (TypeError (''must be str, not '' @ type_of old)))"

definition string_replace :: "action_env \<Rightarrow> dict \<Rightarrow> file_tree \<Rightarrow> (answer, file_tree) eff" where
  "string_replace env a fs = bind_eff (safe_path env fs (jget_or a ''path'' (JStr [])), fs) (\<lambda>full fs.
     if lookup fs full = None then (Inr (not_found a), fs)
     else bind_eff (andthen (read_text fs full) (replaced a), fs) (\<lambda>r fs.
       case r of
         Inl answer \<Rightarrow> (Inr answer, fs)
       | Inr new \<Rightarrow> bind_eff (write_text (disk env) full new fs) (\<lambda>_ fs.
           let path = json_str (jget a ''path'') in
           if strip (run_git_diff env fs) = []
           then (Inr (''Edited '' @ path @ '' (StringReplace). git diff is empty under the overlay; do not re-check the diff - run the failing test or ViewCode the region.'', False), fs)
           else diff_preview env 3000 (''Edited '' @ path @ '' (StringReplace). Diff preview:'' @ [LF]) fs)))"

definition regex_replace :: "action_env \<Rightarrow> dict \<Rightarrow> file_tree \<Rightarrow> (answer, file_tree) eff" where
  "regex_replace env a fs = bind_eff (safe_path env fs (jget_or a ''path'' (JStr [])), fs) (\<lambda>full fs.
     if lookup fs full = None then (Inr (not_found a), fs)
     else case jget_or a ''pattern'' (JStr []) of
         JStr pattern \<Rightarrow> (case re_error env pattern of
             Some e \<Rightarrow> (Inr (''Invalid regex '' @ json_repr (jget a ''pattern'') @ '': '' @ e, False), fs)
           | None \<Rightarrow> bind_eff (read_text fs full, fs) (\<lambda>s fs.
               bind_eff (to_int (por (jget_or a ''count'' (JInt 1)) (JInt 1)), fs) (\<lambda>c fs.
               bind_eff (re_subn env pattern (jget_or a ''replacement'' (JStr [])) (nat (max 1 (min c 20))) s, fs) (\<lambda>(new, n) fs.
               if n = 0 then (Inr (''RegexReplace pattern did not match '' @ json_str (jget a ''path'') @ ''.'', False), fs)
               else if new = s then (Inr (''RegexReplace matched but produced identical content.'', False), fs)
               else bind_eff (write_text (disk env) full new fs) (\<lambda>_.
                 diff_preview env 3000 (''RegexReplace edited '' @ json_str (jget a ''path'') @ '' (n='' @ dec n @ ''). Diff:'' @ [LF]))))))
       | _ \<Rightarrow> (Inl (TypeError ''first argument must be string or compiled pattern''), fs))"

text \<open>The new text of \<^verbatim>\<open>replace_lines\<close>: lines \<^verbatim>\<open>start\<close> to \<^verbatim>\<open>end\<close> give way to the argument, closed by a line end.\<close>

definition replaced_lines :: "dict \<Rightarrow> string list \<Rightarrow> int \<Rightarrow> int \<Rightarrow> (answer + string) result" where
  "replaced_lines a lines start stop =
     (if start < 1 \<or> stop < start \<or> stop > int (length lines)
      then Inr (Inl (''Invalid line range '' @ int_str start @ ''-'' @ int_str stop @ ''; file has '' @ dec (length lines) @ '' lines.'', False))
      else let before = take (nat start - 1) lines; old = take (nat stop - (nat start - 1)) (drop (nat start - 1) lines); after = drop (nat stop) lines in
        case jget_or a ''new_str'' (JStr []) of
          JStr s \<Rightarrow> let repl = (if s \<noteq> [] \<and> \<not> suffix [LF] s then s @ [LF] else s) in
            if concat old = repl then Inr (Inl (''ReplaceLines produced identical content.'', False))
            else Inr (Inr (concat before @ repl @ concat after))
        | j \<Rightarrow> if truthy j then Inl (AttributeError (py_repr (type_of j) @ '' object has no attribute '' @ py_repr ''endswith''))
            else Inl (TypeError (''can only concatenate str (not '' @ CHR 0x22 # type_of j @ CHR 0x22 # '') to str'')))"

definition replace_lines :: "action_env \<Rightarrow> dict \<Rightarrow> file_tree \<Rightarrow> (answer, file_tree) eff" where
  "replace_lines env a fs = bind_eff (safe_path env fs (jget_or a ''path'' (JStr [])), fs) (\<lambda>full fs.
     if lookup fs full = None then (Inr (not_found a), fs)
     else bind_eff (read_text fs full, fs) (\<lambda>s fs.
       bind_eff (to_int (jget a ''start_line''), fs) (\<lambda>start fs.
       bind_eff (to_int (por (jget a ''end_line'') (JInt start)), fs) (\<lambda>stop fs.
       bind_eff (replaced_lines a (lines_keep s) start stop, fs) (\<lambda>r fs.
         case r of
           Inl answer \<Rightarrow> (Inr answer, fs)
         | Inr new \<Rightarrow> bind_eff (write_text (disk env) full new fs) (\<lambda>_.
             diff_preview env 3000 (''ReplaceLines edited '' @ json_str (jget a ''path'') @ '':'' @ int_str start @ ''-'' @ int_str stop @ ''. Diff:'' @ [LF])))))))"

definition create_file :: "action_env \<Rightarrow> dict \<Rightarrow> file_tree \<Rightarrow> (answer, file_tree) eff" where
  "create_file env a fs = bind_eff (safe_path env fs (jget_or a ''path'' (JStr [])), fs) (\<lambda>full fs.
     if lookup fs full \<noteq> None then (Inr (''File already exists: '' @ json_str (jget a ''path''), False), fs)
     else bind_eff (mkdirs (butlast full) fs) (\<lambda>_ fs.
       case jget_or a ''file_text'' (JStr []) of
         JStr s \<Rightarrow> bind_eff (write_text (disk env) full s fs) (\<lambda>_ fs. (Inr (''Created file '' @ json_str (jget a ''path''), False), fs))
       | j \<Rightarrow> (Inl (TypeError (''data must be str, not '' @ type_of j)), fs)))"

definition append_file :: "action_env \<Rightarrow> dict \<Rightarrow> file_tree \<Rightarrow> (answer, file_tree) eff" where
  "append_file env a fs = bind_eff (safe_path env fs (jget_or a ''path'' (JStr [])), fs) (\<lambda>full fs.
     if lookup fs full = None then (Inr (not_found a), fs)
     else bind_eff (read_text fs full, fs) (\<lambda>old fs.
       let sep = (if suffix [LF] old \<or> old = [] then [] else [LF]) in
       case jget_or a ''new_str'' (JStr []) of
         JStr s \<Rightarrow> bind_eff (write_text (disk env) full (old @ sep @ s) fs) (\<lambda>_ fs. (Inr (''Appended to '' @ json_str (jget a ''path''), False), fs))
       | j \<Rightarrow> (Inl (TypeError (''can only concatenate str (not '' @ CHR 0x22 # type_of j @ CHR 0x22 # '') to str'')), fs)))"

section \<open>Programs\<close>

text \<open>The text that \<^verbatim>\<open>git apply\<close> reads.\<close>

definition patch_input :: "string \<Rightarrow> string" where
  "patch_input s = (let patch = strip s in if suffix [LF] patch then patch else patch @ [LF])"

definition apply_patch :: "action_env \<Rightarrow> dict \<Rightarrow> file_tree \<Rightarrow> (answer, file_tree) eff" where
  "apply_patch env a fs = bind_eff (need_str ''strip'' (por (jget a ''patch'') (JStr [])), fs) (\<lambda>s fs.
     if strip s = [] then (Inr (''ApplyPatch received an empty patch.'', False), fs)
     else case git_apply env (patch_input s) fs of
         (Done rc out err, fs) \<Rightarrow>
           if rc \<noteq> 0 then (Inr (''ApplyPatch failed (rc='' @ int_str rc @ ''):'' @ LF # drop (length err - 3000) err, False), fs)
           else diff_preview env 4000 (''ApplyPatch applied. Diff:'' @ [LF]) fs
       | (Timed_out, fs) \<Rightarrow> (Inl (TimeoutExpired ''Command timed out after 30 seconds''), fs)
       | (Raised e, fs) \<Rightarrow> (Inl e, fs))"

definition bash :: "action_env \<Rightarrow> dict \<Rightarrow> file_tree \<Rightarrow> (answer, file_tree) eff" where
  "bash env a fs =
     (let cmd = por (por (jget a ''command'') (jget a ''cmd'')) (JStr []) in
      if \<not> truthy cmd then (Inr (''Bash requires a 'command'.'', False), fs)
      else case float_error (float_text env) (jget_or a ''timeout'' (JInt 60)) of
          Some e \<Rightarrow> (Inr (''Bash error: '' @ err_name e @ '': '' @ err_msg e, False), fs)
        | None \<Rightarrow> (case run_bash env (''cd '' @ shlex_quote (abs_of (root_parts env)) @ '' && '' @ json_str cmd) fs of
            (Done rc out err, fs) \<Rightarrow> (Inr (''<returncode>'' @ int_str rc @ ''</returncode>'' @ LF # out @ err, False), fs)
          | (Timed_out, fs) \<Rightarrow> (Inr (''Bash command timed out.'', False), fs)
          | (Raised e, fs) \<Rightarrow> (Inr (''Bash error: '' @ err_name e @ '': '' @ err_msg e, False), fs)))"

section \<open>Dispatch\<close>

datatype action = ViewCode | ListFiles | GlobTool | GrepTool | ViewDiff | StringReplace | RegexReplace | ReplaceLines | ApplyPatch
  | CreateFile | AppendString | Bash

fun handler :: "action \<Rightarrow> action_env \<Rightarrow> dict \<Rightarrow> file_tree \<Rightarrow> (answer, file_tree) eff" where
  "handler ViewCode = view_code"
| "handler ListFiles = list_files"
| "handler GlobTool = glob_tool"
| "handler GrepTool = grep_tool"
| "handler ViewDiff = view_diff"
| "handler StringReplace = string_replace"
| "handler RegexReplace = regex_replace"
| "handler ReplaceLines = replace_lines"
| "handler ApplyPatch = apply_patch"
| "handler CreateFile = create_file"
| "handler AppendString = append_file"
| "handler Bash = bash"

definition ACTIONS :: "(string \<times> action \<times> (string \<times> string) list) list" where
  "ACTIONS =
    [(''ViewCode'', ViewCode, [(''path'', ''file to view''), (''start_line?'', ''1-based''), (''end_line?'', ''1-based'')]),
     (''ListFiles'', ListFiles, [(''directory?'', ''dir (empty=root)''), (''recursive?'', ''bool''), (''max_results?'', ''int'')]),
     (''GlobTool'', GlobTool, [(''pattern'', ''glob e.g. **/*.py''), (''max_results?'', ''int'')]),
     (''GrepTool'', GrepTool, [(''pattern'', ''regex''), (''include?'', ''glob e.g. *.py''), (''max_results?'', ''int'')]),
     (''ViewDiff'', ViewDiff, []),
     (''StringReplace'', StringReplace, [(''path'', ''file''), (''old_str'', ''exact text''), (''new_str'', ''replacement'')]),
     (''RegexReplace'', RegexReplace, [(''path'', ''file''), (''pattern'', ''regex''), (''replacement'', ''text''), (''count?'', ''int'')]),
     (''ReplaceLines'', ReplaceLines, [(''path'', ''file''), (''start_line'', ''1-based''), (''end_line?'', ''1-based''), (''new_str'', ''text'')]),
     (''ApplyPatch'', ApplyPatch, [(''patch'', ''unified diff'')]),
     (''CreateFile'', CreateFile, [(''path'', ''new file''), (''file_text'', ''content'')]),
     (''AppendString'', AppendString, [(''path'', ''file''), (''new_str'', ''text to append'')]),
     (''Bash'', Bash, [(''command'', ''shell command''), (''timeout?'', ''seconds'')])]"

definition ALIASES :: "(string \<times> string) list" where
  "ALIASES = [(''run'', ''Bash''), (''shell'', ''Bash'')]"

definition lower :: "string \<Rightarrow> string" where
  "lower s = map lower_char s"

definition resolve_action :: "string \<Rightarrow> action option" where
  "resolve_action name =
     (if name = [] then None
      else case map_of ACTIONS name of
          Some (x, _) \<Rightarrow> Some x
        | None \<Rightarrow> (case map_of ACTIONS (dict_get ALIASES (lower name) []) of
              Some (x, _) \<Rightarrow> Some x
            | None \<Rightarrow> map_option (fst \<circ> snd) (find (\<lambda>(key, _). lower key = lower name) ACTIONS)))"

definition catalog :: string where
  "catalog = join_with [LF] (map (\<lambda>(name, _, args). ''- '' @ name @ '': {'' @
       (if args = [] then ''(none)'' else join_with '', '' (map (\<lambda>(k, v). k @ '': '' @ v) args)) @ ''}'') ACTIONS
     @ [''- finish: no args; emit when the fix is complete and verified''])"

definition dispatch :: "(action \<Rightarrow> (answer, file_tree) eff) \<Rightarrow> dict \<Rightarrow> file_tree \<Rightarrow> answer \<times> file_tree" where
  "dispatch run a fs =
     (case por (por (jget a ''action'') (jget a ''tool'')) (JStr []) of
        JStr name \<Rightarrow>
          if lower (strip name) \<in> {''finish'', ''done'', ''submit''} then ((''Task marked finished by the agent.'', True), fs)
          else (case resolve_action name of
              None \<Rightarrow> ((''Unknown action '' @ py_repr name @ ''. Available: '' @ json_repr (JList (map (JStr \<circ> fst) ACTIONS)) @ '' + finish'', False), fs)
            | Some x \<Rightarrow> (case run x of
                (Inr answer, fs) \<Rightarrow> (answer, fs)
              | (Inl e, fs) \<Rightarrow> ((''Action '' @ name @ '' raised '' @ err_name e @ '': '' @ err_msg e, False), fs)))
      | _ \<Rightarrow> ((''Invalid action: 'action' must be a string.'', False), fs))"

definition execute_action :: "action_env \<Rightarrow> dict \<Rightarrow> file_tree \<Rightarrow> answer \<times> file_tree" where
  "execute_action env a fs = dispatch (\<lambda>x. handler x env a fs) a fs"

section \<open>Every write lands in the repository\<close>

lemma safe_path_inside:
  assumes "safe_path env fs j = Inr full" "resolve fs (repo_path env) = Inr r"
  shows "prefix r full \<and> plain fs full \<and> names_ok full"
  using assms by (auto simp: safe_path_def Let_def strict_prefix_def dest!: resolve_plain elim!: andthen_InrE split: if_splits)

text \<open>What an action may do to a repository at \<^verbatim>\<open>r\<close>.\<close>

definition contained :: "fpath \<Rightarrow> file_tree \<Rightarrow> ('a, file_tree) eff \<Rightarrow> bool" where
  "contained r fs e \<longleftrightarrow> inside r fs (snd e)"

lemma contained_pure: "fs_ok fs \<Longrightarrow> contained r fs (x, fs)"
  by (simp add: contained_def within_refl)

lemma contained_bind:
  assumes "contained r fs m" "\<And>v fs1. \<lbrakk>m = (Inr v, fs1); inside r fs fs1\<rbrakk> \<Longrightarrow> contained r fs1 (f v fs1)"
  shows "contained r fs (bind_eff m f)"
proof (cases m)
  case (Pair x fs1)
  then show ?thesis using assms by (cases x) (auto simp: contained_def intro: within_trans)
qed

lemma contained_bind_pure:
  assumes "fs_ok fs" "\<And>v. x = Inr v \<Longrightarrow> contained r fs (f v fs)"
  shows "contained r fs (bind_eff (x, fs) f)"
  using assms by (intro contained_bind) (auto simp: contained_pure)

lemma contained_preview: "fs_ok fs \<Longrightarrow> contained r fs (diff_preview env n msg fs)"
  by (simp add: diff_preview_def contained_pure)

text \<open>The repository itself is a folder, so a file that is read or created lies below it.\<close>

lemma below:
  assumes "prefix r full" "lookup fs r = Some Folder" "lookup fs full \<noteq> Some Folder"
  shows "strict_prefix r full"
  using assms by (auto simp: strict_prefix_def)

lemma contained_write:
  assumes "fs_ok fs" "plain fs full" "prefix r full" "lookup fs r = Some Folder"
  shows "contained r fs (write_text d full s fs)"
proof (cases "lookup fs full = Some Folder")
  case True
  then show ?thesis using assms(1) by (simp add: write_text_def contained_pure)
next
  case False
  obtain x fs' where "write_text d full s fs = (x, fs')" by fastforce
  then show ?thesis using write_text_within(1) [OF assms(1) below [OF assms(3,4) False] assms(2)] by (simp add: contained_def)
qed

lemmas contained_intros = contained_pure contained_bind contained_bind_pure contained_preview contained_write

text \<open>A well-formed file system with a repository, and where it is.\<close>

definition repo_at :: "string \<Rightarrow> fpath \<Rightarrow> file_tree \<Rightarrow> bool" where
  "repo_at root r fs \<longleftrightarrow> fs_ok fs \<and> resolve fs root = Inr r \<and> lookup fs r = Some Folder"

lemma repo_atD: "repo_at (repo_path env) r fs \<Longrightarrow> fs_ok fs" by (simp add: repo_at_def)

lemma write_then:
  assumes "repo_at (repo_path env) r fs" "safe_path env fs (jget_or a ''path'' (JStr [])) = Inr full" "\<And>fs'. fs_ok fs' \<Longrightarrow> contained r fs' (f () fs')"
  shows "contained r fs (bind_eff (write_text d full s fs) f)"
proof -
  have "prefix r full" "plain fs full" using safe_path_inside assms(1,2) by (auto simp: repo_at_def)
  then show ?thesis using assms(1,3) by (intro contained_bind contained_write) (auto simp: repo_at_def dest: within_ok)
qed

lemma string_replace_contained:
  assumes R: "repo_at (repo_path env) r fs"
  shows "contained r fs (string_replace env a fs)"
  unfolding string_replace_def
  by (auto intro!: contained_bind_pure contained_pure write_then [OF R] contained_preview simp: repo_atD [OF R] Let_def split: sum.split)

lemma regex_replace_contained:
  assumes R: "repo_at (repo_path env) r fs"
  shows "contained r fs (regex_replace env a fs)"
  unfolding regex_replace_def
  by (auto intro!: contained_bind_pure contained_pure write_then [OF R] contained_preview simp: repo_atD [OF R] Let_def split: json.split option.split)

lemma replace_lines_contained:
  assumes R: "repo_at (repo_path env) r fs"
  shows "contained r fs (replace_lines env a fs)"
  unfolding replace_lines_def
  by (auto intro!: contained_bind_pure contained_pure write_then [OF R] contained_preview simp: repo_atD [OF R] Let_def split: sum.split)

lemma append_file_contained:
  assumes R: "repo_at (repo_path env) r fs"
  shows "contained r fs (append_file env a fs)"
  unfolding append_file_def
  by (auto intro!: contained_bind_pure contained_pure write_then [OF R] contained_preview simp: repo_atD [OF R] Let_def split: json.split)

lemma mkdirs_contained:
  assumes "repo_at (repo_path env) r fs" "safe_path env fs j = Inr full" "lookup fs full = None"
  shows "contained r fs (mkdirs (butlast full) fs)"
    "mkdirs (butlast full) fs = (Inr u, fs1) \<Longrightarrow> plain fs1 full \<and> lookup fs1 r = Some Folder \<and> fs_ok fs1 \<and> prefix r full"
proof -
  have ok: "fs_ok fs" and folder: "lookup fs r = Some Folder" using assms(1) by (simp_all add: repo_at_def)
  have p: "prefix r full" "plain fs full" using safe_path_inside [OF assms(2)] assms(1) by (auto simp: repo_at_def)
  have sp: "strict_prefix r full" using below [OF p(1) folder] assms(3) by simp
  then have b: "prefix r (butlast full)" by (metis append_butlast_last_id prefix_order.less_le prefix_snoc strict_prefix_simps(1))
  obtain x fs2 where m: "mkdirs (butlast full) fs = (x, fs2)" by fastforce
  note w = mkdirs_within [OF m ok b plain_butlast [OF p(2)] folder]
  then show "contained r fs (mkdirs (butlast full) fs)" by (simp add: m contained_def)
  assume "mkdirs (butlast full) fs = (Inr u, fs1)"
  then have "inside r fs fs1" using w m by simp
  then show "plain fs1 full \<and> lookup fs1 r = Some Folder \<and> fs_ok fs1 \<and> prefix r full"
    using p folder by (auto simp: inside_def plain_def)
qed

lemma create_file_contained:
  assumes "repo_at (repo_path env) r fs"
  shows "contained r fs (create_file env a fs)"
  unfolding create_file_def
  using mkdirs_contained [OF assms] repo_atD [OF assms]
  by (auto intro!: contained_bind_pure contained_pure contained_bind contained_write dest!: within_ok split: json.split)

lemma handler_contained: "\<lbrakk>x \<noteq> Bash; x \<noteq> ApplyPatch; repo_at (repo_path env) r fs\<rbrakk> \<Longrightarrow> contained r fs (handler x env a fs)"
  by (cases x) (simp_all add: string_replace_contained regex_replace_contained replace_lines_contained append_file_contained
    create_file_contained view_code_def list_files_def glob_tool_def grep_tool_def view_diff_def contained_pure repo_atD Let_def)

section \<open>Sequences of actions\<close>

lemma resolve_loop_links: "\<lbrakk>\<forall>q. link_at fs' q = link_at fs q\<rbrakk> \<Longrightarrow> resolve_loop fs' seen path rest = resolve_loop fs seen path rest"
proof (induction fs seen path rest rule: resolve_loop.induct)
  case (3 fs seen path c rest)
  have l: "link_at fs' (path @ [c]) = link_at fs (path @ [c])" using 3(6) by simp
  show ?case
    unfolding resolve_loop.simps(3) [of fs'] resolve_loop.simps(3) [of fs] Let_def l
    using 3(1-2) 3(3-5) [OF _ _ refl] 3(6) by (auto split: option.split)
qed (simp_all add: resolve_loop.simps)

lemma repo_within: "\<lbrakk>repo_at root r fs; inside r fs fs'\<rbrakk> \<Longrightarrow> repo_at root r fs'"
  using resolve_loop_links [of fs' fs "[]" "[]" "map Name (split_on (CHR ''/'') root)"] by (auto simp: repo_at_def inside_def resolve_def)

text \<open>The contract of a tool that works in one repository, and what it gives for any sequence of its uses.\<close>

locale confined =
  fixes allowed :: "'a \<Rightarrow> bool" and step :: "'a \<Rightarrow> file_tree \<Rightarrow> file_tree" and root :: string and r :: fpath
  assumes step_within: "\<lbrakk>allowed x; repo_at root r fs\<rbrakk> \<Longrightarrow> inside r fs (step x fs)"
begin

lemma steps_within: "\<lbrakk>list_all allowed xs; repo_at root r fs\<rbrakk> \<Longrightarrow> inside r fs (fold step xs fs)"
proof (induction xs arbitrary: fs)
  case Nil
  then show ?case by (simp add: within_refl repo_at_def)
next
  case (Cons x xs)
  then have "inside r fs (step x fs)" by (simp add: step_within)
  moreover have "inside r (step x fs) (fold step xs (step x fs))" using Cons calculation by (simp add: repo_within)
  ultimately show ?case by (auto intro: within_trans)
qed

end

definition chosen :: "dict \<Rightarrow> action option" where
  "chosen a = (case por (por (jget a ''action'') (jget a ''tool'')) (JStr []) of JStr name \<Rightarrow> resolve_action name | _ \<Rightarrow> None)"

lemma execute_within:
  assumes "chosen a \<notin> {Some Bash, Some ApplyPatch}" "repo_at (repo_path env) r fs"
  shows "inside r fs (snd (execute_action env a fs))"
proof -
  have "inside r fs fs1" if "handler x env a fs = (y, fs1)" "chosen a = Some x" for x y fs1
    using handler_contained [OF _ _ assms(2), of x a] assms(1) that by (auto simp: contained_def)
  then show ?thesis using within_refl [OF repo_atD [OF assms(2)], of r]
    by (auto simp: execute_action_def dispatch_def chosen_def split: json.split option.split prod.split sum.split)
qed

definition file_tool :: "string \<Rightarrow> action_env \<times> dict \<Rightarrow> bool" where
  "file_tool root x \<longleftrightarrow> repo_path (fst x) = root \<and> chosen (snd x) \<notin> {Some Bash, Some ApplyPatch}"

definition act :: "action_env \<times> dict \<Rightarrow> file_tree \<Rightarrow> file_tree" where
  "act x fs = snd (execute_action (fst x) (snd x) fs)"

interpretation tools: confined "file_tool root" act root r for root r
  by unfold_locales (auto simp: file_tool_def act_def intro: execute_within)

text \<open>
  C7. No sequence of actions without shell commands and patches reaches outside the repository, whatever arguments the model chose, whatever
  symbolic links there are and whatever the disk answers: every path that is not below the repository stays as it was, no link appears
  or disappears, and the tree stays well-formed.
\<close>

theorem actions_stay_inside:
  assumes "fs_ok fs" "resolve fs root = Inr r" "lookup fs r = Some Folder"
    and "\<forall>(env, a) \<in> set xs. repo_path env = root \<and> chosen a \<notin> {Some Bash, Some ApplyPatch}"
    and "fs' = fold (\<lambda>(env, a) fs. snd (execute_action env a fs)) xs fs"
  shows "fs_ok fs' \<and> (\<forall>q. \<not> strict_prefix r q \<longrightarrow> lookup fs' q = lookup fs q) \<and> (\<forall>q. link_at fs' q = link_at fs q)"
proof -
  have "(\<lambda>(env, a) fs. snd (execute_action env a fs)) = act" by (auto simp: act_def fun_eq_iff)
  then show ?thesis using tools.steps_within [of root xs r fs] assms
    by (auto simp: list_all_iff file_tool_def repo_at_def inside_def case_prod_beta)
qed

section \<open>What an edit writes\<close>

lemma write_ok:
  assumes "fs_ok fs" "lookup fs full = Some (Reg s)"
  shows "write_text Disk_ok full t fs = (Inr (), AList.update full (Reg t) fs)"
proof -
  have "full \<noteq> []" using assms(2) by auto
  then show ?thesis using fs_okD [OF assms] assms(2) by (simp add: write_text_def)
qed



section \<open>What a view shows\<close>

lemma map_result_Inl: "map_result f xs = Inl e \<Longrightarrow> \<exists>x \<in> set xs. f x = Inl e"
  by (induction xs) (auto simp: andthen_def split: sum.splits)

lemma map_result_error: "\<lbrakk>x \<in> set xs; f x = Inl e; \<And>y e'. f y = Inl e' \<Longrightarrow> e' = e\<rbrakk> \<Longrightarrow> map_result f xs = Inl e"
proof (cases "map_result f xs")
  case (Inl e')
  assume "\<And>y e'. f y = Inl e' \<Longrightarrow> e' = e"
  then show ?thesis using map_result_Inl [OF Inl] Inl by blast
next
  case (Inr ys)
  assume "x \<in> set xs" "f x = Inl e"
  moreover have "list_all2 (\<lambda>x y. f x = Inr y) xs ys" using Inr by (simp add: map_result_Inr_iff)
  ultimately show ?thesis by (auto simp: list_all2_conv_all_nth in_set_conv_nth)
qed

text \<open>
  A view of a file shows at most 140 lines, one after the other and numbered as in the file; it starts inside a file that has lines. But a view that starts
  behind the last line of a file raises an \<^verbatim>\<open>IndexError\<close> instead of saying so.
\<close>

theorem view_window:
  assumes "window_bounds (length (text_lines s)) start stop = Inr (lo, hi)" "text_lines s \<noteq> []"
  shows "if lo \<le> int (length (text_lines s))
    then \<exists>suffix. line_window s start stop = Inr (map (\<lambda>i. numbered i (text_lines s ! nat (i - 1))) [lo..max lo hi], suffix)
      \<and> 1 \<le> lo \<and> max lo hi \<le> int (length (text_lines s)) \<and> length [lo..max lo hi] \<le> 140
    else line_window s start stop = Inl (IndexError ''list index out of range'')"
proof -
  define n where "n = int (length (text_lines s))"
  have n: "1 \<le> n" using assms(2) by (cases "text_lines s") (simp_all add: n_def)
  have b: "1 \<le> lo" "hi \<le> n" "hi - lo + 1 \<le> 140"
    using assms(1) n by (auto simp: window_bounds_def n_def MAX_VIEW_LINES_def DEFAULT_VIEW_LINES_def Let_def elim!: andthen_InrE split: if_splits)
  show ?thesis
  proof (cases "lo \<le> n")
    case True
    have "shown_lines (text_lines s) lo hi = Inr (map (\<lambda>i. numbered i (text_lines s ! nat (i - 1))) [lo..max lo hi])"
      using assms(2) b True by (simp add: shown_lines_def map_result_Inr_iff list_all2_map2 list_all2_same) (auto simp: n_def)
    then show ?thesis using True b assms(1) by (auto simp: line_window_def Let_def n_def)
  next
    case False
    have "shown_lines (text_lines s) lo hi = Inl (IndexError ''list index out of range'')"
      using assms(2) False b(1) unfolding shown_lines_def
      by (simp, intro map_result_error [of lo]) (auto simp: n_def split: if_splits)
    then show ?thesis using False assms(1) by (auto simp: line_window_def Let_def n_def)
  qed
qed

section \<open>Concrete runs\<close>

text \<open>A repository with a file that has the line ends of another system, a file, and a link that leads outside.\<close>

definition sample_fs :: file_tree where
  "sample_fs = [([''r''], Folder), ([''r'', ''dos''], Reg [CHR ''a'', CHR ''b'', CR, LF, CHR ''b'', CR, LF]), ([''r'', ''f''], Reg ''aaa''),
     ([''etc''], Folder), ([''etc'', ''hosts''], Reg ''h''), ([''r'', ''out''], Link ''/etc'')]"

definition sample_env :: action_env where
  "sample_env = \<lparr>repo_path = ''/r'', disk = Disk_ok, git_diff = (\<lambda>_. Done 0 ''d'' []), git_apply = (\<lambda>_ fs. (Done 0 [] [], fs)),
     run_bash = (\<lambda>_ fs. (Done 0 [] [], fs)), float_text = (\<lambda>_. False), re_error = (\<lambda>_. None), re_search = (\<lambda>_ _. False),
     re_subn = (\<lambda>_ _ _ s. Inr (s, 0)), fn_match = (\<lambda>_ _. False), path_glob = (\<lambda>_ _. Inr [])\<rparr>"

definition create_args :: "string \<Rightarrow> dict" where
  "create_args p = [(''action'', JStr ''createfile''), (''path'', JStr p), (''file_text'', JStr ''t'')]"

definition replace_args :: "string \<Rightarrow> string \<Rightarrow> string \<Rightarrow> dict" where
  "replace_args p old new = [(''action'', JStr ''StringReplace''), (''path'', JStr p), (''old_str'', JStr old), (''new_str'', JStr new)]"

definition lines_args :: "int \<Rightarrow> int \<Rightarrow> string \<Rightarrow> dict" where
  "lines_args start stop new = [(''path'', JStr ''dos''), (''start_line'', JInt start), (''end_line'', JInt stop), (''new_str'', JStr new)]"

lemma sample_repo: "fs_ok sample_fs" "resolve sample_fs ''/r'' = Inr [''r'']" "lookup sample_fs [''r''] = Some Folder"
  by code_simp+

definition sample_session :: "(action_env \<times> dict) list" where
  "sample_session = map (Pair sample_env) [create_args ''out/x'', create_args ''a/b/c'', replace_args ''/repo/f'' ''a'' ''b'']"

theorem actions_stay_inside_witness:
  "let fs' = fold (\<lambda>(env, a) fs. snd (execute_action env a fs)) sample_session sample_fs in
   lookup fs' [''etc'', ''x''] = None \<and> lookup fs' [''etc'', ''hosts''] = Some (Reg ''h'') \<and> lookup fs' [''r'', ''a'', ''b'', ''c''] = Some (Reg ''t'')"
proof -
  have a: "\<forall>(env, a) \<in> set sample_session. repo_path env = ''/r'' \<and> chosen a \<notin> {Some Bash, Some ApplyPatch}" by code_simp
  have l: "lookup sample_fs [''etc'', ''x''] = None" "lookup sample_fs [''etc'', ''hosts''] = Some (Reg ''h'')"
    "\<not> strict_prefix [''r''] [''etc'', ''x'']" "\<not> strict_prefix [''r''] [''etc'', ''hosts'']" by code_simp+
  have c: "lookup (fold (\<lambda>(env, a) fs. snd (execute_action env a fs)) sample_session sample_fs) [''r'', ''a'', ''b'', ''c''] = Some (Reg ''t'')" by code_simp
  from actions_stay_inside [OF sample_repo a refl] l c show ?thesis by (simp add: Let_def)
qed



theorem view_window_witness:
  "line_window ''ab'' (JInt 2) JNull = Inl (IndexError ''list index out of range'')
    \<and> (\<exists>suffix. line_window ''ab'' JNull JNull = Inr ([''     1'' @ CHR 0x09 # ''ab''], suffix))"
proof -
  have h: "window_bounds (length (text_lines ''ab'')) (JInt 2) JNull = Inr (2, 1)" "window_bounds (length (text_lines ''ab'')) JNull JNull = Inr (1, 1)"
    "text_lines ''ab'' \<noteq> []" "\<not> 2 \<le> int (length (text_lines ''ab''))" "1 \<le> int (length (text_lines ''ab''))"
    "map (\<lambda>i. numbered i (text_lines ''ab'' ! nat (i - 1))) [1..max 1 1] = [''     1'' @ CHR 0x09 # ''ab'']" by code_simp+
  from view_window [OF h(1,3)] view_window [OF h(2,3)] show ?thesis unfolding h(6) if_P [OF h(5)] if_not_P [OF h(4)] by blast
qed

text \<open>An edit of one line of a file changes the ends of all its lines.\<close>

theorem edit_rewrites_line_ends:
  "lookup (snd (execute_action sample_env (replace_args ''dos'' ''ab'' ''c'') sample_fs)) [''r'', ''dos''] = Some (Reg [CHR ''c'', LF, CHR ''b'', LF])"
  by code_simp

text \<open>A text that occurs at two overlapping places counts as unique.\<close>

theorem overlap_counts_once:
  "prefix ''aa'' ''aaa'' \<and> prefix ''aa'' (drop 1 ''aaa'')
    \<and> lookup (snd (execute_action sample_env (replace_args ''f'' ''aa'' ''b'') sample_fs)) [''r'', ''f''] = Some (Reg ''ba'')"
  by code_simp

text \<open>An empty line of context at the end of a patch does not reach \<^verbatim>\<open>git\<close>.\<close>

theorem patch_loses_context:
  "patch_input (''+x'' @ [LF, CHR '' '', LF]) = ''+x'' @ [LF]"
  by code_simp

end
