(* ===== verification/Llm_Proxy.thy ===== *)
theory Llm_Proxy
  imports Python_Text
begin

text \<open>
  The process that owns the connection to the language model, \<^verbatim>\<open>agent/npd/npd.py\<close>, and its client, \<^verbatim>\<open>agent/npd/npd_client.py\<close>. A request is a file
  named by its identifier and a line on a FIFO, a response is a file and a line on another FIFO. An identifier carries the epoch of its submission, and responses of past epochs
  are dropped. What the endpoint answers to each attempt is an argument; clocks, the log and the optional trace file are left out.
\<close>

section \<open>Identifiers and epochs\<close>

definition make_rid :: "int \<Rightarrow> string \<Rightarrow> string" where
  "make_rid epoch uuid = ''ep'' @ int_str epoch @ ''.'' @ uuid"

definition parse_rid_epoch :: "string \<Rightarrow> int option" where
  "parse_rid_epoch rid =
     (if \<not> prefix ''ep'' rid then None
      else let dot = length (takeWhile (\<lambda>c. c \<noteq> CHR ''.'') rid) in
        if dot < 3 \<or> dot = length rid then None else py_int (drop 2 (take dot rid)))"

text \<open>The content of the epoch file, if there is one.\<close>

definition read_current_epoch :: "string option \<Rightarrow> int" where
  "read_current_epoch f = (case f of
       None \<Rightarrow> 0
     | Some s \<Rightarrow> (case py_int (if strip s = [] then ''0'' else strip s) of Some i \<Rightarrow> i | None \<Rightarrow> 0))"

lemma takeWhile_no: "x \<notin> set xs \<Longrightarrow> takeWhile (\<lambda>c. c \<noteq> x) (xs @ x # ys) = xs"
  by (induction xs) auto

lemma is_digit_ascii: "is_digit c \<Longrightarrow> \<not> is_space c \<and> c \<noteq> CHR ''.'' \<and> c \<noteq> CHR ''_'' \<and> c \<noteq> CHR ''-'' \<and> c \<noteq> CHR ''+''"
  by (auto simp: is_digit_def is_space_def Let_def)

lemma dec_digits: "list_all is_digit (dec n)" "dec n \<noteq> []"
proof -
  have "list_all is_digit (dec n) \<and> dec n \<noteq> []"
  proof (induction n rule: dec.induct)
    case (1 n)
    then show ?case by (cases "n < 10") (simp_all add: dec.simps [of n] is_digit_digit_char)
  qed
  then show "list_all is_digit (dec n)" "dec n \<noteq> []" by auto
qed

lemma strip_no_space: "list_all (\<lambda>c. \<not> is_space c) s \<Longrightarrow> strip s = s"
proof -
  assume a: "list_all (\<lambda>c. \<not> is_space c) s"
  then have "dropWhile is_space s = s" "dropWhile is_space (rev s) = rev s"
    by (auto simp: dropWhile_eq_self_iff list_all_iff hd_rev)
  then show ?thesis by (simp add: strip_def)
qed

lemma py_int_dec: "py_int (dec n) = Some (int n)"
proof -
  have d: "list_all is_digit (dec n)" "dec n \<noteq> []" by (rule dec_digits)+
  then have s: "strip (dec n) = dec n" by (intro strip_no_space) (auto simp: list_all_iff dest: is_digit_ascii)
  have sg: "split_sign (dec n) = (False, dec n)" using d by (cases "dec n") (auto simp: split_sign_def dest: is_digit_ascii)
  have "split_on (CHR ''_'') (dec n) = [dec n]" using d by (intro split_on_plain) (auto simp: list_all_iff dest: is_digit_ascii)
  then show ?thesis using d by (simp add: py_int_def s sg list_all_iff dec_val_dec filter_True)
qed

lemma parse_make_rid: "parse_rid_epoch (make_rid (int n) uuid) = Some (int n)"
proof -
  define d where "d = ''ep'' @ dec n"
  have "CHR ''.'' \<notin> set d" using dec_digits(1) [of n] by (auto simp: d_def list_all_iff dest: is_digit_ascii)
  then have "takeWhile (\<lambda>c. c \<noteq> CHR ''.'') (d @ CHR ''.'' # uuid) = d" by (rule takeWhile_no)
  moreover have r: "make_rid (int n) uuid = d @ CHR ''.'' # uuid" by (simp add: make_rid_def d_def int_str_def)
  moreover have "3 \<le> length d" using dec_digits(2) [of n] by (cases "dec n") (simp_all add: d_def)
  moreover have "drop 2 d = dec n" "prefix ''ep'' (d @ CHR ''.'' # uuid)" by (simp_all add: d_def)
  ultimately show ?thesis by (simp add: parse_rid_epoch_def Let_def py_int_dec)
qed

lemma read_written_epoch: "read_current_epoch (Some (int_str (int n))) = int n"
proof -
  have "strip (dec n) = dec n" using dec_digits(1) [of n] by (intro strip_no_space) (auto simp: list_all_iff dest: is_digit_ascii)
  then show ?thesis using dec_digits(2) [of n] by (simp add: read_current_epoch_def int_str_def py_int_dec)
qed

section \<open>Calls of the model\<close>

datatype http = Http_json json | Http_not_json | Http_status nat | Transport

record proxy_cfg =
  api_key :: string
  api_base :: string
  attempts :: int
  timeout_ok :: bool
  num_text :: "string \<Rightarrow> bool"

text \<open>\<^verbatim>\<open>result["choices"][0]\<close> and its text; any other shape raises.\<close>

definition completion :: "json \<Rightarrow> (dict \<times> dict \<times> string) option" where
  "completion result = (case result of
       JObj r \<Rightarrow> (case map_of r ''choices'' of
           Some (JList (JObj choice # _)) \<Rightarrow> (case map_of choice ''message'' of
               Some (JObj m) \<Rightarrow> (case map_of m ''content'' of Some (JStr content) \<Rightarrow> Some (r, choice, content) | _ \<Rightarrow> None)
             | _ \<Rightarrow> None)
         | _ \<Rightarrow> None)
     | _ \<Rightarrow> None)"

definition invalid_response :: py_error where
  "invalid_response = RuntimeError ''LLM returned an invalid chat-completions response''"

text \<open>The attempts that are left, with the number of the next one; the answers are indexed by the attempt. The second component counts the requests.\<close>

fun chat_loop :: "(nat \<Rightarrow> http) \<Rightarrow> nat \<Rightarrow> nat \<Rightarrow> dict result \<times> nat" where
  "chat_loop answer attempt 0 = (Inl (RuntimeError []), attempt)"
| "chat_loop answer attempt (Suc left) =
     (let retry = (\<lambda>reason. if left = 0
            then (Inl (RuntimeError (''LLM unavailable after '' @ dec (Suc attempt) @ '' attempts ('' @ reason @ '')'')), Suc attempt)
            else chat_loop answer (Suc attempt) left) in
      case answer attempt of
        Http_json result \<Rightarrow> (case completion result of
            Some (r, choice, content) \<Rightarrow> (Inr [(''ok'', JBool True), (''content'', JStr content), (''usage'', jget_or r ''usage'' (JObj [])),
              (''finish_reason'', jget choice ''finish_reason'')], Suc attempt)
          | None \<Rightarrow> (Inl invalid_response, Suc attempt))
      | Http_not_json \<Rightarrow> (Inl invalid_response, Suc attempt)
      | Http_status status \<Rightarrow>
          if status \<notin> {408, 429} \<and> status < 500 then (Inl (RuntimeError (''LLM HTTP '' @ dec status @ ''; request rejected'')), Suc attempt)
          else retry (''HTTP '' @ dec status)
      | Transport \<Rightarrow> retry ''transport failure'')"

definition chat :: "proxy_cfg \<Rightarrow> (nat \<Rightarrow> http) \<Rightarrow> dict result \<times> nat" where
  "chat cfg answer =
     (if api_key cfg = [] \<or> api_key cfg = ''EMPTY'' \<or> api_base cfg = [] then (Inl (ValueError ''API_KEY and API_BASE must be configured''), 0)
      else if \<not> (1 \<le> attempts cfg \<and> attempts cfg \<le> 10) \<or> \<not> timeout_ok cfg then (Inl (ValueError ''invalid NPD retry/timeout configuration''), 0)
      else chat_loop answer 0 (nat (attempts cfg)))"

text \<open>The response to a request: every exception becomes a response with an error.\<close>

definition respond :: "proxy_cfg \<Rightarrow> (json \<Rightarrow> nat \<Rightarrow> http) \<Rightarrow> dict \<Rightarrow> dict" where
  "respond cfg answer req =
     (let r = (case float_error (num_text cfg) (jget_or req ''temperature'' (JInt 0)) of
           Some e \<Rightarrow> Inl e
         | None \<Rightarrow> andthen (to_int (jget_or req ''max_tokens'' (JInt 4000))) (\<lambda>_. fst (chat cfg (answer (jget_or req ''messages'' (JList []))))))
      in case r of Inr resp \<Rightarrow> resp | Inl e \<Rightarrow> [(''ok'', JBool False), (''content'', JStr []), (''error'', JStr (err_name e @ '': '' @ err_msg e))])"

section \<open>The daemon\<close>

text \<open>Directories and FIFOs. The files were written by \<^verbatim>\<open>_atomic_write_json\<close>, so a name shows all of a payload or nothing.\<close>

record npd_files =
  req_dir :: "(string \<times> dict) list"
  resp_dir :: "(string \<times> dict) list"
  req_fifo :: string
  notify_fifo :: string
  epoch_file :: "string option"

text \<open>A call of \<^verbatim>\<open>_process\<close> in a thread of the pool: what is left to do, between the accesses to shared files.\<close>

datatype task =
    Load string
  | Chat string dict
  | Check string dict
  | Publish string dict
  | Notify string

record npd =
  npd_buf :: string
  tasks :: "task list"

fun rid_lines :: "string \<Rightarrow> string \<Rightarrow> string list \<times> string" where
  "rid_lines cur [] = ([], cur)"
| "rid_lines cur (c # s) = (if c = LF then (case rid_lines [] s of (ls, rest) \<Rightarrow> (cur # ls, rest)) else rid_lines (cur @ [c]) s)"

text \<open>One round of the loop in \<^verbatim>\<open>main\<close> that finds data: every complete line becomes a task.\<close>

definition npd_dispatch :: "npd \<times> npd_files \<Rightarrow> npd \<times> npd_files" where
  "npd_dispatch = (\<lambda>(d, f).
     let chunk = chunk_of (req_fifo f); (ls, rest) = rid_lines [] (npd_buf d @ chunk) in
     (d\<lparr>npd_buf := rest, tasks := tasks d @ map Load (filter (\<lambda>r. r \<noteq> []) (map strip ls))\<rparr>, f\<lparr>req_fifo := drop (length chunk) (req_fifo f)\<rparr>))"

text \<open>Failures of the accesses to shared files.\<close>

record io_faults =
  unlink_fails :: bool
  write_fails :: bool
  notify_fails :: bool

definition epoch_drops :: "string \<Rightarrow> npd_files \<Rightarrow> bool" where
  "epoch_drops rid f \<longleftrightarrow> (case parse_rid_epoch rid of None \<Rightarrow> False | Some sub_epoch \<Rightarrow> sub_epoch < read_current_epoch (epoch_file f))"

fun proxy_step :: "proxy_cfg \<Rightarrow> (json \<Rightarrow> nat \<Rightarrow> http) \<Rightarrow> io_faults \<Rightarrow> task \<Rightarrow> npd_files \<Rightarrow> task list \<times> npd_files" where
  "proxy_step cfg answer io (Load rid) f = (case map_of (req_dir f) rid of
       None \<Rightarrow> ([], f)
     | Some req \<Rightarrow> ([Chat rid req], if unlink_fails io then f else f\<lparr>req_dir := AList.delete rid (req_dir f)\<rparr>))"
| "proxy_step cfg answer io (Chat rid req) f = ([Check rid (respond cfg answer req)], f)"
| "proxy_step cfg answer io (Check rid resp) f = (if epoch_drops rid f then [] else [Publish rid resp], f)"
| "proxy_step cfg answer io (Publish rid resp) f = (if write_fails io then ([], f) else ([Notify rid], f\<lparr>resp_dir := AList.update rid resp (resp_dir f)\<rparr>))"
| "proxy_step cfg answer io (Notify rid) f = ([], if notify_fails io then f else f\<lparr>notify_fifo := notify_fifo f @ rid @ [LF]\<rparr>)"

section \<open>The client\<close>

text \<open>\<^verbatim>\<open>submit\<close>, with a fresh \<^verbatim>\<open>uuid4\<close>; an exempt identifier carries no epoch.\<close>

definition submit :: "json \<Rightarrow> json \<Rightarrow> json \<Rightarrow> bool \<Rightarrow> string \<Rightarrow> npd_files \<Rightarrow> (string \<times> int) \<times> npd_files" where
  "submit msgs temperature max_tokens epoch_exempt uuid f =
     (let epoch = (if epoch_exempt then -1 else read_current_epoch (epoch_file f));
          rid = (if epoch_exempt then uuid else make_rid epoch uuid) in
      ((rid, epoch), f\<lparr>req_dir := AList.update rid [(''messages'', msgs), (''temperature'', temperature), (''max_tokens'', max_tokens)] (req_dir f),
         req_fifo := req_fifo f @ rid @ [LF]\<rparr>))"

datatype poll_result = Response dict | Cancelled | Again

text \<open>One round of the loop of \<^verbatim>\<open>wait\<close>; the loop ends with \<^verbatim>\<open>None\<close> at its deadline.\<close>

definition wait_poll :: "string \<Rightarrow> int \<Rightarrow> bool \<Rightarrow> npd_files \<Rightarrow> poll_result \<times> npd_files" where
  "wait_poll rid submit_epoch stays f =
     (case map_of (resp_dir f) rid of
        Some resp \<Rightarrow> (Response resp, if stays then f else f\<lparr>resp_dir := AList.delete rid (resp_dir f)\<rparr>)
      | None \<Rightarrow> (if submit_epoch \<ge> 0 \<and> read_current_epoch (epoch_file f) > submit_epoch then Cancelled else Again, f))"

section \<open>The controller\<close>

text \<open>\<^verbatim>\<open>_persist_epoch\<close> and \<^verbatim>\<open>_unlink_pending_resp_files\<close> of the controller, on these files; unlinking may fail for some names.\<close>

definition persist_epoch :: "nat \<Rightarrow> npd_files \<Rightarrow> npd_files" where
  "persist_epoch n f = f\<lparr>epoch_file := Some (int_str (int n))\<rparr>"

definition unlink_responses :: "(string \<Rightarrow> bool) \<Rightarrow> npd_files \<Rightarrow> npd_files" where
  "unlink_responses stays f = f\<lparr>resp_dir := filter (\<lambda>(rid, _). stays rid) (resp_dir f)\<rparr>"

section \<open>Attempts\<close>

definition retryable :: "http \<Rightarrow> bool" where
  "retryable a = (case a of Transport \<Rightarrow> True | Http_status n \<Rightarrow> n \<in> {408, 429} \<or> 500 \<le> n | _ \<Rightarrow> False)"

definition good_response :: "http \<Rightarrow> dict \<Rightarrow> bool" where
  "good_response a resp \<longleftrightarrow> (\<exists>j c ch content. a = Http_json j \<and> completion j = Some (c, ch, content)
     \<and> resp = [(''ok'', JBool True), (''content'', JStr content), (''usage'', jget_or c ''usage'' (JObj [])), (''finish_reason'', jget ch ''finish_reason'')])"

lemma chat_loop_last:
  assumes "\<not> retryable (answer attempt) \<or> left = 0"
  shows "snd (chat_loop answer attempt (Suc left)) = Suc attempt"
    "fst (chat_loop answer attempt (Suc left)) = Inr resp \<longleftrightarrow> good_response (answer attempt) resp"
  using assms by (auto simp: retryable_def Let_def good_response_def split: http.splits option.splits)

lemma chat_loop_retry:
  "\<lbrakk>retryable (answer attempt); left \<noteq> 0\<rbrakk> \<Longrightarrow> chat_loop answer attempt (Suc left) = chat_loop answer (Suc attempt) left"
  by (auto simp: retryable_def Let_def split: http.splits)

lemma chat_loop_calls:
  assumes "chat_loop answer attempt (Suc left) = (r, calls)"
  shows "attempt < calls \<and> calls \<le> attempt + Suc left \<and> (\<forall>i. attempt \<le> i \<longrightarrow> Suc i < calls \<longrightarrow> retryable (answer i))
    \<and> (calls < attempt + Suc left \<longrightarrow> \<not> retryable (answer (calls - 1))) \<and> (\<forall>resp. r = Inr resp \<longleftrightarrow> good_response (answer (calls - 1)) resp)"
  using assms
proof (induction left arbitrary: attempt)
  case 0
  then show ?case using chat_loop_last [of answer attempt 0] by auto
next
  case (Suc left)
  show ?case
  proof (cases "retryable (answer attempt)")
    case True
    with Suc.prems have "chat_loop answer (Suc attempt) (Suc left) = (r, calls)" by (simp only: chat_loop_retry)
    note IH = Suc.IH [OF this]
    then have "\<forall>i. attempt \<le> i \<longrightarrow> Suc i < calls \<longrightarrow> retryable (answer i)" using True by (metis Suc_leI le_neq_implies_less)
    with IH show ?thesis by simp
  next
    case False
    then show ?thesis using chat_loop_last [of answer attempt "Suc left"] Suc.prems by auto
  qed
qed

text \<open>
  The response to a request of an earlier epoch is dropped once the controller has written a later one; that of a request of the current epoch is not.
\<close>

theorem epoch_filter:
  "proxy_step cfg answer io (Check (make_rid (int n) uuid) d) (persist_epoch m f) =
     (if n < m then [] else [Publish (make_rid (int n) uuid) d], persist_epoch m f)"
  using read_written_epoch [of m] by (simp add: epoch_drops_def parse_make_rid persist_epoch_def)

text \<open>
  C40. A call of the model asks the endpoint at most ten times and at most as often as configured, and at least once. It asks again
  only after a timeout, a rate limit, a server error or a transport failure, and stops as soon as the endpoint answers anything else. It succeeds exactly when the last answer is
  a well-formed completion, and then the response holds the text of that completion.
\<close>

theorem chat_bounded:
  assumes "api_key cfg \<noteq> []" "api_key cfg \<noteq> ''EMPTY''" "api_base cfg \<noteq> []" "1 \<le> attempts cfg" "attempts cfg \<le> 10" "timeout_ok cfg"
    and "chat cfg answer = (r, calls)"
  shows "1 \<le> calls \<and> int calls \<le> attempts cfg \<and> (\<forall>i < calls - 1. retryable (answer i))
    \<and> (int calls < attempts cfg \<longrightarrow> \<not> retryable (answer (calls - 1))) \<and> (\<forall>resp. r = Inr resp \<longleftrightarrow> good_response (answer (calls - 1)) resp)"
proof -
  obtain left where l: "nat (attempts cfg) = Suc left" using assms(4) by (cases "nat (attempts cfg)") auto
  have "chat_loop answer 0 (Suc left) = (r, calls)" using assms by (simp add: chat_def l)
  from chat_loop_calls [OF this] show ?thesis using l by auto
qed

definition wit_cfg :: proxy_cfg where
  "wit_cfg = \<lparr>api_key = ''k'', api_base = ''u'', attempts = 3, timeout_ok = True, num_text = (\<lambda>_. False)\<rparr>"

definition wit_answer :: "nat \<Rightarrow> http" where
  "wit_answer n = (if n = 0 then Http_status 429 else Http_json (JObj [(''choices'', JList [JObj [(''message'', JObj [(''content'', JStr ''hi'')])]])]))"

theorem chat_bounded_witness: "\<exists>resp. chat wit_cfg wit_answer = (Inr resp, 2) \<and> good_response (wit_answer 1) resp"
proof -
  obtain r where r: "chat wit_cfg wit_answer = (Inr r, 2)" by (simp add: chat_def wit_cfg_def wit_answer_def numeral_eq_Suc Let_def completion_def)
  have c: "api_key wit_cfg \<noteq> []" "api_key wit_cfg \<noteq> ''EMPTY''" "api_base wit_cfg \<noteq> []" "1 \<le> attempts wit_cfg" "attempts wit_cfg \<le> 10" "timeout_ok wit_cfg"
    by code_simp+
  from chat_bounded [OF c r] r show ?thesis by auto
qed

text \<open>The sweep of the controller removes the response to an exempt request too.\<close>

theorem sweep_removes_exempt:
  "\<not> stays rid \<Longrightarrow> fst (wait_poll rid (-1) b (unlink_responses stays (f\<lparr>resp_dir := AList.update rid resp (resp_dir f)\<rparr>))) = Again"
  by (simp add: wait_poll_def unlink_responses_def map_of_filter_pair)

end
