(* ===== verification/Agent_Worker.thy ===== *)
theory Agent_Worker
  imports Worker_Actions Llm_Proxy
begin

text \<open>
  The worker in the sandbox, \<^verbatim>\<open>agent/worker/agent_worker.py\<close>: one thread that takes commands of the host from a FIFO, asks the model through the
  files of \<open>Llm_Proxy\<close>, carries out the action that the model chose and keeps the conversation. One round of its loop is a function of its state and of
  the files and FIFOs around it. The parsing and printing of JSON texts are arguments. Process identifiers, clock readings, the log, the
  threads of imported libraries and the endpoint of the warm templates are left out.
\<close>

section \<open>The state\<close>

type_synonym message = "string \<times> json"

record worker =
  w_step :: nat
  w_repo :: json
  w_task :: json
  w_conv :: "message list"
  w_last_action :: json
  w_last_obs :: json
  w_finished :: bool
  w_phase :: string
  w_ready :: bool
  w_in :: string
  w_notify :: string
  w_pending :: "(string \<times> json) list"

definition new_worker :: worker where
  "new_worker = \<lparr>w_step = 0, w_repo = JNull, w_task = JNull, w_conv = [], w_last_action = JNull, w_last_obs = JNull, w_finished = False,
     w_phase = ''ready'', w_ready = False, w_in = [], w_notify = [], w_pending = []\<rparr>"

text \<open>What the worker shares with others: the two FIFOs of the host, the files of the proxy, and the file system.\<close>

record worker_world =
  x_in :: string
  x_out :: string
  x_files :: npd_files
  x_fs :: file_tree

datatype send_fault = Send_ok | No_file py_error | No_line py_error

record worker_env =
  v_act :: action_env
  v_loads :: "string \<Rightarrow> json result"
  v_dumps :: "dict \<Rightarrow> string"
  v_decode :: "string \<Rightarrow> json option"
  v_obs_chars :: nat
  v_turns :: int
  v_uuid :: string
  v_send :: send_fault
  v_stays :: bool
  v_clear :: bool

section \<open>Replies\<close>

text \<open>A write to a FIFO that does not block, as \<^verbatim>\<open>pipe(7)\<close> describes it: up to 4096 bytes go in at once or not at all, more may go in part.\<close>

definition pipe_write :: "string \<Rightarrow> string \<Rightarrow> (nat, string) eff" where
  "pipe_write bytes pipe =
     (let room = 65536 - int (length pipe) in
      if int (length bytes) \<le> room then (Inr (length bytes), pipe @ bytes)
      else if length bytes \<le> 4096 \<or> room \<le> 0 then (Inl (OSError ''[Errno 11] Resource temporarily unavailable''), pipe)
      else (Inr (nat room), pipe @ take (nat room) bytes))"

definition reply :: "worker_env \<Rightarrow> dict \<Rightarrow> worker \<times> worker_world \<Rightarrow> (unit, worker \<times> worker_world) eff" where
  "reply env obj = (\<lambda>(w, x). case pipe_write (v_dumps env obj @ [LF]) (x_out x) of
       (Inl e, _) \<Rightarrow> (Inl e, (w, x))
     | (Inr _, out) \<Rightarrow> (Inr (), (w, x\<lparr>x_out := out\<rparr>)))"

definition summary :: "worker \<Rightarrow> json" where
  "summary w = JObj [(''step'', JInt (int (w_step w))), (''repo_path'', w_repo w), (''n_messages'', JInt (int (length (w_conv w)))),
     (''last_action'', w_last_action w), (''finished'', JBool (w_finished w)), (''phase'', JStr (w_phase w))]"

section \<open>The conversation\<close>

text \<open>\<^verbatim>\<open>xs[i:]\<close>.\<close>

definition slice_from :: "int \<Rightarrow> 'a list \<Rightarrow> 'a list" where
  "slice_from i xs = (if i < 0 then drop (length xs - nat (- i)) xs else drop (nat i) xs)"

definition truncate :: "nat \<Rightarrow> string \<Rightarrow> string" where
  "truncate limit s =
     (if length s \<le> limit then s
      else let half = limit div 2 in
        take half s @ LF # ''...[truncated '' @ dec (length s - limit) @ '' chars]...'' @ LF # slice_from (- int half) s)"

definition truncate_value :: "nat \<Rightarrow> json \<Rightarrow> json result" where
  "truncate_value limit j = (case j of
       JNull \<Rightarrow> Inr (JStr [])
     | JStr s \<Rightarrow> Inr (JStr (truncate limit s))
     | JList xs \<Rightarrow> if length xs \<le> limit then Inr j else Inl (TypeError ''can only concatenate list (not str) to list'')
     | JObj d \<Rightarrow> if length d \<le> limit then Inr j else Inl (TypeError ''unhashable type: slice'')
     | _ \<Rightarrow> Inl (TypeError (''object of type '' @ py_repr (type_of j) @ '' has no len()'')))"

definition window :: "int \<Rightarrow> message list \<Rightarrow> message list" where
  "window turns conv =
     (let system = take 1 conv; body = drop 1 conv in
      if int (length body) > 2 * turns then system @ take 1 body @ slice_from (- (2 * turns - 1)) body else system @ body)"

text \<open>\<^verbatim>\<open>_context_messages\<close>, and the message that an observation of the host adds to the conversation.\<close>

definition extra_message :: "worker_env \<Rightarrow> json \<Rightarrow> message list result" where
  "extra_message env obs = (if truthy obs then andthen (truncate_value (v_obs_chars env) obs) (\<lambda>c. Inr [(''user'', c)]) else Inr [])"

definition context_messages :: "worker_env \<Rightarrow> message list \<Rightarrow> json \<Rightarrow> message list result" where
  "context_messages env conv obs = (if conv = [] then Inr [] else andthen (extra_message env obs) (\<lambda>extra. Inr (window (v_turns env) conv @ extra)))"

definition msgs_json :: "message list \<Rightarrow> json" where
  "msgs_json ms = JList (map (\<lambda>(role, content). JObj [(''role'', JStr role), (''content'', content)]) ms)"

section \<open>Commands\<close>

definition system_prompt :: "string \<Rightarrow> string" where
  "system_prompt repo = join_with [LF]
    [''You are a software engineer fixing a bug in a repository at '' @ repo @ ''.'',
     [],
     ''Work in this loop: locate the bug (ViewCode / GrepTool / ListFiles), edit it'',
     ''(StringReplace / ReplaceLines / CreateFile / ApplyPatch), verify (Bash, e.g.'',
     ''running the failing test), then emit finish.'',
     [],
     ''Reply with EXACTLY ONE JSON object and nothing else, of the form:'',
     ''  {\"action\": \"<ActionName>\", \"thought\": \"<brief reasoning>\", <action args...>}'',
     [],
     ''Available actions:'',
     catalog,
     [],
     ''Rules:'',
     ''- Use relative paths inside the repository.'',
     ''- old_str in StringReplace must match the file EXACTLY (copy from ViewCode).'',
     ''- Do not repeat the same failing action; if an edit's old_str is not found,'',
     ''  ViewCode the region first, then retry.'',
     ''- When the fix is applied and verified, emit {\"action\": \"finish\"}.'',
     []]"

definition do_init :: "dict \<Rightarrow> worker \<Rightarrow> worker" where
  "do_init req w =
     (let repo = por (jget req ''repo_path'') (JStr ''/testbed''); task = por (jget req ''task'') (JStr []) in
      w\<lparr>w_repo := repo, w_task := task, w_step := 0, w_finished := False, w_last_action := JNull, w_last_obs := JNull,
        w_conv := [(''system'', JStr (system_prompt (json_str repo))), (''user'', JStr (''Task:'' @ LF # json_str task))],
        w_phase := ''ready'', w_ready := True\<rparr>)"

text \<open>\<^verbatim>\<open>_send_llm_request\<close>.\<close>

definition send_request :: "worker_env \<Rightarrow> message list \<Rightarrow> json \<Rightarrow> npd_files \<Rightarrow> (string, npd_files) eff" where
  "send_request env ms temperature f =
     (let rid = make_rid (read_current_epoch (epoch_file f)) (v_uuid env);
          written = f\<lparr>req_dir := AList.update rid [(''messages'', msgs_json ms), (''temperature'', temperature), (''max_tokens'', JInt 4000)] (req_dir f)\<rparr> in
      case v_send env of
        Send_ok \<Rightarrow> (Inr rid, written\<lparr>req_fifo := req_fifo f @ rid @ [LF]\<rparr>)
      | No_file e \<Rightarrow> (Inl e, f)
      | No_line e \<Rightarrow> (Inl e, written))"

definition do_step :: "worker_env \<Rightarrow> dict \<Rightarrow> worker \<times> worker_world \<Rightarrow> (unit, worker \<times> worker_world) eff" where
  "do_step env req = (\<lambda>(w, x).
     let ctrl_id = jget req ''ctrl_id''; refuse = (\<lambda>msg. reply env [(''ok'', JBool False), (''ctrl_id'', ctrl_id), (''error'', JStr msg)] (w, x)) in
     if \<not> w_ready w then refuse ''not initialized (send ctrl=init first)''
     else case float_error (float_text (v_act env)) (jget_or req ''temperature'' (JInt 0)) of
         Some e \<Rightarrow> (Inl e, (w, x))
       | None \<Rightarrow> bind_eff (context_messages env (w_conv w) (jget req ''observation''), (w, x)) (\<lambda>ms (w, x).
           if ms = [] then refuse ''no conversation''
           else bind_eff (extra_message env (jget req ''observation''), (w, x)) (\<lambda>extra (w, x).
             let w = w\<lparr>w_conv := w_conv w @ extra\<rparr> in
             case send_request env ms (jget_or req ''temperature'' (JInt 0)) (x_files x) of
               (Inl e, f) \<Rightarrow> (Inl e, (w, x\<lparr>x_files := f\<rparr>))
             | (Inr rid, f) \<Rightarrow> (Inr (), (w\<lparr>w_pending := AList.update rid ctrl_id (w_pending w), w_phase := ''awaiting_llm''\<rparr>, x\<lparr>x_files := f\<rparr>)))))"

definition handle_ctrl :: "worker_env \<Rightarrow> dict \<Rightarrow> worker \<times> worker_world \<Rightarrow> (unit, worker \<times> worker_world) eff" where
  "handle_ctrl env req = (\<lambda>(w, x).
     let ctrl = jget req ''ctrl''; ctrl_id = jget req ''ctrl_id'' in
     if ctrl = JStr ''state'' then reply env [(''ok'', JBool True), (''ctrl_id'', ctrl_id), (''state'', summary w)] (w, x)
     else if ctrl = JStr ''clear_soft_dirty'' then reply env [(''ok'', JBool True), (''ctrl_id'', ctrl_id), (''cleared'', JBool (v_clear env))] (w, x)
     else if ctrl = JStr ''init'' then
       let w = do_init req w in
       reply env [(''ok'', JBool True), (''ctrl_id'', ctrl_id), (''state'', summary w), (''n_actions'', JInt (int (length ACTIONS)))] (w, x)
     else if ctrl = JStr ''step'' then do_step env req (w, x)
     else reply env [(''ok'', JBool False), (''ctrl_id'', ctrl_id), (''error'', JStr (''unknown ctrl '' @ json_repr ctrl))] (w, x))"

definition handle_line :: "worker_env \<Rightarrow> string \<Rightarrow> worker \<times> worker_world \<Rightarrow> (unit, worker \<times> worker_world) eff" where
  "handle_line env line s = (case v_loads env line of
       Inl _ \<Rightarrow> (Inr (), s)
     | Inr (JObj req) \<Rightarrow> handle_ctrl env req s
     | Inr j \<Rightarrow> (Inl (AttributeError (py_repr (type_of j) @ '' object has no attribute '' @ py_repr ''get'')), s))"

section \<open>Responses of the model\<close>

text \<open>\<^verbatim>\<open>_extract_first_json\<close>: the first object that parses, after the fences of a code block.\<close>

fun first_object :: "(string \<Rightarrow> json option) \<Rightarrow> string \<Rightarrow> dict option" where
  "first_object decode [] = None"
| "first_object decode (c # s) =
     (if c = CHR ''{'' then (case decode (c # s) of Some (JObj d) \<Rightarrow> Some d | _ \<Rightarrow> first_object decode s) else first_object decode s)"

definition drop_fence :: "string \<Rightarrow> string \<Rightarrow> string" where
  "drop_fence fence s = (if prefix fence s then dropWhile is_space (drop (length fence) s) else s)"

definition unfenced :: "string \<Rightarrow> string" where
  "unfenced s = (let s = drop_fence ''```'' (drop_fence ''```json'' (strip s)) in
     if suffix ''```'' s then rev (dropWhile is_space (rev (take (length s - 3) s))) else s)"

definition extract_first_json :: "worker_env \<Rightarrow> string \<Rightarrow> dict option" where
  "extract_first_json env s = first_object (v_decode env) (unfenced s)"

text \<open>\<^verbatim>\<open>_execute_action\<close> with the path of the repository that \<^verbatim>\<open>init\<close> set.\<close>

definition run_action :: "worker_env \<Rightarrow> json \<Rightarrow> dict \<Rightarrow> file_tree \<Rightarrow> answer \<times> file_tree" where
  "run_action env repo a fs = (case repo of
       JStr path \<Rightarrow> execute_action ((v_act env)\<lparr>repo_path := path\<rparr>) a fs
     | _ \<Rightarrow> dispatch (\<lambda>_. (Inl (TypeError (''expected str, bytes or os.PathLike object, not '' @ type_of repo)), fs)) a fs)"

definition read_response :: "bool \<Rightarrow> string \<Rightarrow> npd_files \<Rightarrow> dict option \<times> npd_files" where
  "read_response stays rid f = (case map_of (resp_dir f) rid of
       None \<Rightarrow> (None, f)
     | Some resp \<Rightarrow> (Some resp, if stays then f else f\<lparr>resp_dir := AList.delete rid (resp_dir f)\<rparr>))"

text \<open>The step that a response completes: the answer of the model and the observation join the conversation, and the host gets a reply.\<close>

definition observed :: "worker_env \<Rightarrow> string \<Rightarrow> json \<Rightarrow> file_tree \<Rightarrow> answer \<times> file_tree" where
  "observed env content repo fs = (case extract_first_json env content of
       None \<Rightarrow> ((''Could not parse a JSON action from your reply. Reply with exactly one JSON object.'', False), fs)
     | Some a \<Rightarrow> run_action env repo a fs)"

definition step_reply :: "worker_env \<Rightarrow> json \<Rightarrow> string \<Rightarrow> nat \<Rightarrow> answer \<Rightarrow> dict" where
  "step_reply env ctrl_id content step result =
     (let action = extract_first_json env content in
      [(''ok'', JBool True), (''ctrl_id'', ctrl_id), (''step'', JInt (int step)), (''action'', case action of Some a \<Rightarrow> JObj a | None \<Rightarrow> JNull),
       (''observation'', JStr (truncate (v_obs_chars env) (fst result))), (''finished'', JBool (snd result)),
       (''raw'', if action = None then JStr (take 2000 content) else JNull)])"

definition finish_step :: "worker_env \<Rightarrow> json \<Rightarrow> string \<Rightarrow> worker \<times> worker_world \<Rightarrow> (unit, worker \<times> worker_world) eff" where
  "finish_step env ctrl_id content = (\<lambda>(w, x).
     let w = w\<lparr>w_conv := w_conv w @ [(''assistant'', JStr content)]\<rparr>;
         (result, fs) = observed env content (w_repo w) (x_fs x);
         obs = truncate (v_obs_chars env) (fst result);
         w = w\<lparr>w_conv := w_conv w @ [(''user'', JStr (''Observation:'' @ LF # obs))], w_step := Suc (w_step w),
           w_last_action := (case extract_first_json env content of Some a \<Rightarrow> JObj a | None \<Rightarrow> JNull), w_last_obs := JStr obs, w_finished := snd result\<rparr> in
     reply env (step_reply env ctrl_id content (w_step w) result) (w, x\<lparr>x_fs := fs\<rparr>))"

definition handle_note :: "worker_env \<Rightarrow> string \<Rightarrow> worker \<times> worker_world \<Rightarrow> (unit, worker \<times> worker_world) eff" where
  "handle_note env rid = (\<lambda>(w, x).
     case (if rid = [] then None else map_of (w_pending w) rid) of
       None \<Rightarrow> (Inr (), (w, x))
     | Some ctrl_id \<Rightarrow>
         let (resp, f) = read_response (v_stays env) rid (x_files x);
             s = (w\<lparr>w_pending := AList.delete rid (w_pending w), w_phase := ''ready''\<rparr>, x\<lparr>x_files := f\<rparr>);
             fails = (\<lambda>err. reply env [(''ok'', JBool False), (''ctrl_id'', ctrl_id), (''error'', JStr (''llm: '' @ json_str err))] s) in
         case resp of
           None \<Rightarrow> fails (JStr ''resp unavailable'')
         | Some d \<Rightarrow>
             if \<not> truthy (jget d ''ok'') then fails (jget_or d ''error'' (JStr ''resp unavailable''))
             else bind_eff (need_str ''strip'' (por (jget_or d ''content'' (JStr [])) (JStr [])), s) (finish_step env ctrl_id))"

text \<open>The lines of the notify buffer, one after the other; an exception leaves the lines behind it in the buffer.\<close>

definition unlines :: "string list \<Rightarrow> string \<Rightarrow> string" where
  "unlines ls rest = concat (map (\<lambda>l. l @ [LF]) ls) @ rest"

fun note_loop :: "worker_env \<Rightarrow> string list \<Rightarrow> string \<Rightarrow> worker \<times> worker_world \<Rightarrow> (unit, worker \<times> worker_world) eff" where
  "note_loop env [] rest (w, x) = (Inr (), (w\<lparr>w_notify := rest\<rparr>, x))"
| "note_loop env (l # ls) rest (w, x) = bind_eff (handle_note env (strip l) (w\<lparr>w_notify := unlines ls rest\<rparr>, x)) (\<lambda>_. note_loop env ls rest)"

section \<open>The loop\<close>

definition take_command :: "worker_env \<Rightarrow> worker \<times> worker_world \<Rightarrow> (unit, worker \<times> worker_world) eff" where
  "take_command env = (\<lambda>(w, x).
     let chunk = (if LF \<in> set (w_in w) then [] else chunk_of (x_in x));
         buf = w_in w @ chunk; x = x\<lparr>x_in := drop (length chunk) (x_in x)\<rparr> in
     if LF \<notin> set buf then (Inr (), (w\<lparr>w_in := buf\<rparr>, x))
     else handle_line env (takeWhile (\<lambda>c. c \<noteq> LF) buf) (w\<lparr>w_in := drop 1 (dropWhile (\<lambda>c. c \<noteq> LF) buf)\<rparr>, x))"

definition take_notes :: "worker_env \<Rightarrow> worker \<times> worker_world \<Rightarrow> (unit, worker \<times> worker_world) eff" where
  "take_notes env = (\<lambda>(w, x).
     let f = x_files x; chunk = chunk_of (notify_fifo f); (ls, rest) = rid_lines [] (w_notify w @ chunk) in
     note_loop env ls rest (w, x\<lparr>x_files := f\<lparr>notify_fifo := drop (length chunk) (notify_fifo f)\<rparr>\<rparr>))"

text \<open>
  One round. With a line in the input buffer nothing else is looked at; otherwise \<^verbatim>\<open>select\<close> tells which FIFOs have data. No command is taken
  while a response is outstanding. Exceptions are logged and the loop goes on.
\<close>

definition iterate :: "worker_env \<Rightarrow> worker \<times> worker_world \<Rightarrow> worker \<times> worker_world" where
  "iterate env = (\<lambda>(w, x).
     let buffered = LF \<in> set (w_in w);
         in_ready = (buffered \<or> x_in x \<noteq> []); notify_ready = (\<not> buffered \<and> notify_fifo (x_files x) \<noteq> []) in
     if in_ready \<and> w_pending w = [] then snd (take_command env (w, x))
     else if notify_ready then snd (take_notes env (w, x))
     else (w, x))"

section \<open>What a round does to the worker\<close>

lemma reply_worker [simp]: "fst (snd (reply env obj s)) = fst s"
  by (simp add: reply_def split: prod.splits sum.splits)

lemma reply_world [simp]: "x_files (snd (snd (reply env obj s))) = x_files (snd s)" "x_fs (snd (snd (reply env obj s))) = x_fs (snd s)"
  "x_in (snd (snd (reply env obj s))) = x_in (snd s)"
  by (auto simp: reply_def split: prod.splits sum.splits)

text \<open>The ways in which a round changes what the worker knows, apart from its buffers.\<close>

definition core :: "worker \<Rightarrow> worker" where
  "core w = w\<lparr>w_in := [], w_notify := []\<rparr>"

lemma core_simps [simp]: "core (w\<lparr>w_in := a\<rparr>) = core w" "core (w\<lparr>w_notify := a\<rparr>) = core w" "core (core w) = core w"
  by (simp_all add: core_def)

definition asks :: "worker_env \<Rightarrow> worker \<times> worker_world \<Rightarrow> worker \<times> worker_world \<Rightarrow> bool" where
  "asks env s s' \<longleftrightarrow> (\<exists>extra f ms temperature ctrl_id. w_ready (fst s) \<and> w_conv (fst s) \<noteq> [] \<and> length extra \<le> 1 \<and> (\<forall>m \<in> set extra. fst m = ''user'')
     \<and> ms = window (v_turns env) (w_conv (fst s)) @ extra
     \<and> ((\<exists>e. send_request env ms temperature (x_files (snd s)) = (Inl e, f) \<and> core (fst s') = core ((fst s)\<lparr>w_conv := w_conv (fst s) @ extra\<rparr>))
       \<or> (\<exists>rid. send_request env ms temperature (x_files (snd s)) = (Inr rid, f)
           \<and> core (fst s') = core ((fst s)\<lparr>w_conv := w_conv (fst s) @ extra, w_pending := AList.update rid ctrl_id (w_pending (fst s)), w_phase := ''awaiting_llm''\<rparr>)))
     \<and> x_files (snd s') = f)"

lemma extra_user: "extra_message env obs = Inr extra \<Longrightarrow> length extra \<le> 1 \<and> (\<forall>m \<in> set extra. fst m = ''user'')"
  by (auto simp: extra_message_def elim!: andthen_InrE split: if_splits)

lemma do_step_cases:
  "(core (fst (snd (do_step env req s))) = core (fst s) \<and> x_files (snd (snd (do_step env req s))) = x_files (snd s))
    \<or> asks env s (snd (do_step env req s))"
proof -
  obtain w x where s: "s = (w, x)" by fastforce
  define ctrl_id where "ctrl_id = jget req ''ctrl_id''"
  show ?thesis
  proof (cases "w_ready w \<and> float_error (float_text (v_act env)) (jget_or req ''temperature'' (JInt 0)) = None")
    case False
    then show ?thesis by (auto simp: s do_step_def Let_def split: option.splits)
  next
    case ready: True
    show ?thesis
    proof (cases "context_messages env (w_conv w) (jget req ''observation'')")
      case (Inl e)
      then show ?thesis using ready by (simp add: s do_step_def Let_def)
    next
      case (Inr ms)
      show ?thesis
      proof (cases "ms = []")
        case True
        then show ?thesis using ready Inr by (simp add: s do_step_def Let_def)
      next
        case False
        then obtain extra where e: "extra_message env (jget req ''observation'') = Inr extra" "ms = window (v_turns env) (w_conv w) @ extra" "w_conv w \<noteq> []"
          using Inr by (auto simp: context_messages_def elim!: andthen_InrE split: if_splits)
        obtain r f where sr: "send_request env ms (jget_or req ''temperature'' (JInt 0)) (x_files x) = (r, f)" by fastforce
        let ?w = "w\<lparr>w_conv := w_conv w @ extra\<rparr>"
        have "do_step env req s = (case r of Inl err \<Rightarrow> (Inl err, (?w, x\<lparr>x_files := f\<rparr>))
          | Inr rid \<Rightarrow> (Inr (), (?w\<lparr>w_pending := AList.update rid (jget req ''ctrl_id'') (w_pending w), w_phase := ''awaiting_llm''\<rparr>, x\<lparr>x_files := f\<rparr>)))"
          using ready Inr False e(1) sr by (simp add: s do_step_def Let_def split: sum.split)
        then have "asks env s (snd (do_step env req s))" unfolding asks_def
          using ready e(2,3) extra_user [OF e(1)] sr
          by (intro exI [of _ extra] exI [of _ f] exI [of _ ms] exI [of _ "jget_or req ''temperature'' (JInt 0)"] exI [of _ "jget req ''ctrl_id''"])
            (cases r, simp_all add: s)
        then show ?thesis ..
      qed
    qed
  qed
qed

definition inits :: "worker \<times> worker_world \<Rightarrow> worker \<times> worker_world \<Rightarrow> bool" where
  "inits s s' \<longleftrightarrow> (\<exists>req. core (fst s') = core (do_init req (fst s))) \<and> x_files (snd s') = x_files (snd s)"

definition idles :: "worker \<times> worker_world \<Rightarrow> worker \<times> worker_world \<Rightarrow> bool" where
  "idles s s' \<longleftrightarrow> core (fst s') = core (fst s) \<and> x_files (snd s') = x_files (snd s)"

lemma handle_ctrl_cases:
  "idles s (snd (handle_ctrl env req s)) \<or> inits s (snd (handle_ctrl env req s)) \<or> asks env s (snd (handle_ctrl env req s))"
proof (cases s)
  case (Pair w x)
  show ?thesis
  proof (cases "jget req ''ctrl'' = JStr ''step''")
    case True
    then show ?thesis using do_step_cases [of env req s] by (auto simp: handle_ctrl_def Let_def Pair idles_def)
  next
    case False
    then show ?thesis by (auto simp: handle_ctrl_def Let_def Pair idles_def inits_def)
  qed
qed

text \<open>A response that is taken: the identifier leaves the pending ones, and its text may join the conversation.\<close>

definition takes :: "worker_env \<Rightarrow> worker \<times> worker_world \<Rightarrow> worker \<times> worker_world \<Rightarrow> bool" where
  "takes env s s' \<longleftrightarrow> (\<exists>rid ctrl_id resp f. map_of (w_pending (fst s)) rid = Some ctrl_id \<and> read_response (v_stays env) rid (x_files (snd s)) = (resp, f)
     \<and> x_files (snd s') = f \<and> w_pending (fst s') = AList.delete rid (w_pending (fst s)) \<and> w_phase (fst s') = ''ready'' \<and> w_ready (fst s') = w_ready (fst s)
     \<and> ((w_conv (fst s') = w_conv (fst s) \<and> w_step (fst s') = w_step (fst s))
       \<or> (\<exists>d content obs. resp = Some d \<and> truthy (jget d ''ok'') \<and> por (jget_or d ''content'' (JStr [])) (JStr []) = JStr content
           \<and> w_conv (fst s') = w_conv (fst s) @ [(''assistant'', JStr content), (''user'', obs)] \<and> w_step (fst s') = Suc (w_step (fst s)))))"

lemma finish_step_reply:
  obtains w1 x1 obs where
    "finish_step env c content (w, x) = reply env (step_reply env c content (Suc (w_step w)) (fst (observed env content (w_repo w) (x_fs x)))) (w1, x1)"
    "w_conv w1 = w_conv w @ [(''assistant'', JStr content), (''user'', obs)]" "w_step w1 = Suc (w_step w)" "w_pending w1 = w_pending w"
    "w_phase w1 = w_phase w" "w_ready w1 = w_ready w" "x_files x1 = x_files x" "x_out x1 = x_out x"
  by (rule that, simp add: finish_step_def Let_def split_beta) simp_all

lemma step_reply_ids [simp]: "jget (step_reply env c content n r) ''ctrl_id'' = c" "jget (step_reply env c content n r) ''ok'' = JBool True"
  by (simp_all add: step_reply_def jget_def Let_def)

lemma finish_step_worker:
  "\<exists>obs. w_conv (fst (snd (finish_step env c content (w, x)))) = w_conv w @ [(''assistant'', JStr content), (''user'', obs)]
    \<and> w_step (fst (snd (finish_step env c content (w, x)))) = Suc (w_step w)
    \<and> w_pending (fst (snd (finish_step env c content (w, x)))) = w_pending w \<and> w_phase (fst (snd (finish_step env c content (w, x)))) = w_phase w
    \<and> w_ready (fst (snd (finish_step env c content (w, x)))) = w_ready w \<and> x_files (snd (snd (finish_step env c content (w, x)))) = x_files x"
  by (rule finish_step_reply [of env c content w x]) simp

lemma handle_note_cases: "idles s (snd (handle_note env rid s)) \<or> takes env s (snd (handle_note env rid s))"
proof -
  obtain w x where s: "s = (w, x)" by fastforce
  show ?thesis
  proof (cases "if rid = [] then None else map_of (w_pending w) rid")
    case None
    then show ?thesis by (simp add: s handle_note_def idles_def)
  next
    case (Some c)
    then have p: "map_of (w_pending w) rid = Some c" "rid \<noteq> []" by (auto split: if_splits)
    obtain resp f where r: "read_response (v_stays env) rid (x_files x) = (resp, f)" by fastforce
    define t where "t = (w\<lparr>w_pending := AList.delete rid (w_pending w), w_phase := ''ready''\<rparr>, x\<lparr>x_files := f\<rparr>)"
    show ?thesis
    proof (cases "\<exists>d content. resp = Some d \<and> truthy (jget d ''ok'') \<and> por (jget_or d ''content'' (JStr [])) (JStr []) = JStr content")
      case True
      then obtain d content where d: "resp = Some d" "truthy (jget d ''ok'')" "por (jget_or d ''content'' (JStr [])) (JStr []) = JStr content" by blast
      have "handle_note env rid s = finish_step env c content t" using p r d by (simp add: s handle_note_def t_def need_str_def)
      moreover obtain w1 x1 where t: "t = (w1, x1)" by fastforce
      ultimately show ?thesis using finish_step_worker [of env c content w1 x1] p r d t
        unfolding takes_def by (intro disjI2 exI [of _ rid] exI [of _ c] exI [of _ resp] exI [of _ f]) (auto simp: s t_def)
    next
      case False
      have "fst (snd (handle_note env rid s)) = fst t \<and> x_files (snd (snd (handle_note env rid s))) = f"
        using p r False by (auto simp: s handle_note_def t_def need_str_def Let_def split: option.splits json.splits)
      then show ?thesis using p r unfolding takes_def
        by (intro disjI2 exI [of _ rid] exI [of _ c] exI [of _ resp] exI [of _ f]) (auto simp: s t_def)
    qed
  qed
qed

lemma note_loop_invariant:
  assumes "P s" "\<And>s s'. \<lbrakk>P s; idles s s'\<rbrakk> \<Longrightarrow> P s'" "\<And>s s'. \<lbrakk>P s; takes env s s'\<rbrakk> \<Longrightarrow> P s'"
  shows "P (snd (note_loop env ls rest s))"
  using assms(1)
proof (induction ls arbitrary: s)
  case Nil
  obtain w x where s: "s = (w, x)" by fastforce
  then have "idles s (w\<lparr>w_notify := rest\<rparr>, x)" by (simp add: idles_def)
  then show ?case using Nil assms(2) by (simp add: s)
next
  case (Cons l ls)
  obtain w x where s: "s = (w, x)" by fastforce
  define t where "t = (w\<lparr>w_notify := unlines ls rest\<rparr>, x)"
  have "idles s t" by (simp add: idles_def s t_def)
  then have "P t" using Cons.prems assms(2) by blast
  then have "P (snd (handle_note env (strip l) t))" using handle_note_cases [of t env "strip l"] assms(2,3) by blast
  moreover have "note_loop env (l # ls) rest s = bind_eff (handle_note env (strip l) t) (\<lambda>_. note_loop env ls rest)" by (simp add: s t_def)
  ultimately show ?case using Cons.IH by (cases "handle_note env (strip l) t"; cases "fst (handle_note env (strip l) t)") auto
qed

text \<open>
  Whatever idling, taking responses and emptying the notify FIFO keep, a round keeps; it may end with one reset or one request, and only when nothing is pending.
\<close>

lemma iterate_invariant:
  assumes "P s" "\<And>s. P s \<Longrightarrow> Q s" "\<And>s s'. \<lbrakk>P s; idles s s'\<rbrakk> \<Longrightarrow> P s'" "\<And>s s'. \<lbrakk>P s; takes env s s'\<rbrakk> \<Longrightarrow> P s'"
    and "\<And>s s'. \<lbrakk>P s; w_pending (fst s) = []; inits s s'\<rbrakk> \<Longrightarrow> Q s'" "\<And>s s'. \<lbrakk>P s; w_pending (fst s) = []; asks env s s'\<rbrakk> \<Longrightarrow> Q s'"
    and "\<And>w x n. P (w, x) \<Longrightarrow> P (w, x\<lparr>x_files := (x_files x)\<lparr>notify_fifo := n\<rparr>\<rparr>)"
  shows "Q (iterate env s)"
proof -
  obtain w x where s: "s = (w, x)" by fastforce
  have "Q (snd (take_command env s))" if p: "w_pending w = []"
  proof -
    have t: "P (w\<lparr>w_in := b\<rparr>, x\<lparr>x_in := c\<rparr>)" for b c using assms(3) [OF assms(1), of "(w\<lparr>w_in := b\<rparr>, x\<lparr>x_in := c\<rparr>)"] by (simp add: idles_def s)
    have "Q (snd (handle_line env line (w\<lparr>w_in := b\<rparr>, x\<lparr>x_in := c\<rparr>)))" for line b c
    proof -
      define t where "t = (w\<lparr>w_in := b\<rparr>, x\<lparr>x_in := c\<rparr>)"
      have "P t" "w_pending (fst t) = []" using t p by (simp_all add: t_def)
      then have "Q (snd (handle_ctrl env req t))" for req using handle_ctrl_cases [of t env req] assms(2,3,5,6) by blast
      then show ?thesis using assms(2) [OF \<open>P t\<close>] by (auto simp: handle_line_def t_def [symmetric] split: sum.splits json.splits)
    qed
    then show ?thesis using assms(2) [OF t] by (simp add: take_command_def s Let_def)
  qed
  moreover have "P (snd (take_notes env s))"
  proof -
    define n where "n = drop (length (chunk_of (notify_fifo (x_files x)))) (notify_fifo (x_files x))"
    obtain ls rest where r: "rid_lines [] (w_notify w @ chunk_of (notify_fifo (x_files x))) = (ls, rest)" by fastforce
    have "P (w, x\<lparr>x_files := (x_files x)\<lparr>notify_fifo := n\<rparr>\<rparr>)" using assms(1,7) by (simp add: s)
    then have "P (snd (note_loop env ls rest (w, x\<lparr>x_files := (x_files x)\<lparr>notify_fifo := n\<rparr>\<rparr>)))"
      by (rule note_loop_invariant) (use assms(3,4) in blast)+
    moreover have "take_notes env s = note_loop env ls rest (w, x\<lparr>x_files := (x_files x)\<lparr>notify_fifo := n\<rparr>\<rparr>)"
      using r by (simp only: take_notes_def s Let_def prod.case n_def)
    ultimately show ?thesis by simp
  qed
  ultimately show ?thesis using assms(1,2) by (simp add: iterate_def s Let_def)
qed

section \<open>The state of the worker\<close>

definition is_assistant :: "message \<Rightarrow> bool" where
  "is_assistant m \<longleftrightarrow> fst m = ''assistant''"

text \<open>A conversation: the prompt and the task, then messages of the user and answers, each answer followed by a message of the user.\<close>

definition conv_ok :: "message list \<Rightarrow> bool" where
  "conv_ok conv \<longleftrightarrow> 2 \<le> length conv \<and> map fst (take 2 conv) = [''system'', ''user''] \<and> (\<forall>m \<in> set (drop 2 conv). fst m \<in> {''user'', ''assistant''})
     \<and> successively (\<lambda>m n. is_assistant m \<longrightarrow> fst n = ''user'') conv \<and> \<not> is_assistant (last conv)"

definition worker_ok :: "worker \<Rightarrow> bool" where
  "worker_ok w \<longleftrightarrow> (if w_ready w then conv_ok (w_conv w) else w_conv w = [] \<and> w_pending w = [] \<and> w_step w = 0)
     \<and> length (w_pending w) \<le> 1 \<and> w_phase w = (if w_pending w = [] then ''ready'' else ''awaiting_llm'')
     \<and> w_step w = length (filter is_assistant (w_conv w))"

lemma conv_ok_append:
  assumes "conv_ok conv" "\<forall>m \<in> set ms. fst m \<in> {''user'', ''assistant''}" "successively (\<lambda>m n. is_assistant m \<longrightarrow> fst n = ''user'') ms"
    "ms = [] \<or> \<not> is_assistant (last ms)"
  shows "conv_ok (conv @ ms)"
  using assms by (cases "ms = []") (auto simp: conv_ok_def successively_append_iff)

lemma core_fields:
  assumes "core w = core w'"
  shows "w_conv w = w_conv w'" "w_pending w = w_pending w'" "w_phase w = w_phase w'" "w_ready w = w_ready w'" "w_step w = w_step w'"
  using assms by (cases w; cases w'; simp add: core_def)+

lemma worker_ok_core: "core w = core w' \<Longrightarrow> worker_ok w = worker_ok w'"
  using core_fields [of w w'] by (simp add: worker_ok_def)

lemma worker_ok_init: "worker_ok w \<Longrightarrow> w_pending w = [] \<Longrightarrow> worker_ok (do_init req w)"
  by (simp add: worker_ok_def do_init_def Let_def conv_ok_def is_assistant_def)

lemma worker_ok_asks:
  assumes "worker_ok (fst s)" "w_pending (fst s) = []" "asks env s s'"
  shows "worker_ok (fst s')"
proof -
  obtain extra rid c where e: "w_ready (fst s)" "length extra \<le> 1" "\<forall>m \<in> set extra. fst m = ''user''"
    and s': "core (fst s') = core ((fst s)\<lparr>w_conv := w_conv (fst s) @ extra\<rparr>)
      \<or> core (fst s') = core ((fst s)\<lparr>w_conv := w_conv (fst s) @ extra, w_pending := AList.update rid c (w_pending (fst s)), w_phase := ''awaiting_llm''\<rparr>)"
    using assms(3) unfolding asks_def by blast
  have c: "conv_ok (w_conv (fst s) @ extra)"
    using assms(1) e by (intro conv_ok_append) (auto simp: worker_ok_def is_assistant_def last_in_set length_Suc_conv le_Suc_eq)
  moreover have "filter is_assistant extra = []" using e(3) by (auto simp: is_assistant_def filter_empty_conv)
  ultimately have "worker_ok ((fst s)\<lparr>w_conv := w_conv (fst s) @ extra\<rparr>)"
    "worker_ok ((fst s)\<lparr>w_conv := w_conv (fst s) @ extra, w_pending := AList.update rid c (w_pending (fst s)), w_phase := ''awaiting_llm''\<rparr>)"
    using assms(1,2) e(1) by (simp_all add: worker_ok_def)
  then show ?thesis using s' worker_ok_core by blast
qed

lemma worker_ok_takes:
  assumes "worker_ok (fst s)" "takes env s s'"
  shows "worker_ok (fst s')"
proof -
  obtain rid c where p: "map_of (w_pending (fst s)) rid = Some c" "w_pending (fst s') = AList.delete rid (w_pending (fst s))"
    "w_phase (fst s') = ''ready''" "w_ready (fst s') = w_ready (fst s)"
    and conv: "(w_conv (fst s') = w_conv (fst s) \<and> w_step (fst s') = w_step (fst s))
      \<or> (\<exists>content obs. w_conv (fst s') = w_conv (fst s) @ [(''assistant'', JStr content), (''user'', obs)] \<and> w_step (fst s') = Suc (w_step (fst s)))"
    using assms(2) unfolding takes_def by blast
  have r: "w_ready (fst s)" "w_pending (fst s) = [(rid, c)]" using assms(1) p(1)
    by (auto simp: worker_ok_def le_Suc_eq length_Suc_conv split: if_splits)
  then have e: "w_pending (fst s') = []" using p(2) by (simp add: AList.delete_eq)
  have "conv_ok (w_conv (fst s) @ [(''assistant'', JStr content), (''user'', obs)])" for content obs
    using assms(1) r by (intro conv_ok_append) (auto simp: worker_ok_def is_assistant_def)
  then show ?thesis using conv assms(1) e p r by (auto simp: worker_ok_def is_assistant_def)
qed

text \<open>
  C36. The state of the worker is well-formed at every moment, whatever the host, the proxy and the model send it: before the first \<^verbatim>\<open>init\<close> there is no
  conversation; afterwards the conversation starts with the prompt and the task, answers of the model and messages of the user follow, every answer is followed by its observation, the
  number of steps is the number of answers, at most one request is outstanding, and the phase says whether one is.
\<close>

theorem worker_state_ok:
  "worker_ok (fold (\<lambda>(env, x) w. fst (iterate env (w, x))) rounds new_worker)"
proof -
  have step: "worker_ok (fst (iterate env (w, x)))" if ok: "worker_ok w" for env w x
  proof (rule iterate_invariant [where P = "\<lambda>s. worker_ok (fst s)" and Q = "\<lambda>s. worker_ok (fst s)"])
    show "worker_ok (fst (w, x))" using ok by simp
    fix s s' :: "worker \<times> worker_world" assume s: "worker_ok (fst s)"
    { assume "idles s s'" then show "worker_ok (fst s')" using s worker_ok_core unfolding idles_def by blast }
    { assume "takes env s s'" then show "worker_ok (fst s')" using s worker_ok_takes by blast }
    { assume "w_pending (fst s) = []" "inits s s'" then show "worker_ok (fst s')" using s worker_ok_core worker_ok_init unfolding inits_def by blast }
    { assume "w_pending (fst s) = []" "asks env s s'" then show "worker_ok (fst s')" using s worker_ok_asks by blast }
  qed simp_all
  have "worker_ok w \<Longrightarrow> worker_ok (fold (\<lambda>(env, x) w. fst (iterate env (w, x))) rounds w)" for w
    by (induction rounds arbitrary: w) (auto simp: step)
  moreover have "worker_ok new_worker" by (simp add: worker_ok_def new_worker_def)
  ultimately show ?thesis by blast
qed

section \<open>What the model is asked\<close>

text \<open>
  A request never forgets what the task is and never grows without bound: it starts with the prompt and the task, holds at most twice as many
  messages as the configured number of turns, and one more for the prompt, and what follows the task is the end of the conversation; the whole conversation, while it fits.
\<close>

theorem window_pins_task:
  assumes "1 \<le> turns" "conv = prompt # task # rest"
  shows "\<exists>recent. window turns conv = prompt # task # recent \<and> int (length (window turns conv)) \<le> 2 * turns + 1 \<and> suffix recent rest
    \<and> (int (length conv) \<le> 2 * turns + 1 \<longrightarrow> recent = rest) \<and> (int (length conv) > 2 * turns + 1 \<longrightarrow> int (length recent) = 2 * turns - 1)"
proof (cases "int (length (task # rest)) > 2 * turns")
  case False
  then have "window turns conv = prompt # task # rest" by (simp add: window_def Let_def assms(2))
  then show ?thesis using False by (intro exI [of _ rest]) (auto simp: assms(2))
next
  case True
  define n where "n = length (task # rest) - nat (2 * turns - 1)"
  have n: "1 \<le> n" "n \<le> length rest" using True assms(1) by (auto simp: n_def)
  have d: "slice_from (- (2 * turns - 1)) (task # rest) = drop (n - 1) rest"
    using assms(1) n by (cases n) (simp_all add: slice_from_def n_def)
  have len: "int (length (drop (n - 1) rest)) = 2 * turns - 1" using True assms(1) n by (auto simp: n_def)
  have "window turns conv = prompt # task # drop (n - 1) rest" using True d by (simp add: window_def Let_def assms(2))
  then show ?thesis using len True by (intro exI [of _ "drop (n - 1) rest"]) (auto simp: assms(2) suffix_drop)
qed

theorem window_pins_task_witness:
  "\<exists>recent. window 1 [(''system'', JNull), (''user'', JNull), (''assistant'', JNull), (''user'', JInt 1)] = [(''system'', JNull), (''user'', JNull)] @ recent
    \<and> length recent = 1"
  using window_pins_task [of 1 "[(''system'', JNull), (''user'', JNull), (''assistant'', JNull), (''user'', JInt 1)]" "(''system'', JNull)" "(''user'', JNull)"
    "[(''assistant'', JNull), (''user'', JInt 1)]"] by auto

section \<open>Progress\<close>

lemma rid_lines_line: "LF \<notin> set l \<Longrightarrow> rid_lines cur (l @ LF # rest) = (case rid_lines [] rest of (ls, r) \<Rightarrow> ((cur @ l) # ls, r))"
  by (induction l arbitrary: cur) auto


text \<open>
  A command that arrived together with a \<^verbatim>\<open>step\<close> stops the worker: with a line in its buffer and a request outstanding, a round
  changes nothing, whatever the proxy has written; the response is never read, and the command is never executed.
\<close>

theorem buffered_command_blocks:
  assumes "w_pending w \<noteq> []" "LF \<in> set (w_in w)"
  shows "fold (\<lambda>(env, x) w. fst (iterate env (w, x))) rounds w = w \<and> (\<forall>env x. snd (iterate env (w, x)) = x)"
proof -
  have "iterate env (w, x) = (w, x)" for env x using assms by (simp add: iterate_def Let_def)
  then show ?thesis by (induction rounds) auto
qed

text \<open>
  The command with which the controller wants the worker to forget its requests: while a request is outstanding it is not read,
  and otherwise it is unknown.
\<close>

theorem abort_not_taken:
  "w_pending w \<noteq> [] \<Longrightarrow> notify_fifo (x_files x) = [] \<Longrightarrow> iterate env (w, x) = (w, x)"
  "jget req ''ctrl'' = JStr ''abort_pending_all'' \<Longrightarrow> handle_ctrl env req (w, x) =
     reply env [(''ok'', JBool False), (''ctrl_id'', jget req ''ctrl_id''), (''error'', JStr (''unknown ctrl '' @ py_repr ''abort_pending_all''))] (w, x)"
  by (simp_all add: iterate_def handle_ctrl_def Let_def)

text \<open>A reply that does not fit in the FIFO of the host is cut, and has no end of line.\<close>

theorem long_reply_cut:
  assumes "x_out x = []" "65536 \<le> length (v_dumps env d)"
  shows "\<exists>x'. reply env d (w, x) = (Inr (), (w, x')) \<and> x_out x' = take 65536 (v_dumps env d)"
  using assms by (simp add: reply_def pipe_write_def)

section \<open>Concrete runs\<close>

text \<open>One letter stands for the text of a command.\<close>

definition sample_loads :: "string \<Rightarrow> json result" where
  "sample_loads s =
     (if s = ''i'' then Inr (JObj [(''ctrl'', JStr ''init''), (''ctrl_id'', JInt 1)])
      else if s = ''s'' then Inr (JObj [(''ctrl'', JStr ''step''), (''ctrl_id'', JInt 2)])
      else Inl (ValueError ''Expecting value''))"

definition sample_worker_env :: worker_env where
  "sample_worker_env = \<lparr>v_act = sample_env, v_loads = sample_loads, v_dumps = (\<lambda>_. ''r''), v_decode = (\<lambda>_. None), v_obs_chars = 100, v_turns = 40,
     v_uuid = ''u'', v_send = Send_ok, v_stays = False, v_clear = True\<rparr>"

definition no_files :: npd_files where
  "no_files = \<lparr>req_dir = [], resp_dir = [], req_fifo = [], notify_fifo = [], epoch_file = None\<rparr>"

definition quiet_world :: "string \<Rightarrow> worker_world" where
  "quiet_world s = \<lparr>x_in = s, x_out = [], x_files = no_files, x_fs = sample_fs\<rparr>"

text \<open>The worker after an \<^verbatim>\<open>init\<close>, and then a \<^verbatim>\<open>step\<close> with a second command behind it in the FIFO.\<close>

definition waiting :: "string \<Rightarrow> worker" where
  "waiting s = fold (\<lambda>(env, x) w. fst (iterate env (w, x))) [(sample_worker_env, quiet_world [CHR ''i'', LF]), (sample_worker_env, quiet_world s)] new_worker"

lemma waiting_facts:
  "w_pending (waiting [CHR ''s'', LF]) = [(''ep0.u'', JInt 2)]" "LF \<notin> set (w_in (waiting [CHR ''s'', LF]))" "w_notify (waiting [CHR ''s'', LF]) = []"
  "w_pending (waiting [CHR ''s'', LF, CHR ''s'', LF]) = [(''ep0.u'', JInt 2)]" "LF \<in> set (w_in (waiting [CHR ''s'', LF, CHR ''s'', LF]))"
  by code_simp+

theorem buffered_command_blocks_witness:
  "w_pending (waiting [CHR ''s'', LF, CHR ''s'', LF]) = [(''ep0.u'', JInt 2)]
    \<and> fold (\<lambda>(env, x) w. fst (iterate env (w, x)))
        ([(sample_worker_env, (quiet_world [])\<lparr>x_files := no_files\<lparr>notify_fifo := ''ep0.u'' @ [LF], resp_dir := [(''ep0.u'', [(''ok'', JBool True)])]\<rparr>\<rparr>)])
        (waiting [CHR ''s'', LF, CHR ''s'', LF]) = waiting [CHR ''s'', LF, CHR ''s'', LF]"
proof -
  have p: "w_pending (waiting [CHR ''s'', LF, CHR ''s'', LF]) = [(''ep0.u'', JInt 2)]" by (rule waiting_facts)
  then have ne: "w_pending (waiting [CHR ''s'', LF, CHR ''s'', LF]) \<noteq> []" by simp
  have l: "LF \<in> set (w_in (waiting [CHR ''s'', LF, CHR ''s'', LF]))" by (rule waiting_facts)
  show ?thesis using p conjunct1 [OF buffered_command_blocks [OF ne l]] by blast
qed


end
