(* ===== verification/Llm_Rounds.thy ===== *)
theory Llm_Rounds
  imports Agent_Worker
begin

text \<open>
  The worker, the proxy, other clients of the proxy and the controller together, with checkpoints and restores of the worker, as a transition
  system. The threads of the proxy advance one access to a shared file at a time, in any order. The text of the model for a list of messages is whatever the endpoint may answer
  to them. Identifiers are fresh, as \<^verbatim>\<open>uuid4\<close> makes them. The history of the requests is kept in a field that no operation reads.
\<close>

record sys =
  g_worker :: worker
  g_world :: worker_world
  g_npd :: npd
  g_saved :: "worker list"
  g_epoch :: nat
  g_sent :: "(string \<times> dict) list"

section \<open>Steps\<close>

definition files_of :: "sys \<Rightarrow> npd_files" where
  "files_of s = x_files (g_world s)"

definition with_files :: "npd_files \<Rightarrow> sys \<Rightarrow> sys" where
  "with_files f s = s\<lparr>g_world := (g_world s)\<lparr>x_files := f\<rparr>\<rparr>"

text \<open>The identifier that the worker would use now, and the note of a request in the history.\<close>

definition next_rid :: "string \<Rightarrow> sys \<Rightarrow> string" where
  "next_rid uuid s = make_rid (read_current_epoch (epoch_file (files_of s))) uuid"

definition note_request :: "string \<Rightarrow> sys \<Rightarrow> sys" where
  "note_request rid s = (case map_of (req_dir (files_of s)) rid of Some r \<Rightarrow> s\<lparr>g_sent := (rid, r) # g_sent s\<rparr> | None \<Rightarrow> s)"

definition unused :: "string \<Rightarrow> sys \<Rightarrow> bool" where
  "unused rid s \<longleftrightarrow> rid \<notin> fst ` set (g_sent s)"

datatype sys_event =
    Work worker_env
  | Outside string string file_tree
  | Dispatch
  | Thread nat "json \<Rightarrow> nat \<Rightarrow> http" io_faults
  | Submit json json json bool string
  | Poll string int bool
  | Bump bool
  | Sweep "string \<Rightarrow> bool"
  | Save
  | Restore nat

text \<open>\<^verbatim>\<open>Outside\<close> is the host at the FIFOs of the worker and anything that changes the file system, a restore included.\<close>

fun sys_exec :: "proxy_cfg \<Rightarrow> sys_event \<Rightarrow> sys \<Rightarrow> sys option" where
  "sys_exec cfg (Work env) s =
     (let rid = next_rid (v_uuid env) s in
      if \<not> unused rid s then None
      else case iterate env (g_worker s, g_world s) of (w, x) \<Rightarrow> Some (note_request rid (s\<lparr>g_worker := w, g_world := x\<rparr>)))"
| "sys_exec cfg (Outside i out fs) s = Some (s\<lparr>g_world := (g_world s)\<lparr>x_in := i, x_out := out, x_fs := fs\<rparr>\<rparr>)"
| "sys_exec cfg Dispatch s = (case npd_dispatch (g_npd s, files_of s) of (d, f) \<Rightarrow> Some (with_files f (s\<lparr>g_npd := d\<rparr>)))"
| "sys_exec cfg (Thread i answer io) s =
     (if i < length (tasks (g_npd s)) then
        (case proxy_step cfg answer io (tasks (g_npd s) ! i) (files_of s) of (ts, f) \<Rightarrow>
           Some (with_files f (s\<lparr>g_npd := (g_npd s)\<lparr>tasks := take i (tasks (g_npd s)) @ ts @ drop (Suc i) (tasks (g_npd s))\<rparr>\<rparr>)))
      else None)"
| "sys_exec cfg (Submit msgs temperature max_tokens exempt uuid) s =
     (case submit msgs temperature max_tokens exempt uuid (files_of s) of ((rid, _), f) \<Rightarrow>
        if unused rid s then Some (note_request rid (with_files f s)) else None)"
| "sys_exec cfg (Poll rid epoch stays) s = (case wait_poll rid epoch stays (files_of s) of (_, f) \<Rightarrow> Some (with_files f s))"
| "sys_exec cfg (Bump persisted) s =
     (let n = Suc (g_epoch s) in Some (with_files (if persisted then persist_epoch n (files_of s) else files_of s) (s\<lparr>g_epoch := n\<rparr>)))"
| "sys_exec cfg (Sweep stays) s = Some (with_files (unlink_responses stays (files_of s)) s)"
| "sys_exec cfg Save s = Some (s\<lparr>g_saved := g_worker s # g_saved s\<rparr>)"
| "sys_exec cfg (Restore i) s = (if i < length (g_saved s) then Some (s\<lparr>g_worker := g_saved s ! i\<rparr>) else None)"

definition start_sys :: "npd_files \<Rightarrow> worker_world \<Rightarrow> sys" where
  "start_sys f x = \<lparr>g_worker = new_worker, g_world = x\<lparr>x_files := f\<lparr>req_dir := [], resp_dir := []\<rparr>\<rparr>, g_npd = \<lparr>npd_buf = [], tasks = []\<rparr>,
     g_saved = [], g_epoch = 0, g_sent = []\<rparr>"

text \<open>Events whose parts follow the configuration and the endpoint.\<close>

fun admissible :: "(json \<Rightarrow> http \<Rightarrow> bool) \<Rightarrow> int \<Rightarrow> sys_event \<Rightarrow> bool" where
  "admissible may turns (Work env) = (v_turns env = turns)"
| "admissible may turns (Thread i answer io) = (\<forall>m k. may m (answer m k))"
| "admissible may turns _ = True"

inductive reachable :: "proxy_cfg \<Rightarrow> (json \<Rightarrow> http \<Rightarrow> bool) \<Rightarrow> int \<Rightarrow> sys \<Rightarrow> bool" for cfg may turns where
  start: "reachable cfg may turns (start_sys f x)"
| step: "\<lbrakk>reachable cfg may turns s; admissible may turns e; sys_exec cfg e s = Some s'\<rbrakk> \<Longrightarrow> reachable cfg may turns s'"

section \<open>Whose answer is it\<close>

text \<open>The endpoint may say a text to a list of messages.\<close>

definition says :: "(json \<Rightarrow> http \<Rightarrow> bool) \<Rightarrow> json \<Rightarrow> string \<Rightarrow> bool" where
  "says may m content \<longleftrightarrow> (\<exists>j c ch. may m (Http_json j) \<and> completion j = Some (c, ch, content))"

definition messages_of :: "dict \<Rightarrow> json" where
  "messages_of r = jget_or r ''messages'' (JList [])"

definition resp_ok :: "(json \<Rightarrow> http \<Rightarrow> bool) \<Rightarrow> (string \<times> dict) list \<Rightarrow> string \<Rightarrow> dict \<Rightarrow> bool" where
  "resp_ok may sent rid d \<longleftrightarrow> (truthy (jget d ''ok'') \<longrightarrow>
     (\<exists>r content. map_of sent rid = Some r \<and> jget_or d ''content'' (JStr []) = JStr content \<and> says may (messages_of r) content))"

fun task_ok :: "(json \<Rightarrow> http \<Rightarrow> bool) \<Rightarrow> (string \<times> dict) list \<Rightarrow> task \<Rightarrow> bool" where
  "task_ok may sent (Chat rid r) = (map_of sent rid = Some r)"
| "task_ok may sent (Check rid d) = resp_ok may sent rid d"
| "task_ok may sent (Publish rid d) = resp_ok may sent rid d"
| "task_ok may sent _ = True"

definition files_ok :: "(json \<Rightarrow> http \<Rightarrow> bool) \<Rightarrow> (string \<times> dict) list \<Rightarrow> npd_files \<Rightarrow> bool" where
  "files_ok may sent f \<longleftrightarrow> (\<forall>rid r. map_of (req_dir f) rid = Some r \<longrightarrow> map_of sent rid = Some r)
     \<and> (\<forall>rid d. map_of (resp_dir f) rid = Some d \<longrightarrow> resp_ok may sent rid d)"

text \<open>The messages that a worker with this conversation was asked about: the context of the conversation before the last message of the host.\<close>

definition asked :: "int \<Rightarrow> message list \<Rightarrow> json \<Rightarrow> bool" where
  "asked turns conv m \<longleftrightarrow> (\<exists>base extra. conv = base @ extra \<and> length extra \<le> 1 \<and> (\<forall>e \<in> set extra. fst e = ''user'') \<and> m = msgs_json (window turns base @ extra))"

definition genuine :: "(json \<Rightarrow> http \<Rightarrow> bool) \<Rightarrow> int \<Rightarrow> message list \<Rightarrow> bool" where
  "genuine may turns conv \<longleftrightarrow> (\<forall>i < length conv. fst (conv ! i) = ''assistant'' \<longrightarrow>
     (\<exists>m content. asked turns (take i conv) m \<and> snd (conv ! i) = JStr content \<and> says may m content))"

definition holds :: "(json \<Rightarrow> http \<Rightarrow> bool) \<Rightarrow> int \<Rightarrow> (string \<times> dict) list \<Rightarrow> worker \<Rightarrow> bool" where
  "holds may turns sent w \<longleftrightarrow> genuine may turns (w_conv w) \<and> length (w_pending w) \<le> 1
     \<and> (\<forall>rid \<in> fst ` set (w_pending w). \<exists>r. map_of sent rid = Some r \<and> asked turns (w_conv w) (messages_of r))"

definition sys_ok :: "(json \<Rightarrow> http \<Rightarrow> bool) \<Rightarrow> int \<Rightarrow> sys \<Rightarrow> bool" where
  "sys_ok may turns s \<longleftrightarrow> holds may turns (g_sent s) (g_worker s) \<and> (\<forall>w \<in> set (g_saved s). holds may turns (g_sent s) w)
     \<and> files_ok may (g_sent s) (files_of s) \<and> (\<forall>t \<in> set (tasks (g_npd s)). task_ok may (g_sent s) t)"

section \<open>The invariant\<close>

lemma resp_ok_mono: "\<lbrakk>resp_ok may sent rid d; map_of sent \<subseteq>\<^sub>m map_of sent'\<rbrakk> \<Longrightarrow> resp_ok may sent' rid d"
  unfolding resp_ok_def by (metis domI map_le_def)

lemma task_ok_mono: "\<lbrakk>task_ok may sent t; map_of sent \<subseteq>\<^sub>m map_of sent'\<rbrakk> \<Longrightarrow> task_ok may sent' t"
  by (cases t) (auto simp: resp_ok_mono map_le_def dom_def)

lemma files_ok_mono: "\<lbrakk>files_ok may sent f; map_of sent \<subseteq>\<^sub>m map_of sent'\<rbrakk> \<Longrightarrow> files_ok may sent' f"
  unfolding files_ok_def by (metis domI map_le_def resp_ok_mono)

lemma holds_mono: "\<lbrakk>holds may turns sent w; map_of sent \<subseteq>\<^sub>m map_of sent'\<rbrakk> \<Longrightarrow> holds may turns sent' w"
  unfolding holds_def by (metis domI map_le_def)

lemmas sent_mono = resp_ok_mono task_ok_mono files_ok_mono holds_mono

lemma fresh_sent: "rid \<notin> fst ` set sent \<Longrightarrow> map_of sent \<subseteq>\<^sub>m map_of ((rid, r) # sent)"
  by (auto simp: map_le_def dest: map_of_SomeD intro: rev_image_eqI)

lemma files_ok_request:
  assumes "files_ok may sent f" "rid \<notin> fst ` set sent" "req_dir f' = AList.update rid r (req_dir f)" "resp_dir f' = resp_dir f"
  shows "files_ok may ((rid, r) # sent) f'"
  using files_ok_mono [OF assms(1) fresh_sent [OF assms(2), of r]] assms(3,4) by (auto simp: files_ok_def update_conv' split: if_splits)

lemma genuine_user: "\<lbrakk>genuine may turns conv; \<forall>e \<in> set ms. fst e = ''user''\<rbrakk> \<Longrightarrow> genuine may turns (conv @ ms)"
  by (auto simp: genuine_def nth_append all_set_conv_all_nth)

lemma genuine_answer:
  "\<lbrakk>genuine may turns conv; asked turns conv m; says may m content\<rbrakk> \<Longrightarrow> genuine may turns (conv @ [(''assistant'', JStr content), (''user'', obs)])"
  by (fastforce simp: genuine_def nth_append nth_Cons' less_Suc_eq)

lemma respond_ok:
  assumes "\<forall>m k. may m (answer m k)" "map_of sent rid = Some r"
  shows "resp_ok may sent rid (respond cfg answer r)"
proof (cases "\<exists>resp calls. chat cfg (answer (messages_of r)) = (Inr resp, calls) \<and> respond cfg answer r = resp")
  case True
  then obtain resp calls where c: "chat cfg (answer (messages_of r)) = (Inr resp, calls)" "respond cfg answer r = resp" by blast
  then obtain left where "chat_loop (answer (messages_of r)) 0 (Suc left) = (Inr resp, calls)"
    by (cases "nat (attempts cfg)") (auto simp: chat_def split: if_splits)
  from chat_loop_calls [OF this] have "good_response (answer (messages_of r) (calls - 1)) resp" by blast
  then obtain j c1 ch content where g: "answer (messages_of r) (calls - 1) = Http_json j" "completion j = Some (c1, ch, content)"
    "jget_or resp ''content'' (JStr []) = JStr content" by (auto simp: good_response_def jget_or_def)
  then have "says may (messages_of r) content" using assms(1) unfolding says_def by metis
  then show ?thesis using assms(2) g(3) by (auto simp: resp_ok_def c(2))
next
  case False
  then have "jget (respond cfg answer r) ''ok'' = JBool False"
    by (auto simp: respond_def Let_def messages_of_def jget_def andthen_def split: option.splits sum.splits) (metis prod.collapse)+
  then show ?thesis by (simp add: resp_ok_def)
qed

lemma proxy_step_ok:
  assumes "proxy_step cfg answer io t f = (ts, f')" "task_ok may sent t" "files_ok may sent f" "\<forall>m k. may m (answer m k)"
  shows "(\<forall>t \<in> set ts. task_ok may sent t) \<and> files_ok may sent f'"
  using assms by (cases t) (auto simp: respond_ok files_ok_def delete_conv' update_conv' split: option.splits if_splits)

lemma read_response_ok:
  assumes "read_response stays rid f = (resp, f')" "files_ok may sent f"
  shows "files_ok may sent f' \<and> (\<forall>d. resp = Some d \<longrightarrow> resp_ok may sent rid d) \<and> req_dir f' = req_dir f \<and> epoch_file f' = epoch_file f"
  using assms by (auto simp: read_response_def files_ok_def delete_conv' split: option.splits if_splits)

section \<open>A round of the worker\<close>

text \<open>Before a request of this round, all requests are in the history; afterwards the new one joins it.\<close>

definition settled :: "(json \<Rightarrow> http \<Rightarrow> bool) \<Rightarrow> int \<Rightarrow> (string \<times> dict) list \<Rightarrow> string option \<Rightarrow> worker \<times> worker_world \<Rightarrow> bool" where
  "settled may turns sent ep s \<longleftrightarrow> holds may turns sent (fst s) \<and> files_ok may sent (x_files (snd s)) \<and> epoch_file (x_files (snd s)) = ep"

definition noted :: "(json \<Rightarrow> http \<Rightarrow> bool) \<Rightarrow> int \<Rightarrow> (string \<times> dict) list \<Rightarrow> string \<Rightarrow> worker \<times> worker_world \<Rightarrow> bool" where
  "noted may turns sent rid s \<longleftrightarrow> (case map_of (req_dir (x_files (snd s))) rid of
       None \<Rightarrow> holds may turns sent (fst s) \<and> files_ok may sent (x_files (snd s))
     | Some r \<Rightarrow> holds may turns ((rid, r) # sent) (fst s) \<and> files_ok may ((rid, r) # sent) (x_files (snd s)))"

lemma settled_noted: "\<lbrakk>settled may turns sent ep s; rid \<notin> fst ` set sent\<rbrakk> \<Longrightarrow> noted may turns sent rid s"
proof -
  assume a: "settled may turns sent ep s" "rid \<notin> fst ` set sent"
  then have "map_of sent rid = None" by (simp add: map_of_eq_None_iff)
  then have "map_of (req_dir (x_files (snd s))) rid = None" using a(1) by (cases "map_of (req_dir (x_files (snd s))) rid") (auto simp: settled_def files_ok_def)
  then show ?thesis using a(1) by (simp add: settled_def noted_def)
qed

lemma holds_core: "core w = core w' \<Longrightarrow> holds may turns sent w = holds may turns sent w'"
  using core_fields [of w w'] by (simp add: holds_def)

lemma takes_settled:
  assumes "settled may turns sent ep s" "takes env s s'"
  shows "settled may turns sent ep s'"
proof -
  obtain rid c resp f where t: "map_of (w_pending (fst s)) rid = Some c" "read_response (v_stays env) rid (x_files (snd s)) = (resp, f)"
    "x_files (snd s') = f" "w_pending (fst s') = AList.delete rid (w_pending (fst s))"
    and conv: "w_conv (fst s') = w_conv (fst s) \<or> (\<exists>d content obs. resp = Some d \<and> truthy (jget d ''ok'') \<and> por (jget_or d ''content'' (JStr [])) (JStr []) = JStr content
      \<and> w_conv (fst s') = w_conv (fst s) @ [(''assistant'', JStr content), (''user'', obs)])"
    using assms(2) unfolding takes_def by blast
  have h: "holds may turns sent (fst s)" "files_ok may sent (x_files (snd s))" using assms(1) by (simp_all add: settled_def)
  note r = read_response_ok [OF t(2) h(2)]
  have p: "w_pending (fst s) = [(rid, c)]" using h(1) t(1) by (cases "w_pending (fst s)") (auto simp: holds_def split: if_splits)
  then obtain q where q: "map_of sent rid = Some q" "asked turns (w_conv (fst s)) (messages_of q)" using h(1) by (auto simp: holds_def)
  have "genuine may turns (w_conv (fst s'))" using conv
  proof
    assume "w_conv (fst s') = w_conv (fst s)"
    then show ?thesis using h(1) by (simp add: holds_def)
  next
    assume "\<exists>d content obs. resp = Some d \<and> truthy (jget d ''ok'') \<and> por (jget_or d ''content'' (JStr [])) (JStr []) = JStr content
      \<and> w_conv (fst s') = w_conv (fst s) @ [(''assistant'', JStr content), (''user'', obs)]"
    then obtain d content obs where d: "resp = Some d" "truthy (jget d ''ok'')" "por (jget_or d ''content'' (JStr [])) (JStr []) = JStr content"
      "w_conv (fst s') = w_conv (fst s) @ [(''assistant'', JStr content), (''user'', obs)]" by blast
    then have "says may (messages_of q) content" using r q(1) by (auto simp: resp_ok_def por_def split: if_splits)
    then show ?thesis unfolding d(4) using h(1) q(2) by (intro genuine_answer) (auto simp: holds_def)
  qed
  then show ?thesis using r t(3,4) p assms(1) by (simp add: settled_def holds_def AList.delete_eq)
qed

lemma send_request_files:
  assumes "send_request env ms temperature f = (r, f')" "rid = make_rid (read_current_epoch (epoch_file f)) (v_uuid env)"
  obtains (unsent) "f' = f" "\<exists>e. r = Inl e"
  | (written) q where "req_dir f' = AList.update rid q (req_dir f)" "resp_dir f' = resp_dir f" "messages_of q = msgs_json ms" "r = Inr rid \<or> (\<exists>e. r = Inl e)"
  using assms by (auto simp: send_request_def Let_def messages_of_def jget_or_def split: send_fault.splits)

lemma asks_noted:
  assumes "settled may turns sent ep s" "w_pending (fst s) = []" "asks env s s'" "v_turns env = turns"
    and "rid = make_rid (read_current_epoch ep) (v_uuid env)" "rid \<notin> fst ` set sent"
  shows "noted may turns sent rid s'"
proof -
  have h: "holds may turns sent (fst s)" "files_ok may sent (x_files (snd s))" "epoch_file (x_files (snd s)) = ep" using assms(1) by (simp_all add: settled_def)
  obtain extra ms temperature c r where e: "length extra \<le> 1" "\<forall>m \<in> set extra. fst m = ''user''" "ms = window turns (w_conv (fst s)) @ extra"
    and sr: "send_request env ms temperature (x_files (snd s)) = (r, x_files (snd s'))"
    and w: "(\<exists>e. r = Inl e \<and> core (fst s') = core ((fst s)\<lparr>w_conv := w_conv (fst s) @ extra\<rparr>))
      \<or> (\<exists>q. r = Inr q \<and> core (fst s') = core ((fst s)\<lparr>w_conv := w_conv (fst s) @ extra, w_pending := AList.update q c (w_pending (fst s)), w_phase := ''awaiting_llm''\<rparr>))"
    using assms(3,4) unfolding asks_def by blast
  have w': "w_conv (fst s') = w_conv (fst s) @ extra" using w by (auto dest: core_fields(1))
  have p': "w_pending (fst s') = (case r of Inl _ \<Rightarrow> [] | Inr q \<Rightarrow> [(q, c)])" using w assms(2) by (auto dest: core_fields(2))
  have g: "genuine may turns (w_conv (fst s) @ extra)" using genuine_user h(1) e(2) by (auto simp: holds_def)
  have a: "asked turns (w_conv (fst s) @ extra) (msgs_json ms)" using e by (auto simp: asked_def)
  have "rid = make_rid (read_current_epoch (epoch_file (x_files (snd s)))) (v_uuid env)" by (simp add: h(3) assms(5))
  from sr this show ?thesis
  proof (cases rule: send_request_files)
    case unsent
    then have "holds may turns sent (fst s')" using w' p' g by (auto simp: holds_def)
    then have "settled may turns sent ep s'" using unsent h by (simp add: settled_def)
    then show ?thesis using settled_noted assms(6) by blast
  next
    case (written q)
    let ?sent = "(rid, q) # sent"
    have "files_ok may ?sent (x_files (snd s'))" using files_ok_request [OF h(2) assms(6)] written(1,2) .
    moreover have "holds may turns ?sent (fst s')" using w' p' g a written(3,4) by (auto simp: holds_def)
    ultimately show ?thesis using written(1) by (simp add: noted_def update_conv')
  qed
qed

lemma holds_init: "w_pending w = [] \<Longrightarrow> holds may turns sent (do_init req w)"
  by (auto simp: holds_def do_init_def Let_def genuine_def nth_Cons')

lemma iterate_noted:
  assumes "settled may turns sent ep s" "v_turns env = turns" "rid = make_rid (read_current_epoch ep) (v_uuid env)" "rid \<notin> fst ` set sent"
  shows "noted may turns sent rid (iterate env s)"
proof (rule iterate_invariant [where P = "settled may turns sent ep" and Q = "noted may turns sent rid"])
  fix t t' :: "worker \<times> worker_world" assume t: "settled may turns sent ep t"
  then show "noted may turns sent rid t" using assms(4) by (rule settled_noted)
  show "idles t t' \<Longrightarrow> settled may turns sent ep t'" using t holds_core [of "fst t'" "fst t"] by (auto simp: idles_def settled_def)
  show "takes env t t' \<Longrightarrow> settled may turns sent ep t'" using t takes_settled by blast
  show "w_pending (fst t) = [] \<Longrightarrow> inits t t' \<Longrightarrow> noted may turns sent rid t'"
  proof (rule settled_noted [OF _ assms(4)])
    assume "w_pending (fst t) = []" "inits t t'"
    then show "settled may turns sent ep t'" using t holds_init [of "fst t"] holds_core [of "fst t'"] unfolding inits_def settled_def by metis
  qed
  show "w_pending (fst t) = [] \<Longrightarrow> asks env t t' \<Longrightarrow> noted may turns sent rid t'" using t asks_noted assms(2-4) by blast
qed (use assms(1) in \<open>auto simp: settled_def files_ok_def\<close>)

section \<open>Every state\<close>

lemma with_files_simps [simp]:
  "files_of (with_files f s) = f" "g_worker (with_files f s) = g_worker s" "g_saved (with_files f s) = g_saved s" "g_sent (with_files f s) = g_sent s"
  "g_npd (with_files f s) = g_npd s"
  by (simp_all add: with_files_def files_of_def)

lemma sys_ok_files: "\<lbrakk>sys_ok may turns s; files_ok may (g_sent s) f\<rbrakk> \<Longrightarrow> sys_ok may turns (with_files f s)"
  by (simp add: sys_ok_def)

lemma work_ok:
  assumes "sys_ok may turns s" "v_turns env = turns" "sys_exec cfg (Work env) s = Some s'"
  shows "sys_ok may turns s'"
proof -
  define rid where "rid = next_rid (v_uuid env) s"
  obtain w x where i: "iterate env (g_worker s, g_world s) = (w, x)" by fastforce
  have fr: "rid \<notin> fst ` set (g_sent s)" and s': "s' = note_request rid (s\<lparr>g_worker := w, g_world := x\<rparr>)"
    using assms(3) i by (auto simp: rid_def Let_def unused_def split: if_splits)
  have "settled may turns (g_sent s) (epoch_file (files_of s)) (g_worker s, g_world s)" using assms(1) by (simp add: sys_ok_def settled_def files_of_def)
  from iterate_noted [OF this, of env rid] fr have n: "noted may turns (g_sent s) rid (w, x)" using assms(2) i by (simp add: rid_def next_rid_def)
  show ?thesis
  proof (cases "map_of (req_dir (x_files x)) rid")
    case None
    then show ?thesis using n assms(1) by (simp add: s' note_request_def files_of_def sys_ok_def noted_def)
  next
    case (Some r)
    then show ?thesis using n assms(1) sent_mono [OF _ fresh_sent [OF fr, of r]]
      by (auto simp: s' note_request_def files_of_def sys_ok_def noted_def)
  qed
qed

lemma submit_ok:
  assumes "sys_ok may turns s" "sys_exec cfg (Submit msgs temperature max_tokens exempt uuid) s = Some s'"
  shows "sys_ok may turns s'"
proof -
  obtain rid ep f where f: "submit msgs temperature max_tokens exempt uuid (files_of s) = ((rid, ep), f)" by (metis prod.exhaust)
  then obtain r where r: "req_dir f = AList.update rid r (req_dir (files_of s))" "resp_dir f = resp_dir (files_of s)" by (auto simp: submit_def Let_def)
  have fr: "rid \<notin> fst ` set (g_sent s)" and s': "s' = (with_files f s)\<lparr>g_sent := (rid, r) # g_sent s\<rparr>"
    using assms(2) f r by (auto simp: unused_def note_request_def update_conv' split: if_splits)
  have "files_ok may ((rid, r) # g_sent s) f" using files_ok_request [OF _ fr r] assms(1) by (simp add: sys_ok_def)
  moreover have "files_of s' = f" by (simp add: s' with_files_def files_of_def)
  ultimately show ?thesis using assms(1) sent_mono [OF _ fresh_sent [OF fr, of r]]
    by (auto simp: sys_ok_def s')
qed

lemma thread_ok:
  assumes "sys_ok may turns s" "\<forall>m k. may m (answer m k)" "sys_exec cfg (Thread i answer io) s = Some s'"
  shows "sys_ok may turns s'"
proof -
  obtain ts f where t: "proxy_step cfg answer io (tasks (g_npd s) ! i) (files_of s) = (ts, f)" by fastforce
  have i: "i < length (tasks (g_npd s))" and s': "s' = with_files f (s\<lparr>g_npd := (g_npd s)\<lparr>tasks := take i (tasks (g_npd s)) @ ts @ drop (Suc i) (tasks (g_npd s))\<rparr>\<rparr>)"
    using assms(3) t by (auto split: if_splits)
  have "(\<forall>t \<in> set ts. task_ok may (g_sent s) t) \<and> files_ok may (g_sent s) f"
    using proxy_step_ok [OF t] i assms(1,2) by (auto simp: sys_ok_def)
  then show ?thesis using assms(1) by (auto simp: sys_ok_def s' dest: in_set_takeD in_set_dropD)
qed

lemma sys_exec_ok:
  assumes "sys_ok may turns s" "admissible may turns e" "sys_exec cfg e s = Some s'"
  shows "sys_ok may turns s'"
proof (cases e)
  case (Work env)
  then show ?thesis using work_ok assms by (metis admissible.simps(1))
next
  case (Submit msgs temperature max_tokens exempt uuid)
  then show ?thesis using submit_ok assms by blast
next
  case (Thread i answer io)
  then show ?thesis using thread_ok assms by (metis admissible.simps(2))
next
  case (Outside i out fs)
  then show ?thesis using assms by (auto simp: sys_ok_def files_of_def)
next
  case Dispatch
  obtain d f where d: "npd_dispatch (g_npd s, files_of s) = (d, f)" by fastforce
  then obtain rids where "tasks d = tasks (g_npd s) @ map Load rids" "req_dir f = req_dir (files_of s)" "resp_dir f = resp_dir (files_of s)"
    by (auto simp: npd_dispatch_def Let_def split: prod.splits)
  then show ?thesis using assms d by (auto simp: Dispatch sys_ok_def files_ok_def)
next
  case (Poll rid ep stays)
  obtain p f where p: "wait_poll rid ep stays (files_of s) = (p, f)" by fastforce
  then have "files_ok may (g_sent s) f" using assms(1) by (auto simp: wait_poll_def sys_ok_def files_ok_def delete_conv' split: option.splits if_splits)
  then show ?thesis using sys_ok_files [OF assms(1)] assms(3) p by (simp add: Poll) blast
next
  case (Bump persisted)
  have "files_ok may (g_sent s) (if persisted then persist_epoch (Suc (g_epoch s)) (files_of s) else files_of s)"
    using assms(1) by (simp add: sys_ok_def files_ok_def persist_epoch_def)
  from sys_ok_files [OF assms(1) this] show ?thesis using assms(3) by (auto simp: Bump Let_def sys_ok_def with_files_def files_of_def)
next
  case (Sweep stays)
  have "files_ok may (g_sent s) (unlink_responses stays (files_of s))" using assms(1)
    by (auto simp: sys_ok_def files_ok_def unlink_responses_def map_of_filter_pair split: if_splits)
  from sys_ok_files [OF assms(1) this] show ?thesis using assms(3) by (simp add: Sweep)
next
  case Save
  then show ?thesis using assms by (auto simp: sys_ok_def files_of_def)
next
  case (Restore i)
  then show ?thesis using assms by (auto simp: sys_ok_def files_of_def split: if_splits)
qed


section \<open>A concrete run\<close>

fun sys_run :: "proxy_cfg \<Rightarrow> sys_event list \<Rightarrow> sys \<Rightarrow> sys option" where
  "sys_run cfg [] s = Some s"
| "sys_run cfg (e # es) s = Option.bind (sys_exec cfg e s) (sys_run cfg es)"

lemma reachable_exec:
  "\<lbrakk>sys_run cfg es s = Some s'; reachable cfg may turns s; \<forall>e \<in> set es. admissible may turns e\<rbrakk> \<Longrightarrow> reachable cfg may turns s'"
proof (induction es arbitrary: s)
  case (Cons e es)
  then obtain s1 where "sys_exec cfg e s = Some s1" "sys_run cfg es s1 = Some s'" by (auto simp: Option.bind_eq_Some_conv)
  moreover have "reachable cfg may turns s1" using reachable.step [OF Cons.prems(2) _ calculation(1)] Cons.prems(3) by simp
  ultimately show ?case using Cons by simp
qed simp

definition sound_io :: io_faults where
  "sound_io = \<lparr>unlink_fails = False, write_fails = False, notify_fails = False\<rparr>"

text \<open>The worker is set up and asks, the proxy answers, and the worker is saved while it waits.\<close>

definition sample_run :: "sys_event list" where
  "sample_run = [Outside [CHR ''i'', LF] [] sample_fs, Work sample_worker_env, Outside [CHR ''s'', LF] [] sample_fs, Work sample_worker_env, Save, Dispatch]
     @ replicate 5 (Thread 0 (\<lambda>_. wit_answer) sound_io) @ [Work (sample_worker_env\<lparr>v_uuid := ''v''\<rparr>)]"

definition sample_sys :: sys where
  "sample_sys = the (sys_run wit_cfg sample_run (start_sys no_files (quiet_world [])))"

lemma sample_sys_facts:
  "sys_run wit_cfg sample_run (start_sys no_files (quiet_world [])) = Some sample_sys"
  "2 < length (w_conv (g_worker sample_sys))" "fst (w_conv (g_worker sample_sys) ! 2) = ''assistant''" "snd (w_conv (g_worker sample_sys) ! 2) = JStr ''hi''"
  "length (g_saved sample_sys) = 1"
proof -
  have e: "case sys_run wit_cfg sample_run (start_sys no_files (quiet_world [])) of
      Some s \<Rightarrow> 2 < length (w_conv (g_worker s)) \<and> w_conv (g_worker s) ! 2 = (''assistant'', JStr ''hi'') \<and> length (g_saved s) = 1
    | None \<Rightarrow> False" by code_simp
  then show s: "sys_run wit_cfg sample_run (start_sys no_files (quiet_world [])) = Some sample_sys"
    by (auto simp: sample_sys_def split: option.splits)
  show "2 < length (w_conv (g_worker sample_sys))" "fst (w_conv (g_worker sample_sys) ! 2) = ''assistant''" "snd (w_conv (g_worker sample_sys) ! 2) = JStr ''hi''"
    "length (g_saved sample_sys) = 1" using e by (simp_all add: s)
qed


end
