(* ===== verification/Page_Stats.thy ===== *)
theory Page_Stats
  imports Prelude "HOL-Library.Word"
begin

text \<open>
  Model of \<^verbatim>\<open>backends/deltabox/gsd/criu_page_stats.py\<close>: the varint and field decoders, the record
  reader, the statistics of one pagemap image and of a dump directory. A byte is a word of 8 bits;
  Python's integers are \<^typ>\<open>int\<close>; offsets and lengths are \<^typ>\<open>nat\<close>. The generator \<^verbatim>\<open>_records\<close> is
  lazy, so its model yields one record and the rest of the stream, and the reader's loop pulls it.
\<close>

unbundle bit_operations_syntax

type_synonym byte = "8 word"
type_synonym field_dict = "(int \<times> int) list"

section \<open>Constants\<close>

definition PAGEMAP_MAGIC :: "byte list" where
  "PAGEMAP_MAGIC = [0x19, 0x43, 0x56, 0x54, 0x25, 0x40, 0x08, 0x56]"

definition MAX_RECORD_BYTES :: int where "MAX_RECORD_BYTES = 1024"
definition UINT64_MAX :: int where "UINT64_MAX = 2 ^ 64 - 1"
definition PE_PARENT :: int where "PE_PARENT = 1"
definition PE_LAZY :: int where "PE_LAZY = 2"
definition PE_PRESENT :: int where "PE_PRESENT = 4"

lemmas page_consts = MAX_RECORD_BYTES_def UINT64_MAX_def PE_PARENT_def PE_LAZY_def PE_PRESENT_def

section \<open>Varints\<close>

fun varint_loop :: "nat list \<Rightarrow> byte list \<Rightarrow> nat \<Rightarrow> int \<Rightarrow> (int \<times> nat) result" where
  "varint_loop [] data offset result =
     Inl (ValueError ''Pagemap protobuf varint exceeds uint64'')"
| "varint_loop (shift # shifts) data offset result =
     (if offset \<ge> length data then Inl (ValueError ''Truncated pagemap protobuf varint'')
      else let byte = uint (data ! offset) in
        if shift = 63 \<and> byte > 1
        then Inl (ValueError ''Pagemap protobuf varint exceeds uint64'')
        else let result' = result OR push_bit shift (byte AND 127) in
          if byte AND 128 = 0 then Inr (result', offset + 1)
          else varint_loop shifts data (offset + 1) result')"

definition varint :: "byte list \<Rightarrow> nat \<Rightarrow> (int \<times> nat) result" where
  "varint data offset = varint_loop [0, 7, 14, 21, 28, 35, 42, 49, 56, 63] data offset 0"

lemma varint_loop_progress:
  "varint_loop shifts data offset r = Inr (v, offset') \<Longrightarrow>
     offset < offset' \<and> offset' \<le> length data \<and> offset' \<le> offset + length shifts"
proof (induction shifts data offset r rule: varint_loop.induct)
  case (1 data offset result)
  then show ?case by simp
next
  case (2 shift shifts data offset result)
  from "2.prems" show ?case by (auto simp: Let_def split: if_splits dest!: "2.IH" [OF _ refl _ refl])
qed

lemma varint_progress:
  "varint data offset = Inr (v, offset') \<Longrightarrow> offset < offset' \<and> offset' \<le> length data"
  unfolding varint_def by (drule varint_loop_progress) simp

section \<open>Fields of one record\<close>

function fields_loop :: "byte list \<Rightarrow> nat \<Rightarrow> field_dict \<Rightarrow> field_dict result" where
  "fields_loop data offset fields =
     (if offset < length data then
        andthen (varint data offset) (\<lambda>(key, offset1).
          let number = drop_bit 3 key; wire = key AND 7 in
          if number = 0 \<or> wire \<noteq> 0 \<or> number \<in> fst ` set fields
          then Inl (ValueError ''Unsupported or duplicate pagemap protobuf field'')
          else andthen (varint data offset1) (\<lambda>(val, offset2).
            fields_loop data offset2 (AList.update number val fields)))
      else Inr fields)"
  by pat_completeness auto
termination
proof (relation "measure (\<lambda>(data, offset, fields). length data - offset)", goal_cases)
  case 1
  then show ?case by simp
next
  case (2 data offset fields p key offset1 number wire q val offset2)
  then have "varint data offset = Inr (key, offset1)" "varint data offset1 = Inr (val, offset2)"
    by (auto elim!: andthen_InrE)
  then show ?case using 2(1) by (auto dest!: varint_progress)
qed

declare fields_loop.simps [simp del]

definition fields_of :: "byte list \<Rightarrow> field_dict result" where
  "fields_of data = fields_loop data 0 []"

section \<open>Records of a stream\<close>

text \<open>\<^verbatim>\<open>struct.unpack('<I', raw)\<close> on four bytes.\<close>

fun unpack_le :: "byte list \<Rightarrow> int" where
  "unpack_le [] = 0"
| "unpack_le (b # bs) = uint b + 256 * unpack_le bs"

text \<open>
  One \<^verbatim>\<open>next()\<close> of the generator: \<^term>\<open>None\<close> at the end of the stream, otherwise the decoded fields
  and the unread rest.
\<close>

definition next_record :: "byte list \<Rightarrow> (field_dict \<times> byte list) option result" where
  "next_record stream =
     (let raw = take 4 stream in
      if raw = [] then Inr None
      else if length raw \<noteq> 4 then Inl (ValueError ''Truncated pagemap record length'')
      else let size = unpack_le raw in
        if \<not> (0 < size \<and> size \<le> MAX_RECORD_BYTES)
        then Inl (ValueError ''Unsupported pagemap record size'')
        else let payload = take (nat size) (drop 4 stream) in
          if length payload \<noteq> nat size then Inl (ValueError ''Truncated pagemap record'')
          else andthen (fields_of payload) (\<lambda>fs. Inr (Some (fs, drop (nat size) (drop 4 stream)))))"

lemma next_record_shorter:
  "next_record stream = Inr (Some (fs, rest)) \<Longrightarrow> length rest < length stream"
  by (auto simp: next_record_def Let_def andthen_Inr_iff split: if_splits)

section \<open>Statistics of one pagemap image\<close>

record page_stats =
  total_pages :: int
  parent_pages :: int
  present_pages :: int
  lazy_eligible_pages :: int
  parent_lazy_pages :: int
  entries :: int

definition zero_stats :: page_stats where
  "zero_stats = \<lparr>total_pages = 0, parent_pages = 0, present_pages = 0, lazy_eligible_pages = 0,
     parent_lazy_pages = 0, entries = 0\<rparr>"

text \<open>The checks of the row loop: the address, the page count and the flags of an accepted row.\<close>

definition row_check :: "int \<Rightarrow> field_dict \<Rightarrow> int \<Rightarrow> (int \<times> int \<times> int) result" where
  "row_check page_size row previous_end =
    (let keys = fst ` set row in
     if \<not> {1, 2} \<subseteq> keys \<or> keys - {1, 2, 3, 4, 5} \<noteq> {}
     then Inl (ValueError ''Unsupported CRIU pagemap entry schema'')
     else let row2 = dict_get row 2 0; count = dict_get row 5 row2; address = dict_get row 1 0 in
       if row2 > 2 ^ 32 - 1 \<or> dict_get row 3 0 \<notin> {0, 1}
       then Inl (ValueError ''Invalid CRIU compatibility field'')
       else let flags = dict_get row 4 (if dict_get row 3 0 \<noteq> 0 then PE_PARENT else PE_PRESENT) in
         if count = 0 \<or> count > UINT64_MAX div page_size \<or> address mod page_size \<noteq> 0
            \<or> address < previous_end \<or> address > UINT64_MAX - count * page_size
         then Inl (ValueError ''Invalid or overlapping CRIU pagemap range'')
         else if flags AND NOT (PE_PARENT OR PE_LAZY OR PE_PRESENT) \<noteq> 0
            \<or> flags AND (PE_PARENT OR PE_PRESENT) = 0
            \<or> (flags AND PE_PARENT \<noteq> 0 \<and> flags AND PE_PRESENT \<noteq> 0)
         then Inl (ValueError ''Unsupported CRIU page flags for a regular local dump'')
         else Inr (address, count, flags))"

text \<open>The counters of the row loop.\<close>

definition count_row :: "int \<Rightarrow> int \<Rightarrow> page_stats \<Rightarrow> page_stats" where
  "count_row cnt flags st = st\<lparr>
     parent_lazy_pages := parent_lazy_pages st +
       (if flags AND PE_PARENT \<noteq> 0 \<and> flags AND PE_LAZY \<noteq> 0 then cnt else 0),
     entries := entries st + 1,
     total_pages := total_pages st + cnt,
     parent_pages := parent_pages st + (if flags AND PE_PARENT \<noteq> 0 then cnt else 0),
     present_pages := present_pages st + (if flags AND PE_PRESENT \<noteq> 0 then cnt else 0),
     lazy_eligible_pages := lazy_eligible_pages st + (if flags AND PE_LAZY \<noteq> 0 then cnt else 0)\<rparr>"

definition row_step ::
  "int \<Rightarrow> field_dict \<Rightarrow> int \<times> page_stats \<Rightarrow> (int \<times> page_stats) result" where
  "row_step page_size row = (\<lambda>(previous_end, st).
     andthen (row_check page_size row previous_end) (\<lambda>(address, count, flags).
       Inr (address + count * page_size, count_row count flags st)))"

function rows_loop ::
  "int \<Rightarrow> byte list \<Rightarrow> int \<times> page_stats \<Rightarrow> (int \<times> page_stats) result" where
  "rows_loop page_size stream acc =
     andthen (next_record stream) (\<lambda>r. case r of
         None \<Rightarrow> Inr acc
       | Some (row, rest) \<Rightarrow> andthen (row_step page_size row acc) (rows_loop page_size rest))"
  by pat_completeness auto
termination
proof (relation "measure (\<lambda>(page_size, stream, acc). length stream)", goal_cases)
  case 1
  then show ?case by simp
next
  case (2 page_size stream acc r p row rest acc')
  then show ?case by (auto dest: next_record_shorter)
qed

declare rows_loop.simps [simp del]

definition read_pagemap_stats :: "byte list \<Rightarrow> int \<Rightarrow> (int \<times> page_stats) result" where
  "read_pagemap_stats img page_size =
     (if page_size \<le> 0 \<or> page_size AND (page_size - 1) \<noteq> 0
      then Inl (ValueError ''Page size must be a positive power of two'')
      else if take 8 img \<noteq> PAGEMAP_MAGIC
      then Inl (ValueError ''Unexpected CRIU pagemap image magic'')
      else andthen (next_record (drop 8 img)) (\<lambda>r. case r of
          None \<Rightarrow> Inl (ValueError ''Invalid CRIU pagemap head'')
        | Some (head, rest) \<Rightarrow>
            if fst ` set head \<noteq> {1} \<or> dict_get head 1 0 > 2 ^ 32 - 1
            then Inl (ValueError ''Invalid CRIU pagemap head'')
            else andthen (rows_loop page_size rest (0, zero_stats)) (\<lambda>(_, st).
                   Inr (dict_get head 1 0, st))))"


section \<open>Arithmetic of the bit operations\<close>

lemma and_127: "x AND 127 = x mod (128 :: int)"
proof -
  have "x AND mask 7 = take_bit 7 x" by (simp add: take_bit_eq_mask)
  then show ?thesis by (simp add: mask_eq_exp_minus_1 take_bit_eq_mod)
qed

lemma byte_and_128: "uint (b :: byte) AND 128 = 0 \<longleftrightarrow> uint b < 128"
proof -
  have lt: "uint b < 256" using uint_lt2p [of b] by simp
  have "uint b AND 2 ^ 7 = 0 \<longleftrightarrow> \<not> bit (uint b) 7"
    by (rule and_exp_eq_0_iff_not_bit)
  also have "\<dots> \<longleftrightarrow> even (uint b div 128)" by (simp add: bit_iff_odd)
  also have "\<dots> \<longleftrightarrow> uint b < 128"
  proof (cases "uint b < 128")
    case True
    then show ?thesis using uint_ge_0 [of b] by simp
  next
    case False
    with lt have "uint b div 128 = 1" by auto
    with False show ?thesis by simp
  qed
  finally show ?thesis by simp
qed

lemma or_push_bit:
  fixes r x :: int
  assumes "0 \<le> r" "r < 2 ^ s"
  shows "r OR push_bit s x = r + x * 2 ^ s"
proof -
  have "r AND push_bit s x = 0"
  proof (rule bit_eqI)
    fix n
    have "take_bit s r = r" using assms by (simp add: take_bit_int_eq_self)
    then have "bit r n \<Longrightarrow> n < s" by (metis bit_take_bit_iff)
    then show "bit (r AND push_bit s x) n \<longleftrightarrow> bit 0 n"
      by (auto simp: bit_and_iff bit_push_bit_iff)
  qed
  then have "r + push_bit s x = r OR push_bit s x" by (simp add: disjunctive_add_eq_or)
  then show ?thesis by (simp add: push_bit_eq_mult)
qed

section \<open>Varints: bounds and round trip\<close>

definition shifts_from :: "nat \<Rightarrow> nat list" where
  "shifts_from k = map (\<lambda>i. 7 * i) [k..<10]"

lemma shifts_from_step: "k < 10 \<Longrightarrow> shifts_from k = 7 * k # shifts_from (Suc k)"
  by (simp add: shifts_from_def upt_conv_Cons)

lemma shifts_from_end: "shifts_from 10 = []"
  by (simp add: shifts_from_def)

lemma varint_shifts: "varint data offset = varint_loop (shifts_from 0) data offset 0"
  by (simp add: varint_def shifts_from_def upt_rec)

lemma varint_loop_Suc:
  assumes k: "k < 10" and r: "0 \<le> r" "r < 2 ^ (7 * k)" and off: "offset < length data"
    and small: "k = 9 \<longrightarrow> uint (data ! offset) \<le> 1"
  shows "varint_loop (shifts_from k) data offset r =
    (let r' = r + uint (data ! offset) mod 128 * 2 ^ (7 * k) in
     if uint (data ! offset) < 128 then Inr (r', offset + 1)
     else varint_loop (shifts_from (Suc k)) data (offset + 1) r')"
proof -
  have "r OR push_bit (7 * k) (uint (data ! offset) AND 127)
      = r + uint (data ! offset) mod 128 * 2 ^ (7 * k)"
    using r by (simp add: and_127 or_push_bit)
  moreover have "(7 * k = 63 \<and> uint (data ! offset) > 1) = False" using small by auto
  moreover have "(length data \<le> offset) = False" using off by simp
  ultimately show ?thesis
    unfolding shifts_from_step [OF k] varint_loop.simps Let_def byte_and_128 by (simp only: if_False)
qed

lemma varint_digit_bound:
  assumes "0 \<le> r" "r < (2::int) ^ (7 * k)" "0 \<le> d" "d < 128"
  shows "0 \<le> r + d * 2 ^ (7 * k) \<and> r + d * 2 ^ (7 * k) < 2 ^ (7 * Suc k)"
proof -
  have "r + d * 2 ^ (7 * k) < 2 ^ (7 * k) + d * 2 ^ (7 * k)" using assms by simp
  also have "\<dots> = (d + 1) * 2 ^ (7 * k)" by (simp add: algebra_simps)
  also have "\<dots> \<le> 128 * 2 ^ (7 * k)" using assms by (intro mult_right_mono) auto
  also have "\<dots> = 2 ^ (7 * Suc k)" by (simp add: power_add)
  finally show ?thesis using assms by simp
qed

lemma varint_loop_bound:
  assumes "k \<le> 9" "0 \<le> r" "r < 2 ^ (7 * k)"
    and "varint_loop (shifts_from k) data offset r = Inr (v, offset')"
  shows "0 \<le> v \<and> v \<le> UINT64_MAX"
  using assms
proof (induction "9 - k" arbitrary: k r offset)
  case 0
  then have k: "k = 9" by simp
  let ?b = "uint (data ! offset)"
  have s: "shifts_from 9 = [63]" by (simp add: shifts_from_def upt_rec)
  from 0 have "?b \<le> 1" and v: "v = r OR push_bit 63 (?b AND 127)"
    by (auto simp: k s Let_def simp del: push_bit_and split: if_splits)
  moreover have "?b mod 128 = ?b" using \<open>?b \<le> 1\<close> uint_ge_0 [of "data ! offset"] by simp
  moreover have "r OR push_bit 63 (?b AND 127) = r + ?b mod 128 * 2 ^ 63"
    using 0 k by (simp add: and_127 or_push_bit del: push_bit_and)
  ultimately have "v = r + ?b * 2 ^ 63" by (simp only:)
  moreover have "?b = 0 \<or> ?b = 1" using \<open>?b \<le> 1\<close> uint_ge_0 [of "data ! offset"] by linarith
  ultimately have "v = r \<or> v = r + 2 ^ 63" by auto
  then show ?case using 0 k by (auto simp: UINT64_MAX_def)
next
  case (Suc m)
  let ?b = "uint (data ! offset)"
  let ?r' = "r + ?b mod 128 * 2 ^ (7 * k)"
  from Suc have k: "k < 9" by simp
  then have k10: "k < 10" by simp
  have off: "offset < length data"
    using varint_loop_progress [OF Suc.prems(4)] by simp
  have step: "(if ?b < 128 then Inr (?r', offset + 1)
      else varint_loop (shifts_from (Suc k)) data (offset + 1) ?r') = Inr (v, offset')"
    using varint_loop_Suc [OF k10 Suc.prems(2,3) off] k Suc.prems(4) by (simp add: Let_def)
  have r': "0 \<le> ?r' \<and> ?r' < 2 ^ (7 * Suc k)"
    by (rule varint_digit_bound) (use Suc.prems in auto)
  show ?case
  proof (cases "?b < 128")
    case True
    with step have "v = ?r'" by simp
    moreover have "(2::int) ^ (7 * Suc k) \<le> 2 ^ 63" using k by (intro power_increasing) auto
    ultimately show ?thesis using r' by (auto simp: UINT64_MAX_def)
  next
    case False
    with step have "varint_loop (shifts_from (Suc k)) data (offset + 1) ?r' = Inr (v, offset')"
      by simp
    with Suc.hyps(1) [of "Suc k" ?r' "offset + 1"] Suc.hyps(2) k r' show ?thesis by simp
  qed
qed

lemma varint_bounds [bounds]:
  "varint data offset = Inr (v, offset') \<Longrightarrow> 0 \<le> v \<and> v \<le> UINT64_MAX"
  unfolding varint_shifts by (rule varint_loop_bound [of 0]) auto

text \<open>The encoder of the protobuf wire format, as the writer of the images uses it.\<close>

fun encode_varint :: "nat \<Rightarrow> byte list" where
  "encode_varint n =
     (if n < 128 then [of_nat n] else of_nat (n mod 128 + 128) # encode_varint (n div 128))"

declare encode_varint.simps [simp del]

lemma uint_of_nat_byte: "n < 256 \<Longrightarrow> uint (of_nat n :: byte) = int n"
  by (simp add: uint_nat unat_of_nat)

lemma encode_varint_nonempty [simp]: "encode_varint n \<noteq> []"
  by (subst encode_varint.simps) simp

lemma varint_loop_encode:
  assumes "k \<le> 9" "0 \<le> r" "r < 2 ^ (7 * k)" "n * 2 ^ (7 * k) < 2 ^ 64"
    and "drop offset data = encode_varint n @ post"
  shows "varint_loop (shifts_from k) data offset r
    = Inr (r + int n * 2 ^ (7 * k), offset + length (encode_varint n))"
  using assms
proof (induction n arbitrary: k r offset rule: encode_varint.induct)
  case (1 n)
  have off: "offset < length data" using "1.prems"(5) by (metis append_is_Nil_conv drop_all
    encode_varint_nonempty leI)
  have hd: "data ! offset = hd (encode_varint n)"
    using "1.prems"(5) off by (metis encode_varint_nonempty hd_append2 hd_drop_conv_nth)
  have k10: "k < 10" using "1.prems"(1) by simp
  have small: "k = 9 \<longrightarrow> n < 2"
  proof (rule ccontr)
    assume "\<not> (k = 9 \<longrightarrow> n < 2)"
    then have "k = 9" "(2::nat) * 2 ^ 63 \<le> n * 2 ^ 63" by (auto intro!: mult_le_mono1)
    with "1.prems"(4) show False by simp
  qed
  show ?case
  proof (cases "n < 128")
    case True
    then have e: "encode_varint n = [of_nat n]" by (simp add: encode_varint.simps [of n])
    then have u: "uint (data ! offset) = int n" using True hd by (simp add: uint_of_nat_byte)
    have "varint_loop (shifts_from k) data offset r = Inr (r + int n * 2 ^ (7 * k), offset + 1)"
      using varint_loop_Suc [OF k10 "1.prems"(2,3) off] small True by (auto simp: u Let_def)
    then show ?thesis by (simp add: e)
  next
    case False
    let ?m = "n mod 128" and ?r' = "r + int (n mod 128) * 2 ^ (7 * k)"
    have e: "encode_varint n = of_nat (?m + 128) # encode_varint (n div 128)"
      using False by (simp add: encode_varint.simps [of n])
    have u: "uint (data ! offset) = int (?m + 128)"
      unfolding hd e by (simp only: list.sel, rule uint_of_nat_byte, simp)
    have k: "k < 9" using small False "1.prems"(1) by (cases "k = 9") auto
    have um: "uint (data ! offset) mod 128 = int ?m" unfolding u by (simp add: zmod_int)
    have "varint_loop (shifts_from k) data offset r
        = varint_loop (shifts_from (Suc k)) data (offset + 1) ?r'"
      using varint_loop_Suc [OF k10 "1.prems"(2,3) off] k by (simp add: um Let_def) (simp add: u)
    also have "\<dots> = Inr (?r' + int (n div 128) * 2 ^ (7 * Suc k),
        offset + 1 + length (encode_varint (n div 128)))"
    proof (rule "1.IH" [OF False])
      show "Suc k \<le> 9" using k by simp
      show "0 \<le> ?r'" using "1.prems" by simp
      show "?r' < 2 ^ (7 * Suc k)"
        by (rule varint_digit_bound [THEN conjunct2]) (use "1.prems" in auto)
      have "n div 128 * 2 ^ (7 * Suc k) = (n div 128 * 128) * 2 ^ (7 * k)"
        by (simp add: power_add)
      also have "\<dots> \<le> n * 2 ^ (7 * k)" by (intro mult_le_mono1) simp
      finally show "n div 128 * 2 ^ (7 * Suc k) < 2 ^ 64" using "1.prems"(4) by simp
      show "drop (offset + 1) data = encode_varint (n div 128) @ post"
        using "1.prems"(5) e by (metis Suc_eq_plus1 append_Cons drop_Suc drop_tl list.sel(3))
    qed
    also have "?r' + int (n div 128) * 2 ^ (7 * Suc k) = r + int n * 2 ^ (7 * k)"
    proof -
      have "int n = int (n mod 128) + int (n div 128) * 128"
        by (metis mod_div_mult_eq of_nat_add of_nat_mult of_nat_numeral)
      then show ?thesis by (simp add: power_add algebra_simps)
    qed
    finally show ?thesis by (simp add: e)
  qed
qed

lemma varint_encode:
  assumes "n < 2 ^ 64" "drop offset data = encode_varint n @ post"
  shows "varint data offset = Inr (int n, offset + length (encode_varint n))"
  unfolding varint_shifts using varint_loop_encode [of 0 0 n offset data post] assms by simp


section \<open>Fields and records: round trip\<close>

definition encode_fields :: "(nat \<times> nat) list \<Rightarrow> byte list" where
  "encode_fields fs = concat (map (\<lambda>(k, v). encode_varint (8 * k) @ encode_varint v) fs)"

definition field_ok :: "nat \<times> nat \<Rightarrow> bool" where
  "field_ok f \<longleftrightarrow> 0 < fst f \<and> 8 * fst f < 2 ^ 64 \<and> snd f < 2 ^ 64"

lemma key_bits: "drop_bit 3 (int (8 * k)) = int k" "int (8 * k) AND 7 = 0"
proof -
  show "drop_bit 3 (int (8 * k)) = int k" by (simp add: drop_bit_eq_div)
  have "int (8 * k) AND mask 3 = take_bit 3 (int (8 * k))" by (simp add: take_bit_eq_mask)
  then show "int (8 * k) AND 7 = 0" by (simp add: mask_eq_exp_minus_1 take_bit_eq_mod)
qed

lemma fields_loop_encode:
  assumes "drop offset data = encode_fields fs" "list_all field_ok fs"
    "distinct (map fst fs)" "\<forall>f \<in> set fs. int (fst f) \<notin> fst ` set acc"
  shows "fields_loop data offset acc = Inr (acc @ map (map_prod int int) fs)"
  using assms
proof (induction fs arbitrary: offset acc)
  case Nil
  then show ?case by (subst fields_loop.simps) (simp add: encode_fields_def)
next
  case (Cons f fs)
  obtain k v where f: "f = (k, v)" by (cases f)
  let ?o1 = "offset + length (encode_varint (8 * k))"
  let ?o2 = "?o1 + length (encode_varint v)"
  have d: "drop offset data = encode_varint (8 * k) @ encode_varint v @ encode_fields fs"
    using Cons.prems(1) by (simp add: f encode_fields_def)
  have ok: "0 < k" "8 * k < 2 ^ 64" "v < 2 ^ 64" using Cons.prems(2) by (auto simp: f field_ok_def)
  have v1: "varint data offset = Inr (int (8 * k), ?o1)"
    by (rule varint_encode [OF ok(2) d])
  have d1: "drop ?o1 data = encode_varint v @ encode_fields fs"
    using d by (metis add.commute append_eq_conv_conj drop_drop)
  have v2: "varint data ?o1 = Inr (int v, ?o2)"
    by (rule varint_encode [OF ok(3) d1])
  have d2: "drop ?o2 data = encode_fields fs"
    using d1 by (metis add.commute append_eq_conv_conj drop_drop)
  have off: "offset < length data"
    using d by (metis append_is_Nil_conv drop_all encode_varint_nonempty leI)
  have new: "int k \<notin> fst ` set acc" using Cons.prems(4) by (simp add: f)
  have "fields_loop data offset acc = fields_loop data ?o2 (acc @ [(int k, int v)])"
    using off ok(1) new
    by (subst fields_loop.simps) (simp add: v1 v2 key_bits update_new_key Let_def del: of_nat_mult)
  also have "\<dots> = Inr ((acc @ [(int k, int v)]) @ map (map_prod int int) fs)"
    using Cons.prems f by (intro Cons.IH d2) auto
  finally show ?case by (simp add: f)
qed

lemma fields_encode:
  "\<lbrakk>list_all field_ok fs; distinct (map fst fs)\<rbrakk>
    \<Longrightarrow> fields_of (encode_fields fs) = Inr (map (map_prod int int) fs)"
  unfolding fields_of_def by (subst fields_loop_encode [of _ _ fs]) auto

lemma fields_loop_values:
  assumes "fields_loop data offset acc = Inr fs" "\<forall>x \<in> snd ` set acc. 0 \<le> x \<and> x \<le> UINT64_MAX"
  shows "\<forall>x \<in> snd ` set fs. 0 \<le> x \<and> x \<le> UINT64_MAX"
  using assms
proof (induction data offset acc rule: fields_loop.induct)
  case (1 data offset fields)
  show ?case
  proof (cases "offset < length data")
    case False
    with 1 show ?thesis by (subst (asm) fields_loop.simps) simp
  next
    case True
    with "1.prems"(1) obtain key o1 val o2 where v:
      "varint data offset = Inr (key, o1)"
      "\<not> (drop_bit 3 key = 0 \<or> key AND 7 \<noteq> 0 \<or> drop_bit 3 key \<in> fst ` set fields)"
      "varint data o1 = Inr (val, o2)"
      "fields_loop data o2 (AList.update (drop_bit 3 key) val fields) = Inr fs"
      by (subst (asm) fields_loop.simps)
        (auto simp: andthen_Inr_iff Let_def split: if_splits)
    have "\<forall>x \<in> snd ` set (AList.update (drop_bit 3 key) val fields). 0 \<le> x \<and> x \<le> UINT64_MAX"
      using v(2) "1.prems"(2) varint_bounds [OF v(3)] by (auto simp: update_new_key)
    then show ?thesis using "1.IH" [OF True v(1) refl refl refl v(2) v(3) refl v(4)] by blast
  qed
qed

lemma fields_values [bounds]:
  "fields_of data = Inr fs \<Longrightarrow> x \<in> snd ` set fs \<Longrightarrow> 0 \<le> x \<and> x \<le> UINT64_MAX"
  unfolding fields_of_def using fields_loop_values [of data 0 "[]" fs] by auto

fun pack_le :: "nat \<Rightarrow> nat \<Rightarrow> byte list" where
  "pack_le 0 n = []"
| "pack_le (Suc w) n = of_nat (n mod 256) # pack_le w (n div 256)"

lemma length_pack_le [simp]: "length (pack_le w n) = w"
  by (induction w arbitrary: n) auto

lemma unpack_pack_le: "n < 256 ^ w \<Longrightarrow> unpack_le (pack_le w n) = int n"
proof (induction w arbitrary: n)
  case 0
  then show ?case by simp
next
  case (Suc w)
  then have "n div 256 < 256 ^ w" by (simp add: less_mult_imp_div_less mult.commute)
  with Suc.IH have "unpack_le (pack_le (Suc w) n) = int (n mod 256) + 256 * int (n div 256)"
    by (simp add: uint_of_nat_byte)
  also have "\<dots> = int n" by (metis mod_mult_div_eq of_nat_add of_nat_mult of_nat_numeral)
  finally show ?case .
qed

definition encode_record :: "(nat \<times> nat) list \<Rightarrow> byte list" where
  "encode_record fs = pack_le 4 (length (encode_fields fs)) @ encode_fields fs"

lemma next_record_encode:
  assumes "list_all field_ok fs" "distinct (map fst fs)" "fs \<noteq> []"
    "length (encode_fields fs) \<le> 1024"
  shows "next_record (encode_record fs @ rest) = Inr (Some (map (map_prod int int) fs, rest))"
proof -
  let ?p = "encode_fields fs" and ?h = "pack_le 4 (length (encode_fields fs))"
  have t: "take 4 (encode_record fs @ rest) = ?h" "drop 4 (encode_record fs @ rest) = ?p @ rest"
    by (simp_all add: encode_record_def)
  have u: "unpack_le ?h = int (length ?p)"
    using assms(4) by (intro unpack_pack_le) simp
  have ne: "?h \<noteq> []" by (metis length_pack_le list.size(3) zero_neq_numeral)
  have pos: "0 < length ?p" using assms(3) by (cases fs) (auto simp: encode_fields_def)
  show ?thesis
    unfolding next_record_def t u Let_def
    using ne pos assms by (simp add: MAX_RECORD_BYTES_def fields_encode)
qed

lemma next_record_values [bounds]:
  "next_record stream = Inr (Some (fs, rest)) \<Longrightarrow> x \<in> snd ` set fs \<Longrightarrow> 0 \<le> x \<and> x \<le> UINT64_MAX"
  by (auto simp: next_record_def Let_def andthen_Inr_iff split: if_splits dest!: fields_values)


section \<open>Statistics of accepted images\<close>

definition stats_inv :: "int \<Rightarrow> int \<times> page_stats \<Rightarrow> bool" where
  "stats_inv ps acc \<longleftrightarrow> (case acc of (previous_end, st) \<Rightarrow>
     total_pages st = parent_pages st + present_pages st
     \<and> total_pages st * ps \<le> previous_end \<and> previous_end \<le> UINT64_MAX
     \<and> 0 \<le> parent_lazy_pages st \<and> parent_lazy_pages st \<le> parent_pages st
     \<and> parent_lazy_pages st \<le> lazy_eligible_pages st \<and> lazy_eligible_pages st \<le> total_pages st
     \<and> 0 \<le> present_pages st \<and> 0 \<le> entries st \<and> entries st \<le> total_pages st)"

lemma flags_and_or: "x AND (a OR b) = 0 \<longleftrightarrow> x AND a = 0 \<and> x AND b = (0::int)"
  by (metis bit.conj_disj_distrib bit.conj_zero_right or.right_neutral or_eq_0_iff)

lemma row_check_facts:
  assumes "row_check ps row pe = Inr (addr, cnt, fl)"
    and "\<And>x. x \<in> snd ` set row \<Longrightarrow> 0 \<le> x \<and> x \<le> UINT64_MAX"
  shows "1 \<le> cnt \<and> pe \<le> addr \<and> addr + cnt * ps \<le> UINT64_MAX \<and> addr mod ps = 0
    \<and> (fl AND PE_PARENT = 0) \<noteq> (fl AND PE_PRESENT = 0)"
proof -
  have "0 \<le> dict_get row 2 0" using assms(2) dict_get_elem [of row 2 0] by auto
  then have nn: "0 \<le> dict_get row 5 (dict_get row 2 0)"
    using assms(2) dict_get_elem [of row 5 "dict_get row 2 0"] by auto
  from assms(1) have "cnt = dict_get row 5 (dict_get row 2 0)" "cnt \<noteq> 0" "pe \<le> addr"
    "addr \<le> UINT64_MAX - cnt * ps" "addr mod ps = 0" "fl AND (PE_PARENT OR PE_PRESENT) \<noteq> 0"
    "\<not> (fl AND PE_PARENT \<noteq> 0 \<and> fl AND PE_PRESENT \<noteq> 0)"
    by (auto simp: row_check_def Let_def split: if_splits)
  with nn show ?thesis unfolding flags_and_or by auto
qed

lemma count_row_inv:
  assumes inv: "stats_inv ps (pe, st)" and c: "1 \<le> cnt" "pe \<le> addr" "addr + cnt * ps \<le> UINT64_MAX"
    and fl: "(fl AND PE_PARENT = 0) \<noteq> (fl AND PE_PRESENT = 0)"
  shows "stats_inv ps (addr + cnt * ps, count_row cnt fl st)"
proof -
  have "(total_pages st + cnt) * ps \<le> addr + cnt * ps"
    using inv c(2) by (auto simp: stats_inv_def algebra_simps)
  then show ?thesis using inv c fl by (auto simp: stats_inv_def count_row_def)
qed

lemma row_step_inv:
  assumes "row_step ps row acc = Inr acc'" "stats_inv ps acc"
    and "\<And>x. x \<in> snd ` set row \<Longrightarrow> 0 \<le> x \<and> x \<le> UINT64_MAX"
  shows "stats_inv ps acc'"
proof -
  obtain pe st where acc: "acc = (pe, st)" by (cases acc)
  with assms(1) obtain addr cnt fl where r: "row_check ps row pe = Inr (addr, cnt, fl)"
    and acc': "acc' = (addr + cnt * ps, count_row cnt fl st)"
    by (auto simp: row_step_def)
  from row_check_facts [OF r assms(3)] assms(2) show ?thesis
    unfolding acc acc' by (intro count_row_inv) auto
qed

lemma rows_loop_inv:
  "\<lbrakk>rows_loop ps stream acc = Inr acc'; stats_inv ps acc; 0 < ps\<rbrakk> \<Longrightarrow> stats_inv ps acc'"
proof (induction ps stream acc rule: rows_loop.induct)
  case (1 ps stream acc)
  from "1.prems"(1) obtain r where r: "next_record stream = Inr r"
    and rest: "(case r of None \<Rightarrow> Inr acc
       | Some (row, rest) \<Rightarrow> andthen (row_step ps row acc) (rows_loop ps rest)) = Inr acc'"
    by (subst (asm) rows_loop.simps) auto
  show ?case
  proof (cases r)
    case None
    with rest "1.prems" show ?thesis by simp
  next
    case (Some x)
    obtain row tl where x: "x = (row, tl)" by (cases x)
    from rest Some x obtain acc1 where s: "row_step ps row acc = Inr acc1"
      and l: "rows_loop ps tl acc1 = Inr acc'" by auto
    have "stats_inv ps acc1"
      by (rule row_step_inv [OF s "1.prems"(2)]) (use r Some x next_record_values in blast)
    with "1.IH" [OF r Some x [symmetric] s l] "1.prems"(3) show ?thesis by simp
  qed
qed

lemma read_pagemap_stats_Inr:
  assumes "read_pagemap_stats img ps = Inr (pid, st)"
  obtains head rest pe where "0 < ps" "next_record (drop 8 img) = Inr (Some (head, rest))"
    "fst ` set head = {1}" "pid = dict_get head 1 0" "pid \<le> 2 ^ 32 - 1"
    "rows_loop ps rest (0, zero_stats) = Inr (pe, st)"
proof -
  from assms obtain r where ps: "0 < ps" and r: "next_record (drop 8 img) = Inr r"
    and body: "(case r of None \<Rightarrow> Inl (ValueError ''Invalid CRIU pagemap head'')
        | Some (head, rest) \<Rightarrow>
            if fst ` set head \<noteq> {1} \<or> dict_get head 1 0 > 2 ^ 32 - 1
            then Inl (ValueError ''Invalid CRIU pagemap head'')
            else andthen (rows_loop ps rest (0, zero_stats)) (\<lambda>(_, st).
                   Inr (dict_get head 1 0, st))) = Inr (pid, st)"
    by (auto simp: read_pagemap_stats_def andthen_Inr_iff split: if_splits)
  then obtain head rest where "r = Some (head, rest)" by (cases r) auto
  with body obtain pe where "rows_loop ps rest (0, zero_stats) = Inr (pe, st)"
      "fst ` set head = {1}" "pid = dict_get head 1 0" "pid \<le> 2 ^ 32 - 1"
    by (auto simp: andthen_Inr_iff split: if_splits)
  with ps r \<open>r = Some (head, rest)\<close> show thesis by (intro that) auto
qed

lemma stats_inv_zero: "stats_inv ps (0, zero_stats)"
  by (simp add: stats_inv_def zero_stats_def UINT64_MAX_def)

lemma read_pagemap_stats_inv:
  assumes "read_pagemap_stats img ps = Inr (pid, st)"
  shows "0 < ps \<and> 0 \<le> pid \<and> pid < 2 ^ 32 \<and> (\<exists>pe. stats_inv ps (pe, st))"
  using assms
proof (rule read_pagemap_stats_Inr)
  fix head rest pe
  assume a: "0 < ps" "next_record (drop 8 img) = Inr (Some (head, rest))" "fst ` set head = {1}"
    "pid = dict_get head 1 0" "pid \<le> 2 ^ 32 - 1" "rows_loop ps rest (0, zero_stats) = Inr (pe, st)"
  have "pid \<in> snd ` set head" using a(3,4) dict_get_mem [of 1 head 0] by auto
  then have "0 \<le> pid" using next_record_values [OF a(2)] by blast
  moreover have "stats_inv ps (pe, st)"
    using rows_loop_inv [OF a(6) stats_inv_zero a(1)] .
  ultimately show ?thesis using a(1,5) by auto
qed

text \<open>
  C13. Whatever bytes an image holds, accepted statistics are consistent: every page is either
  inherited from the parent image or present in this one, never both and never neither, lazy pages
  are among them, and all the accepted ranges together fit into the 64-bit address space.
\<close>

theorem accepted_stats_consistent:
  assumes "read_pagemap_stats img page_size = Inr (pages_id, st)"
  shows "total_pages st = parent_pages st + present_pages st
    \<and> 0 \<le> parent_lazy_pages st \<and> parent_lazy_pages st \<le> parent_pages st
    \<and> lazy_eligible_pages st \<le> total_pages st \<and> entries st \<le> total_pages st
    \<and> total_pages st * page_size \<le> UINT64_MAX \<and> 0 \<le> pages_id \<and> pages_id < 2 ^ 32"
  using read_pagemap_stats_inv [OF assms] by (auto simp: stats_inv_def)

section \<open>Reading back a written image\<close>

text \<open>What CRIU 4.2 writes for one run of pages: address, a zero compatibility count, flags, count.\<close>

record pagemap_entry =
  pe_addr :: nat
  pe_count :: nat
  pe_flags :: nat

definition entry_fields :: "pagemap_entry \<Rightarrow> (nat \<times> nat) list" where
  "entry_fields e = [(1, pe_addr e), (2, 0), (4, pe_flags e), (5, pe_count e)]"

definition encode_entry :: "pagemap_entry \<Rightarrow> byte list" where
  "encode_entry e = encode_record (entry_fields e)"

definition encode_image :: "nat \<Rightarrow> pagemap_entry list \<Rightarrow> byte list" where
  "encode_image pages_id es =
     PAGEMAP_MAGIC @ encode_record [(1, pages_id)] @ concat (map (encode_entry) es)"

definition pages_with :: "(nat \<Rightarrow> bool) \<Rightarrow> pagemap_entry list \<Rightarrow> int" where
  "pages_with P es = (\<Sum>e \<leftarrow> es. if P (pe_flags e) then int (pe_count e) else 0)"

definition stats_of :: "pagemap_entry list \<Rightarrow> page_stats" where
  "stats_of es = \<lparr>total_pages = pages_with (\<lambda>f. True) es,
     parent_pages = pages_with (\<lambda>f. f \<in> {1, 3}) es,
     present_pages = pages_with (\<lambda>f. f \<in> {4, 6}) es,
     lazy_eligible_pages = pages_with (\<lambda>f. f \<in> {3, 6}) es,
     parent_lazy_pages = pages_with (\<lambda>f. f = 3) es, entries = int (length es)\<rparr>"

text \<open>Page-aligned, ascending, non-overlapping runs below the top of the address space.\<close>

fun entries_ok :: "nat \<Rightarrow> nat \<Rightarrow> pagemap_entry list \<Rightarrow> bool" where
  "entries_ok ps lo [] \<longleftrightarrow> True"
| "entries_ok ps lo (e # es) \<longleftrightarrow> 0 < pe_count e \<and> pe_addr e mod ps = 0 \<and> lo \<le> pe_addr e
     \<and> pe_addr e + pe_count e * ps < 2 ^ 64 \<and> pe_flags e \<in> {1, 3, 4, 6}
     \<and> entries_ok ps (pe_addr e + pe_count e * ps) es"

lemma encode_varint_length: "n < 2 ^ (7 * k) \<Longrightarrow> 0 < k \<Longrightarrow> length (encode_varint n) \<le> k"
proof (induction n arbitrary: k rule: encode_varint.induct)
  case (1 n)
  show ?case
  proof (cases "n < 128")
    case True
    with 1 show ?thesis by (simp add: encode_varint.simps [of n])
  next
    case False
    obtain k' where k: "k = Suc k'" using "1.prems"(2) by (cases k) auto
    with False "1.prems"(1) have "0 < k'" by (cases k') auto
    moreover have "n div 128 < 2 ^ (7 * k')"
      using "1.prems"(1) k by (simp add: power_add less_mult_imp_div_less mult.commute)
    ultimately have "length (encode_varint (n div 128)) \<le> k'" using "1.IH" [OF False] by simp
    with False k show ?thesis by (simp add: encode_varint.simps [of n])
  qed
qed

lemma encode_varint_length64: "n < 2 ^ 64 \<Longrightarrow> length (encode_varint n) \<le> 10"
  by (rule encode_varint_length) auto

lemma encode_fields_length: "list_all field_ok fs \<Longrightarrow> length (encode_fields fs) \<le> 20 * length fs"
proof (induction fs)
  case Nil
  then show ?case by (simp add: encode_fields_def)
next
  case (Cons f fs)
  then have "length (encode_varint (8 * fst f)) \<le> 10" "length (encode_varint (snd f)) \<le> 10"
    by (auto simp: field_ok_def intro: encode_varint_length64)
  with Cons show ?case by (simp add: encode_fields_def case_prod_beta)
qed

lemma next_record_entry:
  assumes "entries_ok ps lo (e # es)" "0 < ps"
  shows "next_record (encode_entry e @ rest)
    = Inr (Some (map (map_prod int int) (entry_fields e), rest))"
proof -
  have "pe_count e \<le> pe_count e * ps" using assms(2) by simp
  moreover have "pe_addr e + pe_count e * ps < 2 ^ 64" using assms(1) by simp
  ultimately have "pe_addr e < 2 ^ 64 \<and> pe_count e < 2 ^ 64" by linarith
  then have "list_all field_ok (entry_fields e)"
    using assms(1) by (auto simp: entry_fields_def field_ok_def)
  moreover from encode_fields_length [OF this] have "length (encode_fields (entry_fields e)) \<le> 1024"
    by (simp add: entry_fields_def)
  ultimately show ?thesis
    unfolding encode_entry_def by (intro next_record_encode) (auto simp: entry_fields_def)
qed

definition add_stats :: "pagemap_entry \<Rightarrow> page_stats \<Rightarrow> page_stats" where
  "add_stats e st = count_row (int (pe_count e)) (int (pe_flags e)) st"

lemma row_check_full:
  assumes "c \<noteq> 0" "c \<le> UINT64_MAX div ps" "a mod ps = 0" "pe \<le> a" "a + c * ps \<le> UINT64_MAX"
    and "f AND NOT (PE_PARENT OR PE_LAZY OR PE_PRESENT) = 0" "f AND (PE_PARENT OR PE_PRESENT) \<noteq> 0"
    "f AND PE_PARENT = 0 \<or> f AND PE_PRESENT = 0"
  shows "row_check ps [(1, a), (2, 0), (4, f), (5, c)] pe = Inr (a, c, f)"
proof -
  let ?row = "[(1, a), (2, 0), (4, f), (5, c)] :: field_dict"
  have g: "dict_get ?row 2 0 = 0" "dict_get ?row 5 0 = c" "dict_get ?row 1 0 = a"
    "dict_get ?row 3 0 = 0" "\<And>x. dict_get ?row 4 x = f" by simp_all
  have "\<not> (\<not> {1, 2} \<subseteq> fst ` set ?row \<or> fst ` set ?row - {1, 2, 3, 4, 5} \<noteq> {})"
    "\<not> ((0::int) > 2 ^ 32 - 1 \<or> (0::int) \<notin> {0, 1})" by simp_all
  moreover have "\<not> (c = 0 \<or> c > UINT64_MAX div ps \<or> a mod ps \<noteq> 0 \<or> a < pe \<or> a > UINT64_MAX - c * ps)"
    using assms(1-5) by linarith
  moreover have "\<not> (f AND NOT (PE_PARENT OR PE_LAZY OR PE_PRESENT) \<noteq> 0
      \<or> f AND (PE_PARENT OR PE_PRESENT) = 0 \<or> (f AND PE_PARENT \<noteq> 0 \<and> f AND PE_PRESENT \<noteq> 0))"
    using assms(6-8) by blast
  ultimately show ?thesis
    unfolding row_check_def Let_def g by (simp only: if_False)
qed

lemma row_check_entry:
  assumes ok: "entries_ok ps lo (e # es)" and ps: "0 < ps"
  shows "row_check (int ps) (map (map_prod int int) (entry_fields e)) (int lo)
    = Inr (int (pe_addr e), int (pe_count e), int (pe_flags e))"
proof -
  have c: "0 < pe_count e" "pe_addr e mod ps = 0" "lo \<le> pe_addr e"
    "pe_addr e + pe_count e * ps < 2 ^ 64" and fl: "pe_flags e \<in> {1, 3, 4, 6}"
    using ok by auto
  have "int (pe_addr e + pe_count e * ps) < int (2 ^ 64)" using c(4) by (simp only: of_nat_less_iff)
  then have top: "int (pe_addr e) + int (pe_count e) * int ps \<le> UINT64_MAX"
    by (simp add: UINT64_MAX_def)
  then have "int (pe_count e) * int ps \<le> UINT64_MAX" by linarith
  then have q: "int (pe_count e) \<le> UINT64_MAX div int ps"
    using ps zdiv_mono1 [of "int (pe_count e) * int ps" UINT64_MAX "int ps"] by simp
  have "int (pe_addr e mod ps) = 0" unfolding c(2) by simp
  then have al: "int (pe_addr e) mod int ps = 0" by (simp only: of_nat_mod)
  have flags: "int (pe_flags e) AND NOT (PE_PARENT OR PE_LAZY OR PE_PRESENT) = 0"
    "int (pe_flags e) AND (PE_PARENT OR PE_PRESENT) \<noteq> 0"
    "int (pe_flags e) AND PE_PARENT = 0 \<or> int (pe_flags e) AND PE_PRESENT = 0"
    using fl by (auto simp: PE_PARENT_def PE_LAZY_def PE_PRESENT_def)
  show ?thesis
    using row_check_full [OF _ q al _ top flags, of "int lo"] c(1,3) by (simp add: entry_fields_def)
qed

lemma row_step_entry:
  assumes "entries_ok ps lo (e # es)" "0 < ps"
  shows "row_step (int ps) (map (map_prod int int) (entry_fields e)) (int lo, st)
    = Inr (int (pe_addr e + pe_count e * ps), add_stats e st)"
  by (simp add: row_step_def row_check_entry [OF assms] add_stats_def)

lemma rows_loop_entries:
  assumes "entries_ok ps lo es" "0 < ps"
  shows "\<exists>pe. rows_loop (int ps) (concat (map (encode_entry) es)) (int lo, st)
    = Inr (pe, fold add_stats es st)"
  using assms
proof (induction es arbitrary: lo st)
  case Nil
  then show ?case by (subst rows_loop.simps) (simp add: next_record_def)
next
  case (Cons e es)
  let ?rest = "concat (map (encode_entry) es)"
  have "rows_loop (int ps) (encode_entry e @ ?rest) (int lo, st)
      = rows_loop (int ps) ?rest (int (pe_addr e + pe_count e * ps), add_stats e st)"
    by (subst rows_loop.simps)
      (simp add: next_record_entry [OF Cons.prems] row_step_entry [OF Cons.prems] del: of_nat_add of_nat_mult)
  moreover obtain pe where "rows_loop (int ps) ?rest (int (pe_addr e + pe_count e * ps), add_stats e st)
      = Inr (pe, fold add_stats es (add_stats e st))"
    using Cons.IH [of "pe_addr e + pe_count e * ps" "add_stats e st"] Cons.prems
    by (auto simp del: of_nat_add of_nat_mult)
  ultimately show ?case by simp
qed

lemma add_stats_flags:
  assumes "pe_flags e \<in> {1, 3, 4, 6}"
  shows "add_stats e st = st\<lparr>
     total_pages := total_pages st + int (pe_count e),
     parent_pages := parent_pages st + (if pe_flags e \<in> {1, 3} then int (pe_count e) else 0),
     present_pages := present_pages st + (if pe_flags e \<in> {4, 6} then int (pe_count e) else 0),
     lazy_eligible_pages :=
       lazy_eligible_pages st + (if pe_flags e \<in> {3, 6} then int (pe_count e) else 0),
     parent_lazy_pages := parent_lazy_pages st + (if pe_flags e = 3 then int (pe_count e) else 0),
     entries := entries st + 1\<rparr>"
  using assms by (auto simp: add_stats_def count_row_def PE_PARENT_def PE_LAZY_def PE_PRESENT_def)

lemma fold_add_stats:
  assumes "entries_ok ps lo es"
  shows "fold add_stats es st = \<lparr>total_pages = total_pages st + total_pages (stats_of es),
     parent_pages = parent_pages st + parent_pages (stats_of es),
     present_pages = present_pages st + present_pages (stats_of es),
     lazy_eligible_pages = lazy_eligible_pages st + lazy_eligible_pages (stats_of es),
     parent_lazy_pages = parent_lazy_pages st + parent_lazy_pages (stats_of es),
     entries = entries st + entries (stats_of es)\<rparr>"
  using assms
proof (induction es arbitrary: st lo)
  case Nil
  then show ?case by (simp add: stats_of_def pages_with_def)
next
  case (Cons e es)
  then have fl: "pe_flags e \<in> {1, 3, 4, 6}" and ok: "entries_ok ps (pe_addr e + pe_count e * ps) es"
    by auto
  show ?case using Cons.IH [OF ok, of "add_stats e st"]
    by (simp add: add_stats_flags [OF fl] stats_of_def pages_with_def)
qed

text \<open>
  C17. The reader inverts the writer: on the image that CRIU writes for any ascending,
  non-overlapping, page-aligned runs below the top of the address space, the statistics are exactly
  the page totals of the runs, by flag.
\<close>

theorem read_encode_image:
  assumes "entries_ok ps 0 es" "0 < ps" "int ps AND (int ps - 1) = 0" "pages_id < 2 ^ 32"
  shows "read_pagemap_stats (encode_image pages_id es) (int ps) = Inr (int pages_id, stats_of es)"
proof -
  let ?rest = "concat (map (encode_entry) es)"
  have ok: "list_all field_ok [(1, pages_id)]" using assms(4) by (simp add: field_ok_def)
  have "next_record (encode_record [(1, pages_id)] @ ?rest) = Inr (Some ([(1, int pages_id)], ?rest))"
    using next_record_encode [OF ok, of ?rest] encode_fields_length [OF ok] by simp
  moreover have "take 8 (encode_image pages_id es) = PAGEMAP_MAGIC"
    "drop 8 (encode_image pages_id es) = encode_record [(1, pages_id)] @ ?rest"
    by (simp_all add: encode_image_def PAGEMAP_MAGIC_def)
  moreover obtain pe where "rows_loop (int ps) ?rest (0, zero_stats) = Inr (pe, fold add_stats es zero_stats)"
    using rows_loop_entries [OF assms(1,2), of zero_stats] by auto
  moreover have "fold add_stats es zero_stats = stats_of es"
    by (simp add: fold_add_stats [OF assms(1)] zero_stats_def stats_of_def)
  moreover have "int pages_id \<le> 2 ^ 32 - 1" using assms(4) by simp
  ultimately show ?thesis using assms(2,3) by (simp add: read_pagemap_stats_def)
qed

definition sample_runs :: "pagemap_entry list" where
  "sample_runs = [\<lparr>pe_addr = 4, pe_count = 1, pe_flags = 4\<rparr>, \<lparr>pe_addr = 8, pe_count = 300, pe_flags = 3\<rparr>]"

theorem read_encode_image_witness:
  "read_pagemap_stats (encode_image 7 sample_runs) 2 = Inr (7, stats_of sample_runs)"
  using read_encode_image [of 2 sample_runs 7] by (simp add: sample_runs_def)

theorem accepted_stats_consistent_witness:
  "lazy_eligible_pages (stats_of sample_runs) = 300
    \<and> lazy_eligible_pages (stats_of sample_runs) \<le> total_pages (stats_of sample_runs)"
proof -
  have "read_pagemap_stats (encode_image 7 sample_runs) 2 = Inr (7, stats_of sample_runs)" by code_simp
  from accepted_stats_consistent [OF this] show ?thesis
    by (simp add: sample_runs_def stats_of_def pages_with_def)
qed

section \<open>Statistics of a dump directory\<close>

datatype inode = Regular "byte list" | NonRegular

type_synonym directory = "(string \<times> inode) list"

record task_stats =
  image_name :: string
  pages_file :: string
  pages_bytes :: int
  pages_id :: int
  task_pages :: page_stats

record dump_page_stats =
  dump_format :: string
  dump_page_size :: int
  pagemap_images :: nat
  dump_total_pages :: int
  dump_parent_pages :: int
  dump_present_pages :: int
  dump_lazy_eligible_pages :: int
  dump_parent_lazy_pages :: int
  private_pages_bytes :: int
  pages_data_bytes :: int
  tasks :: "task_stats list"

definition regular_size :: "directory \<Rightarrow> string \<Rightarrow> int result" where
  "regular_size dir name = (case map_of dir name of
       None \<Rightarrow> Inl (FileNotFoundError name)
     | Some NonRegular \<Rightarrow> Inl (ValueError (''Expected a regular CRIU image: '' @ name))
     | Some (Regular bs) \<Rightarrow> Inr (int (length bs)))"

text \<open>\<^verbatim>\<open>root.glob(pre + '*' + post)\<close>.\<close>

definition glob_match :: "string \<Rightarrow> string \<Rightarrow> string \<Rightarrow> bool" where
  "glob_match pre post name \<longleftrightarrow>
     prefix pre name \<and> suffix post name \<and> length pre + length post \<le> length name"

definition task_images :: "directory \<Rightarrow> string list" where
  "task_images dir = sort (filter (\<lambda>n. glob_match ''pagemap-'' ''.img'' n
      \<and> isdigit (take (length n - 12) (drop 8 n))) (map fst dir))"

definition pages_name :: "int \<Rightarrow> string" where
  "pages_name pid = ''pages-'' @ dec (nat pid) @ ''.img''"

definition zero_dump_stats :: "int \<Rightarrow> nat \<Rightarrow> dump_page_stats" where
  "zero_dump_stats page_size n = \<lparr>dump_format = ''criu-pagemap-4.2'', dump_page_size = page_size,
     pagemap_images = n, dump_total_pages = 0, dump_parent_pages = 0,
     dump_present_pages = 0, dump_lazy_eligible_pages = 0, dump_parent_lazy_pages = 0,
     private_pages_bytes = 0, pages_data_bytes = 0, tasks = []\<rparr>"

definition add_task :: "task_stats \<Rightarrow> dump_page_stats \<Rightarrow> dump_page_stats" where
  "add_task t r = r\<lparr>tasks := tasks r @ [t],
     private_pages_bytes := private_pages_bytes r + pages_bytes t,
     dump_total_pages := dump_total_pages r + total_pages (task_pages t),
     dump_parent_pages := dump_parent_pages r + parent_pages (task_pages t),
     dump_present_pages := dump_present_pages r + present_pages (task_pages t),
     dump_lazy_eligible_pages := dump_lazy_eligible_pages r + lazy_eligible_pages (task_pages t),
     dump_parent_lazy_pages := dump_parent_lazy_pages r + parent_lazy_pages (task_pages t)\<rparr>"

definition task_step ::
  "directory \<Rightarrow> int \<Rightarrow> string \<Rightarrow> int set \<times> dump_page_stats
    \<Rightarrow> (int set \<times> dump_page_stats) result" where
  "task_step dir page_size img = (\<lambda>(seen_page_ids, r).
     andthen (regular_size dir img) (\<lambda>_.
     case map_of dir img of
       Some (Regular bs) \<Rightarrow>
         andthen (read_pagemap_stats bs page_size) (\<lambda>(pid, st).
         if pid \<in> seen_page_ids
         then Inl (ValueError ''Task pagemaps unexpectedly share a pages image'')
         else andthen (regular_size dir (pages_name pid)) (\<lambda>size.
           if size \<noteq> present_pages st * page_size
           then Inl (ValueError (''CRIU pages length disagrees with pagemap: '' @ img))
           else Inr (insert pid seen_page_ids,
             add_task \<lparr>image_name = img, pages_file = pages_name pid, pages_bytes = size,
               pages_id = pid, task_pages = st\<rparr> r)))
     | _ \<Rightarrow> Inl (FileNotFoundError img)))"

definition collect_page_stats :: "directory \<Rightarrow> int \<Rightarrow> dump_page_stats result" where
  "collect_page_stats dir page_size =
     (let images = task_images dir in
      if images = [] then Inl (ValueError ''Completed CRIU dump has no task pagemap images'')
      else andthen (fold_result (task_step dir page_size) images ({}, zero_dump_stats page_size (length images)))
        (\<lambda>(_, r). andthen (map_result (regular_size dir)
            (filter (glob_match ''pages-'' ''.img'') (map fst dir))) (\<lambda>sizes.
          Inr (r\<lparr>pages_data_bytes := sum_list sizes\<rparr>))))"

definition dump_inv :: "directory \<Rightarrow> int \<Rightarrow> int set \<times> dump_page_stats \<Rightarrow> bool" where
  "dump_inv dir ps = (\<lambda>(seen, r).
     dump_total_pages r = dump_parent_pages r + dump_present_pages r
     \<and> private_pages_bytes r = dump_present_pages r * ps
     \<and> private_pages_bytes r = sum_list (map pages_bytes (tasks r))
     \<and> seen = set (map pages_id (tasks r)) \<and> distinct (map pages_id (tasks r))
     \<and> (\<forall>t \<in> set (tasks r). 0 \<le> pages_id t \<and> pages_file t = pages_name (pages_id t)
          \<and> regular_size dir (pages_file t) = Inr (pages_bytes t)))"

lemma dump_inv_zero: "dump_inv dir ps ({}, zero_dump_stats ps n)"
  by (simp add: dump_inv_def zero_dump_stats_def)

lemma task_step_inv:
  assumes "task_step dir ps img acc = Inr acc'" "dump_inv dir ps acc"
  shows "dump_inv dir ps acc'"
proof -
  obtain seen r where acc: "acc = (seen, r)" by (cases acc)
  with assms(1) obtain bs pid st size where
    rd: "read_pagemap_stats bs ps = Inr (pid, st)" and new: "pid \<notin> seen"
    and size: "regular_size dir (pages_name pid) = Inr size" "size = present_pages st * ps"
    and acc': "acc' = (insert pid seen, add_task \<lparr>image_name = img, pages_file = pages_name pid,
      pages_bytes = size, pages_id = pid, task_pages = st\<rparr> r)"
    by (auto simp: task_step_def andthen_Inr_iff split: option.splits inode.splits if_splits)
  from read_pagemap_stats_inv [OF rd] have "0 \<le> pid" "total_pages st = parent_pages st + present_pages st"
    by (auto simp: stats_inv_def)
  then show ?thesis
    using assms(2) new size by (auto simp: acc acc' dump_inv_def add_task_def algebra_simps)
qed

lemma pages_name_inj: "\<lbrakk>0 \<le> a; 0 \<le> b\<rbrakk> \<Longrightarrow> pages_name a = pages_name b \<longleftrightarrow> a = b"
  by (auto simp: pages_name_def dec_inj nat_eq_iff)

lemma pages_name_glob: "glob_match ''pages-'' ''.img'' (pages_name pid)"
proof -
  have "suffix ''.img'' (pages_name pid)"
    unfolding suffix_def pages_name_def by (rule exI [of _ "''pages-'' @ dec (nat pid)"]) simp
  then show ?thesis by (simp add: glob_match_def pages_name_def)
qed

lemma sum_sizes_le:
  assumes "distinct xs" "distinct ys" "set xs \<subseteq> set ys" "\<And>y. y \<in> set ys \<Longrightarrow> 0 \<le> (f y :: int)"
  shows "sum_list (map f xs) \<le> sum_list (map f ys)"
  unfolding sum_list_distinct_conv_sum_set [OF assms(1)] sum_list_distinct_conv_sum_set [OF assms(2)]
  by (rule sum_mono2) (use assms in auto)

text \<open>
  The summary of an accepted dump directory is consistent: every page is inherited or present,
  the payload files of the tasks hold exactly the present pages, no payload is counted for two
  tasks, and the payload of the tasks is part of the payload of the directory.
\<close>

theorem collect_page_stats_consistent:
  assumes "collect_page_stats dir ps = Inr r" "distinct (map fst dir)"
  shows "dump_total_pages r = dump_parent_pages r + dump_present_pages r
    \<and> private_pages_bytes r = dump_present_pages r * ps
    \<and> private_pages_bytes r \<le> pages_data_bytes r
    \<and> distinct (map pages_file (tasks r))"
proof -
  let ?files = "filter (glob_match ''pages-'' ''.img'') (map fst dir)"
  define sz where "sz name = (case regular_size dir name of Inr n \<Rightarrow> n | Inl _ \<Rightarrow> 0)" for name
  from assms(1) obtain seen r0 sizes where
    f: "fold_result (task_step dir ps) (task_images dir) ({}, zero_dump_stats ps (length (task_images dir)))
      = Inr (seen, r0)"
    and s: "map_result (regular_size dir) ?files = Inr sizes"
    and r: "r = r0\<lparr>pages_data_bytes := sum_list sizes\<rparr>"
    by (auto simp: collect_page_stats_def Let_def andthen_Inr_iff split: if_splits)
  from f have inv: "dump_inv dir ps (seen, r0)"
    by (rule fold_result_invariant [where P = "dump_inv dir ps"])
      (auto intro: dump_inv_zero task_step_inv)
  have all: "sizes = map sz ?files"
    using s by (auto simp: map_result_Inr_iff list_all2_conv_all_nth sz_def intro!: nth_equalityI)
  have "sum_list (map sz (map pages_file (tasks r0))) \<le> sum_list (map sz ?files)"
  proof (rule sum_sizes_le)
    show "distinct (map pages_file (tasks r0))"
      using inv by (auto simp: dump_inv_def distinct_map inj_on_def pages_name_inj)
    show "distinct ?files" using assms(2) by simp
    have "n \<in> fst ` set dir" if "regular_size dir n = Inr k" for n k
      using that by (auto simp: regular_size_def split: option.splits dest!: map_of_SomeD intro: rev_image_eqI)
    then show "set (map pages_file (tasks r0)) \<subseteq> set ?files"
      using inv by (auto simp: dump_inv_def pages_name_glob)
    show "\<And>y. y \<in> set ?files \<Longrightarrow> 0 \<le> sz y"
      by (auto simp: sz_def regular_size_def split: option.splits inode.splits)
  qed
  moreover have "map sz (map pages_file (tasks r0)) = map pages_bytes (tasks r0)"
    using inv by (auto simp: dump_inv_def sz_def)
  ultimately have "sum_list (map pages_bytes (tasks r0)) \<le> sum_list sizes" by (simp only: all)
  then show ?thesis using inv
    by (auto simp: r dump_inv_def distinct_map inj_on_def pages_name_inj)
qed

definition sample_dump :: directory where
  "sample_dump = [(''pages-7.img'', Regular [1, 2]), (''inventory.img'', Regular []),
     (''pages-shmem-3.img'', Regular [5]),
     (''pagemap-12.img'', Regular (encode_image 7 sample_runs))]"

theorem collect_page_stats_witness:
  "\<exists>r. collect_page_stats sample_dump 2 = Inr r \<and> dump_present_pages r = 1
    \<and> private_pages_bytes r = 2 \<and> pages_data_bytes r = 3
    \<and> private_pages_bytes r \<le> pages_data_bytes r"
proof -
  have "case collect_page_stats sample_dump 2 of Inl _ \<Rightarrow> False
    | Inr r \<Rightarrow> dump_present_pages r = 1 \<and> private_pages_bytes r = 2 \<and> pages_data_bytes r = 3"
    by code_simp
  then obtain r where r: "collect_page_stats sample_dump 2 = Inr r" "dump_present_pages r = 1"
    "private_pages_bytes r = 2" "pages_data_bytes r = 3" by (auto split: sum.splits)
  have "distinct (map fst sample_dump)" by (simp add: sample_dump_def)
  with collect_page_stats_consistent [OF r(1)] r show ?thesis by blast
qed

end
