(* ===== verification/Rollback.thy ===== *)
theory Rollback
  imports Prelude
begin

text \<open>
  The contract that every checkpointing layer of the system promises its client, as a locale: named
  checkpoints of a visible state, with restores in any order. The client lemmas are proved once;
  the overlay of a covered directory, the set of overlays and the whole-root sandbox interpret it.
\<close>

datatype 'w op = Checkpoint string | Restore string | Write 'w

fun exec_op ::
  "(string \<Rightarrow> 's \<Rightarrow> (unit, 's) eff) \<Rightarrow> (string \<Rightarrow> 's \<Rightarrow> (unit, 's) eff) \<Rightarrow> ('w \<Rightarrow> 's \<Rightarrow> 's)
    \<Rightarrow> 'w op \<Rightarrow> 's \<Rightarrow> (unit, 's) eff" where
  "exec_op checkpoint restore write_to (Checkpoint i) s = checkpoint i s"
| "exec_op checkpoint restore write_to (Restore i) s = restore i s"
| "exec_op checkpoint restore write_to (Write w) s = (Inr (), write_to w s)"

text \<open>A client that goes on after a failed operation.\<close>

fun attempt :: "('w op \<Rightarrow> 's \<Rightarrow> (unit, 's) eff) \<Rightarrow> 'w op list \<Rightarrow> 's \<Rightarrow> 's" where
  "attempt exec [] s = s"
| "attempt exec (x # xs) s = attempt exec xs (snd (exec x s))"

locale rollback_store =
  fixes inv :: "'s \<Rightarrow> bool"
    and checkpoint :: "string \<Rightarrow> 's \<Rightarrow> (unit, 's) eff"
    and restore :: "string \<Rightarrow> 's \<Rightarrow> (unit, 's) eff"
    and write_to :: "'w \<Rightarrow> 's \<Rightarrow> 's"
    and view :: "'s \<Rightarrow> 'v"
    and saved :: "'s \<Rightarrow> string \<Rightarrow> 'v option"
  assumes checkpoint_inv: "\<lbrakk>inv s; checkpoint i s = (Inr (), s')\<rbrakk> \<Longrightarrow> inv s'"
    and checkpoint_view: "\<lbrakk>inv s; checkpoint i s = (Inr (), s')\<rbrakk> \<Longrightarrow> view s' = view s"
    and checkpoint_saved: "\<lbrakk>inv s; checkpoint i s = (Inr (), s')\<rbrakk> \<Longrightarrow> saved s' = (saved s)(i \<mapsto> view s)"
    and restore_inv: "\<lbrakk>inv s; restore i s = (Inr (), s')\<rbrakk> \<Longrightarrow> inv s'"
    and restore_view: "\<lbrakk>inv s; restore i s = (Inr (), s')\<rbrakk> \<Longrightarrow> saved s i = Some (view s')"
    and restore_saved: "\<lbrakk>inv s; restore i s = (Inr (), s')\<rbrakk> \<Longrightarrow> saved s' = saved s"
    and write_inv: "inv s \<Longrightarrow> inv (write_to w s)"
    and write_saved: "inv s \<Longrightarrow> saved (write_to w s) = saved s"
begin

abbreviation (input) exec :: "'w op \<Rightarrow> 's \<Rightarrow> (unit, 's) eff" where
  "exec \<equiv> exec_op checkpoint restore write_to"

lemma exec_op_inv: "\<lbrakk>inv s; exec x s = (Inr (), s')\<rbrakk> \<Longrightarrow> inv s'"
  by (cases x) (auto intro: checkpoint_inv restore_inv write_inv)

lemma exec_op_saved:
  "\<lbrakk>inv s; exec x s = (Inr (), s'); x \<noteq> Checkpoint i\<rbrakk> \<Longrightarrow> saved s' i = saved s i"
  by (cases x) (auto simp: checkpoint_saved restore_saved write_saved)

lemma run_saved:
  assumes "for_eff exec ops s = (Inr (), s')" "inv s" "Checkpoint i \<notin> set ops"
  shows "inv s' \<and> saved s' i = saved s i"
  using assms
proof (induction ops arbitrary: s)
  case Nil
  then show ?case by simp
next
  case (Cons x ops)
  then obtain s1 where "exec x s = (Inr (), s1)" "for_eff exec ops s1 = (Inr (), s')"
    by (auto simp: bind_eff_Inr_iff)
  with Cons exec_op_inv [of s x s1] exec_op_saved [of s x s1 i] show ?case by auto
qed

text \<open>
  Whatever happens between a checkpoint and a restore of it, writes, checkpoints under other
  names and restores in any order, the restore brings back what was visible at the checkpoint.
\<close>

lemma rollback_exact:
  assumes "inv s" "checkpoint i s = (Inr (), s1)" "for_eff exec ops s1 = (Inr (), s2)"
    "Checkpoint i \<notin> set ops" "restore i s2 = (Inr (), s3)"
  shows "view s3 = view s \<and> inv s3"
proof -
  have "inv s1" using assms(1,2) by (rule checkpoint_inv)
  with run_saved [OF assms(3) _ assms(4)] checkpoint_saved [OF assms(1,2)]
  have s2: "inv s2" "saved s2 i = Some (view s)" by auto
  from restore_view [OF s2(1) assms(5)] restore_inv [OF s2(1) assms(5)] s2(2) show ?thesis by simp
qed

end

text \<open>A store whose failed operations change nothing that its client can see.\<close>

locale atomic_rollback_store = rollback_store inv checkpoint restore write_to view saved
  for inv :: "'s \<Rightarrow> bool" and checkpoint and restore and write_to :: "'w \<Rightarrow> 's \<Rightarrow> 's" and view and saved +
  assumes checkpoint_fails: "\<lbrakk>inv s; checkpoint i s = (Inl e, s')\<rbrakk>
      \<Longrightarrow> inv s' \<and> view s' = view s \<and> saved s' = saved s"
    and restore_fails: "\<lbrakk>inv s; restore i s = (Inl e, s')\<rbrakk>
      \<Longrightarrow> inv s' \<and> view s' = view s \<and> saved s' = saved s"
    and restore_unknown: "\<lbrakk>inv s; saved s i = None\<rbrakk> \<Longrightarrow> \<exists>m s'. restore i s = (Inl (KeyError m), s')"
begin

text \<open>After any run, failures included, every checkpoint keeps its meaning.\<close>

lemma exec_op_any:
  assumes "inv s"
  shows "inv (snd (exec x s)) \<and> (x \<noteq> Checkpoint i \<longrightarrow> saved (snd (exec x s)) i = saved s i)"
proof (cases "fst (exec x s)")
  case (Inl e)
  then have "exec x s = (Inl e, snd (exec x s))" by (metis prod.collapse)
  then show ?thesis
    using checkpoint_fails [OF assms] restore_fails [OF assms] by (cases x) auto
next
  case (Inr u)
  then have "exec x s = (Inr (), snd (exec x s))" by (metis (full_types) old.unit.exhaust prod.collapse)
  then show ?thesis using exec_op_inv [OF assms] exec_op_saved [OF assms] by metis
qed

lemma attempt_saved:
  "\<lbrakk>inv s; Checkpoint i \<notin> set ops\<rbrakk> \<Longrightarrow> inv (attempt exec ops s) \<and> saved (attempt exec ops s) i = saved s i"
proof (induction ops arbitrary: s)
  case Nil
  then show ?case by simp
next
  case (Cons x ops)
  from exec_op_any [OF Cons.prems(1), of x i] Cons.prems(2)
  have "inv (snd (exec x s))" "saved (snd (exec x s)) i = saved s i" by auto
  with Cons.IH [of "snd (exec x s)"] Cons.prems(2) show ?case by simp
qed

lemma attempt_inv: "inv s \<Longrightarrow> inv (attempt exec ops s)"
  using exec_op_any by (induction ops arbitrary: s) auto

lemma rollback_despite_failures:
  assumes "inv s" "checkpoint i s = (Inr (), s1)" "Checkpoint i \<notin> set ops"
    "restore i (attempt exec ops s1) = (Inr (), s3)"
  shows "view s3 = view s \<and> inv s3"
proof -
  have "inv s1" using assms(1,2) by (rule checkpoint_inv)
  with attempt_saved [of s1 i ops] assms(3) checkpoint_saved [OF assms(1,2)]
  have s2: "inv (attempt exec ops s1)" "saved (attempt exec ops s1) i = Some (view s)" by auto
  from restore_view [OF s2(1) assms(4)] restore_inv [OF s2(1) assms(4)] s2(2) show ?thesis by simp
qed

end

end
