(* ===== verification/Branching.thy ===== *)
theory Branching
  imports Rollback
begin

text \<open>
  What a client that explores a tree of states asks of a checkpointing layer. The lineage of a sequence of
  operations names, for every checkpoint that it takes, the checkpoint that the state was derived from and
  the writes in between. In every store that keeps the rollback contract, a checkpoint holds what those
  writes make of the state that the other one holds. The search on the host and the replay schedules are
  such clients.
\<close>

fun lineage :: "string option \<Rightarrow> 'w list \<Rightarrow> 'w op list \<Rightarrow> (string option \<times> 'w list \<times> string) list" where
  "lineage b ws [] = []"
| "lineage b ws (Checkpoint c # ops) = (b, ws, c) # lineage (Some c) [] ops"
| "lineage b ws (Restore c # ops) = lineage (Some c) [] ops"
| "lineage b ws (Write w # ops) = lineage b (ws @ [w]) ops"

text \<open>The checkpoint that the state is derived from after the operations, and the writes since then.\<close>

fun based_on :: "string option \<Rightarrow> 'w list \<Rightarrow> 'w op list \<Rightarrow> string option \<times> 'w list" where
  "based_on b ws [] = (b, ws)"
| "based_on b ws (Checkpoint c # ops) = based_on (Some c) [] ops"
| "based_on b ws (Restore c # ops) = based_on (Some c) [] ops"
| "based_on b ws (Write w # ops) = based_on b (ws @ [w]) ops"

fun taken :: "'w op list \<Rightarrow> string list" where
  "taken [] = []"
| "taken (Checkpoint c # ops) = c # taken ops"
| "taken (Restore c # ops) = taken ops"
| "taken (Write w # ops) = taken ops"

text \<open>Every checkpoint has a new name and only those that exist are restored.\<close>

fun orderly :: "string set \<Rightarrow> 'w op list \<Rightarrow> bool" where
  "orderly K [] \<longleftrightarrow> True"
| "orderly K (Checkpoint c # ops) \<longleftrightarrow> c \<notin> K \<and> orderly (insert c K) ops"
| "orderly K (Restore c # ops) \<longleftrightarrow> c \<in> K \<and> orderly K ops"
| "orderly K (Write w # ops) \<longleftrightarrow> orderly K ops"

lemma lineage_append [simp]:
  "lineage b ws (xs @ ys) = lineage b ws xs @ (case based_on b ws xs of (b', ws') \<Rightarrow> lineage b' ws' ys)"
  by (induction b ws xs rule: lineage.induct) auto

lemma based_on_append [simp]:
  "based_on b ws (xs @ ys) = (case based_on b ws xs of (b', ws') \<Rightarrow> based_on b' ws' ys)"
  by (induction b ws xs rule: based_on.induct) auto

lemma taken_append [simp]: "taken (xs @ ys) = taken xs @ taken ys"
  by (induction xs rule: taken.induct) auto

lemma taken_lineage: "map (\<lambda>(b, ws, c). c) (lineage b ws ops) = taken ops"
  by (induction b ws ops rule: lineage.induct) auto

lemma taken_set: "c \<in> set (taken ops) \<longleftrightarrow> Checkpoint c \<in> set ops"
  by (induction ops rule: taken.induct) auto

lemma orderly_append [simp]: "orderly K (xs @ ys) \<longleftrightarrow> orderly K xs \<and> orderly (K \<union> set (taken xs)) ys"
  by (induction K xs rule: orderly.induct) auto

lemma orderly_taken: "orderly K ops \<Longrightarrow> k \<in> K \<Longrightarrow> k \<notin> set (taken ops)"
  by (induction K ops rule: orderly.induct) auto

lemma lineage_map: "lineage b (map f ws) (map (map_op f) ops) = map (\<lambda>(b, ws, c). (b, map f ws, c)) (lineage b ws ops)"
proof (induction ops arbitrary: b ws)
  case (Cons x ops)
  show ?case
  proof (cases x)
    case (Write w)
    then show ?thesis using Cons [of b "ws @ [w]"] by simp
  qed (use Cons [of _ "[]"] in simp_all)
qed simp

lemma orderly_map [simp]: "orderly K (map (map_op f) ops) = orderly K ops"
  by (induction K ops rule: orderly.induct) auto

context rollback_store
begin

text \<open>Several writes at a time.\<close>

lemma fold_store: "rollback_store inv checkpoint restore (fold write_to) view saved"
proof
  fix s ws assume "inv s"
  then have "inv (fold write_to ws s) \<and> saved (fold write_to ws s) = saved s"
  proof (induction ws arbitrary: s)
    case (Cons w ws)
    then show ?case using write_inv [OF Cons.prems, of w] write_saved [OF Cons.prems, of w] by simp
  qed simp
  then show "inv (fold write_to ws s)" "saved (fold write_to ws s) = saved s" by simp_all
qed (fact checkpoint_inv checkpoint_view checkpoint_saved restore_inv restore_view restore_saved)+

lemma orderly_keeps: "\<lbrakk>for_eff exec ops s = (Inr (), s'); inv s; orderly K ops; k \<in> K\<rbrakk> \<Longrightarrow> saved s' k = saved s k"
  using run_saved [of ops s s' k] orderly_taken [of K ops k] by (simp add: taken_set)

lemma lineage_from:
  assumes "for_eff exec ops s = (Inr (), s')" "orderly K ops" "inv s"
    and "\<forall>i. b = Some i \<longrightarrow> i \<in> K \<and> (\<exists>s0. inv s0 \<and> saved s i = Some (view s0) \<and> s = fold write_to ws s0)"
    and "(Some j, us, c) \<in> set (lineage b ws ops)"
  shows "\<exists>sj. inv sj \<and> saved s' j = Some (view sj) \<and> saved s' c = Some (view (fold write_to us sj))"
  using assms
proof (induction b ws ops arbitrary: s K rule: lineage.induct)
  case (2 b ws d ops)
  then obtain s1 where s1: "checkpoint d s = (Inr (), s1)" "for_eff exec ops s1 = (Inr (), s')" "orderly (insert d K) ops" "d \<notin> K"
    by (auto simp: bind_eff_Inr_iff)
  have i1: "inv s1" "view s1 = view s" "saved s1 = (saved s)(d \<mapsto> view s)"
    using checkpoint_inv checkpoint_view checkpoint_saved 2(4) s1(1) by blast+
  note keep = orderly_keeps [OF s1(2) i1(1) s1(3)]
  show ?case
  proof (cases "(Some j, us, c) = (b, ws, d)")
    case True
    then obtain s0 where s0: "inv s0" "saved s j = Some (view s0)" "s = fold write_to us s0" "j \<in> K" using 2(5) by auto
    then have "saved s' j = Some (view s0)" "saved s' c = Some (view s)" using keep [of j] keep [of d] i1 s1(4) True by auto
    then show ?thesis using s0 by auto
  next
    case False
    then have "(Some j, us, c) \<in> set (lineage (Some d) [] ops)" using 2(6) by auto
    then show ?thesis using 2(1) [OF s1(2,3) i1(1)] i1 by auto
  qed
next
  case (3 b ws d ops)
  then obtain s1 where s1: "restore d s = (Inr (), s1)" "for_eff exec ops s1 = (Inr (), s')" "orderly K ops" "d \<in> K"
    by (auto simp: bind_eff_Inr_iff)
  have i1: "inv s1" "saved s d = Some (view s1)" "saved s1 = saved s"
    using restore_inv restore_view restore_saved 3(4) s1(1) by blast+
  then show ?case using 3(1) [OF s1(2,3) i1(1)] 3(6) s1(4) by auto
next
  case (4 b ws w ops)
  then have s1: "for_eff exec ops (write_to w s) = (Inr (), s')" "orderly K ops" by simp_all
  have "\<forall>i. b = Some i \<longrightarrow> i \<in> K \<and> (\<exists>s0. inv s0 \<and> saved (write_to w s) i = Some (view s0) \<and> write_to w s = fold write_to (ws @ [w]) s0)"
    using 4(5) write_saved [OF 4(4)] by auto
  then show ?case using 4(1) [OF s1 write_inv [OF 4(4)]] 4(6) by simp
qed simp

text \<open>
  A run from a state of the store: what a checkpoint holds is what the writes of its lineage make of a state
  that looks like the checkpoint it was derived from.
\<close>

lemma lineage_holds:
  assumes "for_eff exec ops s = (Inr (), s')" "orderly {} ops" "inv s" "(Some j, us, c) \<in> set (lineage None [] ops)"
  shows "\<exists>sj. inv sj \<and> saved s' j = Some (view sj) \<and> saved s' c = Some (view (fold write_to us sj))"
  using lineage_from [OF assms(1,2,3) _ assms(4)] by simp

end

end
