(* ===== verification/Root_Overlay.thy ===== *)
theory Root_Overlay
  imports Paths Rollback "HOL-Library.Word"
begin

unbundle bit_operations_syntax

text \<open>
  Model of \<^verbatim>\<open>backends/deltabox/gsd/root_overlay.py\<close>: a covered directory backed by a hot-switchable
  overlay, and the set of covered directories. The kernel is outside of the repository: its mount
  and ioctl calls, and what a stack of layers shows, are fields of a record that every definition
  takes as its argument. What the code relies on is stated as \<^verbatim>\<open>kernel_ok\<close>: the layer switch of the
  patched overlay file system, with its injection of the old upper layer for the kind \<^verbatim>\<open>ckpt\<close>, and
  that an empty upper layer shows the layers below it.
\<close>

section \<open>World and kernel\<close>

text \<open>
  \<^verbatim>\<open>dirs\<close>: the contents of the directories that serve as layers; \<^verbatim>\<open>stacks\<close>: for every overlay mount
  point its active layers, the upper one first; \<^verbatim>\<open>mounts\<close>: the mount points, the latest one first.
\<close>

record 'l world =
  dirs :: "string \<Rightarrow> 'l option"
  stacks :: "string \<Rightarrow> string list"
  mounts :: "string list"

text \<open>
  A failing call of \<^verbatim>\<open>mount\<close> yields its standard error, a failing ioctl or open its message. The
  ioctl gets the option string and the active layers and yields the new active layers.
\<close>

record ('l, 'v) kernel =
  empty_dir :: 'l
  merge :: "'l list \<Rightarrow> 'v"
  bind_err :: "string \<Rightarrow> string \<Rightarrow> 'l world \<Rightarrow> string option"
  mount_overlay :: "string \<Rightarrow> string + string list"
  open_err :: "string \<Rightarrow> 'l world \<Rightarrow> string option"
  ovl_ioctl :: "string \<Rightarrow> string list \<Rightarrow> string + string list"

definition makedirs :: "('l, 'v) kernel \<Rightarrow> string \<Rightarrow> 'l world \<Rightarrow> 'l world" where
  "makedirs k p w = (if dirs w p = None then w\<lparr>dirs := (dirs w)(p \<mapsto> empty_dir k)\<rparr> else w)"

definition umount :: "string \<Rightarrow> 'l world \<Rightarrow> 'l world" where
  "umount p w = w\<lparr>mounts := remove1 p (mounts w)\<rparr>"

definition content :: "('l, 'v) kernel \<Rightarrow> 'l world \<Rightarrow> string \<Rightarrow> 'l" where
  "content k w p = (case dirs w p of Some l \<Rightarrow> l | None \<Rightarrow> empty_dir k)"

section \<open>Option strings\<close>

definition layer_opts :: "string list \<Rightarrow> string \<Rightarrow> string \<Rightarrow> string \<Rightarrow> string" where
  "layer_opts lowers upper work rest =
     ''lowerdir='' @ join_on (CHR '':'') lowers @ '',upperdir='' @ upper
       @ '',workdir='' @ work @ '','' @ rest"

definition switch_opts :: "string list \<Rightarrow> string \<Rightarrow> string \<Rightarrow> string \<Rightarrow> string" where
  "switch_opts lowers upper work kind = layer_opts lowers upper work (''ovl_kind='' @ kind)"

definition OVL_OPTS :: string where
  "OVL_OPTS = ''index=off,metacopy=off,redirect_dir=off''"

definition iow :: "char \<Rightarrow> nat \<Rightarrow> nat \<Rightarrow> nat" where
  "iow type_char nr sz =
     push_bit 30 1 OR push_bit 16 sz OR push_bit 8 (of_char type_char) OR nr"

definition OVL_IOCTL_CHECKPOINT_CMD :: nat where
  "OVL_IOCTL_CHECKPOINT_CMD = iow (CHR ''O'') 1 16"

section \<open>One covered directory\<close>

record root_overlay =
  o_target :: string
  o_tag :: string
  o_root :: string
  o_stash :: string
  o_merged :: string
  o_fd :: bool
  o_n :: nat
  lower_chain :: "string list"
  o_upper :: string
  o_work :: string
  snapshots :: "(string \<times> string list) list"

definition strip_slashes :: "string \<Rightarrow> string" where
  "strip_slashes s = rev (dropWhile (\<lambda>c. c = CHR ''/'') (rev (dropWhile (\<lambda>c. c = CHR ''/'') s)))"

definition tag_of :: "string \<Rightarrow> string" where
  "tag_of target =
     (let t = map (\<lambda>c. if c = CHR ''/'' then CHR ''_'' else c) (strip_slashes target) in
      if t = [] then ''root'' else t)"

definition new_overlay :: "string \<Rightarrow> string \<Rightarrow> root_overlay" where
  "new_overlay target layers_root =
     (let target = normpath target; tag = tag_of target; root = path_join layers_root tag in
      \<lparr>o_target = target, o_tag = tag, o_root = root,
       o_stash = path_join root ''stash'', o_merged = path_join root ''merged'',
       o_fd = False, o_n = 0, lower_chain = [], o_upper = [], o_work = [], snapshots = []\<rparr>)"

type_synonym 'l ovl = "root_overlay \<times> 'l world"

definition upper_dir :: "root_overlay \<Rightarrow> nat \<Rightarrow> string" where
  "upper_dir ov n = path_join (o_root ov) (CHR ''u'' # dec n)"

definition work_dir :: "root_overlay \<Rightarrow> nat \<Rightarrow> string" where
  "work_dir ov n = path_join (o_root ov) (CHR ''w'' # dec n)"

definition fresh :: "('l, 'v) kernel \<Rightarrow> 'l ovl \<Rightarrow> (string \<times> string) \<times> 'l ovl" where
  "fresh k = (\<lambda>(ov, w).
     let n = o_n ov + 1; u = upper_dir ov n; wd = work_dir ov n in
     ((u, wd), (ov\<lparr>o_n := n\<rparr>, makedirs k wd (makedirs k u w))))"

text \<open>\<^verbatim>\<open>_switch\<close>: the ioctl on the descriptor of the merged directory.\<close>

definition switch ::
  "('l, 'v) kernel \<Rightarrow> string list \<Rightarrow> string \<Rightarrow> string \<Rightarrow> string \<Rightarrow> 'l ovl \<Rightarrow> (unit, 'l ovl) eff" where
  "switch k lowers upper work kind = (\<lambda>(ov, w).
     if \<not> o_fd ov then (Inl (TypeError ''argument must be an int, or have a fileno() method.''), (ov, w))
     else case ovl_ioctl k (switch_opts lowers upper work kind) (stacks w (o_merged ov)) of
         Inl err \<Rightarrow> (Inl (OSError err), (ov, w))
       | Inr st \<Rightarrow> (Inr (), (ov, w\<lparr>stacks := (stacks w)(o_merged ov := st)\<rparr>)))"

definition mount :: "('l, 'v) kernel \<Rightarrow> 'l ovl \<Rightarrow> (unit, 'l ovl) eff" where
  "mount k = (\<lambda>(ov, w).
     case fresh k (ov, makedirs k (o_merged ov) (makedirs k (o_stash ov) w)) of
       ((u0, w0), (ov, w)) \<Rightarrow>
     (case bind_err k (o_target ov) (o_stash ov) w of
        Some err \<Rightarrow> (Inl (RuntimeError (''stash bind '' @ o_target ov @ '': '' @ err)), (ov, w))
      | None \<Rightarrow>
     let w = w\<lparr>dirs := (dirs w)(o_stash ov := dirs w (o_target ov)), mounts := o_stash ov # mounts w\<rparr> in
     (case mount_overlay k (layer_opts [o_stash ov] u0 w0 OVL_OPTS) of
        Inl err \<Rightarrow> (Inl (RuntimeError (''overlay mount '' @ o_target ov @ '': '' @ err)),
                    (ov, umount (o_stash ov) w))
      | Inr st \<Rightarrow>
     let w = w\<lparr>stacks := (stacks w)(o_merged ov := st), mounts := o_merged ov # mounts w\<rparr> in
     (case bind_err k (o_merged ov) (o_target ov) w of
        Some err \<Rightarrow> (Inl (RuntimeError (''bind merged over '' @ o_target ov @ '': '' @ err)),
                     (ov, umount (o_stash ov) (umount (o_merged ov) w)))
      | None \<Rightarrow>
     let w = w\<lparr>mounts := o_target ov # mounts w\<rparr> in
     (case open_err k (o_merged ov) w of
        Some err \<Rightarrow> (Inl (OSError err), (ov, w))
      | None \<Rightarrow> (Inr (), (ov\<lparr>o_fd := True, lower_chain := [o_stash ov], o_upper := u0, o_work := w0\<rparr>, w)))))))"

definition checkpoint :: "('l, 'v) kernel \<Rightarrow> string \<Rightarrow> 'l ovl \<Rightarrow> (unit, 'l ovl) eff" where
  "checkpoint k ckpt_id s =
     (case fresh k s of ((nu, nw), s1) \<Rightarrow>
      bind_eff (switch k (lower_chain (fst s1)) nu nw ''ckpt'' s1) (\<lambda>_ (ov, w).
        let chain = o_upper ov # lower_chain ov in
        (Inr (), (ov\<lparr>lower_chain := chain, o_upper := nu, o_work := nw,
            snapshots := AList.update ckpt_id chain (snapshots ov)\<rparr>, w))))"

definition restore :: "('l, 'v) kernel \<Rightarrow> string \<Rightarrow> 'l ovl \<Rightarrow> (unit, 'l ovl) eff" where
  "restore k ckpt_id s =
     (case map_of (snapshots (fst s)) ckpt_id of
        None \<Rightarrow> (Inl (KeyError (o_target (fst s) @ '': no checkpoint '' @ py_repr ckpt_id)), s)
      | Some target \<Rightarrow>
        (case fresh k s of ((nu, nw), s1) \<Rightarrow>
         bind_eff (switch k target nu nw ''restore'' s1) (\<lambda>_ (ov, w).
           (Inr (), (ov\<lparr>lower_chain := target, o_upper := nu, o_work := nw\<rparr>, w)))))"

definition ext_mount_map_args :: "root_overlay \<Rightarrow> string list" where
  "ext_mount_map_args ov =
     concat (map (\<lambda>p. [''--ext-mount-map'', p @ '':'' @ p]) [o_merged ov, o_target ov])"

definition teardown :: "'l ovl \<Rightarrow> 'l ovl" where
  "teardown = (\<lambda>(ov, w).
     (ov\<lparr>o_fd := False\<rparr>, umount (o_stash ov) (umount (o_merged ov) (umount (o_target ov) w))))"

text \<open>A process writes through the overlay: only the active upper layer changes.\<close>

definition fs_write :: "'l \<Rightarrow> 'l ovl \<Rightarrow> 'l ovl" where
  "fs_write l = (\<lambda>(ov, w). (ov, w\<lparr>dirs := (dirs w)(hd (stacks w (o_merged ov)) \<mapsto> l)\<rparr>))"

section \<open>The set of covered directories\<close>

definition DEFAULT_TARGETS :: "string list" where
  "DEFAULT_TARGETS = [''/usr'', ''/etc'', ''/var'', ''/opt'']"

definition DEFAULT_EXCLUDES :: "string list" where
  "DEFAULT_EXCLUDES =
     [''/proc'', ''/sys'', ''/dev'', ''/run'', ''/tmp'', ''/var/log'', ''/var/run'']"

definition new_overlay_set :: "string list option \<Rightarrow> string \<Rightarrow> (string \<Rightarrow> bool) \<Rightarrow> root_overlay list" where
  "new_overlay_set targets layers_root isdir =
     map (\<lambda>t. new_overlay t layers_root)
       (filter (\<lambda>t. t \<notin> set DEFAULT_EXCLUDES \<and> isdir t)
         (map normpath (case targets of Some ts \<Rightarrow> ts | None \<Rightarrow> DEFAULT_TARGETS)))"

text \<open>
  \<^verbatim>\<open>mount_all\<close>: \<^verbatim>\<open>done\<close> holds the mounted overlays, the latest one first; an exception of one
  mount tears them down in this order before it propagates.
\<close>

fun mount_each ::
  "('l, 'v) kernel \<Rightarrow> root_overlay list \<Rightarrow> root_overlay list \<Rightarrow> 'l world \<Rightarrow> (unit, root_overlay list \<times> 'l world) eff" where
  "mount_each k [] dn w = (Inr (), (rev dn, w))"
| "mount_each k (ov # ovs) dn w =
     (case mount k (ov, w) of
        (Inr _, (ov', w')) \<Rightarrow> mount_each k ovs (ov' # dn) w'
      | (Inl e, (ov', w')) \<Rightarrow>
          (Inl e, (rev (map (\<lambda>d. d\<lparr>o_fd := False\<rparr>) dn) @ ov' # ovs,
                   fold (\<lambda>d w. snd (teardown (d, w))) dn w')))"

definition mount_all ::
  "('l, 'v) kernel \<Rightarrow> string \<Rightarrow> root_overlay list \<times> 'l world \<Rightarrow> (unit, root_overlay list \<times> 'l world) eff" where
  "mount_all k layers_root = (\<lambda>(ovs, w). mount_each k ovs [] (makedirs k layers_root w))"

text \<open>An operation on every overlay in turn, stopping at the first exception.\<close>

fun each_overlay ::
  "('l ovl \<Rightarrow> (unit, 'l ovl) eff) \<Rightarrow> root_overlay list \<Rightarrow> 'l world \<Rightarrow> (unit, root_overlay list \<times> 'l world) eff" where
  "each_overlay f [] w = (Inr (), ([], w))"
| "each_overlay f (ov # ovs) w =
     (case f (ov, w) of
        (Inl e, (ov', w')) \<Rightarrow> (Inl e, (ov' # ovs, w'))
      | (Inr _, (ov', w')) \<Rightarrow>
          (case each_overlay f ovs w' of (r, (ovs', w'')) \<Rightarrow> (r, (ov' # ovs', w''))))"

definition set_checkpoint ::
  "('l, 'v) kernel \<Rightarrow> string \<Rightarrow> root_overlay list \<times> 'l world \<Rightarrow> (unit, root_overlay list \<times> 'l world) eff" where
  "set_checkpoint k ckpt_id = (\<lambda>(ovs, w). each_overlay (checkpoint k ckpt_id) ovs w)"

definition has_checkpoint :: "string \<Rightarrow> root_overlay list \<Rightarrow> bool" where
  "has_checkpoint ckpt_id ovs \<longleftrightarrow>
     ovs \<noteq> [] \<and> list_all (\<lambda>ov. map_of (snapshots ov) ckpt_id \<noteq> None) ovs"

definition set_restore ::
  "('l, 'v) kernel \<Rightarrow> string \<Rightarrow> root_overlay list \<times> 'l world \<Rightarrow> (unit, root_overlay list \<times> 'l world) eff" where
  "set_restore k ckpt_id = (\<lambda>(ovs, w). each_overlay (restore k ckpt_id) ovs w)"

definition criu_ext_mount_map_args :: "root_overlay list \<Rightarrow> string list" where
  "criu_ext_mount_map_args ovs = concat (map ext_mount_map_args ovs)"

definition set_teardown :: "root_overlay list \<times> 'l world \<Rightarrow> root_overlay list \<times> 'l world" where
  "set_teardown = (\<lambda>(ovs, w).
     (map (\<lambda>ov. ov\<lparr>o_fd := False\<rparr>) ovs, fold (\<lambda>ov w. snd (teardown (ov, w))) (rev ovs) w))"

section \<open>What the code relies on\<close>

definition clean :: "string \<Rightarrow> bool" where
  "clean p \<longleftrightarrow> CHR '':'' \<notin> set p \<and> CHR '','' \<notin> set p"

definition kernel_ok :: "('l, 'v) kernel \<Rightarrow> bool" where
  "kernel_ok k \<longleftrightarrow>
     (\<forall>ls. ls \<noteq> [] \<longrightarrow> merge k (empty_dir k # ls) = merge k ls)
     \<and> (\<forall>lowers up wd act st. list_all clean lowers \<and> lowers \<noteq> [] \<and> clean up \<and> clean wd \<longrightarrow>
          (ovl_ioctl k (switch_opts lowers up wd ''ckpt'') act = Inr st \<longrightarrow> st = up # hd act # lowers)
        \<and> (ovl_ioctl k (switch_opts lowers up wd ''restore'') act = Inr st \<longrightarrow> st = up # lowers))
     \<and> (\<forall>low up wd st. clean low \<and> clean up \<and> clean wd \<longrightarrow>
          mount_overlay k (layer_opts [low] up wd OVL_OPTS) = Inr st \<longrightarrow> st = [up, low])"

section \<open>Layers of an overlay\<close>

definition own_paths :: "root_overlay \<Rightarrow> string set" where
  "own_paths ov = {path_join (o_root ov) x | x. x \<noteq> [] \<and> CHR ''/'' \<notin> set x}"

definition root_ok :: "root_overlay \<Rightarrow> bool" where
  "root_ok ov \<longleftrightarrow> clean (o_root ov) \<and> o_root ov \<noteq> [] \<and> \<not> suffix ''/'' (o_root ov)
     \<and> clean (o_stash ov) \<and> (\<forall>n. upper_dir ov n \<noteq> o_stash ov) \<and> (\<forall>n. upper_dir ov n \<noteq> o_merged ov)"

definition chain_ok :: "root_overlay \<Rightarrow> string list \<Rightarrow> bool" where
  "chain_ok ov ch \<longleftrightarrow> ch \<noteq> [] \<and> set ch \<subseteq> insert (o_stash ov) (upper_dir ov ` {..o_n ov})"

definition overlay_inv :: "'l ovl \<Rightarrow> bool" where
  "overlay_inv = (\<lambda>(ov, w). o_fd ov \<and> root_ok ov
     \<and> stacks w (o_merged ov) = o_upper ov # lower_chain ov
     \<and> o_upper ov \<in> upper_dir ov ` {..o_n ov} \<and> chain_ok ov (lower_chain ov)
     \<and> (\<forall>(i, ch) \<in> set (snapshots ov). chain_ok ov ch \<and> o_upper ov \<notin> set ch)
     \<and> (\<forall>m > o_n ov. dirs w (upper_dir ov m) = None))"

definition overlay_view :: "('l, 'v) kernel \<Rightarrow> 'l ovl \<Rightarrow> 'v" where
  "overlay_view k = (\<lambda>(ov, w). merge k (map (content k w) (stacks w (o_merged ov))))"

definition overlay_saved :: "('l, 'v) kernel \<Rightarrow> 'l ovl \<Rightarrow> string \<Rightarrow> 'v option" where
  "overlay_saved k = (\<lambda>(ov, w) i.
     map_option (\<lambda>ch. merge k (map (content k w) ch)) (map_of (snapshots ov) i))"

lemma dec_no_slash: "CHR ''/'' \<notin> set (dec n)"
  using isdigit_dec [of n] by (auto simp: isdigit_def list_all_iff is_digit_def)

lemma dec_clean: "CHR '':'' \<notin> set (dec n)" "CHR '','' \<notin> set (dec n)"
  using isdigit_dec [of n] by (auto simp: isdigit_def list_all_iff is_digit_def)

lemma path_join_own:
  assumes "root_ok ov" "x \<noteq> []" "CHR ''/'' \<notin> set x"
  shows "path_join (o_root ov) x = o_root ov @ ''/'' @ x"
  using assms by (cases x) (auto simp: path_join_def root_ok_def)

lemma own_paths_inject:
  assumes "root_ok a" "root_ok b" "x \<noteq> []" "y \<noteq> []" "CHR ''/'' \<notin> set x" "CHR ''/'' \<notin> set y"
  shows "path_join (o_root a) x = path_join (o_root b) y \<longleftrightarrow> o_root a = o_root b \<and> x = y"
  using assms path_join_inject [of "o_root a" x "o_root b" y] by (auto simp: root_ok_def)

lemma own_paths_disjoint:
  "\<lbrakk>root_ok a; root_ok b; o_root a \<noteq> o_root b\<rbrakk> \<Longrightarrow> own_paths a \<inter> own_paths b = {}"
  by (auto simp: own_paths_def own_paths_inject)

lemma upper_dir_inject: "root_ok ov \<Longrightarrow> upper_dir ov m = upper_dir ov n \<longleftrightarrow> m = n"
  by (simp add: upper_dir_def own_paths_inject dec_no_slash dec_inj)

lemma upper_not_work: "root_ok ov \<Longrightarrow> upper_dir ov m \<noteq> work_dir ov n"
  by (simp add: upper_dir_def work_dir_def own_paths_inject dec_no_slash)

lemma own_paths_join [intro]:
  "x \<noteq> [] \<Longrightarrow> CHR ''/'' \<notin> set x \<Longrightarrow> path_join (o_root ov) x \<in> own_paths ov"
  by (auto simp: own_paths_def)

lemma layers_own [simp]: "upper_dir ov n \<in> own_paths ov" "work_dir ov n \<in> own_paths ov"
  by (auto simp: upper_dir_def work_dir_def dec_no_slash)

lemma layers_clean:
  assumes "root_ok ov"
  shows "clean (upper_dir ov n)" "clean (work_dir ov n)" "clean (o_stash ov)"
proof -
  have "clean (o_root ov)" "clean (o_stash ov)" using assms by (auto simp: root_ok_def)
  then show "clean (upper_dir ov n)" "clean (work_dir ov n)" "clean (o_stash ov)"
    unfolding upper_dir_def work_dir_def
    by (simp_all add: path_join_own [OF assms] dec_no_slash clean_def dec_clean)
qed

lemma chain_clean: "\<lbrakk>root_ok ov; chain_ok ov ch\<rbrakk> \<Longrightarrow> list_all clean ch \<and> ch \<noteq> []"
  using layers_clean by (fastforce simp: chain_ok_def list_all_iff)

lemma content_makedirs [simp]: "content k (makedirs k p w) q = content k w q"
  by (auto simp: content_def makedirs_def)

lemma makedirs_frame [simp]:
  "stacks (makedirs k p w) = stacks w" "mounts (makedirs k p w) = mounts w"
  "q \<noteq> p \<Longrightarrow> dirs (makedirs k p w) q = dirs w q"
  by (auto simp: makedirs_def)

section \<open>The operations keep the invariant\<close>

lemma upper_dir_update [simp]:
  "upper_dir (ov\<lparr>o_n := n\<rparr>) = upper_dir ov" "upper_dir (ov\<lparr>o_fd := b\<rparr>) = upper_dir ov"
  "upper_dir (ov\<lparr>lower_chain := c\<rparr>) = upper_dir ov" "upper_dir (ov\<lparr>o_upper := u\<rparr>) = upper_dir ov"
  "upper_dir (ov\<lparr>o_work := u\<rparr>) = upper_dir ov" "upper_dir (ov\<lparr>snapshots := sn\<rparr>) = upper_dir ov"
  by (simp_all add: upper_dir_def fun_eq_iff)

lemma work_dir_update [simp]: "work_dir (ov\<lparr>o_n := n\<rparr>) = work_dir ov"
  by (simp add: work_dir_def fun_eq_iff)

lemma root_ok_update [simp]:
  "root_ok (ov\<lparr>o_n := n\<rparr>) = root_ok ov" "root_ok (ov\<lparr>lower_chain := c\<rparr>) = root_ok ov"
  "root_ok (ov\<lparr>o_upper := u\<rparr>) = root_ok ov" "root_ok (ov\<lparr>o_work := u\<rparr>) = root_ok ov"
  "root_ok (ov\<lparr>snapshots := sn\<rparr>) = root_ok ov" "root_ok (ov\<lparr>o_fd := b\<rparr>) = root_ok ov"
  by (simp_all add: root_ok_def)

lemma chain_ok_iff:
  "chain_ok (ov\<lparr>lower_chain := c\<rparr>) = chain_ok ov" "chain_ok (ov\<lparr>o_upper := u\<rparr>) = chain_ok ov"
  "chain_ok (ov\<lparr>o_work := u\<rparr>) = chain_ok ov" "chain_ok (ov\<lparr>snapshots := sn\<rparr>) = chain_ok ov"
  by (simp_all add: chain_ok_def fun_eq_iff)

lemma chain_ok_mono: "chain_ok ov ch \<Longrightarrow> o_n ov \<le> n \<Longrightarrow> chain_ok (ov\<lparr>o_n := n\<rparr>) ch"
  by (fastforce simp: chain_ok_def)

text \<open>The state after \<^verbatim>\<open>_fresh\<close>: the same layers are active, and the new upper directory is empty.\<close>

lemma fresh_state:
  assumes "overlay_inv (ov, w)" "fresh k (ov, w) = ((nu, nw), (ov1, w1))"
  shows "nu = upper_dir ov (o_n ov + 1)" "nw = work_dir ov (o_n ov + 1)"
    "ov1 = ov\<lparr>o_n := o_n ov + 1\<rparr>" "stacks w1 = stacks w" "content k w1 = content k w"
    "content k w1 nu = empty_dir k" "\<forall>m > o_n ov + 1. dirs w1 (upper_dir ov m) = None"
proof -
  have r: "root_ok ov" and none: "\<forall>m > o_n ov. dirs w (upper_dir ov m) = None"
    using assms(1) by (auto simp: overlay_inv_def)
  show eqs: "nu = upper_dir ov (o_n ov + 1)" "nw = work_dir ov (o_n ov + 1)"
    "ov1 = ov\<lparr>o_n := o_n ov + 1\<rparr>" "stacks w1 = stacks w" and c: "content k w1 = content k w"
    using assms(2) by (auto simp: fresh_def Let_def fun_eq_iff)
  show "content k w1 nu = empty_dir k" unfolding c eqs using none by (simp add: content_def)
  show "\<forall>m > o_n ov + 1. dirs w1 (upper_dir ov m) = None"
    using assms(2) none by (auto simp: fresh_def Let_def upper_not_work [OF r] upper_dir_inject [OF r])
qed

lemma overlay_inv_fresh:
  assumes "overlay_inv (ov, w)" "fresh k (ov, w) = ((nu, nw), (ov1, w1))"
  shows "o_fd ov1" "o_upper ov1 = o_upper ov" "lower_chain ov1 = lower_chain ov" "o_merged ov1 = o_merged ov"
    "snapshots ov1 = snapshots ov" "root_ok ov1" "upper_dir ov1 = upper_dir ov"
    "chain_ok ov1 (lower_chain ov)" "\<forall>(i, ch) \<in> set (snapshots ov). chain_ok ov1 ch"
    "chain_ok ov1 (o_upper ov # lower_chain ov)"
proof -
  note f = fresh_state [OF assms]
  have i: "o_fd ov" "root_ok ov" "chain_ok ov (lower_chain ov)"
    "\<forall>(i, ch) \<in> set (snapshots ov). chain_ok ov ch" "o_upper ov \<in> upper_dir ov ` {..o_n ov}"
    using assms(1) by (auto simp: overlay_inv_def)
  show "o_fd ov1" "o_upper ov1 = o_upper ov" "lower_chain ov1 = lower_chain ov" "o_merged ov1 = o_merged ov"
    "snapshots ov1 = snapshots ov" "root_ok ov1" "upper_dir ov1 = upper_dir ov"
    using i by (simp_all add: f(3))
  show "chain_ok ov1 (lower_chain ov)" using i(3) by (simp add: f(3) chain_ok_mono)
  then show "chain_ok ov1 (o_upper ov # lower_chain ov)"
    using i(5) by (auto simp: chain_ok_def f(3))
  show "\<forall>(i, ch) \<in> set (snapshots ov). chain_ok ov1 ch" using i(4) by (auto simp: f(3) chain_ok_mono)
qed

text \<open>A new upper directory is not part of any chain.\<close>

lemma fresh_not_in_chain:
  assumes "overlay_inv (ov, w)" "chain_ok ov ch"
  shows "upper_dir ov (o_n ov + 1) \<notin> set ch"
proof -
  have r: "root_ok ov" using assms(1) by (auto simp: overlay_inv_def)
  then have "upper_dir ov (o_n ov + 1) \<noteq> o_stash ov" unfolding root_ok_def by blast
  with assms(2) show ?thesis by (auto simp: chain_ok_def upper_dir_inject [OF r])
qed

lemma chain_content:
  assumes "u \<notin> set ch"
  shows "map (content k (w\<lparr>dirs := (dirs w)(u \<mapsto> l)\<rparr>)) ch = map (content k w) ch"
  using assms by (auto simp: content_def)

lemma switch_state:
  assumes "kernel_ok k" "overlay_inv (ov, w)" "fresh k (ov, w) = ((nu, nw), (ov1, w1))"
    and "chain_ok ov1 lowers" "kind \<in> {''ckpt'', ''restore''}"
    and "switch k lowers nu nw kind (ov1, w1) = (Inr (), (ov2, w2))"
  shows "ov2 = ov1 \<and> w2 = w1\<lparr>stacks := (stacks w1)(o_merged ov :=
    (if kind = ''ckpt'' then nu # o_upper ov # lowers else nu # lowers))\<rparr>"
proof -
  note f = fresh_state [OF assms(2,3)]
  note g = overlay_inv_fresh [OF assms(2,3)]
  from assms(6) obtain st where
    st: "ovl_ioctl k (switch_opts lowers nu nw kind) (stacks w1 (o_merged ov1)) = Inr st"
    and eq: "ov2 = ov1" "w2 = w1\<lparr>stacks := (stacks w1)(o_merged ov1 := st)\<rparr>"
    by (auto simp: switch_def split: if_splits sum.splits)
  have "list_all clean lowers \<and> lowers \<noteq> [] \<and> clean nu \<and> clean nw"
    using chain_clean [OF g(6) assms(4)] layers_clean [of ov] assms(2) by (auto simp: f(1,2) overlay_inv_def)
  then have "st = (if kind = ''ckpt'' then nu # hd (stacks w1 (o_merged ov1)) # lowers else nu # lowers)"
    using assms(1,5) st unfolding kernel_ok_def by auto
  moreover have "hd (stacks w1 (o_merged ov1)) = o_upper ov"
    using assms(2) by (simp add: f(4) g(4) overlay_inv_def)
  ultimately show ?thesis using eq by (simp add: g(4))
qed

lemma checkpoint_state:
  assumes "kernel_ok k" "overlay_inv (ov, w)" "checkpoint k i (ov, w) = (Inr (), (ov', w'))"
  obtains nu nw w1 where "fresh k (ov, w) = ((nu, nw), (ov\<lparr>o_n := o_n ov + 1\<rparr>, w1))"
    "ov' = ov\<lparr>o_n := o_n ov + 1, lower_chain := o_upper ov # lower_chain ov, o_upper := nu, o_work := nw,
       snapshots := AList.update i (o_upper ov # lower_chain ov) (snapshots ov)\<rparr>"
    "w' = w1\<lparr>stacks := (stacks w1)(o_merged ov := nu # o_upper ov # lower_chain ov)\<rparr>"
proof -
  obtain nu nw ov1 w1 where f: "fresh k (ov, w) = ((nu, nw), (ov1, w1))" by (metis prod.exhaust)
  note g = overlay_inv_fresh [OF assms(2) f]
  from assms(3) f obtain ov2 w2 where sw: "switch k (lower_chain ov1) nu nw ''ckpt'' (ov1, w1) = (Inr (), (ov2, w2))"
    and eq: "ov' = ov2\<lparr>lower_chain := o_upper ov2 # lower_chain ov2, o_upper := nu, o_work := nw,
       snapshots := AList.update i (o_upper ov2 # lower_chain ov2) (snapshots ov2)\<rparr>" "w' = w2"
    by (auto simp: checkpoint_def bind_eff_Inr_iff Let_def)
  have "ov2 = ov1 \<and> w2 = w1\<lparr>stacks := (stacks w1)(o_merged ov := nu # o_upper ov # lower_chain ov1)\<rparr>"
    using switch_state [OF assms(1,2) f _ _ sw] g(3,8) by simp
  with eq f show thesis using that [of nu nw w1] fresh_state(3) [OF assms(2) f] by simp
qed

lemma restore_state:
  assumes "kernel_ok k" "overlay_inv (ov, w)" "restore k i (ov, w) = (Inr (), (ov', w'))"
  obtains nu nw w1 ch where "fresh k (ov, w) = ((nu, nw), (ov\<lparr>o_n := o_n ov + 1\<rparr>, w1))"
    "map_of (snapshots ov) i = Some ch"
    "ov' = ov\<lparr>o_n := o_n ov + 1, lower_chain := ch, o_upper := nu, o_work := nw\<rparr>"
    "w' = w1\<lparr>stacks := (stacks w1)(o_merged ov := nu # ch)\<rparr>"
proof -
  obtain nu nw ov1 w1 where f: "fresh k (ov, w) = ((nu, nw), (ov1, w1))" by (metis prod.exhaust)
  note g = overlay_inv_fresh [OF assms(2) f]
  from assms(3) f obtain ch ov2 w2 where ch: "map_of (snapshots ov) i = Some ch"
    and sw: "switch k ch nu nw ''restore'' (ov1, w1) = (Inr (), (ov2, w2))"
    and eq: "ov' = ov2\<lparr>lower_chain := ch, o_upper := nu, o_work := nw\<rparr>" "w' = w2"
    by (auto simp: restore_def bind_eff_Inr_iff split: option.splits)
  have "chain_ok ov1 ch" using g(9) map_of_SomeD [OF ch] by auto
  then have "ov2 = ov1 \<and> w2 = w1\<lparr>stacks := (stacks w1)(o_merged ov := nu # ch)\<rparr>"
    using switch_state [OF assms(1,2) f _ _ sw] by simp
  with eq f ch show thesis using that [of nu nw w1 ch] fresh_state(3) [OF assms(2) f] by simp
qed

lemma content_stacks [simp]: "content k (w\<lparr>stacks := st\<rparr>) = content k w"
  by (simp add: content_def fun_eq_iff)

lemma snapshots_update_ok:
  "\<lbrakk>\<forall>(i, ch) \<in> set sn. P ch; P ch'\<rbrakk> \<Longrightarrow> \<forall>(i, ch) \<in> set (AList.update j ch' sn). P ch"
  by (induction sn) auto

lemma checkpoint_ok:
  assumes "kernel_ok k" "overlay_inv (ov, w)" "checkpoint k i (ov, w) = (Inr (), (ov', w'))"
  shows "overlay_inv (ov', w')" "overlay_view k (ov', w') = overlay_view k (ov, w)"
    "overlay_saved k (ov', w') = (overlay_saved k (ov, w))(i \<mapsto> overlay_view k (ov, w))"
proof -
  obtain nu nw w1 where c: "fresh k (ov, w) = ((nu, nw), (ov\<lparr>o_n := o_n ov + 1\<rparr>, w1))"
    "ov' = ov\<lparr>o_n := o_n ov + 1, lower_chain := o_upper ov # lower_chain ov, o_upper := nu, o_work := nw,
       snapshots := AList.update i (o_upper ov # lower_chain ov) (snapshots ov)\<rparr>"
    "w' = w1\<lparr>stacks := (stacks w1)(o_merged ov := nu # o_upper ov # lower_chain ov)\<rparr>"
    using checkpoint_state [OF assms] by metis
  note f = fresh_state [OF assms(2) c(1)]
  note g = overlay_inv_fresh [OF assms(2) c(1)]
  have st: "stacks w (o_merged ov) = o_upper ov # lower_chain ov" using assms(2) by (simp add: overlay_inv_def)
  have "\<forall>(j, ch) \<in> set (snapshots ov). chain_ok (ov\<lparr>o_n := o_n ov + 1\<rparr>) ch \<and> nu \<notin> set ch"
    using assms(2) fresh_not_in_chain [OF assms(2)] by (auto simp: f(1) overlay_inv_def chain_ok_mono)
  moreover have "nu \<notin> set (o_upper ov # lower_chain ov)"
    using assms(2) fresh_not_in_chain [OF assms(2), of "o_upper ov # lower_chain ov"]
    by (auto simp: f(1) overlay_inv_def chain_ok_def)
  ultimately have "\<forall>(j, ch) \<in> set (AList.update i (o_upper ov # lower_chain ov) (snapshots ov)).
      chain_ok (ov\<lparr>o_n := o_n ov + 1\<rparr>) ch \<and> nu \<notin> set ch"
    using g(10) by (intro snapshots_update_ok [where P = "\<lambda>ch. chain_ok (ov\<lparr>o_n := o_n ov + 1\<rparr>) ch \<and> nu \<notin> set ch"]) auto
  then show "overlay_inv (ov', w')"
    using g(1,6,7,10) f(1,7) by (auto simp: c(2,3) overlay_inv_def chain_ok_iff)
  have "merge k (empty_dir k # map (content k w) (o_upper ov # lower_chain ov))
      = merge k (map (content k w) (o_upper ov # lower_chain ov))"
    using assms(1) by (simp add: kernel_ok_def)
  then show "overlay_view k (ov', w') = overlay_view k (ov, w)"
    using f(5,6) by (simp add: overlay_view_def c(2,3) st)
  show "overlay_saved k (ov', w') = (overlay_saved k (ov, w))(i \<mapsto> overlay_view k (ov, w))"
    by (rule ext) (simp add: overlay_saved_def overlay_view_def c(2,3) st update_conv' f(5))
qed

lemma restore_ok:
  assumes "kernel_ok k" "overlay_inv (ov, w)" "restore k i (ov, w) = (Inr (), (ov', w'))"
  shows "overlay_inv (ov', w')" "overlay_saved k (ov, w) i = Some (overlay_view k (ov', w'))"
    "overlay_saved k (ov', w') = overlay_saved k (ov, w)"
proof -
  obtain nu nw w1 ch where c: "fresh k (ov, w) = ((nu, nw), (ov\<lparr>o_n := o_n ov + 1\<rparr>, w1))"
    "map_of (snapshots ov) i = Some ch"
    "ov' = ov\<lparr>o_n := o_n ov + 1, lower_chain := ch, o_upper := nu, o_work := nw\<rparr>"
    "w' = w1\<lparr>stacks := (stacks w1)(o_merged ov := nu # ch)\<rparr>"
    using restore_state [OF assms] by metis
  note f = fresh_state [OF assms(2) c(1)]
  note g = overlay_inv_fresh [OF assms(2) c(1)]
  have ch: "chain_ok (ov\<lparr>o_n := o_n ov + 1\<rparr>) ch" using g(9) map_of_SomeD [OF c(2)] by auto
  moreover have "\<forall>(j, ch) \<in> set (snapshots ov). nu \<notin> set ch"
    using assms(2) fresh_not_in_chain [OF assms(2)] by (auto simp: f(1) overlay_inv_def)
  ultimately show "overlay_inv (ov', w')"
    using g(1,6,7,9) f(1,7) by (auto simp: c(3,4) overlay_inv_def chain_ok_iff)
  have "merge k (empty_dir k # map (content k w) ch) = merge k (map (content k w) ch)"
    using assms(1) ch by (simp add: kernel_ok_def chain_ok_def)
  then show "overlay_saved k (ov, w) i = Some (overlay_view k (ov', w'))"
    using f(5,6) c(2) by (simp add: overlay_saved_def overlay_view_def c(3,4))
  show "overlay_saved k (ov', w') = overlay_saved k (ov, w)"
    using f(5) by (simp add: overlay_saved_def c(3,4))
qed

lemma fs_write_ok:
  assumes "overlay_inv (ov, w)" "fs_write l (ov, w) = (ov', w')"
  shows "overlay_inv (ov', w')" "overlay_saved k (ov', w') = overlay_saved k (ov, w)"
proof -
  have e: "ov' = ov" "w' = w\<lparr>dirs := (dirs w)(o_upper ov \<mapsto> l)\<rparr>"
    using assms by (auto simp: fs_write_def overlay_inv_def)
  have "root_ok ov" "o_upper ov \<in> upper_dir ov ` {..o_n ov}"
    using assms(1) by (auto simp: overlay_inv_def)
  then have "\<forall>m > o_n ov. upper_dir ov m \<noteq> o_upper ov" by (auto simp: upper_dir_inject)
  then show "overlay_inv (ov', w')" using assms(1) by (auto simp: e overlay_inv_def)
  show "overlay_saved k (ov', w') = overlay_saved k (ov, w)"
  proof
    fix i
    have "map (content k w') ch = map (content k w) ch" if "map_of (snapshots ov) i = Some ch" for ch
      unfolding e using assms(1) map_of_SomeD [OF that]
      by (intro chain_content) (auto simp: overlay_inv_def)
    then show "overlay_saved k (ov', w') i = overlay_saved k (ov, w) i"
      by (cases "map_of (snapshots ov) i")
        (auto simp: overlay_saved_def e(1) intro!: arg_cong [of _ _ "merge k"] map_cong)
  qed
qed

lemma fresh_same:
  assumes "overlay_inv (ov, w)" "fresh k (ov, w) = (p, (ov', w'))"
  shows "overlay_inv (ov', w') \<and> overlay_view k (ov', w') = overlay_view k (ov, w)
    \<and> overlay_saved k (ov', w') = overlay_saved k (ov, w)"
proof -
  obtain nu nw where p: "p = (nu, nw)" by (cases p)
  note f = fresh_state [OF assms(1) assms(2) [unfolded p]]
  note g = overlay_inv_fresh [OF assms(1) assms(2) [unfolded p]]
  have "overlay_inv (ov', w')"
    using assms(1) g f(4,7) by (auto simp: overlay_inv_def f(3))
  then show ?thesis using f(5) g by (simp add: overlay_view_def overlay_saved_def f(4))
qed

lemma checkpoint_failed:
  assumes "overlay_inv (ov, w)" "checkpoint k i (ov, w) = (Inl e, (ov', w'))"
  shows "overlay_inv (ov', w') \<and> overlay_view k (ov', w') = overlay_view k (ov, w)
    \<and> overlay_saved k (ov', w') = overlay_saved k (ov, w)"
proof -
  have "fresh k (ov, w) = (fst (fresh k (ov, w)), (ov', w'))"
    using assms(2) by (auto simp: checkpoint_def bind_eff_Inl_iff switch_def Let_def
      split: prod.splits if_splits sum.splits)
  then show ?thesis using fresh_same [OF assms(1)] by metis
qed

lemma restore_failed:
  assumes "overlay_inv (ov, w)" "restore k i (ov, w) = (Inl e, (ov', w'))"
  shows "overlay_inv (ov', w') \<and> overlay_view k (ov', w') = overlay_view k (ov, w)
    \<and> overlay_saved k (ov', w') = overlay_saved k (ov, w)"
proof -
  have "(ov', w') = (ov, w) \<or> fresh k (ov, w) = (fst (fresh k (ov, w)), (ov', w'))"
    using assms(2) by (auto simp: restore_def bind_eff_Inl_iff switch_def
      split: prod.splits if_splits sum.splits option.splits)
  then show ?thesis using fresh_same [OF assms(1)] assms(1) by metis
qed

section \<open>The contract\<close>

locale overlay_kernel =
  fixes k :: "('l, 'v) kernel"
  assumes kernel: "kernel_ok k"

sublocale overlay_kernel \<subseteq> ovl: atomic_rollback_store overlay_inv "checkpoint k" "restore k" fs_write
    "overlay_view k" "overlay_saved k"
proof (unfold_locales, goal_cases)
  case (1 s i s') then show ?case using checkpoint_ok(1) [OF kernel] by (cases s; cases s') blast
next
  case (2 s i s') then show ?case using checkpoint_ok(2) [OF kernel] by (cases s; cases s') blast
next
  case (3 s i s') then show ?case using checkpoint_ok(3) [OF kernel] by (cases s; cases s') blast
next
  case (4 s i s') then show ?case using restore_ok(1) [OF kernel] by (cases s; cases s') blast
next
  case (5 s i s') then show ?case using restore_ok(2) [OF kernel] by (cases s; cases s') blast
next
  case (6 s i s') then show ?case using restore_ok(3) [OF kernel] by (cases s; cases s') blast
next
  case (7 s l) then show ?case using fs_write_ok(1) by (cases s; cases "fs_write l s") auto
next
  case (8 s l) then show ?case using fs_write_ok(2) by (cases s; cases "fs_write l s") auto
next
  case (9 s i e s') then show ?case using checkpoint_failed by (cases s; cases s') blast
next
  case (10 s i e s') then show ?case using restore_failed by (cases s; cases s') blast
next
  case (11 s i) then show ?case by (cases s) (auto simp: restore_def overlay_saved_def)
qed

section \<open>Several overlays in one world\<close>

definition owned :: "root_overlay \<Rightarrow> bool" where
  "owned ov \<longleftrightarrow> o_stash ov \<in> own_paths ov \<and> o_merged ov \<in> own_paths ov"

definition unaffected :: "root_overlay \<Rightarrow> 'l world \<Rightarrow> 'l world \<Rightarrow> bool" where
  "unaffected ov w w' \<longleftrightarrow> stacks w' (o_merged ov) = stacks w (o_merged ov)
     \<and> (\<forall>p \<in> own_paths ov. dirs w' p = dirs w p)"

lemma unaffected_trans: "\<lbrakk>unaffected ov w w'; unaffected ov w' w''\<rbrakk> \<Longrightarrow> unaffected ov w w''"
  by (simp add: unaffected_def)

lemma chain_own: "\<lbrakk>owned ov; chain_ok ov ch\<rbrakk> \<Longrightarrow> set ch \<subseteq> own_paths ov"
  by (auto simp: chain_ok_def owned_def)

lemma unaffected_content:
  "\<lbrakk>unaffected ov w w'; set ch \<subseteq> own_paths ov\<rbrakk> \<Longrightarrow> map (content k w') ch = map (content k w) ch"
  by (auto simp: content_def unaffected_def)

lemma unaffected_keeps:
  assumes "unaffected ov w w'" "overlay_inv (ov, w)" "owned ov"
  shows "overlay_inv (ov, w')" "overlay_view k (ov, w') = overlay_view k (ov, w)"
    "overlay_saved k (ov, w') = overlay_saved k (ov, w)"
proof -
  show "overlay_inv (ov, w')" using assms(1,2) by (auto simp: overlay_inv_def unaffected_def)
  have "set (stacks w (o_merged ov)) \<subseteq> own_paths ov"
    using assms(2) chain_own [OF assms(3), of "lower_chain ov"] by (auto simp: overlay_inv_def)
  then show "overlay_view k (ov, w') = overlay_view k (ov, w)"
    using unaffected_content [OF assms(1), of "stacks w (o_merged ov)" k] assms(1)
    by (simp only: overlay_view_def unaffected_def case_prod_conv)
  show "overlay_saved k (ov, w') = overlay_saved k (ov, w)"
  proof
    fix i
    have "map (content k w') ch = map (content k w) ch" if "map_of (snapshots ov) i = Some ch" for ch
      using assms(2) map_of_SomeD [OF that] chain_own [OF assms(3), of ch]
      by (intro unaffected_content [OF assms(1)]) (auto simp: overlay_inv_def)
    then show "overlay_saved k (ov, w') i = overlay_saved k (ov, w) i"
      by (cases "map_of (snapshots ov) i")
        (auto simp: overlay_saved_def intro!: arg_cong [of _ _ "merge k"] map_cong)
  qed
qed

lemma own_paths_update [simp]:
  "own_paths (ov\<lparr>o_n := n\<rparr>) = own_paths ov" "own_paths (ov\<lparr>lower_chain := c\<rparr>) = own_paths ov"
  "own_paths (ov\<lparr>o_upper := u\<rparr>) = own_paths ov" "own_paths (ov\<lparr>o_work := u\<rparr>) = own_paths ov"
  "own_paths (ov\<lparr>snapshots := sn\<rparr>) = own_paths ov" "own_paths (ov\<lparr>o_fd := b\<rparr>) = own_paths ov"
  by (simp_all add: own_paths_def)

lemma fresh_unaffected:
  assumes "fresh k (a, w) = (p, (a', w'))" "own_paths a \<inter> own_paths b = {}"
  shows "unaffected b w w'"
proof -
  have "p \<notin> own_paths b" if "p \<in> own_paths a" for p using assms(2) that by blast
  then have "q \<noteq> upper_dir a n \<and> q \<noteq> work_dir a n" if "q \<in> own_paths b" for q n
    using that layers_own by metis
  with assms(1) show ?thesis by (auto simp: fresh_def Let_def unaffected_def)
qed

lemma op_frame:
  assumes "kernel_ok k" "overlay_inv (a, w)" "owned a"
    and "checkpoint k i (a, w) = (Inr (), (a', w')) \<or> restore k i (a, w) = (Inr (), (a', w'))"
  shows "o_root a' = o_root a" "owned a'"
    "\<lbrakk>owned b; own_paths a \<inter> own_paths b = {}\<rbrakk> \<Longrightarrow> unaffected b w w'"
proof -
  obtain nu nw w1 st ch sn where f: "fresh k (a, w) = ((nu, nw), (a\<lparr>o_n := o_n a + 1\<rparr>, w1))"
    and eq: "a' = a\<lparr>o_n := o_n a + 1, lower_chain := ch, o_upper := nu, o_work := nw, snapshots := sn\<rparr>"
      "w' = w1\<lparr>stacks := (stacks w1)(o_merged a := st)\<rparr>"
  proof (cases "checkpoint k i (a, w) = (Inr (), (a', w'))")
    case True
    from checkpoint_state [OF assms(1,2) True] that show thesis by metis
  next
    case False
    with assms(4) have "restore k i (a, w) = (Inr (), (a', w'))" by simp
    then obtain nu nw w1 ch where "fresh k (a, w) = ((nu, nw), (a\<lparr>o_n := o_n a + 1\<rparr>, w1))"
      "a' = a\<lparr>o_n := o_n a + 1, lower_chain := ch, o_upper := nu, o_work := nw\<rparr>"
      "w' = w1\<lparr>stacks := (stacks w1)(o_merged a := nu # ch)\<rparr>"
      using restore_state [OF assms(1,2)] by metis
    then show thesis using that [where sn = "snapshots a"] by simp
  qed
  show "o_root a' = o_root a" "owned a'" using assms(3) by (simp_all add: eq owned_def)
  assume b: "owned b" "own_paths a \<inter> own_paths b = {}"
  then have "o_merged b \<noteq> o_merged a" using assms(3) by (auto simp: owned_def)
  with fresh_unaffected [OF f b(2)] show "unaffected b w w'" by (simp add: eq unaffected_def)
qed

lemma root_ok_inv: "overlay_inv (ov, w) \<Longrightarrow> root_ok ov"
  by (simp add: overlay_inv_def)

definition set_inv :: "root_overlay list \<times> 'l world \<Rightarrow> bool" where
  "set_inv = (\<lambda>(ovs, w). (\<forall>ov \<in> set ovs. overlay_inv (ov, w) \<and> owned ov) \<and> distinct (map o_root ovs))"

definition set_view :: "('l, 'v) kernel \<Rightarrow> root_overlay list \<times> 'l world \<Rightarrow> 'v list" where
  "set_view k = (\<lambda>(ovs, w). map (\<lambda>ov. overlay_view k (ov, w)) ovs)"

definition set_saved :: "('l, 'v) kernel \<Rightarrow> root_overlay list \<times> 'l world \<Rightarrow> string \<Rightarrow> 'v list option" where
  "set_saved k = (\<lambda>(ovs, w) i. those (map (\<lambda>ov. overlay_saved k (ov, w) i) ovs))"

text \<open>
  A successful pass over the overlays does its operation on each one, and no later operation
  disturbs an earlier one.
\<close>

lemma each_overlay_ok:
  assumes k: "kernel_ok k" and f: "f = checkpoint k i \<or> f = restore k i"
    and "each_overlay f ovs w = (Inr (), (ovs', w'))" "set_inv (ovs, w)"
  shows "set_inv (ovs', w') \<and> map o_root ovs' = map o_root ovs
    \<and> list_all2 (\<lambda>ov ov'. \<exists>w1 w2. unaffected ov w w1 \<and> overlay_inv (ov, w1)
          \<and> f (ov, w1) = (Inr (), (ov', w2)) \<and> unaffected ov' w2 w') ovs ovs'
    \<and> (\<forall>b. owned b \<and> root_ok b \<and> o_root b \<notin> o_root ` set ovs \<longrightarrow> unaffected b w w')"
  using assms(3,4)
proof (induction ovs arbitrary: w ovs')
  case Nil
  then show ?case by (simp add: set_inv_def unaffected_def)
next
  case (Cons ov ovs)
  from Cons.prems(1) obtain ov1 w1 ovs1 where f1: "f (ov, w) = (Inr (), (ov1, w1))"
    and rest: "each_overlay f ovs w1 = (Inr (), (ovs1, w'))" and ovs': "ovs' = ov1 # ovs1"
    by (auto split: prod.splits sum.splits)
  have inv: "overlay_inv (ov, w)" "owned ov" "o_root ov \<notin> o_root ` set ovs" "distinct (map o_root ovs)"
    and invs: "\<And>b. b \<in> set ovs \<Longrightarrow> overlay_inv (b, w) \<and> owned b"
    using Cons.prems(2) by (auto simp: set_inv_def)
  have op: "checkpoint k i (ov, w) = (Inr (), (ov1, w1)) \<or> restore k i (ov, w) = (Inr (), (ov1, w1))"
    using f f1 by auto
  note self = op_frame(1,2) [OF k inv(1,2) op]
  have fr: "unaffected b w w1" if "owned b" "root_ok b" "o_root b \<noteq> o_root ov" for b
    using op_frame(3) [OF k inv(1,2) op that(1)] own_paths_disjoint [OF root_ok_inv [OF inv(1)] that(2)]
      that(3) by simp
  have inv1: "overlay_inv (ov1, w1)"
    using op checkpoint_ok(1) [OF k inv(1)] restore_ok(1) [OF k inv(1)] by blast
  have fr': "unaffected b w w1" if "b \<in> set ovs" for b
    using that invs inv(3) by (intro fr) (metis root_ok_inv image_eqI)+
  have si: "set_inv (ovs, w1)"
    using invs inv(4) fr' unaffected_keeps(1) by (fastforce simp: set_inv_def)
  note IH = Cons.IH [OF rest si]
  have ov1: "unaffected ov1 w1 w'"
    using IH self inv(3) root_ok_inv [OF inv1] by simp
  have "map o_root (ov1 # ovs1) = map o_root (ov # ovs)" using IH self(1) by simp
  then have "distinct (map o_root (ov1 # ovs1))" using inv(3,4) by (simp only:) simp
  then have "set_inv (ov1 # ovs1, w')"
    using IH self(2) unaffected_keeps(1) [OF ov1 inv1 self(2)] unfolding set_inv_def by simp
  moreover have "list_all2 (\<lambda>ov ov'. \<exists>w1 w2. unaffected ov w w1 \<and> overlay_inv (ov, w1)
          \<and> f (ov, w1) = (Inr (), (ov', w2)) \<and> unaffected ov' w2 w') (ov # ovs) (ov1 # ovs1)"
  proof -
    have "list_all2 (\<lambda>ov ov'. \<exists>wa w2. unaffected ov w1 wa \<and> overlay_inv (ov, wa)
          \<and> f (ov, wa) = (Inr (), (ov', w2)) \<and> unaffected ov' w2 w') ovs ovs1" using IH by blast
    then have "list_all2 (\<lambda>ov ov'. \<exists>w1 w2. unaffected ov w w1 \<and> overlay_inv (ov, w1)
          \<and> f (ov, w1) = (Inr (), (ov', w2)) \<and> unaffected ov' w2 w') ovs ovs1"
      unfolding list_all2_conv_all_nth using fr' unaffected_trans by (metis nth_mem)
    moreover have "unaffected ov w w" by (simp add: unaffected_def)
    ultimately show ?thesis using f1 ov1 inv(1) by auto
  qed
  moreover have "unaffected b w w'" if "owned b \<and> root_ok b \<and> o_root b \<notin> o_root ` set (ov # ovs)" for b
    using that IH fr [of b] by (auto intro: unaffected_trans)
  ultimately show ?case using IH self ovs' by simp
qed

lemma those_map_Some: "those (map Some xs) = Some xs"
  by (induction xs) auto

text \<open>What a checkpoint and a restore of the set do to each of its overlays.\<close>

lemma each_checkpoint:
  assumes "kernel_ok k" "set_inv (ovs, w)" "each_overlay (checkpoint k i) ovs w = (Inr (), (ovs', w'))"
  shows "list_all2 (\<lambda>ov ov'. overlay_view k (ov', w') = overlay_view k (ov, w)
      \<and> overlay_saved k (ov', w') = (overlay_saved k (ov, w))(i \<mapsto> overlay_view k (ov, w))) ovs ovs'"
proof -
  note e = each_overlay_ok [OF assms(1) disjI1 [OF refl] assms(3,2)]
  then have "list_all2 (\<lambda>ov ov'. \<exists>w1 w2. unaffected ov w w1 \<and> overlay_inv (ov, w1)
      \<and> checkpoint k i (ov, w1) = (Inr (), (ov', w2)) \<and> unaffected ov' w2 w') ovs ovs'" by blast
  then show ?thesis
  proof (rule list.rel_mono_strong)
    fix ov ov' assume mem: "ov \<in> set ovs" "ov' \<in> set ovs'"
    assume "\<exists>w1 w2. unaffected ov w w1 \<and> overlay_inv (ov, w1)
      \<and> checkpoint k i (ov, w1) = (Inr (), (ov', w2)) \<and> unaffected ov' w2 w'"
    then obtain w1 w2 where u: "unaffected ov w w1" "overlay_inv (ov, w1)"
      "checkpoint k i (ov, w1) = (Inr (), (ov', w2))" "unaffected ov' w2 w'" by blast
    have o: "owned ov" "overlay_inv (ov, w)" "owned ov'"
      using mem assms(2) e by (auto simp: set_inv_def)
    note c = checkpoint_ok [OF assms(1) u(2,3)]
    from unaffected_keeps(2,3) [OF u(1) o(2,1), of k] unaffected_keeps(2,3) [OF u(4) c(1) o(3), of k] c(2,3)
    show "overlay_view k (ov', w') = overlay_view k (ov, w)
      \<and> overlay_saved k (ov', w') = (overlay_saved k (ov, w))(i \<mapsto> overlay_view k (ov, w))" by simp
  qed
qed

lemma each_restore:
  assumes "kernel_ok k" "set_inv (ovs, w)" "each_overlay (restore k i) ovs w = (Inr (), (ovs', w'))"
  shows "list_all2 (\<lambda>ov ov'. overlay_saved k (ov, w) i = Some (overlay_view k (ov', w'))
      \<and> overlay_saved k (ov', w') = overlay_saved k (ov, w)) ovs ovs'"
proof -
  note e = each_overlay_ok [OF assms(1) disjI2 [OF refl] assms(3,2)]
  then have "list_all2 (\<lambda>ov ov'. \<exists>w1 w2. unaffected ov w w1 \<and> overlay_inv (ov, w1)
      \<and> restore k i (ov, w1) = (Inr (), (ov', w2)) \<and> unaffected ov' w2 w') ovs ovs'" by blast
  then show ?thesis
  proof (rule list.rel_mono_strong)
    fix ov ov' assume mem: "ov \<in> set ovs" "ov' \<in> set ovs'"
    assume "\<exists>w1 w2. unaffected ov w w1 \<and> overlay_inv (ov, w1)
      \<and> restore k i (ov, w1) = (Inr (), (ov', w2)) \<and> unaffected ov' w2 w'"
    then obtain w1 w2 where u: "unaffected ov w w1" "overlay_inv (ov, w1)"
      "restore k i (ov, w1) = (Inr (), (ov', w2))" "unaffected ov' w2 w'" by blast
    have o: "owned ov" "overlay_inv (ov, w)" "owned ov'"
      using mem assms(2) e by (auto simp: set_inv_def)
    note c = restore_ok [OF assms(1) u(2,3)]
    from unaffected_keeps(2,3) [OF u(1) o(2,1), of k] unaffected_keeps(2,3) [OF u(4) c(1) o(3), of k] c(2,3)
    show "overlay_saved k (ov, w) i = Some (overlay_view k (ov', w'))
      \<and> overlay_saved k (ov', w') = overlay_saved k (ov, w)" by simp
  qed
qed

lemma list_all2_map_eq: "list_all2 (\<lambda>x y. g y = f x) xs ys \<Longrightarrow> map g ys = map f xs"
  by (induction rule: list_all2_induct) auto

text \<open>A process writes into the overlay with a given index.\<close>

definition set_write :: "nat \<times> 'l \<Rightarrow> root_overlay list \<times> 'l world \<Rightarrow> root_overlay list \<times> 'l world" where
  "set_write = (\<lambda>(n, l) (ovs, w). if n < length ovs then (ovs, snd (fs_write l (ovs ! n, w))) else (ovs, w))"

lemma set_write_ok:
  assumes "set_inv (ovs, w)"
  shows "set_inv (set_write (n, l) (ovs, w))"
    "set_saved k (set_write (n, l) (ovs, w)) = set_saved k (ovs, w)"
proof -
  define w' where "w' = snd (fs_write l (ovs ! n, w))"
  have each: "overlay_inv (b, w') \<and> overlay_saved k (b, w') = overlay_saved k (b, w)"
    if n: "n < length ovs" and b: "b \<in> set ovs" for b
  proof (cases "b = ovs ! n")
    case True
    have "fs_write l (b, w) = (b, w')" by (simp add: w'_def True fs_write_def)
    with fs_write_ok [of b w l b w'] assms b show ?thesis by (auto simp: set_inv_def)
  next
    case False
    let ?a = "ovs ! n"
    have i: "overlay_inv (?a, w)" "overlay_inv (b, w)" "owned b" using assms b n by (auto simp: set_inv_def)
    have "o_root b \<noteq> o_root ?a"
      using assms False b n by (auto simp: set_inv_def distinct_map inj_on_def)
    then have "own_paths ?a \<inter> own_paths b = {}"
      using own_paths_disjoint [of ?a b] i root_ok_inv by metis
    moreover have "w' = w\<lparr>dirs := (dirs w)(o_upper ?a \<mapsto> l)\<rparr>" "o_upper ?a \<in> own_paths ?a"
      using i(1) by (auto simp: w'_def fs_write_def overlay_inv_def)
    ultimately have "unaffected b w w'" by (auto simp: unaffected_def)
    then show ?thesis using unaffected_keeps i by blast
  qed
  show "set_inv (set_write (n, l) (ovs, w))"
    using assms each by (auto simp: set_write_def set_inv_def w'_def)
  show "set_saved k (set_write (n, l) (ovs, w)) = set_saved k (ovs, w)"
    using each by (auto simp: set_write_def set_saved_def w'_def fun_eq_iff intro!: arg_cong [of _ _ those])
qed

lemma set_checkpoint_ok:
  assumes "kernel_ok k" "set_inv (ovs, w)" "set_checkpoint k i (ovs, w) = (Inr (), (ovs', w'))"
  shows "set_inv (ovs', w')" "set_view k (ovs', w') = set_view k (ovs, w)"
    "set_saved k (ovs', w') = (set_saved k (ovs, w))(i \<mapsto> set_view k (ovs, w))"
proof -
  have e: "each_overlay (checkpoint k i) ovs w = (Inr (), (ovs', w'))"
    using assms(3) by (simp add: set_checkpoint_def)
  show "set_inv (ovs', w')" using each_overlay_ok [OF assms(1) disjI1 [OF refl] e assms(2)] by blast
  note l = each_checkpoint [OF assms(1,2) e]
  have "map (\<lambda>ov. overlay_view k (ov, w')) ovs' = map (\<lambda>ov. overlay_view k (ov, w)) ovs"
    by (rule list_all2_map_eq, rule list_all2_mono [OF l]) simp
  then show "set_view k (ovs', w') = set_view k (ovs, w)" by (simp add: set_view_def)
  have m: "map (\<lambda>ov. overlay_saved k (ov, w') j) ovs'
      = map (\<lambda>ov. if j = i then Some (overlay_view k (ov, w)) else overlay_saved k (ov, w) j) ovs" for j
    by (rule list_all2_map_eq, rule list_all2_mono [OF l]) simp
  have "those (map (\<lambda>ov. Some (overlay_view k (ov, w))) ovs) = Some (map (\<lambda>ov. overlay_view k (ov, w)) ovs)"
    using those_map_Some [of "map (\<lambda>ov. overlay_view k (ov, w)) ovs"] by (simp add: comp_def)
  then show "set_saved k (ovs', w') = (set_saved k (ovs, w))(i \<mapsto> set_view k (ovs, w))"
    by (intro ext) (simp add: set_saved_def set_view_def m)
qed

lemma set_restore_ok:
  assumes "kernel_ok k" "set_inv (ovs, w)" "set_restore k i (ovs, w) = (Inr (), (ovs', w'))"
  shows "set_inv (ovs', w')" "set_saved k (ovs, w) i = Some (set_view k (ovs', w'))"
    "set_saved k (ovs', w') = set_saved k (ovs, w)"
proof -
  have e: "each_overlay (restore k i) ovs w = (Inr (), (ovs', w'))"
    using assms(3) by (simp add: set_restore_def)
  show "set_inv (ovs', w')" using each_overlay_ok [OF assms(1) disjI2 [OF refl] e assms(2)] by blast
  note l = each_restore [OF assms(1,2) e]
  have "map (\<lambda>ov. Some (overlay_view k (ov, w'))) ovs' = map (\<lambda>ov. overlay_saved k (ov, w) i) ovs"
    by (rule list_all2_map_eq, rule list_all2_mono [OF l]) simp
  then show "set_saved k (ovs, w) i = Some (set_view k (ovs', w'))"
    using those_map_Some [of "map (\<lambda>ov. overlay_view k (ov, w')) ovs'"]
    by (simp add: set_saved_def set_view_def comp_def)
  have m: "map (\<lambda>ov. overlay_saved k (ov, w') j) ovs' = map (\<lambda>ov. overlay_saved k (ov, w) j) ovs" for j
    by (rule list_all2_map_eq, rule list_all2_mono [OF l]) simp
  show "set_saved k (ovs', w') = set_saved k (ovs, w)" by (intro ext) (simp add: set_saved_def m)
qed

sublocale overlay_kernel \<subseteq> ovls: rollback_store set_inv "set_checkpoint k" "set_restore k" set_write
    "set_view k" "set_saved k"
proof (unfold_locales, goal_cases)
  case (1 s i s') then show ?case using set_checkpoint_ok(1) [OF kernel] by (cases s; cases s') blast
next
  case (2 s i s') then show ?case using set_checkpoint_ok(2) [OF kernel] by (cases s; cases s') blast
next
  case (3 s i s') then show ?case using set_checkpoint_ok(3) [OF kernel] by (cases s; cases s') blast
next
  case (4 s i s') then show ?case using set_restore_ok(1) [OF kernel] by (cases s; cases s') blast
next
  case (5 s i s') then show ?case using set_restore_ok(2) [OF kernel] by (cases s; cases s') blast
next
  case (6 s i s') then show ?case using set_restore_ok(3) [OF kernel] by (cases s; cases s') blast
next
  case (7 s l) then show ?case using set_write_ok(1) by (cases s; cases l) auto
next
  case (8 s l) then show ?case using set_write_ok(2) by (cases s; cases l) auto
qed

section \<open>Mounting\<close>

lemma tag_of_chars: "CHR ''/'' \<notin> set (tag_of t)" "tag_of t \<noteq> []"
  by (auto simp: tag_of_def Let_def)

lemma tag_of_clean: "clean t \<Longrightarrow> clean (tag_of t)"
proof -
  have sub: "set (strip_slashes t) \<subseteq> set t"
    unfolding strip_slashes_def by (auto dest!: set_dropWhileD)
  assume "clean t"
  with sub show ?thesis by (auto simp: clean_def tag_of_def Let_def)
qed

lemma new_overlay_ok:
  assumes "layers_root \<noteq> []" "\<not> suffix ''/'' layers_root" "clean layers_root" "clean (normpath t)"
  shows "root_ok (new_overlay t layers_root) \<and> owned (new_overlay t layers_root)"
proof -
  let ?ov = "new_overlay t layers_root" and ?tag = "tag_of (normpath t)"
  have r: "o_root ?ov = layers_root @ ''/'' @ ?tag"
    using assms(1,2) tag_of_chars [of "normpath t"]
    by (cases ?tag) (auto simp: new_overlay_def Let_def path_join_def)
  have ns: "\<not> suffix ''/'' (o_root ?ov)"
  proof
    assume "suffix ''/'' (o_root ?ov)"
    then have "last (o_root ?ov) = CHR ''/''" by (auto simp: suffix_def)
    then show False unfolding r using tag_of_chars [of "normpath t"] last_in_set [of ?tag] by auto
  qed
  have c: "clean (o_root ?ov)" unfolding r using assms(3) tag_of_clean [OF assms(4)] by (simp add: clean_def)
  have st: "o_stash ?ov = path_join (o_root ?ov) ''stash''" "o_merged ?ov = path_join (o_root ?ov) ''merged''"
    by (simp_all add: new_overlay_def Let_def)
  have "upper_dir ?ov n \<noteq> o_stash ?ov \<and> upper_dir ?ov n \<noteq> o_merged ?ov" for n
    using path_join_inject [of "o_root ?ov" "CHR ''u'' # dec n" "o_root ?ov" "''stash''"]
      path_join_inject [of "o_root ?ov" "CHR ''u'' # dec n" "o_root ?ov" "''merged''"] ns r
    by (auto simp: st upper_dir_def dec_no_slash)
  moreover have "clean (o_stash ?ov)" using ns c r by (simp add: st path_join_def clean_def)
  moreover have "owned ?ov" unfolding owned_def st by (auto intro!: own_paths_join)
  ultimately show ?thesis using ns c r by (auto simp: root_ok_def)
qed

text \<open>The stages of a mount that succeeds, and the table of mounts after any outcome.\<close>

lemma mount_success:
  assumes "mount k (ov, w) = (Inr (), (ov', w'))"
  obtains w1 st where
    "fresh k (ov, makedirs k (o_merged ov) (makedirs k (o_stash ov) w))
       = ((upper_dir ov (o_n ov + 1), work_dir ov (o_n ov + 1)), (ov\<lparr>o_n := o_n ov + 1\<rparr>, w1))"
    "mount_overlay k (layer_opts [o_stash ov] (upper_dir ov (o_n ov + 1)) (work_dir ov (o_n ov + 1)) OVL_OPTS) = Inr st"
    "ov' = ov\<lparr>o_n := o_n ov + 1, o_fd := True, lower_chain := [o_stash ov],
       o_upper := upper_dir ov (o_n ov + 1), o_work := work_dir ov (o_n ov + 1)\<rparr>"
    "w' = w1\<lparr>dirs := (dirs w1)(o_stash ov := dirs w1 (o_target ov)), stacks := (stacks w1)(o_merged ov := st),
       mounts := [o_target ov, o_merged ov, o_stash ov] @ mounts w\<rparr>"
proof -
  obtain w1 where f: "fresh k (ov, makedirs k (o_merged ov) (makedirs k (o_stash ov) w))
       = ((upper_dir ov (o_n ov + 1), work_dir ov (o_n ov + 1)), (ov\<lparr>o_n := o_n ov + 1\<rparr>, w1))"
    and m: "mounts w1 = mounts w"
    by (simp add: fresh_def Let_def)
  show thesis
    using assms f m that [OF f]
    by (auto simp: mount_def Let_def split: option.splits sum.splits)
qed

lemma mount_failure:
  assumes "mount k (ov, w) = (Inl e, (ov', w'))" "\<forall>p w. open_err k p w = None"
  shows "mounts w' = mounts w"
proof -
  obtain w1 where f: "fresh k (ov, makedirs k (o_merged ov) (makedirs k (o_stash ov) w))
       = ((upper_dir ov (o_n ov + 1), work_dir ov (o_n ov + 1)), (ov\<lparr>o_n := o_n ov + 1\<rparr>, w1))"
    and m: "mounts w1 = mounts w"
    by (simp add: fresh_def Let_def)
  show ?thesis
    using assms f m by (auto simp: mount_def Let_def umount_def split: option.splits sum.splits)
qed

lemma mount_inv:
  assumes "kernel_ok k" "root_ok ov" "snapshots ov = []"
    "\<forall>n > o_n ov. dirs w (upper_dir ov n) = None" "mount k (ov, w) = (Inr (), (ov', w'))"
  shows "overlay_inv (ov', w')"
proof -
  obtain w1 st where m:
    "fresh k (ov, makedirs k (o_merged ov) (makedirs k (o_stash ov) w))
       = ((upper_dir ov (o_n ov + 1), work_dir ov (o_n ov + 1)), (ov\<lparr>o_n := o_n ov + 1\<rparr>, w1))"
    "mount_overlay k (layer_opts [o_stash ov] (upper_dir ov (o_n ov + 1)) (work_dir ov (o_n ov + 1)) OVL_OPTS) = Inr st"
    "ov' = ov\<lparr>o_n := o_n ov + 1, o_fd := True, lower_chain := [o_stash ov],
       o_upper := upper_dir ov (o_n ov + 1), o_work := work_dir ov (o_n ov + 1)\<rparr>"
    "w' = w1\<lparr>dirs := (dirs w1)(o_stash ov := dirs w1 (o_target ov)), stacks := (stacks w1)(o_merged ov := st),
       mounts := [o_target ov, o_merged ov, o_stash ov] @ mounts w\<rparr>"
    using mount_success [OF assms(5)] by metis
  have "st = [upper_dir ov (o_n ov + 1), o_stash ov]"
    using assms(1) m(2) layers_clean [OF assms(2)] unfolding kernel_ok_def by blast
  moreover have "dirs w1 (upper_dir ov n) = None" if "n > o_n ov + 1" for n
    using m(1) assms(2,4) that
    by (auto simp: fresh_def Let_def root_ok_def upper_dir_inject [OF assms(2)] upper_not_work [OF assms(2)])
  moreover have "upper_dir ov n \<noteq> o_stash ov" for n using assms(2) by (simp add: root_ok_def)
  ultimately show ?thesis using assms(2,3) by (auto simp: overlay_inv_def m(3,4) chain_ok_def)
qed

lemma mount_each_mounts:
  assumes "\<forall>p w. open_err k p w = None" "mount_each k ovs dn w = (r, (ovs', w'))"
    "mounts w = concat (map (\<lambda>ov. [o_target ov, o_merged ov, o_stash ov]) dn) @ base"
  shows "mounts w' = (case r of Inl _ \<Rightarrow> base
      | Inr _ \<Rightarrow> concat (map (\<lambda>ov. [o_target ov, o_merged ov, o_stash ov]) (rev ovs @ dn)) @ base)"
  using assms(2,3)
proof (induction ovs arbitrary: dn w)
  case Nil
  then show ?case by auto
next
  case (Cons ov ovs)
  obtain r1 ov1 w1 where m: "mount k (ov, w) = (r1, (ov1, w1))" by (metis prod.exhaust)
  have td: "mounts (fold (\<lambda>d w. snd (teardown (d, w))) ds v) = base"
    if "mounts v = concat (map (\<lambda>ov. [o_target ov, o_merged ov, o_stash ov]) ds) @ base" for ds v
    using that by (induction ds arbitrary: v) (auto simp: teardown_def umount_def)
  show ?case
  proof (cases r1)
    case (Inl e)
    with m Cons.prems mount_failure [of k ov w e ov1 w1] assms(1) td [of w1 dn] show ?thesis by auto
  next
    case (Inr u)
    with m obtain "mounts w1 = [o_target ov, o_merged ov, o_stash ov] @ mounts w"
      "o_target ov1 = o_target ov" "o_merged ov1 = o_merged ov" "o_stash ov1 = o_stash ov"
      by (auto elim!: mount_success)
    with Cons.IH [of "ov1 # dn" w1] Cons.prems m Inr show ?thesis by (auto split: sum.splits)
  qed
qed


lemma mount_frame:
  assumes "mount k (a, w) = (Inr (), (a', w'))" "owned a" "owned b" "own_paths a \<inter> own_paths b = {}"
  shows "unaffected b w w' \<and> owned a' \<and> o_root a' = o_root a"
proof -
  obtain w1 st where m:
    "fresh k (a, makedirs k (o_merged a) (makedirs k (o_stash a) w))
       = ((upper_dir a (o_n a + 1), work_dir a (o_n a + 1)), (a\<lparr>o_n := o_n a + 1\<rparr>, w1))"
    "a' = a\<lparr>o_n := o_n a + 1, o_fd := True, lower_chain := [o_stash a],
       o_upper := upper_dir a (o_n a + 1), o_work := work_dir a (o_n a + 1)\<rparr>"
    "w' = w1\<lparr>dirs := (dirs w1)(o_stash a := dirs w1 (o_target a)), stacks := (stacks w1)(o_merged a := st),
       mounts := [o_target a, o_merged a, o_stash a] @ mounts w\<rparr>"
    using mount_success [OF assms(1)] by metis
  have d: "p \<noteq> o_stash a \<and> p \<noteq> o_merged a" if "p \<in> own_paths b" for p
    using that assms(2,4) by (auto simp: owned_def)
  have "unaffected b (makedirs k (o_merged a) (makedirs k (o_stash a) w)) w1"
    by (rule fresh_unaffected [OF m(1) assms(4)])
  then have "unaffected b w w1" using d by (simp add: unaffected_def)
  then have "unaffected b w w'" using d assms(3) by (auto simp: unaffected_def m(3) owned_def)
  then show ?thesis using assms(2) by (simp add: m(2) owned_def)
qed

definition ready :: "root_overlay \<Rightarrow> 'l world \<Rightarrow> bool" where
  "ready ov w \<longleftrightarrow> root_ok ov \<and> owned ov \<and> snapshots ov = [] \<and> (\<forall>n > o_n ov. dirs w (upper_dir ov n) = None)"

lemma mount_each_inv:
  assumes "kernel_ok k" "mount_each k ovs dn w = (Inr (), (ovs', w'))" "set_inv (rev dn, w)"
    "\<forall>ov \<in> set ovs. ready ov w" "distinct (map o_root (rev dn @ ovs))"
  shows "set_inv (ovs', w')"
  using assms(2-5)
proof (induction ovs arbitrary: dn w)
  case Nil
  then show ?case by auto
next
  case (Cons a ovs)
  from Cons.prems(1) obtain a1 w1 where m: "mount k (a, w) = (Inr (), (a1, w1))"
    and rest: "mount_each k ovs (a1 # dn) w1 = (Inr (), (ovs', w'))"
    by (auto split: prod.splits sum.splits)
  have a: "root_ok a" "owned a" "snapshots a = []" "\<forall>n > o_n a. dirs w (upper_dir a n) = None"
    using Cons.prems(3) by (auto simp: ready_def)
  have fr: "unaffected b w w1" if "owned b" "root_ok b" "o_root b \<noteq> o_root a" for b
    using mount_frame [OF m a(2) that(1)] own_paths_disjoint [OF a(1) that(2)] that(3) by simp
  have own: "owned a1" "o_root a1 = o_root a"
    using a(2) by (auto intro: mount_success [OF m] simp: owned_def)
  have inv: "overlay_inv (a1, w1)" by (rule mount_inv [OF assms(1) a(1,3,4) m])
  have "overlay_inv (b, w1) \<and> owned b" if "b \<in> set dn" for b
  proof -
    have b: "overlay_inv (b, w)" "owned b" using Cons.prems(2) that by (auto simp: set_inv_def)
    moreover have "o_root b \<noteq> o_root a" using Cons.prems(4) that by (auto simp: image_iff)
    ultimately show ?thesis using fr [of b] unaffected_keeps(1) root_ok_inv by blast
  qed
  then have "set_inv (rev (a1 # dn), w1)"
    using Cons.prems(4) own inv by (auto simp: set_inv_def)
  moreover have "\<forall>ov \<in> set ovs. ready ov w1"
  proof
    fix b assume b: "b \<in> set ovs"
    then have "ready b w" "o_root b \<noteq> o_root a" using Cons.prems(3,4) by (auto simp: image_iff)
    with fr [of b] show "ready b w1" by (auto simp: ready_def unaffected_def)
  qed
  moreover have "distinct (map o_root (rev (a1 # dn) @ ovs))" using Cons.prems(4) own by auto
  ultimately show ?case by (rule Cons.IH [OF rest])
qed

lemma set_ready:
  assumes "layers_root \<noteq> []" "\<not> suffix ''/'' layers_root" "clean layers_root"
    "\<forall>t \<in> set ts. clean (normpath t)" "ovs = new_overlay_set (Some ts) layers_root isdir"
    "\<forall>ov \<in> set ovs. \<forall>n. dirs w (upper_dir ov n) = None" "ov \<in> set ovs"
  shows "ready ov (makedirs k layers_root w)"
proof -
  obtain t where t: "t \<in> set ts" and ov: "ov = new_overlay (normpath t) layers_root"
    using assms(5,7) by (auto simp: new_overlay_set_def)
  have ok: "root_ok ov \<and> owned ov"
    unfolding ov using assms(4) t by (intro new_overlay_ok [OF assms(1-3)]) (simp add: normpath_idempotent)
  have "length (o_root ov) > length layers_root"
    using tag_of_chars [of "normpath (normpath t)"]
    by (auto simp: ov new_overlay_def Let_def path_join_def prefix_def)
  then have "upper_dir ov n \<noteq> layers_root" for n
    using path_join_own [of ov "CHR ''u'' # dec n"] ok by (auto simp: upper_dir_def dec_no_slash)
  then show ?thesis
    using ok assms(6,7) by (auto simp: ready_def ov new_overlay_def Let_def)
qed

section \<open>A kernel that satisfies the assumptions\<close>

text \<open>
  A layer lists files with their text, or with \<^term>\<open>None\<close> for a whiteout; the topmost layer that lists
  a file decides. The option strings are taken apart again.
\<close>

type_synonym file_layer = "(string \<times> string option) list"

fun lookup_layers :: "file_layer list \<Rightarrow> string \<Rightarrow> string option" where
  "lookup_layers [] f = None"
| "lookup_layers (l # ls) f = (case map_of l f of Some c \<Rightarrow> c | None \<Rightarrow> lookup_layers ls f)"

definition ref_ioctl :: "string \<Rightarrow> string list \<Rightarrow> string + string list" where
  "ref_ioctl opts act = (case split_on (CHR '','') opts of
       [low, up, wd, kind] \<Rightarrow>
         if kind = ''ovl_kind=ckpt'' then Inr (drop 9 up # hd act # split_on (CHR '':'') (drop 9 low))
         else Inr (drop 9 up # split_on (CHR '':'') (drop 9 low))
     | _ \<Rightarrow> Inl ''Invalid argument'')"

definition ref_mount :: "string \<Rightarrow> string + string list" where
  "ref_mount opts = (case split_on (CHR '','') opts of
       low # up # rest \<Rightarrow> Inr [drop 9 up, drop 9 low] | _ \<Rightarrow> Inl ''Invalid argument'')"

definition ref_kernel :: "(file_layer, string \<Rightarrow> string option) kernel" where
  "ref_kernel = \<lparr>empty_dir = [], merge = lookup_layers, bind_err = (\<lambda>_ _ _. None),
     mount_overlay = ref_mount, open_err = (\<lambda>_ _. None), ovl_ioctl = ref_ioctl\<rparr>"

lemma join_on_clean: "list_all clean ps \<Longrightarrow> CHR '','' \<notin> set (join_on (CHR '':'') ps)"
  by (induction "CHR '':''" ps rule: join_on.induct) (auto simp: clean_def)

lemma split_layer_opts:
  assumes "list_all clean lowers" "clean up" "clean wd"
  shows "split_on (CHR '','') (layer_opts lowers up wd rest)
    = (''lowerdir='' @ join_on (CHR '':'') lowers) # (''upperdir='' @ up) # (''workdir='' @ wd)
      # split_on (CHR '','') rest"
proof -
  have n: "CHR '','' \<notin> set (''lowerdir='' @ join_on (CHR '':'') lowers)"
    "CHR '','' \<notin> set (''upperdir='' @ up)" "CHR '','' \<notin> set (''workdir='' @ wd)"
    using join_on_clean [OF assms(1)] assms(2,3) by (auto simp: clean_def)
  have "layer_opts lowers up wd rest = (''lowerdir='' @ join_on (CHR '':'') lowers) @ CHR '','' #
      (''upperdir='' @ up) @ CHR '','' # (''workdir='' @ wd) @ CHR '','' # rest"
    by (simp add: layer_opts_def)
  then show ?thesis
    by (simp only: split_on_append [OF n(1)] split_on_append [OF n(2)] split_on_append [OF n(3)])
qed

lemma split_lowers: "list_all clean ls \<Longrightarrow> ls \<noteq> [] \<Longrightarrow> split_on (CHR '':'') (join_on (CHR '':'') ls) = ls"
  by (rule split_on_join) (auto simp: list_all_iff clean_def)

lemma ref_ioctl_switch:
  assumes "list_all clean lowers" "lowers \<noteq> []" "clean up" "clean wd"
  shows "ref_ioctl (switch_opts lowers up wd ''ckpt'') act = Inr (up # hd act # lowers)"
    "ref_ioctl (switch_opts lowers up wd ''restore'') act = Inr (up # lowers)"
  using assms by (simp_all add: ref_ioctl_def switch_opts_def split_layer_opts split_lowers)

lemma ref_mount_opts:
  "\<lbrakk>clean low; clean up; clean wd\<rbrakk> \<Longrightarrow> ref_mount (layer_opts [low] up wd OVL_OPTS) = Inr [up, low]"
  by (simp add: ref_mount_def split_layer_opts)

lemma ref_kernel_ok: "kernel_ok ref_kernel"
  by (auto simp: kernel_ok_def ref_kernel_def ref_ioctl_switch ref_mount_opts)

interpretation ref: overlay_kernel ref_kernel
  by unfold_locales (rule ref_kernel_ok)

section \<open>Rollback\<close>

context overlay_kernel
begin

lemma mounted_rollback:
  assumes "layers_root \<noteq> []" "\<not> suffix ''/'' layers_root" "clean layers_root" "clean (normpath t)"
    and "\<forall>n. dirs w (upper_dir (new_overlay t layers_root) n) = None"
    and "mount k (new_overlay t layers_root, w) = (Inr (), s0)"
    and "checkpoint k i (attempt (exec_op (checkpoint k) (restore k) fs_write) before s0) = (Inr (), s1)"
    and "Checkpoint i \<notin> set later"
    and "restore k i (attempt (exec_op (checkpoint k) (restore k) fs_write) later s1) = (Inr (), s2)"
  shows "overlay_view k s2
    = overlay_view k (attempt (exec_op (checkpoint k) (restore k) fs_write) before s0)"
proof -
  obtain ov0 w0 where s0: "s0 = (ov0, w0)" by (cases s0)
  have "root_ok (new_overlay t layers_root)" using new_overlay_ok [OF assms(1-4)] by simp
  moreover have "snapshots (new_overlay t layers_root) = []" by (simp add: new_overlay_def Let_def)
  ultimately have "overlay_inv s0" using mount_inv [OF kernel] assms(5,6) s0 by blast
  then have "overlay_inv (attempt (exec_op (checkpoint k) (restore k) fs_write) before s0)"
    by (rule ovl.attempt_inv)
  from ovl.rollback_despite_failures [OF this assms(7,8,9)] show ?thesis by simp
qed

end

text \<open>
  C3. A covered directory rolls back exactly. After a successful mount on an unused layer
  directory, take any sequence of writes, checkpoints and restores, failed ones included; make a
  checkpoint; take any sequence again in which this checkpoint is not made anew. A restore of the
  checkpoint that succeeds shows the directory as it was when the checkpoint was made.
\<close>

theorem overlay_rollback:
  assumes "kernel_ok k" "layers_root \<noteq> []" "\<not> suffix ''/'' layers_root" "clean layers_root" "clean (normpath t)"
    and "\<forall>n. dirs w (upper_dir (new_overlay t layers_root) n) = None"
    and "mount k (new_overlay t layers_root, w) = (Inr (), s0)"
    and "checkpoint k i (attempt (exec_op (checkpoint k) (restore k) fs_write) before s0) = (Inr (), s1)"
    and "Checkpoint i \<notin> set later"
    and "restore k i (attempt (exec_op (checkpoint k) (restore k) fs_write) later s1) = (Inr (), s2)"
  shows "overlay_view k s2
    = overlay_view k (attempt (exec_op (checkpoint k) (restore k) fs_write) before s0)"
  using overlay_kernel.mounted_rollback [OF overlay_kernel.intro [OF assms(1)] assms(2-10)] .

definition sample_world :: "file_layer world" where
  "sample_world = \<lparr>dirs = [''/u'' \<mapsto> [(''jq'', Some ''old'')]], stacks = (\<lambda>_. []), mounts = []\<rparr>"

definition sample_mounted :: "file_layer ovl" where
  "sample_mounted = snd (mount ref_kernel (new_overlay ''/u/'' ''/l'', sample_world))"

definition sample_before :: "file_layer op list" where
  "sample_before = [Restore ''none'', Write [(''jq'', Some ''new'')]]"

definition sample_later :: "file_layer op list" where
  "sample_later = [Write [(''jq'', None)], Checkpoint ''c2'']"

abbreviation ref_attempt :: "file_layer op list \<Rightarrow> file_layer ovl \<Rightarrow> file_layer ovl" where
  "ref_attempt \<equiv> attempt (exec_op (checkpoint ref_kernel) (restore ref_kernel) fs_write)"

definition sample_at :: "file_layer ovl" where
  "sample_at = snd (checkpoint ref_kernel ''c1'' (ref_attempt sample_before sample_mounted))"

definition sample_back :: "file_layer ovl" where
  "sample_back = snd (restore ref_kernel ''c1'' (ref_attempt sample_later sample_at))"

lemma ref_kernel_simps:
  "empty_dir ref_kernel = []" "merge ref_kernel = lookup_layers" "bind_err ref_kernel = (\<lambda>_ _ _. None)"
  "mount_overlay ref_kernel = ref_mount" "open_err ref_kernel = (\<lambda>_ _. None)" "ovl_ioctl ref_kernel = ref_ioctl"
  by (simp_all add: ref_kernel_def)

lemma small_decs:
  "dec (Suc 0) = ''1''" "dec (Suc (Suc 0)) = ''2''" "dec (Suc (Suc (Suc 0))) = ''3''"
  "dec (Suc (Suc (Suc (Suc 0)))) = ''4''" "dec 2 = ''2''" "dec 3 = ''3''"
  by code_simp+

lemmas run_simps = ref_kernel_simps small_decs fresh_def makedirs_def upper_dir_def work_dir_def
  path_join_def Let_def fs_write_def switch_def ref_ioctl_switch ref_mount_opts
  clean_def suffix_def Cons_eq_append_conv

lemma sample_overlay:
  "new_overlay ''/u/'' ''/l'' = \<lparr>o_target = ''/u'', o_tag = ''u'', o_root = ''/l/u'',
     o_stash = ''/l/u/stash'', o_merged = ''/l/u/merged'', o_fd = False, o_n = 0, lower_chain = [],
     o_upper = [], o_work = [], snapshots = []\<rparr>"
  by code_simp

lemma sample_mounted_eq:
  "mount ref_kernel (new_overlay ''/u/'' ''/l'', sample_world) = (Inr (),
     (\<lparr>o_target = ''/u'', o_tag = ''u'', o_root = ''/l/u'', o_stash = ''/l/u/stash'',
       o_merged = ''/l/u/merged'', o_fd = True, o_n = 1, lower_chain = [''/l/u/stash''],
       o_upper = ''/l/u/u1'', o_work = ''/l/u/w1'', snapshots = []\<rparr>,
      \<lparr>dirs = [''/u'' \<mapsto> [(''jq'', Some ''old'')], ''/l/u/merged'' \<mapsto> [], ''/l/u/u1'' \<mapsto> [],
         ''/l/u/w1'' \<mapsto> [], ''/l/u/stash'' \<mapsto> [(''jq'', Some ''old'')]],
       stacks = (\<lambda>_. [])(''/l/u/merged'' := [''/l/u/u1'', ''/l/u/stash'']),
       mounts = [''/u'', ''/l/u/merged'', ''/l/u/stash'']\<rparr>))"
  by (simp add: sample_overlay mount_def run_simps sample_world_def)

theorem overlay_rollback_witness:
  "overlay_view ref_kernel (ref_attempt sample_later sample_at) ''jq'' = None
    \<and> overlay_view ref_kernel sample_back ''jq'' = Some ''new''"
proof -
  have m: "mount ref_kernel (new_overlay ''/u/'' ''/l'', sample_world) = (Inr (), sample_mounted)"
    by (simp add: sample_mounted_def sample_mounted_eq)
  note st = sample_before_def sample_mounted_def sample_mounted_eq restore_def
  have c: "checkpoint ref_kernel ''c1'' (ref_attempt sample_before sample_mounted) = (Inr (), sample_at)"
    unfolding sample_at_def by (rule prod_eqI) (simp_all add: st checkpoint_def run_simps)
  have r: "restore ref_kernel ''c1'' (ref_attempt sample_later sample_at) = (Inr (), sample_back)"
    unfolding sample_back_def
    by (rule prod_eqI) (simp_all add: st sample_at_def sample_later_def checkpoint_def run_simps)
  have n: "\<forall>n. dirs sample_world (upper_dir (new_overlay ''/u/'' ''/l'') n) = None"
    by (simp add: sample_world_def sample_overlay upper_dir_def path_join_def)
  have "\<not> suffix ''/'' ''/l''" "clean ''/l''" "clean (normpath ''/u/'')" by code_simp+
  then have v: "overlay_view ref_kernel sample_back
      = overlay_view ref_kernel (ref_attempt sample_before sample_mounted)"
    using overlay_rollback [OF ref_kernel_ok _ _ _ _ n m c _ r] by (simp add: sample_later_def)
  have "overlay_view ref_kernel (ref_attempt sample_before sample_mounted) ''jq'' = Some ''new''"
    by (simp add: st run_simps overlay_view_def content_def)
  moreover have "overlay_view ref_kernel (ref_attempt sample_later sample_at) ''jq'' = None"
    by (simp add: st sample_at_def sample_later_def checkpoint_def run_simps overlay_view_def content_def)
  ultimately show ?thesis using v by simp
qed

context overlay_kernel
begin

lemma mounted_set_rollback:
  assumes "set_inv s0" "for_eff (exec_op (set_checkpoint k) (set_restore k) set_write) before s0 = (Inr (), s)"
    and "set_checkpoint k i s = (Inr (), s1)"
    and "for_eff (exec_op (set_checkpoint k) (set_restore k) set_write) later s1 = (Inr (), s2)"
    and "Checkpoint i \<notin> set later" "set_restore k i s2 = (Inr (), s3)"
  shows "set_view k s3 = set_view k s"
proof -
  have "set_inv s"
    using assms(1) by (rule for_eff_invariant_ok [OF assms(2)]) (use ovls.exec_op_inv in blast)
  from ovls.rollback_exact [OF this assms(3-6)] show ?thesis by simp
qed

end

lemma mount_all_set_inv:
  assumes "kernel_ok k" "layers_root \<noteq> []" "\<not> suffix ''/'' layers_root" "clean layers_root"
    and "\<forall>t \<in> set ts. clean (normpath t)" "ovs = new_overlay_set (Some ts) layers_root isdir"
    and "distinct (map o_root ovs)" "\<forall>ov \<in> set ovs. \<forall>n. dirs w (upper_dir ov n) = None"
    and "mount_all k layers_root (ovs, w) = (Inr (), s0)"
  shows "set_inv s0"
proof -
  obtain ovs0 w0 where s0: "s0 = (ovs0, w0)" by (cases s0)
  have "mount_each k ovs [] (makedirs k layers_root w) = (Inr (), (ovs0, w0))"
    using assms(9) by (simp add: mount_all_def s0)
  moreover have "\<forall>ov \<in> set ovs. ready ov (makedirs k layers_root w)"
    using set_ready [OF assms(2-6,8)] by blast
  moreover have "set_inv (rev [], makedirs k layers_root w)" by (simp add: set_inv_def)
  ultimately show ?thesis unfolding s0 using mount_each_inv [OF assms(1)] assms(7) by fastforce
qed

text \<open>
  C14. The covered directories roll back together: with pairwise different layer directories, a
  restore of the set shows every covered directory as it was when the checkpoint of the set was
  made, whatever was written, checkpointed and restored in between.
\<close>

theorem overlay_set_rollback:
  assumes "kernel_ok k" "layers_root \<noteq> []" "\<not> suffix ''/'' layers_root" "clean layers_root"
    and "\<forall>t \<in> set ts. clean (normpath t)" "ovs = new_overlay_set (Some ts) layers_root isdir"
    and "distinct (map o_root ovs)" "\<forall>ov \<in> set ovs. \<forall>n. dirs w (upper_dir ov n) = None"
    and "mount_all k layers_root (ovs, w) = (Inr (), s0)"
    and "for_eff (exec_op (set_checkpoint k) (set_restore k) set_write) before s0 = (Inr (), s)"
    and "set_checkpoint k i s = (Inr (), s1)"
    and "for_eff (exec_op (set_checkpoint k) (set_restore k) set_write) later s1 = (Inr (), s2)"
    and "Checkpoint i \<notin> set later" "set_restore k i s2 = (Inr (), s3)"
  shows "set_view k s3 = set_view k s"
  using overlay_kernel.mounted_set_rollback [OF overlay_kernel.intro [OF assms(1)] mount_all_set_inv [OF assms(1-9)] assms(10-14)] .

definition sample_set :: "root_overlay list" where
  "sample_set = new_overlay_set (Some [''/proc'', ''/u/'']) ''/l'' (\<lambda>_. True)"

lemma sample_set_eq: "sample_set = [new_overlay ''/u/'' ''/l'']"
  by code_simp

definition sample_set_mounted :: "root_overlay list \<times> file_layer world" where
  "sample_set_mounted = snd (mount_all ref_kernel ''/l'' (sample_set, sample_world))"

definition sample_set_at :: "root_overlay list \<times> file_layer world" where
  "sample_set_at = ([\<lparr>o_target = ''/u'', o_tag = ''u'', o_root = ''/l/u'', o_stash = ''/l/u/stash'',
       o_merged = ''/l/u/merged'', o_fd = True, o_n = 2, lower_chain = [''/l/u/u1'', ''/l/u/stash''],
       o_upper = ''/l/u/u2'', o_work = ''/l/u/w2'', snapshots = [(''c'', [''/l/u/u1'', ''/l/u/stash''])]\<rparr>],
      \<lparr>dirs = [''/u'' \<mapsto> [(''jq'', Some ''old'')], ''/l'' \<mapsto> [], ''/l/u/merged'' \<mapsto> [], ''/l/u/u1'' \<mapsto> [],
         ''/l/u/w1'' \<mapsto> [], ''/l/u/stash'' \<mapsto> [(''jq'', Some ''old'')], ''/l/u/u2'' \<mapsto> [], ''/l/u/w2'' \<mapsto> []],
       stacks = (\<lambda>_. [])(''/l/u/merged'' := [''/l/u/u2'', ''/l/u/u1'', ''/l/u/stash'']),
       mounts = [''/u'', ''/l/u/merged'', ''/l/u/stash'']\<rparr>)"

theorem overlay_set_rollback_witness:
  "\<exists>s1 s2 s3. set_checkpoint ref_kernel ''c'' sample_set_mounted = (Inr (), s1)
    \<and> for_eff (exec_op (set_checkpoint ref_kernel) (set_restore ref_kernel) set_write)
        [Write (0, [(''jq'', None)])] s1 = (Inr (), s2)
    \<and> set_restore ref_kernel ''c'' s2 = (Inr (), s3)
    \<and> set_view ref_kernel s3 = set_view ref_kernel sample_set_mounted
    \<and> set_view ref_kernel s2 \<noteq> set_view ref_kernel sample_set_mounted"
proof -
  define s1 where "s1 = sample_set_at"
  define s2 where "s2 = set_write (0, [(''jq'', None)]) s1"
  define s3 where "s3 = snd (set_restore ref_kernel ''c'' s2)"
  note ev = sample_set_mounted_def sample_set_eq sample_overlay mount_all_def mount_def run_simps
    sample_world_def set_checkpoint_def set_restore_def checkpoint_def restore_def set_write_def
  have m: "mount_all ref_kernel ''/l'' (sample_set, sample_world) = (Inr (), sample_set_mounted)"
    by (rule prod_eqI) (simp_all add: ev)
  have c: "set_checkpoint ref_kernel ''c'' sample_set_mounted = (Inr (), s1)"
    unfolding s1_def sample_set_at_def by (simp add: ev)
  have r: "set_restore ref_kernel ''c'' s2 = (Inr (), s3)"
    unfolding s3_def by (rule prod_eqI) (simp_all add: ev s2_def s1_def sample_set_at_def)
  have w: "for_eff (exec_op (set_checkpoint ref_kernel) (set_restore ref_kernel) set_write)
        [Write (0, [(''jq'', None)])] s1 = (Inr (), s2)" by (simp add: s2_def)
  have "(set_view ref_kernel s2 ! 0) ''jq'' = None"
    by (simp add: ev s2_def s1_def sample_set_at_def set_view_def overlay_view_def content_def)
  moreover have "(set_view ref_kernel sample_set_mounted ! 0) ''jq'' = Some ''old''"
    by (simp add: ev set_view_def overlay_view_def content_def)
  ultimately have d: "set_view ref_kernel s2 \<noteq> set_view ref_kernel sample_set_mounted" by auto
  have "\<not> suffix ''/'' ''/l''" "clean ''/l''" "\<forall>t \<in> set [''/proc'', ''/u/'']. clean (normpath t)"
    "distinct (map o_root sample_set)" by code_simp+
  moreover have "\<forall>ov \<in> set sample_set. \<forall>n. dirs sample_world (upper_dir ov n) = None"
    by (simp add: sample_set_eq sample_overlay sample_world_def upper_dir_def path_join_def)
  ultimately have "set_view ref_kernel s3 = set_view ref_kernel sample_set_mounted"
    using overlay_set_rollback [OF ref_kernel_ok _ _ _ _ sample_set_def _ _ m _ c w _ r, of "[]"] by simp
  with c w r d show ?thesis by (intro exI conjI)
qed

definition failing_kernel :: "(file_layer, string \<Rightarrow> string option) kernel" where
  "failing_kernel = ref_kernel\<lparr>bind_err := (\<lambda>src dst w. if dst = ''/u'' then Some ''busy'' else None)\<rparr>"

lemma failing_kernel_simps:
  "empty_dir failing_kernel = []" "mount_overlay failing_kernel = ref_mount"
  "open_err failing_kernel = (\<lambda>_ _. None)"
  "bind_err failing_kernel = (\<lambda>src dst w. if dst = ''/u'' then Some ''busy'' else None)"
  by (simp_all add: failing_kernel_def ref_kernel_simps)


section \<open>Two gaps\<close>

text \<open>
  If only the descriptor of the merged directory cannot be opened, the exception leaves the three
  mounts of the overlay behind: \<^verbatim>\<open>mount\<close> undoes failed mount commands only, and \<^verbatim>\<open>mount_all\<close> tears down
  only the overlays that were mounted completely.
\<close>

lemma open_failure_leaks_mounts:
  assumes "\<And>p q w. bind_err k p q w = None" "\<And>o'. \<exists>st. mount_overlay k o' = Inr st"
    "\<And>p w. open_err k p w = Some err"
  shows "\<exists>s. mount_all k layers_root ([ov], w) = (Inl (OSError err), s)
    \<and> mounts (snd s) = [o_target ov, o_merged ov, o_stash ov] @ mounts w"
proof -
  obtain st where "mount_overlay k (layer_opts [o_stash ov] (upper_dir ov (o_n ov + 1))
      (work_dir ov (o_n ov + 1)) OVL_OPTS) = Inr st" using assms(2) by blast
  then show ?thesis by (simp add: mount_all_def mount_def fresh_def Let_def assms(1,3))
qed

text \<open>Two different targets can share their layer directory, because the tag maps both separators to one.\<close>

lemma tags_collide: "o_root (new_overlay ''/opt/a_b'' l) = o_root (new_overlay ''/opt/a/b'' l)"
proof -
  have "tag_of (normpath ''/opt/a_b'') = tag_of (normpath ''/opt/a/b'')" by code_simp
  then show ?thesis by (simp add: new_overlay_def Let_def)
qed

end
