(* ===== verification/Memory_Regions.thy ===== *)
theory Memory_Regions
  imports Paths
begin

text \<open>
  Models of \<^verbatim>\<open>backends/deltabox/gsd/memory_classifier.py\<close>, \<^verbatim>\<open>backends/deltabox/gsd/prewarm.py\<close>, the
  range functions of \<^verbatim>\<open>replay/guest/cooperative_prewarm.py\<close> and \<^verbatim>\<open>_read_prefetch_ranges\<close> of
  \<^verbatim>\<open>backends/deltabox/gsd/adaptive_checkpoint.py\<close>. All of them read the lines of a procfs file and sort
  address ranges into buckets; the lines are an argument, and \<^verbatim>\<open>None\<close> stands for a file that cannot be
  opened. \<^verbatim>\<open>int(s, 16)\<close> is written for the strings of hexadecimal digits that procfs prints; anything
  else raises \<^verbatim>\<open>ValueError\<close>.
\<close>

section \<open>Fields of a line\<close>

text \<open>\<^verbatim>\<open>s.split(None, n)\<close>.\<close>

primrec split_ws :: "nat \<Rightarrow> string \<Rightarrow> string list" where
  "split_ws 0 s = (let t = dropWhile is_space s in if t = [] then [] else [t])"
| "split_ws (Suc n) s = (let t = dropWhile is_space s in
     if t = [] then []
     else takeWhile (\<lambda>c. \<not> is_space c) t # split_ws n (dropWhile (\<lambda>c. \<not> is_space c) t))"

definition strip_ws :: "string \<Rightarrow> string" where
  "strip_ws s = rev (dropWhile is_space (rev (dropWhile is_space s)))"

definition maps_fields :: "string \<Rightarrow> string list" where
  "maps_fields line = split_ws 5 (strip_ws line)"

definition hex_digit :: "char \<Rightarrow> int option" where
  "hex_digit c = (let n = of_char c :: int in
     if 48 \<le> n \<and> n \<le> 57 then Some (n - 48)
     else if 97 \<le> n \<and> n \<le> 102 then Some (n - 87)
     else if 65 \<le> n \<and> n \<le> 70 then Some (n - 55) else None)"

fun hex_value :: "int \<Rightarrow> string \<Rightarrow> int option" where
  "hex_value acc [] = Some acc"
| "hex_value acc (c # cs) = (case hex_digit c of Some d \<Rightarrow> hex_value (16 * acc + d) cs | None \<Rightarrow> None)"

definition int16 :: "string \<Rightarrow> int result" where
  "int16 s = (case (if s = [] then None else hex_value 0 s) of
       Some n \<Rightarrow> Inr n
     | None \<Rightarrow> Inl (ValueError (''invalid literal for int() with base 16: '' @ py_repr s)))"

text \<open>\<^verbatim>\<open>a, b = addr.split("-")\<close> followed by the two conversions.\<close>

definition addr_range :: "string \<Rightarrow> (int \<times> int) result" where
  "addr_range addr = (case split_on (CHR ''-'') addr of
       [a, b] \<Rightarrow> andthen (int16 a) (\<lambda>s. andthen (int16 b) (\<lambda>e. Inr (s, e)))
     | _ \<Rightarrow> Inl (ValueError ''expected two values to unpack''))"

definition field :: "string list \<Rightarrow> nat \<Rightarrow> string" where
  "field parts i = (if i < length parts then parts ! i else [])"

section \<open>Buckets\<close>

text \<open>
  The loops below put every accepted item into one of a few lists. The contract of such a loop: a
  bucket holds, in order, the items with its label.
\<close>

locale bucket_loop =
  fixes loop :: "'a list \<Rightarrow> 'k \<Rightarrow> 'a list" and label :: "'a \<Rightarrow> 'k option"
  assumes bucket: "loop xs k = filter (\<lambda>x. label x = Some k) xs"
begin

lemma bucket_mem: "x \<in> set (loop xs k) \<longleftrightarrow> x \<in> set xs \<and> label x = Some k"
  by (auto simp: bucket)

lemma buckets_disjoint: "k \<noteq> k' \<Longrightarrow> set (loop xs k) \<inter> set (loop xs k') = {}"
  by (auto simp: bucket)

lemma bucket_order: "subseq (loop xs k) xs"
  by (simp add: bucket subseq_filter_left)

lemma buckets_partition:
  "distinct ks \<Longrightarrow> mset (concat (map (loop xs) ks)) = {# x \<in># mset xs. label x \<in> Some ` set ks #}"
proof (induction ks)
  case Nil
  then show ?case by simp
next
  case (Cons k ks)
  have "{# x \<in># mset xs. label x \<in> Some ` set (k # ks) #}
      = {# x \<in># mset xs. label x = Some k #} + {# x \<in># mset xs. label x \<in> Some ` set ks #}"
    using Cons.prems by (intro multiset_eqI) auto
  with Cons show ?case by (simp add: bucket mset_filter)
qed

end

section \<open>Memory classifier\<close>

definition HOT_THRESHOLD :: int where "HOT_THRESHOLD = 100 * 1024 * 1024"

datatype zone = Cold | Warm | Hot

record vma =
  v_start :: int
  v_end :: int
  v_size :: int
  v_perms :: string
  v_offset :: string
  v_dev :: string
  v_inode :: string
  v_pathname :: string
  v_rss :: int

fun parse_maps :: "string list \<Rightarrow> vma list result" where
  "parse_maps [] = Inr []"
| "parse_maps (line # lines) =
     (let parts = maps_fields line in
      if length parts < 5 then parse_maps lines
      else andthen (addr_range (parts ! 0)) (\<lambda>(start, e).
        andthen (parse_maps lines) (\<lambda>vmas.
          Inr (\<lparr>v_start = start, v_end = e, v_size = e - start, v_perms = parts ! 1,
                v_offset = parts ! 2, v_dev = parts ! 3, v_inode = parts ! 4,
                v_pathname = strip_ws (field parts 5), v_rss = 0\<rparr> # vmas))))"

text \<open>The header line of a mapping in \<^verbatim>\<open>smaps\<close>: \<^verbatim>\<open>re.match(r'^([0-9a-f]+)-([0-9a-f]+)\s', line)\<close>.\<close>

definition lower_hex :: "char \<Rightarrow> bool" where
  "lower_hex c = (let n = of_char c :: nat in (48 \<le> n \<and> n \<le> 57) \<or> (97 \<le> n \<and> n \<le> 102))"

definition smaps_header :: "string \<Rightarrow> int option" where
  "smaps_header line =
     (let a = takeWhile lower_hex line; r = dropWhile lower_hex line in
      case r of
        c # r1 \<Rightarrow>
          let b = takeWhile lower_hex r1; r2 = dropWhile lower_hex r1 in
          if c = CHR ''-'' \<and> a \<noteq> [] \<and> b \<noteq> [] \<and> r2 \<noteq> [] \<and> is_space (hd r2) then hex_value 0 a else None
      | [] \<Rightarrow> None)"

text \<open>\<^verbatim>\<open>re.match(r'^Rss:\s+(\d+)\s+kB', line)\<close>.\<close>

definition smaps_rss :: "string \<Rightarrow> int option" where
  "smaps_rss line =
     (if prefix ''Rss:'' line then
        let r = drop 4 line; r1 = dropWhile is_space r;
            d = takeWhile is_digit r1; r2 = dropWhile is_digit r1; r3 = dropWhile is_space r2 in
        if r \<noteq> r1 \<and> d \<noteq> [] \<and> r2 \<noteq> r3 \<and> prefix ''kB'' r3 then Some (int (dec_val d)) else None
      else None)"

fun parse_smaps_rss :: "string list \<Rightarrow> int option \<Rightarrow> (int \<times> int) list \<Rightarrow> (int \<times> int) list" where
  "parse_smaps_rss [] current_start rss_map = rss_map"
| "parse_smaps_rss (line # lines) current_start rss_map =
     (case smaps_header line of
        Some s \<Rightarrow> parse_smaps_rss lines (Some s) rss_map
      | None \<Rightarrow> (case (smaps_rss line, current_start) of
          (Some kb, Some s) \<Rightarrow> parse_smaps_rss lines current_start (AList.update s (kb * 1024) rss_map)
        | _ \<Rightarrow> parse_smaps_rss lines current_start rss_map))"

definition is_anonymous :: "string \<Rightarrow> bool" where
  "is_anonymous pathname \<longleftrightarrow> pathname = [] \<or> prefix ''['' pathname"

definition zone_of :: "vma \<Rightarrow> zone" where
  "zone_of v =
     (let anon = is_anonymous (v_pathname v);
          writable = CHR ''w'' \<in> set (v_perms v); executable = CHR ''x'' \<in> set (v_perms v) in
      if \<not> anon \<and> (executable \<or> \<not> writable) then Cold
      else if anon \<and> writable \<and> v_size v \<ge> HOT_THRESHOLD then Hot
      else Warm)"

record classified =
  cold :: "vma list"
  warm :: "vma list"
  hot :: "vma list"
  total_cold_size :: int
  total_warm_size :: int
  total_hot_size :: int

definition classify_step :: "vma \<Rightarrow> classified \<Rightarrow> classified" where
  "classify_step v c = (case zone_of v of
       Cold \<Rightarrow> c\<lparr>cold := cold c @ [v], total_cold_size := total_cold_size c + v_size v\<rparr>
     | Hot \<Rightarrow> c\<lparr>hot := hot c @ [v], total_hot_size := total_hot_size c + v_size v\<rparr>
     | Warm \<Rightarrow> c\<lparr>warm := warm c @ [v], total_warm_size := total_warm_size c + v_size v\<rparr>)"

definition classify_list :: "vma list \<Rightarrow> classified" where
  "classify_list vmas = fold classify_step vmas
     \<lparr>cold = [], warm = [], hot = [], total_cold_size = 0, total_warm_size = 0, total_hot_size = 0\<rparr>"

text \<open>\<^verbatim>\<open>vma["rss"] = rss_map.get(vma["start"], 0)\<close>.\<close>

definition with_rss :: "(int \<times> int) list \<Rightarrow> vma \<Rightarrow> vma" where
  "with_rss rss_map v = v\<lparr>v_rss := dict_get rss_map (v_start v) 0\<rparr>"

definition classify_vmas :: "string list option \<Rightarrow> string list option \<Rightarrow> classified result" where
  "classify_vmas maps smaps = (case maps of
       None \<Rightarrow> Inl (FileNotFoundError ''maps'')
     | Some ls \<Rightarrow> andthen (parse_maps ls) (\<lambda>vmas. case smaps of
         None \<Rightarrow> Inl (FileNotFoundError ''smaps'')
       | Some ss \<Rightarrow> Inr (classify_list (map (with_rss (parse_smaps_rss ss None [])) vmas))))"

definition get_hot_region_addresses ::
  "string list option \<Rightarrow> string list option \<Rightarrow> (int \<times> int) list result" where
  "get_hot_region_addresses maps smaps =
     andthen (classify_vmas maps smaps) (\<lambda>c. Inr (map (\<lambda>v. (v_start v, v_end v)) (hot c)))"

fun zone_list :: "classified \<Rightarrow> zone \<Rightarrow> vma list" where
  "zone_list c Cold = cold c"
| "zone_list c Warm = warm c"
| "zone_list c Hot = hot c"

lemma classify_fold:
  "zone_list (fold classify_step vs c) z = zone_list c z @ filter (\<lambda>v. zone_of v = z) vs"
proof (induction vs arbitrary: c)
  case Nil
  then show ?case by simp
next
  case (Cons v vs)
  then show ?case by (cases z; cases "zone_of v") (simp_all add: classify_step_def)
qed

interpretation zones: bucket_loop "\<lambda>vs. zone_list (classify_list vs)" "\<lambda>v. Some (zone_of v)"
proof
  fix vs z
  show "zone_list (classify_list vs) z = filter (\<lambda>v. Some (zone_of v) = Some z) vs"
    unfolding classify_list_def classify_fold by (cases z) simp_all
qed

lemma classify_sizes:
  "total_cold_size (classify_list vs) = sum_list (map v_size (cold (classify_list vs)))"
  "total_warm_size (classify_list vs) = sum_list (map v_size (warm (classify_list vs)))"
  "total_hot_size (classify_list vs) = sum_list (map v_size (hot (classify_list vs)))"
proof -
  define ok where "ok c \<longleftrightarrow> total_cold_size c = sum_list (map v_size (cold c))
    \<and> total_warm_size c = sum_list (map v_size (warm c))
    \<and> total_hot_size c = sum_list (map v_size (hot c))" for c :: classified
  have "ok (classify_step v c)" if "ok c" for v c
    using that by (cases "zone_of v") (simp_all add: ok_def classify_step_def)
  then have "ok (fold classify_step vs c)" if "ok c" for c
    using that by (induction vs arbitrary: c) auto
  then have "ok (classify_list vs)" by (simp add: classify_list_def ok_def)
  then show "total_cold_size (classify_list vs) = sum_list (map v_size (cold (classify_list vs)))"
    "total_warm_size (classify_list vs) = sum_list (map v_size (warm (classify_list vs)))"
    "total_hot_size (classify_list vs) = sum_list (map v_size (hot (classify_list vs)))"
    by (simp_all add: ok_def)
qed

text \<open>
  C28. The zones partition the address space: every parsed mapping is in exactly one zone, in the
  order of the file, the three sizes add up to the size of all mappings, and no mapping of the cold
  zone, which may be skipped by the dump, is anonymous or writable without being code.
\<close>

theorem zones_partition:
  assumes "parse_maps ls = Inr vmas" "classify_vmas (Some ls) (Some ss) = Inr c"
  shows "mset (cold c) + mset (warm c) + mset (hot c)
      = mset (map (with_rss (parse_smaps_rss ss None [])) vmas)
    \<and> total_cold_size c + total_warm_size c + total_hot_size c = sum_list (map v_size vmas)
    \<and> (\<forall>v \<in> set (cold c). \<not> is_anonymous (v_pathname v)
          \<and> (CHR ''w'' \<in> set (v_perms v) \<longrightarrow> CHR ''x'' \<in> set (v_perms v)))"
proof -
  define vs where "vs = map (with_rss (parse_smaps_rss ss None [])) vmas"
  have c: "c = classify_list vs" using assms by (auto simp: classify_vmas_def vs_def)
  have "mset (concat (map (zone_list c) [Cold, Warm, Hot]))
      = {# v \<in># mset vs. Some (zone_of v) \<in> Some ` set [Cold, Warm, Hot] #}"
    unfolding c by (rule zones.buckets_partition) simp
  also have "\<dots> = mset vs"
  proof -
    have "Some (zone_of v) \<in> Some ` set [Cold, Warm, Hot]" for v by (cases "zone_of v") auto
    then show ?thesis by simp
  qed
  finally have m: "mset (cold c) + mset (warm c) + mset (hot c) = mset vs" by (simp add: add.assoc)
  have "sum_list (map v_size (cold c @ warm c @ hot c)) = sum_list (map v_size vs)"
    using arg_cong [OF m, of "\<lambda>M. sum_mset (image_mset v_size M)"]
    by (simp add: sum_mset_sum_list flip: mset_map)
  moreover have "map v_size vs = map v_size vmas" by (simp add: vs_def with_rss_def)
  ultimately have "total_cold_size c + total_warm_size c + total_hot_size c = sum_list (map v_size vmas)"
    by (simp add: c classify_sizes)
  moreover have "\<forall>v \<in> set (cold c). zone_of v = Cold" using zones.bucket_mem [of _ vs Cold] by (simp add: c)
  then have "\<forall>v \<in> set (cold c). \<not> is_anonymous (v_pathname v)
      \<and> (CHR ''w'' \<in> set (v_perms v) \<longrightarrow> CHR ''x'' \<in> set (v_perms v))"
    by (auto simp: zone_of_def Let_def split: if_splits)
  ultimately show ?thesis using m vs_def by blast
qed

definition sample_maps :: "string list" where
  "sample_maps = [''400000-401000 r-xp 0 8:1 77 /bin/x'', ''600000-6f00000 rw-p 0 0:0 0 '',
     ''7f0000-7f1000 rw-p 0 8:1 78 /lib/y.so'']"

theorem zones_partition_witness:
  "\<exists>vmas c. parse_maps sample_maps = Inr vmas \<and> classify_vmas (Some sample_maps) (Some []) = Inr c
    \<and> length vmas = 3 \<and> total_hot_size c = 110100480
    \<and> total_cold_size c + total_warm_size c + total_hot_size c = sum_list (map v_size vmas)"
proof -
  have "case parse_maps sample_maps of Inl _ \<Rightarrow> False | Inr vmas \<Rightarrow> length vmas = 3"
    "case classify_vmas (Some sample_maps) (Some []) of Inl _ \<Rightarrow> False | Inr c \<Rightarrow> total_hot_size c = 110100480"
    by code_simp+
  then obtain vmas c where p: "parse_maps sample_maps = Inr vmas" "length vmas = 3"
    and c: "classify_vmas (Some sample_maps) (Some []) = Inr c" "total_hot_size c = 110100480"
    by (auto split: sum.splits)
  with zones_partition [OF p(1) c(1)] show ?thesis by blast
qed

section \<open>Tiers of the external prefetch\<close>

definition PAGE_SIZE :: int where "PAGE_SIZE = 4096"
definition HOT_ANON_THRESHOLD :: int where "HOT_ANON_THRESHOLD = 4 * 1024 * 1024"

definition excluded_vma :: "string \<Rightarrow> bool" where
  "excluded_vma path \<longleftrightarrow> prefix ''[vvar]'' path \<or> prefix ''[vdso]'' path \<or> prefix ''[vsyscall]'' path"

definition tier_of :: "string \<Rightarrow> int \<Rightarrow> nat" where
  "tier_of path sz =
     (if path = ''[heap]'' \<or> path = ''[stack]'' \<or> (path = [] \<and> sz \<ge> HOT_ANON_THRESHOLD) then 1
      else if path = [] then 2
      else if prefix ''/'' path \<or> prefix ''./'' path \<or> prefix ''../'' path then 3
      else 4)"

text \<open>
  One line of the loop: \<^term>\<open>Inr None\<close> when it is skipped, otherwise the tier and the range. A line
  with malformed addresses raises \<^verbatim>\<open>ValueError\<close>, which the loop does not catch.
\<close>

definition tier_line :: "string \<Rightarrow> (nat \<times> (int \<times> int)) option result" where
  "tier_line line =
     (let parts = maps_fields line in
      if length parts < 5 then Inr None
      else let perms = parts ! 1; path = field parts 5 in
        if CHR ''w'' \<notin> set perms \<or> CHR ''r'' \<notin> set perms then Inr None
        else if excluded_vma path then Inr None
        else andthen (addr_range (parts ! 0)) (\<lambda>(start, e).
          Inr (Some (tier_of path (e - start), (start, e)))))"

type_synonym tiers = "nat \<Rightarrow> (int \<times> int) list"

fun tier_loop :: "string list \<Rightarrow> tiers \<Rightarrow> tiers result" where
  "tier_loop [] ts = Inr ts"
| "tier_loop (line # lines) ts = andthen (tier_line line) (\<lambda>r. case r of
       None \<Rightarrow> tier_loop lines ts
     | Some (t, rng) \<Rightarrow> tier_loop lines (ts(t := ts t @ [rng])))"

definition classify_tiered_ranges ::
  "bool \<Rightarrow> string list option \<Rightarrow> (nat \<times> (int \<times> int) list) list result" where
  "classify_tiered_ranges naive maps =
     andthen (case maps of None \<Rightarrow> Inr (\<lambda>_. []) | Some ls \<Rightarrow> tier_loop ls (\<lambda>_. [])) (\<lambda>ts.
       if naive then Inr [(0, ts 1 @ ts 2 @ ts 3 @ ts 4)]
       else Inr (filter (\<lambda>(t, rs). rs \<noteq> []) (map (\<lambda>t. (t, ts t)) [1, 2, 3, 4])))"

definition classify_target_hot_ranges :: "bool \<Rightarrow> string list option \<Rightarrow> (int \<times> int) list result" where
  "classify_target_hot_ranges naive maps =
     andthen (classify_tiered_ranges naive maps) (\<lambda>ts. Inr (concat (map snd ts)))"

definition warm_mode :: "string option \<Rightarrow> string option \<Rightarrow> string" where
  "warm_mode bench_warm_mode bench_naive_warm = (case bench_warm_mode of
       Some m \<Rightarrow> m | None \<Rightarrow> if bench_naive_warm = Some ''1'' then ''naive'' else ''tiered'')"

definition validate_prewarm_mode :: "string option \<Rightarrow> string result" where
  "validate_prewarm_mode env =
     (let mode = map (\<lambda>c. let n = of_char c :: nat in
            if (65 \<le> n \<and> n \<le> 90) \<or> (192 \<le> n \<and> n \<le> 222 \<and> n \<noteq> 215) then char_of (n + 32) else c)
          (strip_ws (case env of Some m \<Rightarrow> m | None \<Rightarrow> ''read'')) in
      if mode \<notin> {''read'', ''readonly'', ''read-only''}
      then Inl (ValueError (''Unsafe or unknown DELTABOX_PREWARM_MODE='' @ py_repr mode))
      else Inr ''read'')"

text \<open>The items that the loop accepts, with their tiers.\<close>

fun tier_items :: "string list \<Rightarrow> (nat \<times> (int \<times> int)) list result" where
  "tier_items [] = Inr []"
| "tier_items (line # lines) = andthen (tier_line line) (\<lambda>r. andthen (tier_items lines) (\<lambda>rs.
     Inr (case r of None \<Rightarrow> rs | Some it \<Rightarrow> it # rs)))"

definition put_item :: "nat \<times> (int \<times> int) \<Rightarrow> tiers \<Rightarrow> tiers" where
  "put_item it ts = ts(fst it := ts (fst it) @ [snd it])"

lemma put_item_pair: "put_item (t, r) ts = ts(t := ts t @ [r])"
  by (simp add: put_item_def)

lemma tier_loop_items: "tier_loop lines ts = andthen (tier_items lines) (\<lambda>its. Inr (fold put_item its ts))"
proof (induction lines arbitrary: ts)
  case Nil
  then show ?case by simp
next
  case (Cons l ls)
  show ?case
  proof (cases "tier_line l")
    case (Inr r)
    then show ?thesis
      using Cons by (cases r; cases "tier_items ls") (auto simp: put_item_pair)
  qed simp
qed

lemma fold_put_item: "fold put_item its ts t = ts t @ map snd (filter (\<lambda>it. fst it = t) its)"
  by (induction its arbitrary: ts) (auto simp: put_item_def)

interpretation tier_buckets: bucket_loop
  "\<lambda>its t. map (Pair t) (fold put_item its (\<lambda>_. []) t)" "\<lambda>it. Some (fst it)"
proof
  fix its :: "(nat \<times> (int \<times> int)) list" and t
  have "map (Pair t) (map snd (filter (\<lambda>it. fst it = t) its)) = filter (\<lambda>it. fst it = t) its"
    by (induction its) auto
  then show "map (Pair t) (fold put_item its (\<lambda>_. []) t) = filter (\<lambda>it. Some (fst it) = Some t) its"
    by (simp add: fold_put_item)
qed

lemma tier_items_range: "tier_items lines = Inr its \<Longrightarrow> it \<in> set its \<Longrightarrow> fst it \<in> {1, 2, 3, 4}"
proof (induction lines arbitrary: its)
  case Nil
  then show ?case by simp
next
  case (Cons l ls)
  then obtain r rs where "tier_line l = Inr r" "tier_items ls = Inr rs"
    "its = (case r of None \<Rightarrow> rs | Some it \<Rightarrow> it # rs)" by (auto simp: andthen_Inr_iff)
  moreover have "fst x \<in> {1, 2, 3, 4}" if "tier_line l = Inr (Some x)" for x
    using that by (auto simp: tier_line_def tier_of_def Let_def andthen_Inr_iff split: if_splits)
  ultimately show ?case using Cons by (auto split: option.splits)
qed

text \<open>
  The prefetch order loses and repeats nothing: the flat list of ranges holds exactly the
  readable and writable ranges of the file, each as often as the file lists it, in the tiered walk
  as in the single-bucket walk.
\<close>

theorem hot_ranges_permutation:
  assumes "tier_items lines = Inr its"
  shows "\<exists>rs. classify_target_hot_ranges naive (Some lines) = Inr rs \<and> mset rs = mset (map snd its)"
proof -
  let ?ts = "fold put_item its (\<lambda>_. [])"
  have "mset (concat (map (\<lambda>t. map (Pair t) (?ts t)) [1, 2, 3, 4]))
      = {# it \<in># mset its. Some (fst it) \<in> Some ` set [1, 2, 3, 4] #}"
    by (rule tier_buckets.buckets_partition) simp
  also have "\<dots> = mset its"
    using tier_items_range [OF assms] by (intro filter_mset_eq_conv [THEN iffD2]) auto
  finally have "mset (concat (map (\<lambda>t. map (Pair t) (?ts t)) [1, 2, 3, 4])) = mset its" .
  from arg_cong [OF this, of "image_mset snd"]
  have m: "mset (?ts 1 @ ?ts 2 @ ?ts 3 @ ?ts 4) = mset (map snd its)"
    by (simp add: multiset.map_comp comp_def)
  have "concat (map snd (filter (\<lambda>(t, rs). rs \<noteq> []) (map (\<lambda>t. (t, ?ts t)) [1, 2, 3, 4])))
      = ?ts 1 @ ?ts 2 @ ?ts 3 @ ?ts 4" by simp
  then show ?thesis
    using m by (simp add: classify_target_hot_ranges_def classify_tiered_ranges_def tier_loop_items assms)
qed

theorem hot_ranges_permutation_witness:
  "\<exists>its rs. tier_items sample_maps = Inr its \<and> length its = 2
    \<and> classify_target_hot_ranges False (Some sample_maps) = Inr rs \<and> mset rs = mset (map snd its)"
proof -
  have "case tier_items sample_maps of Inl _ \<Rightarrow> False | Inr its \<Rightarrow> length its = 2" by code_simp
  then obtain its where its: "tier_items sample_maps = Inr its" "length its = 2" by (auto split: sum.splits)
  with hot_ranges_permutation [OF its(1), of False] show ?thesis by blast
qed

subsection \<open>The walk\<close>

text \<open>\<^verbatim>\<open>range(start, end, PAGE_SIZE)\<close>.\<close>

definition page_addrs :: "int \<times> int \<Rightarrow> int list" where
  "page_addrs r = map (\<lambda>i. fst r + PAGE_SIZE * int i)
     [0..<nat ((snd r - fst r + PAGE_SIZE - 1) div PAGE_SIZE)]"

record tier_stat =
  ts_tier :: nat
  ts_ranges :: nat
  ts_pages :: nat

record prewarm_result =
  pw_ok :: bool
  pw_error :: string
  pw_pages :: nat
  pw_skipped :: nat
  pw_ranges :: nat
  pw_tiers :: "tier_stat list"
  pw_mode :: string
  pw_write_cow :: bool

text \<open>
  \<^verbatim>\<open>os.pread\<close> at an address yields the number of bytes read, or \<^term>\<open>None\<close> for \<^verbatim>\<open>OSError\<close>. The state
  of the walk: pages read and skipped, and the pages of the current tier.
\<close>

definition walk_page :: "(int \<Rightarrow> nat option) \<Rightarrow> int \<Rightarrow> nat \<times> nat \<times> nat \<Rightarrow> nat \<times> nat \<times> nat" where
  "walk_page pread addr = (\<lambda>(n_pages, n_skipped, tier_pages).
     case pread addr of
       Some n \<Rightarrow> if n = 0 then (n_pages, n_skipped + 1, tier_pages)
                 else (n_pages + 1, n_skipped, tier_pages + 1)
     | None \<Rightarrow> (n_pages, n_skipped + 1, tier_pages))"

definition walk_tier ::
  "(int \<Rightarrow> nat option) \<Rightarrow> nat \<times> (int \<times> int) list \<Rightarrow> nat \<times> nat \<times> tier_stat list \<Rightarrow> nat \<times> nat \<times> tier_stat list" where
  "walk_tier pread tr = (\<lambda>(n_pages, n_skipped, stats).
     case fold (walk_page pread) (concat (map page_addrs (snd tr))) (n_pages, n_skipped, 0) of
       (n_pages', n_skipped', tier_pages) \<Rightarrow>
         (n_pages', n_skipped', stats @ [\<lparr>ts_tier = fst tr, ts_ranges = length (snd tr), ts_pages = tier_pages\<rparr>]))"

definition prewarm_external ::
  "string option \<Rightarrow> bool \<Rightarrow> string list option \<Rightarrow> string option \<Rightarrow> (int \<Rightarrow> nat option) \<Rightarrow> prewarm_result result" where
  "prewarm_external env naive maps open_error pread =
     andthen (validate_prewarm_mode env) (\<lambda>mode.
     andthen (classify_tiered_ranges naive maps) (\<lambda>tiered.
       let n_ranges_total = sum_list (map (\<lambda>tr. length (snd tr)) tiered) in
       case open_error of
         Some e \<Rightarrow> Inr \<lparr>pw_ok = False, pw_error = e, pw_pages = 0, pw_skipped = 0, pw_ranges = n_ranges_total,
             pw_tiers = [], pw_mode = mode, pw_write_cow = False\<rparr>
       | None \<Rightarrow> (case fold (walk_tier pread) tiered (0, 0, []) of (n_pages, n_skipped, stats) \<Rightarrow>
           Inr \<lparr>pw_ok = True, pw_error = [], pw_pages = n_pages, pw_skipped = n_skipped, pw_ranges = n_ranges_total,
             pw_tiers = stats, pw_mode = mode, pw_write_cow = False\<rparr>)))"

lemma walk_pages_count:
  "fold (walk_page pread) as (p, k, t) = (p', k', t') \<Longrightarrow>
     p' + k' = p + k + length as \<and> p' + t = p + t'"
proof (induction as arbitrary: p k t)
  case Nil
  then show ?case by simp
next
  case (Cons a as)
  show ?case
  proof (cases "pread a")
    case None
    with Cons.prems Cons.IH [of p "k + 1" t] show ?thesis by (simp add: walk_page_def)
  next
    case (Some n)
    with Cons.prems Cons.IH [of p "k + 1" t] Cons.IH [of "p + 1" k "t + 1"] show ?thesis
      by (auto simp: walk_page_def split: if_splits)
  qed
qed

lemma walk_tiers_count:
  "fold (walk_tier pread) trs (p, k, st) = (p', k', st') \<Longrightarrow>
     p' + k' = p + k + sum_list (map (\<lambda>r. length (page_addrs r)) (concat (map snd trs)))
     \<and> p' + sum_list (map ts_pages st) = p + sum_list (map ts_pages st')
     \<and> map ts_tier st' = map ts_tier st @ map fst trs"
proof (induction trs arbitrary: p k st)
  case Nil
  then show ?case by simp
next
  case (Cons tr trs)
  obtain p1 k1 t1 where w: "fold (walk_page pread) (concat (map page_addrs (snd tr))) (p, k, 0) = (p1, k1, t1)"
    by (metis prod.exhaust)
  from walk_pages_count [OF w] Cons.prems w
    Cons.IH [of p1 k1 "st @ [\<lparr>ts_tier = fst tr, ts_ranges = length (snd tr), ts_pages = t1\<rparr>]"]
  show ?case by (auto simp: walk_tier_def length_concat comp_def)
qed

text \<open>
  A completed prefetch accounts for every page: the pages read and the pages skipped are
  together exactly the pages of all writable ranges, the tiers add up to the pages read, and the
  target is never written.
\<close>

theorem prewarm_accounts_pages:
  assumes "prewarm_external env naive maps None pread = Inr r"
    and "classify_target_hot_ranges naive maps = Inr rs"
  shows "pw_pages r + pw_skipped r = sum_list (map (\<lambda>rg. length (page_addrs rg)) rs)
    \<and> pw_pages r = sum_list (map ts_pages (pw_tiers r)) \<and> pw_ranges r = length rs
    \<and> pw_mode r = ''read'' \<and> \<not> pw_write_cow r"
proof -
  from assms(2) obtain tiered where t: "classify_tiered_ranges naive maps = Inr tiered"
    and rs: "rs = concat (map snd tiered)"
    by (auto simp: classify_target_hot_ranges_def andthen_Inr_iff)
  from assms(1) obtain mode where mode: "validate_prewarm_mode env = Inr mode"
    by (auto simp: prewarm_external_def andthen_Inr_iff)
  obtain p k st where w: "fold (walk_tier pread) tiered (0, 0, []) = (p, k, st)" by (metis prod.exhaust)
  have r: "validate_prewarm_mode env = Inr (pw_mode r)" "pw_pages r = p" "pw_skipped r = k" "pw_tiers r = st"
      "pw_ranges r = sum_list (map (\<lambda>tr. length (snd tr)) tiered)" "\<not> pw_write_cow r"
    using assms(1) by (auto simp: prewarm_external_def t mode w)
  have "pw_mode r = ''read''" using r(1) by (auto simp: validate_prewarm_mode_def Let_def split: if_splits)
  with walk_tiers_count [OF w] r show ?thesis by (simp add: rs length_concat comp_def)
qed

theorem prewarm_accounts_pages_witness:
  "\<exists>r rs. prewarm_external (Some '' Read-Only '') True (Some [''1000-4000 rw-p 0 0:0 0 [heap]'']) None
        (\<lambda>a. if a = 8192 then None else Some 1) = Inr r
    \<and> classify_target_hot_ranges True (Some [''1000-4000 rw-p 0 0:0 0 [heap]'']) = Inr rs
    \<and> pw_skipped r = 1 \<and> pw_pages r + pw_skipped r = sum_list (map (\<lambda>rg. length (page_addrs rg)) rs)"
proof -
  have "case prewarm_external (Some '' Read-Only '') True (Some [''1000-4000 rw-p 0 0:0 0 [heap]'']) None
        (\<lambda>a. if a = 8192 then None else Some 1) of Inl _ \<Rightarrow> False | Inr r \<Rightarrow> pw_skipped r = 1"
    "case classify_target_hot_ranges True (Some [''1000-4000 rw-p 0 0:0 0 [heap]'']) of Inl _ \<Rightarrow> False | Inr rs \<Rightarrow> True"
    by code_simp+
  then obtain r rs where "prewarm_external (Some '' Read-Only '') True (Some [''1000-4000 rw-p 0 0:0 0 [heap]'']) None
        (\<lambda>a. if a = 8192 then None else Some 1) = Inr r" "pw_skipped r = 1"
    "classify_target_hot_ranges True (Some [''1000-4000 rw-p 0 0:0 0 [heap]'']) = Inr rs"
    by (auto split: sum.splits)
  with prewarm_accounts_pages [OF this(1,3)] show ?thesis by blast
qed

section \<open>Ranges for the prefetch after a lazy restore\<close>

text \<open>
  \<^verbatim>\<open>_read_prefetch_ranges\<close>: anonymous writable ranges. Any exception ends the loop silently and keeps
  the ranges found so far; an address with fewer than two parts raises \<^verbatim>\<open>IndexError\<close>, and further
  parts are ignored.
\<close>

fun read_prefetch_ranges :: "string list \<Rightarrow> (int \<times> int) list \<Rightarrow> (int \<times> int) list" where
  "read_prefetch_ranges [] ranges = ranges"
| "read_prefetch_ranges (line # lines) ranges =
     (let parts = maps_fields line in
      if length parts < 5 then read_prefetch_ranges lines ranges
      else if CHR ''w'' \<notin> set (parts ! 1) then read_prefetch_ranges lines ranges
      else if \<not> (strip_ws (field parts 5) = [] \<or> prefix ''['' (strip_ws (field parts 5)))
      then read_prefetch_ranges lines ranges
      else (case split_on (CHR ''-'') (parts ! 0) of
          a # b # _ \<Rightarrow>
            (case andthen (int16 a) (\<lambda>s. andthen (int16 b) (\<lambda>e. Inr (s, e))) of
               Inr r \<Rightarrow> read_prefetch_ranges lines (ranges @ [r])
             | Inl _ \<Rightarrow> ranges)
        | _ \<Rightarrow> ranges))"

section \<open>Ranges of the cooperative prewarm\<close>

definition HOT_ANON_BYTES :: int where "HOT_ANON_BYTES = 4 * 1024 * 1024"

definition anon_line :: "string \<Rightarrow> (nat \<times> (int \<times> int)) option result" where
  "anon_line line =
     (let parts = maps_fields line in
      if length parts < 5 \<or> parts ! 1 \<noteq> ''rw-p'' \<or> parts ! 4 \<noteq> ''0'' then Inr None
      else let path = (if length parts = 6 then parts ! 5 else []) in
        if path \<notin> {[], ''[heap]'', ''[stack]''} \<and> \<not> prefix ''[anon:'' path then Inr None
        else andthen (addr_range (parts ! 0)) (\<lambda>(start, e).
          Inr (Some (if path \<in> {''[heap]'', ''[stack]''} \<or> e - start \<ge> HOT_ANON_BYTES then 1 else 2, (start, e)))))"

fun anon_items :: "string list \<Rightarrow> (nat \<times> (int \<times> int)) list result" where
  "anon_items [] = Inr []"
| "anon_items (line # lines) = andthen (anon_line line) (\<lambda>r. andthen (anon_items lines) (\<lambda>rs.
     Inr (case r of None \<Rightarrow> rs | Some it \<Rightarrow> it # rs)))"

definition anonymous_private_ranges :: "string list \<Rightarrow> (nat \<times> (int \<times> int) list) list result" where
  "anonymous_private_ranges lines = andthen (anon_items lines) (\<lambda>its.
     let ts = fold put_item its (\<lambda>_. []) in
     Inr (filter (\<lambda>(t, rs). rs \<noteq> []) (map (\<lambda>t. (t, ts t)) [1, 2])))"

definition subtract_one :: "int \<times> int \<Rightarrow> int \<times> int \<Rightarrow> (int \<times> int) list" where
  "subtract_one ex r = (case (ex, r) of ((left, right), (first, lst)) \<Rightarrow>
     if lst \<le> left \<or> first \<ge> right then [(first, lst)]
     else (if first < left then [(first, left)] else []) @ (if right < lst then [(right, lst)] else []))"

fun subtract_from :: "(int \<times> int) list \<Rightarrow> (int \<times> int) list \<Rightarrow> (int \<times> int) list" where
  "subtract_from ranges [] = ranges"
| "subtract_from ranges (ex # excluded) = subtract_from (concat (map (subtract_one ex) ranges)) excluded"

definition subtract :: "int \<Rightarrow> int \<Rightarrow> (int \<times> int) list \<Rightarrow> (int \<times> int) list" where
  "subtract start e excluded = subtract_from [(start, e)] excluded"

fun covers_loop :: "int \<Rightarrow> int \<Rightarrow> (int \<times> int) list \<Rightarrow> bool" where
  "covers_loop cursor e [] = False"
| "covers_loop cursor e ((left, right) # rs) =
     (if right \<le> cursor then covers_loop cursor e rs
      else if left > cursor then False
      else let cursor' = max cursor right in if cursor' \<ge> e then True else covers_loop cursor' e rs)"

definition covers :: "int \<Rightarrow> int \<Rightarrow> (int \<times> int) list \<Rightarrow> bool" where
  "covers start e ranges = covers_loop start e (sort_key fst (sort_key snd ranges))"

definition in_ranges :: "int \<Rightarrow> (int \<times> int) list \<Rightarrow> bool" where
  "in_ranges x rs \<longleftrightarrow> (\<exists>(a, b) \<in> set rs. a \<le> x \<and> x < b)"

lemma in_ranges_simps [simp]:
  "in_ranges x [] = False" "in_ranges x ((a, b) # rs) = ((a \<le> x \<and> x < b) \<or> in_ranges x rs)"
  "in_ranges x (rs @ rs') = (in_ranges x rs \<or> in_ranges x rs')"
  by (auto simp: in_ranges_def)

lemma in_subtract_one: "in_ranges x (subtract_one ex r) \<longleftrightarrow> in_ranges x [r] \<and> \<not> in_ranges x [ex]"
  by (cases ex; cases r) (auto simp: subtract_one_def)

lemma in_subtract_map:
  "in_ranges x (concat (map (subtract_one ex) rs)) \<longleftrightarrow> in_ranges x rs \<and> \<not> in_ranges x [ex]"
proof (induction rs)
  case (Cons r rs)
  then show ?case using in_subtract_one [of x ex r] by (cases r) auto
qed simp

lemma in_subtract_from:
  "in_ranges x (subtract_from rs excluded) \<longleftrightarrow> in_ranges x rs \<and> \<not> in_ranges x excluded"
proof (induction excluded arbitrary: rs)
  case (Cons ex excluded)
  then show ?case by (cases ex) (auto simp: in_subtract_map)
qed simp

text \<open>
  Subtracting the excluded ranges is exact: an address is in one of the resulting pieces if and
  only if it is in the range and in none of the excluded ones, so the worker never touches its own
  stack and misses nothing else.
\<close>

theorem subtract_exact:
  "in_ranges x (subtract start e excluded) \<longleftrightarrow> start \<le> x \<and> x < e \<and> \<not> in_ranges x excluded"
  by (simp add: subtract_def in_subtract_from)

lemma covers_loop_iff:
  assumes "sorted (map fst rs)" "cursor < e"
  shows "covers_loop cursor e rs \<longleftrightarrow> (\<forall>x. cursor \<le> x \<and> x < e \<longrightarrow> in_ranges x rs)"
  using assms
proof (induction cursor e rs rule: covers_loop.induct)
  case (1 cursor e)
  then show ?case by auto
next
  case (2 cursor e left right rs)
  show ?case
  proof (cases "right \<le> cursor")
    case True
    then have "in_ranges x ((left, right) # rs) = in_ranges x rs" if "cursor \<le> x" for x using that by auto
    with True 2 show ?thesis by auto
  next
    case False
    show ?thesis
    proof (cases "left > cursor")
      case True
      have "\<not> in_ranges cursor ((left, right) # rs)"
        using True "2.prems"(1) by (force simp: in_ranges_def)
      with True False "2.prems"(2) show ?thesis by (auto simp del: in_ranges_simps)
    next
      case left: False
      have m: "max cursor right = right" using False by simp
      show ?thesis
      proof (cases "e \<le> right")
        case True
        with False left m show ?thesis by auto
      next
        case e: False
        have "(\<forall>x. cursor \<le> x \<and> x < e \<longrightarrow> in_ranges x ((left, right) # rs))
            \<longleftrightarrow> (\<forall>x. right \<le> x \<and> x < e \<longrightarrow> in_ranges x rs)"
          using False left by (simp, meson leI le_less_trans less_imp_le not_less order_trans)
        with "2.IH"(2) [OF False _ refl] e left m "2.prems" False show ?thesis by (simp del: in_ranges_simps)
      qed
    qed
  qed
qed

text \<open>
  The test whether a chunk is still mapped is exact: for a nonempty chunk it holds if and only
  if every address of the chunk is in one of the mapped ranges, in whatever order they are listed
  and however they overlap.
\<close>

theorem covers_exact:
  assumes "start < e"
  shows "covers start e ranges \<longleftrightarrow> (\<forall>x. start \<le> x \<and> x < e \<longrightarrow> in_ranges x ranges)"
proof -
  have "sorted (map fst (sort_key fst (sort_key snd ranges)))" by simp
  from covers_loop_iff [OF this assms] show ?thesis by (simp add: covers_def in_ranges_def)
qed

theorem covers_exact_witness: "covers 10 30 [(20, 30), (5, 22)] \<and> in_ranges 25 [(20, 30), (5, 22)]"
proof -
  have "covers 10 30 [(20, 30), (5, 22)]" by code_simp
  with covers_exact [of 10 30 "[(20, 30), (5, 22)]"] show ?thesis by auto
qed

end
