(* ===== verification/Registry.thy ===== *)
theory Registry
  imports Prelude
begin

text \<open>
  Walks along parent links in a checkpoint registry. The loops of the sources are tail recursive
  searches and collections; they end whenever parents are registered before their children, which
  is the contract that every registry of the system interprets.
\<close>

section \<open>Ancestor walks\<close>

text \<open>
  A \<^verbatim>\<open>while\<close> loop that follows parent links until a node satisfies a test. It need not end on a
  cyclic registry; \<^term>\<open>None\<close> stands for not returning.
\<close>

partial_function (option) climb :: "('k \<Rightarrow> 'k option) \<Rightarrow> ('k \<Rightarrow> bool) \<Rightarrow> 'k option \<Rightarrow> 'k option option" where
  "climb up stop w = (case w of None \<Rightarrow> Some None
     | Some k \<Rightarrow> if stop k then Some (Some k) else climb up stop (up k))"

text \<open>The same loop, collecting the nodes it visits while they pass a test.\<close>

partial_function (option) climb_path :: "('k \<Rightarrow> 'k option) \<Rightarrow> ('k \<Rightarrow> bool) \<Rightarrow> 'k option \<Rightarrow> 'k list option" where
  "climb_path up goes w = (case w of None \<Rightarrow> Some []
     | Some k \<Rightarrow> if goes k then Option.bind (climb_path up goes (up k)) (\<lambda>ks. Some (k # ks)) else Some [])"

declare climb.simps [code] climb_path.simps [code]

text \<open>
  The contract of a registry in which every walk ends: parents come before their children. Each
  registry of the system interprets it.
\<close>

locale parent_registry =
  fixes wf_reg :: "'r \<Rightarrow> bool" and up :: "'r \<Rightarrow> 'k \<Rightarrow> 'k option" and rank :: "'r \<Rightarrow> 'k \<Rightarrow> nat"
  assumes up_rank: "\<lbrakk>wf_reg r; up r k = Some p\<rbrakk> \<Longrightarrow> rank r p < rank r k"
begin

lemma climb_returns: "wf_reg r \<Longrightarrow> \<exists>x. climb (up r) stop w = Some x"
proof -
  assume wf: "wf_reg r"
  have "\<exists>x. climb (up r) stop (Some k) = Some x" for k
  proof (induction "rank r k" arbitrary: k rule: less_induct)
    case less
    then show ?case using up_rank [OF wf] by (cases "up r k") (auto simp: climb.simps)
  qed
  then show ?thesis by (cases w) (auto simp: climb.simps)
qed

lemma climb_path_returns: "wf_reg r \<Longrightarrow> \<exists>ks. climb_path (up r) goes w = Some ks"
proof -
  assume wf: "wf_reg r"
  have "\<exists>ks. climb_path (up r) goes (Some k) = Some ks" for k
  proof (induction "rank r k" arbitrary: k rule: less_induct)
    case less
    then have "\<exists>ks. climb_path (up r) goes (up r k) = Some ks"
      using up_rank [OF wf] by (cases "up r k") (auto simp: climb_path.simps [of _ _ None])
    then show ?case by (subst climb_path.simps) auto
  qed
  then show ?thesis by (cases w) (auto simp: climb_path.simps)
qed

end

inductive ancestor :: "('k \<Rightarrow> 'k option) \<Rightarrow> 'k \<Rightarrow> 'k \<Rightarrow> bool" for up where
  self: "ancestor up k k"
| step: "\<lbrakk>ancestor up k j; up j = Some p\<rbrakk> \<Longrightarrow> ancestor up k p"

lemma ancestor_front: "ancestor up p q \<Longrightarrow> up k = Some p \<Longrightarrow> ancestor up k q"
  by (induction rule: ancestor.induct) (auto intro: ancestor.intros)

lemma ancestor_cases_front: "ancestor up k q \<longleftrightarrow> k = q \<or> (\<exists>p. up k = Some p \<and> ancestor up p q)"
proof
  show "ancestor up k q \<Longrightarrow> k = q \<or> (\<exists>p. up k = Some p \<and> ancestor up p q)"
    by (induction rule: ancestor.induct) (auto intro: ancestor.intros)
qed (auto intro: ancestor.self ancestor_front)

lemma ancestor_trans: "\<lbrakk>ancestor up a b; ancestor up b c\<rbrakk> \<Longrightarrow> ancestor up a c"
  by (rotate_tac, induction rule: ancestor.induct) (auto intro: ancestor.intros)

context parent_registry
begin

lemma climb_stops:
  assumes "wf_reg r"
  shows "climb (up r) stop (Some k) = Some (Some j) \<Longrightarrow> stop j \<and> ancestor (up r) k j"
proof (induction "rank r k" arbitrary: k rule: less_induct)
  case less
  show ?case
  proof (cases "stop k")
    case True
    with less.prems show ?thesis by (auto simp: climb.simps intro: ancestor.self)
  next
    case False
    with less.prems have c: "climb (up r) stop (up r k) = Some (Some j)" by (simp add: climb.simps)
    then obtain p where p: "up r k = Some p" by (cases "up r k") (auto simp: climb.simps)
    with less.hyps [of p] up_rank [OF assms p] c show ?thesis using ancestor_front [of "up r" p j k] by simp
  qed
qed

lemma climb_path_set:
  assumes "wf_reg r" "\<And>k. \<not> goes k \<Longrightarrow> up r k = None"
  shows "climb_path (up r) goes (Some k) = Some ks \<Longrightarrow> set ks = {j. ancestor (up r) k j \<and> goes j}"
proof (induction "rank r k" arbitrary: k ks rule: less_induct)
  case less
  show ?case
  proof (cases "goes k")
    case False
    then have "ks = []" using less.prems by (simp add: climb_path.simps)
    moreover have "up r k = None" using False assms(2) by simp
    ultimately show ?thesis using False by (auto simp: ancestor_cases_front [of "up r" k])
  next
    case True
    then obtain ks' where ks': "climb_path (up r) goes (up r k) = Some ks'" "ks = k # ks'"
      using less.prems by (subst (asm) climb_path.simps) (auto split: bind_splits)
    show ?thesis
    proof (cases "up r k")
      case None
      with ks' True show ?thesis by (auto simp: climb_path.simps ancestor_cases_front [of "up r" k])
    next
      case (Some p)
      with less.hyps [of p ks'] up_rank [OF assms(1) Some] ks' True show ?thesis
        by (auto simp: ancestor_cases_front [of "up r" k])
    qed
  qed
qed

end


section \<open>Registries in insertion order\<close>

text \<open>
  A registry is a dictionary; every entry is inserted after its parent, or its parent is not in the
  registry. The rank of a key is its position.
\<close>

fun wf_parents :: "('v \<Rightarrow> 'k option) \<Rightarrow> ('k \<times> 'v) list \<Rightarrow> bool" where
  "wf_parents par [] = True"
| "wf_parents par ((k, e) # r) =
     (k \<notin> fst ` set r \<and> (\<forall>p. par e = Some p \<longrightarrow> p \<noteq> k \<and> p \<notin> fst ` set r) \<and> wf_parents par r)"

definition dict_rank :: "('k \<times> 'v) list \<Rightarrow> 'k \<Rightarrow> nat" where
  "dict_rank reg k = (if k \<in> fst ` set reg then Suc (length (takeWhile (\<lambda>x. fst x \<noteq> k) reg)) else 0)"

lemma wf_parents_rank:
  "\<lbrakk>wf_parents par reg; map_of reg k = Some e; par e = Some p\<rbrakk> \<Longrightarrow> dict_rank reg p < dict_rank reg k"
proof (induction reg)
  case Nil
  then show ?case by simp
next
  case (Cons x reg)
  obtain k' e' where x: "x = (k', e')" by (cases x)
  show ?case
  proof (cases "k = k'")
    case True
    then have "p \<noteq> k'" "p \<notin> fst ` set reg" using Cons.prems x by auto
    then show ?thesis using True x by (auto simp: dict_rank_def)
  next
    case False
    then have m: "map_of reg k = Some e" using Cons.prems x by simp
    then have "dict_rank reg p < dict_rank reg k" using Cons x by auto
    moreover have "k \<in> fst ` set reg" using m by (force dest: map_of_SomeD)
    moreover have "k' \<notin> fst ` set reg" using Cons.prems x by simp
    ultimately show ?thesis using False x by (cases "p = k'") (auto simp: dict_rank_def split: if_splits)
  qed
qed

lemma wf_parents_append:
  "\<lbrakk>wf_parents par reg; i \<notin> fst ` set reg; par info \<noteq> Some i; \<forall>(k, e) \<in> set reg. par e \<noteq> Some i\<rbrakk>
    \<Longrightarrow> wf_parents par (reg @ [(i, info)])"
  by (induction par reg rule: wf_parents.induct) auto

lemma wf_parents_filter: "wf_parents par reg \<Longrightarrow> wf_parents par (filter P reg)"
  by (induction par reg rule: wf_parents.induct) auto

lemma wf_parents_distinct: "wf_parents par reg \<Longrightarrow> distinct (map fst reg)"
  by (induction par reg rule: wf_parents.induct) auto

lemma wf_parents_map_of: "\<lbrakk>wf_parents par reg; (k, e) \<in> set reg\<rbrakk> \<Longrightarrow> map_of reg k = Some e"
  by (simp add: wf_parents_distinct)

text \<open>Following the parent field of the entries, as the code does: an empty key ends the walk.\<close>

definition up_par :: "('v \<Rightarrow> string option) \<Rightarrow> (string \<times> 'v) list \<Rightarrow> string \<Rightarrow> string option" where
  "up_par par reg k = (if k = [] then None else Option.bind (map_of reg k) par)"

lemma up_par_rank: "\<lbrakk>wf_parents par reg; up_par par reg k = Some p\<rbrakk> \<Longrightarrow> dict_rank reg p < dict_rank reg k"
  using wf_parents_rank by (auto simp: up_par_def split: if_splits bind_splits)

lemma map_of_new: "j \<noteq> i \<Longrightarrow> map_of (reg @ [(i, info)]) j = map_of reg j"
  by (simp add: map_add_def split: option.splits)

lemma up_par_new: "j \<noteq> i \<Longrightarrow> up_par par (reg @ [(i, info)]) j = up_par par reg j"
  by (simp add: up_par_def map_of_new del: map_of_append)

text \<open>Registering a new key changes no chain of the old ones.\<close>

lemma ancestor_new:
  assumes "ancestor (up_par par reg) k j" "k \<noteq> i" "\<forall>(k, e) \<in> set reg. par e \<noteq> Some i"
  shows "ancestor (up_par par (reg @ [(i, info)])) k j \<and> j \<noteq> i"
  using assms(1,2)
proof (induction rule: ancestor.induct)
  case (self k)
  then show ?case by (auto intro: ancestor.self)
next
  case (step k j p)
  then have j: "ancestor (up_par par (reg @ [(i, info)])) k j" "j \<noteq> i" by auto
  then have u: "up_par par (reg @ [(i, info)]) j = Some p" using step.hyps(2) by (simp add: up_par_new)
  from step.hyps(2) obtain e where "map_of reg j = Some e" "par e = Some p"
    by (auto simp: up_par_def split: if_splits bind_splits)
  then have "p \<noteq> i" using assms(3) map_of_SomeD [of reg j e] by auto
  then show ?case using ancestor.step [OF j(1) u] by simp
qed

end
