(* ===== verification/Proc_Files.thy ===== *)
theory Proc_Files
  imports Memory_Regions
begin

text \<open>
  What the controller reads from \<^verbatim>\<open>/proc\<close> (\<^verbatim>\<open>backends/deltabox/gsd/sandbox_controller.py\<close>,
  \<^verbatim>\<open>template_fork.py\<close>, \<^verbatim>\<open>adaptive_checkpoint.py\<close>): the state, parent and namespace PIDs of a process, and
  the walk over the children files that collects a process subtree. A process table is a snapshot of
  the contents of the files; a process that is not in it cannot be read.
\<close>

section \<open>Files\<close>

record proc =
  stat_text :: string
  status_lines :: "string list"
  ns_link :: "string option"
  task_children :: "string option list"

type_synonym procs = "(nat \<times> proc) list"

text \<open>\<^verbatim>\<open>int(s)\<close> of a decimal numeral, \<^verbatim>\<open>s.split()\<close>.\<close>

definition decimal :: "string \<Rightarrow> nat option" where
  "decimal s = (if s \<noteq> [] \<and> list_all is_digit s then Some (dec_val s) else None)"

definition tokens :: "string \<Rightarrow> string list" where
  "tokens s = split_ws (length s) s"

definition status_field :: "string \<Rightarrow> string list \<Rightarrow> string list option" where
  "status_field key ls = map_option tokens (find (prefix key) ls)"

text \<open>\<^verbatim>\<open>_pid_ppid\<close> and \<^verbatim>\<open>_ppid_for_pid\<close>: a malformed line is an exception that they turn into \<^verbatim>\<open>None\<close>.\<close>

definition ppid_of :: "string list \<Rightarrow> nat option" where
  "ppid_of ls = (case status_field ''PPid:'' ls of
       Some (_ # p # _) \<Rightarrow> decimal p | _ \<Rightarrow> None)"

definition pid_ppid :: "procs \<Rightarrow> nat \<Rightarrow> nat option" where
  "pid_ppid t pid = Option.bind (map_of t pid) (\<lambda>p. ppid_of (status_lines p))"

definition decimals :: "string list \<Rightarrow> nat list option" where
  "decimals ws = (if list_all (\<lambda>w. decimal w \<noteq> None) ws then Some (List.map_filter decimal ws) else None)"

definition nspids_of :: "string list \<Rightarrow> nat list" where
  "nspids_of ls = (case status_field ''NSpid:'' ls of
       None \<Rightarrow> [] | Some ws \<Rightarrow> (case decimals (drop 1 ws) of Some ns \<Rightarrow> ns | None \<Rightarrow> []))"

definition pid_nspids :: "procs \<Rightarrow> nat \<Rightarrow> nat list" where
  "pid_nspids t pid = (case map_of t pid of None \<Rightarrow> [] | Some p \<Rightarrow> nspids_of (status_lines p))"

definition is_pidns_init :: "procs \<Rightarrow> nat \<Rightarrow> nat \<Rightarrow> bool" where
  "is_pidns_init t ns_init pid = (case Option.bind (map_of t pid) (\<lambda>p. status_field ''NSpid:'' (status_lines p)) of
       Some ws \<Rightarrow> ws \<noteq> [] \<and> last ws = ''1''
     | None \<Rightarrow> pid = ns_init)"

text \<open>\<^verbatim>\<open>s.rpartition(c)\<close>.\<close>

definition rpartition :: "char \<Rightarrow> string \<Rightarrow> string \<times> string \<times> string" where
  "rpartition c s = (if c \<in> set s
     then (rev (drop 1 (dropWhile (\<lambda>x. x \<noteq> c) (rev s))), [c], rev (takeWhile (\<lambda>x. x \<noteq> c) (rev s)))
     else ([], [], s))"

definition stat_zombie :: "string \<Rightarrow> bool" where
  "stat_zombie s = (case rpartition (CHR '')'') s of (_, separator, tail) \<Rightarrow>
     separator \<noteq> [] \<and> (case tokens tail of [] \<Rightarrow> False | f # _ \<Rightarrow> f = ''Z''))"

definition pid_gone_or_zombie :: "procs \<Rightarrow> nat \<Rightarrow> bool" where
  "pid_gone_or_zombie t pid = (case map_of t pid of None \<Rightarrow> True | Some p \<Rightarrow> stat_zombie (stat_text p))"

text \<open>\<^verbatim>\<open>_wait_pid_stopped\<close> splits the whole line, so a command name with blanks shifts its fields.\<close>

definition stat_stopped :: "string \<Rightarrow> bool" where
  "stat_stopped s = (let fields = tokens s in length fields > 2 \<and> fields ! 2 \<in> {''T'', ''t''})"

definition pid_ns_inode :: "procs \<Rightarrow> nat \<Rightarrow> string option" where
  "pid_ns_inode t pid = Option.bind (Option.bind (map_of t pid) ns_link) (\<lambda>target.
     if prefix ''pid:['' target \<and> suffix '']'' target then Some (butlast (drop 5 target)) else None)"

definition translate_pid_in_ns :: "procs \<Rightarrow> nat \<Rightarrow> nat \<Rightarrow> nat option" where
  "translate_pid_in_ns t target_ns_pid ns_owner_pid =
     Option.bind (Option.bind (map_of t ns_owner_pid) ns_link) (\<lambda>ns_inode.
       map_option fst (find (\<lambda>(host_pid, p). ns_link p = Some ns_inode
         \<and> (let ns = nspids_of (status_lines p) in ns \<noteq> [] \<and> last ns = target_ns_pid)) t))"

definition pid_as_seen_by :: "procs \<Rightarrow> nat \<Rightarrow> nat \<Rightarrow> nat" where
  "pid_as_seen_by t pid ns_owner_pid =
     (let target = pid_nspids t pid; owner = pid_nspids t ns_owner_pid in
      if owner \<noteq> [] \<and> length target \<ge> length owner then target ! (length owner - 1) else pid)"

section \<open>Subtrees\<close>

definition child_pids :: "procs \<Rightarrow> nat \<Rightarrow> nat list" where
  "child_pids t pid = (case map_of t pid of None \<Rightarrow> []
     | Some p \<Rightarrow> concat (map (\<lambda>f. case f of None \<Rightarrow> [] | Some s \<Rightarrow> List.map_filter decimal (tokens s))
         (task_children p)))"

text \<open>
  The loop of \<^verbatim>\<open>_collect_subtree_pids\<close>. The stack has its top first; the set of seen PIDs is the set of
  the found ones.
\<close>

function collect_loop :: "procs \<Rightarrow> nat set \<Rightarrow> nat list \<Rightarrow> nat list \<Rightarrow> nat list" where
  "collect_loop t exclude [] found = found"
| "collect_loop t exclude (pid # to_visit) found =
     (if pid \<in> set found \<or> pid \<in> exclude then collect_loop t exclude to_visit found
      else collect_loop t exclude (rev (child_pids t pid) @ to_visit) (found @ [pid]))"
  by pat_completeness auto
termination
proof (relation "measures [\<lambda>(t, ex, stk, found). card (fst ` set t - set found), \<lambda>(t, ex, stk, found). length stk]",
    goal_cases)
  case (3 t ex pid stk found)
  show ?case
  proof (cases "pid \<in> fst ` set t")
    case True
    then have "fst ` set t - set (found @ [pid]) \<subset> fst ` set t - set found" using 3 by auto
    then have "card (fst ` set t - set (found @ [pid])) < card (fst ` set t - set found)"
      by (intro psubset_card_mono) auto
    then show ?thesis by simp
  next
    case False
    then have "map_of t pid = None" by (simp add: map_of_eq_None_iff)
    then have "child_pids t pid = []" by (simp add: child_pids_def)
    moreover have "fst ` set t - set (found @ [pid]) = fst ` set t - set found" using False by auto
    ultimately show ?thesis by simp
  qed
qed auto

definition collect_subtree_pids :: "procs \<Rightarrow> nat \<Rightarrow> nat set \<Rightarrow> nat list" where
  "collect_subtree_pids t root_pid exclude = collect_loop t exclude [root_pid] []"

definition collect_descendant_pids :: "procs \<Rightarrow> nat \<Rightarrow> nat list" where
  "collect_descendant_pids t root_pid = concat (map (\<lambda>c. collect_subtree_pids t c {}) (child_pids t root_pid))"

subsection \<open>What the walk collects\<close>

inductive subtree :: "procs \<Rightarrow> nat set \<Rightarrow> nat \<Rightarrow> nat \<Rightarrow> bool" for t exclude root where
  root: "root \<notin> exclude \<Longrightarrow> subtree t exclude root root"
| child: "\<lbrakk>subtree t exclude root p; c \<in> set (child_pids t p); c \<notin> exclude\<rbrakk> \<Longrightarrow> subtree t exclude root c"

lemma collect_loop_sound:
  "\<lbrakk>x \<in> set (collect_loop t exclude stk found); \<forall>y \<in> set found. subtree t exclude root y;
    \<forall>y \<in> set stk. y \<notin> exclude \<longrightarrow> subtree t exclude root y\<rbrakk> \<Longrightarrow> subtree t exclude root x"
proof (induction t exclude stk found rule: collect_loop.induct)
  case (2 t exclude pid stk found)
  show ?case
  proof (cases "pid \<in> set found \<or> pid \<in> exclude")
    case True
    with 2 show ?thesis by auto
  next
    case False
    then have p: "subtree t exclude root pid" using 2(5) by simp
    then have "\<forall>y \<in> set (child_pids t pid). y \<notin> exclude \<longrightarrow> subtree t exclude root y"
      by (auto intro: subtree.child)
    with 2 False p show ?thesis by (auto split: if_splits)
  qed
qed simp

lemma collect_loop_complete:
  assumes "\<forall>y \<in> set found. \<forall>c \<in> set (child_pids t y). c \<in> set found \<union> set stk \<union> exclude"
  shows "set found \<subseteq> set (collect_loop t exclude stk found)
    \<and> set stk - exclude \<subseteq> set (collect_loop t exclude stk found)
    \<and> (\<forall>y \<in> set (collect_loop t exclude stk found). \<forall>c \<in> set (child_pids t y).
         c \<in> set (collect_loop t exclude stk found) \<union> exclude)"
  using assms
proof (induction t exclude stk found rule: collect_loop.induct)
  case (2 t exclude pid stk found)
  show ?case
  proof (cases "pid \<in> set found \<or> pid \<in> exclude")
    case True
    then have "\<forall>y \<in> set found. \<forall>c \<in> set (child_pids t y). c \<in> set found \<union> set stk \<union> exclude"
      using 2(3) by auto
    from 2(1) [OF True this] True show ?thesis by auto
  next
    case False
    then have "\<forall>y \<in> set (found @ [pid]). \<forall>c \<in> set (child_pids t y).
        c \<in> set (found @ [pid]) \<union> set (rev (child_pids t pid) @ stk) \<union> exclude"
      using 2(3) by auto
    from 2(2) [OF False this] False show ?thesis by simp blast
  qed
qed simp

lemma collect_loop_distinct: "distinct found \<Longrightarrow> distinct (collect_loop t exclude stk found)"
  by (induction t exclude stk found rule: collect_loop.induct) auto

lemma collect_subtree_set: "set (collect_subtree_pids t root exclude) = {x. subtree t exclude root x}"
proof -
  let ?r = "collect_loop t exclude [root] []"
  have cl: "root \<notin> exclude \<Longrightarrow> root \<in> set ?r" "\<And>y c. \<lbrakk>y \<in> set ?r; c \<in> set (child_pids t y); c \<notin> exclude\<rbrakk> \<Longrightarrow> c \<in> set ?r"
    using collect_loop_complete [of "[]" t "[root]" exclude] by (auto simp del: collect_loop.simps)
  have "x \<in> set ?r" if "subtree t exclude root x" for x
    using that cl by (induction rule: subtree.induct) blast+
  moreover have "subtree t exclude root x" if "x \<in> set ?r" for x
    by (rule collect_loop_sound [OF that]) (auto intro: subtree.root)
  ultimately show ?thesis by (auto simp: collect_subtree_pids_def)
qed

lemma subtree_not_excluded: "subtree t exclude root x \<Longrightarrow> x \<notin> exclude"
  by (induction rule: subtree.induct)

text \<open>
  C33. The walk over the children files ends on every snapshot of \<^verbatim>\<open>/proc\<close>, cyclic or not, and it
  collects every process once: exactly those that are reached from the root through children that are
  not excluded. Nothing below an excluded process is collected unless another path leads to it.
\<close>

theorem collect_subtree_exact:
  "distinct (collect_subtree_pids t root exclude)
   \<and> set (collect_subtree_pids t root exclude) = {x. subtree t exclude root x}
   \<and> set (collect_subtree_pids t root exclude) \<inter> exclude = {}"
  using collect_subtree_set [of t root exclude] collect_loop_distinct [of "[]" t exclude "[root]"] subtree_not_excluded
  by (auto simp: collect_subtree_pids_def)

section \<open>The state field of a stat line\<close>

lemma rpartition_last:
  "c \<notin> set b \<Longrightarrow> rpartition c (a @ c # b) = (a, [c], b)"
proof -
  assume b: "c \<notin> set b"
  then have "takeWhile (\<lambda>x. x \<noteq> c) (rev b @ c # rev a) = rev b" "dropWhile (\<lambda>x. x \<noteq> c) (rev b @ c # rev a) = c # rev a"
    by (auto simp: takeWhile_append dropWhile_append)
  then show ?thesis by (simp add: rpartition_def)
qed

lemma tokens_first:
  assumes "\<not> is_space c"
  shows "\<exists>ws. tokens (CHR '' '' # c # CHR '' '' # rest) = [c] # ws"
proof -
  have "is_space (CHR '' '')" by (simp add: is_space_def)
  then show ?thesis using assms by (simp add: tokens_def)
qed

text \<open>
  The liveness probe reads the state after the last closing parenthesis, so it is right for every
  command name, also for one that contains blanks and parentheses, in the kernel's line
  \<^verbatim>\<open>pid (comm) state ppid ...\<close>.
\<close>

theorem stat_zombie_any_comm:
  assumes "CHR '')'' \<notin> set rest" "s \<noteq> CHR '')''" "\<not> is_space s"
  shows "stat_zombie (dec pid @ '' ('' @ comm @ '') '' @ s # CHR '' '' # rest) \<longleftrightarrow> s = CHR ''Z''"
proof -
  have "rpartition (CHR '')'') ((dec pid @ '' ('' @ comm) @ CHR '')'' # CHR '' '' # s # CHR '' '' # rest)
      = (dec pid @ '' ('' @ comm, '')'', CHR '' '' # s # CHR '' '' # rest)"
    using assms(1,2) by (intro rpartition_last) auto
  moreover obtain ws where "tokens (CHR '' '' # s # CHR '' '' # rest) = [s] # ws"
    using tokens_first [OF assms(3)] by blast
  ultimately show ?thesis by (simp add: stat_zombie_def)
qed

theorem stat_zombie_any_comm_witness:
  "stat_zombie (dec 12 @ '' ('' @ ''a) S (b'' @ '') '' @ CHR ''Z'' # CHR '' '' # ''1 12'')"
  using stat_zombie_any_comm [of "''1 12''" "CHR ''Z''" 12 "''a) S (b''"] by (simp add: is_space_def)

text \<open>The stop probe splits the whole line and is wrong for such a name.\<close>

lemma stat_stopped_blank_comm:
  "\<not> stat_stopped ''12 (a b) T 1 12'' \<and> stat_stopped ''12 (a T b) R 1 12'' \<and> stat_stopped ''12 (ab) T 1 12''"
  by code_simp

end
