(* ===== verification/Adaptive_Checkpoint.thy ===== *)
theory Adaptive_Checkpoint
  imports Registry Semantic_Parser Proc_Files
begin

text \<open>
  Model of \<^verbatim>\<open>backends/deltabox/gsd/adaptive_checkpoint.py\<close>: the choice of a strategy, the walk to the
  image that an incremental dump builds on, the registry of checkpoints, the redirection of a
  restore to the last full image with the commands to replay, garbage collection, pruning and anchors.

  The images on disk are an association list from an image directory to the directory of the image it
  is incremental to. CRIU, the process table and the random identifier are inputs, gathered in a
  record. Signals, waiting and printing are not modelled.
\<close>

section \<open>State\<close>

datatype ckpt_strategy = By strategy | Anchor

record ckpt_info =
  ci_id :: string
  mem_path :: string
  parent_id :: "string option"
  ci_strategy :: ckpt_strategy
  dump_size_bytes :: nat
  effective_restore_id :: "string option option"
  replay_cmds :: "(string \<times> string) list"

type_synonym registry = "(string \<times> ckpt_info) list"

text \<open>A CRIU invocation: the verb, the image directory, the previous image and the other arguments.\<close>

record criu_cmd =
  cc_verb :: string
  cc_dir :: string
  cc_prev :: "string option"
  cc_args :: "string list"

record adaptive =
  agent_pid :: nat
  snapshot_store :: string
  registry :: registry
  enable_predump :: bool
  enable_external :: bool
  use_tmpfs :: bool
  use_pid_namespace :: bool
  last_predump_dir :: "string option"
  checkpoint_counter :: nat
  last_child_count :: nat
  images :: "(string \<times> string option) list"
  criu_log :: "criu_cmd list"

text \<open>The answers of the outside world to one checkpoint.\<close>

record adapt_env =
  new_id :: string
  proc_entries :: "(string \<times> string list option) list"
  maps_lines :: "string list option"
  smaps_lines :: "string list option"
  mountinfo_lines :: "string list option"
  predump_ok :: bool
  dump_ok :: bool
  dump_size :: nat

definition basename :: "string \<Rightarrow> string" where
  "basename p = rev (takeWhile (\<lambda>c. c \<noteq> CHR ''/'') (rev p))"

definition new_adaptive :: "nat \<Rightarrow> string \<Rightarrow> bool \<Rightarrow> bool \<Rightarrow> bool \<Rightarrow> bool \<Rightarrow> adaptive" where
  "new_adaptive pid store predump tmpfs external pidns =
     \<lparr>agent_pid = pid, snapshot_store = (if tmpfs then path_join ''/dev/shm'' (basename store) else store),
      registry = [], enable_predump = predump, enable_external = external, use_tmpfs = tmpfs,
      use_pid_namespace = pidns, last_predump_dir = None, checkpoint_counter = 0, last_child_count = 0,
      images = [], criu_log = []\<rparr>"

section \<open>Process table and mounts\<close>

text \<open>
  \<^verbatim>\<open>_count_children\<close>: the lines of \<^verbatim>\<open>/proc/<pid>/status\<close> for every entry of \<^verbatim>\<open>/proc\<close>; \<^term>\<open>None\<close> is a
  file that cannot be read. A malformed parent line is skipped with its process.
\<close>

definition count_children :: "nat \<Rightarrow> (string \<times> string list option) list \<Rightarrow> nat" where
  "count_children pid entries = length (filter (\<lambda>(entry, status).
     isdigit entry \<and> (case status of Some ls \<Rightarrow> ppid_of ls = Some pid | None \<Rightarrow> False)) entries)"

definition has_hot_regions :: "adapt_env \<Rightarrow> bool" where
  "has_hot_regions env = (case classify_vmas (maps_lines env) (smaps_lines env) of
       Inr c \<Rightarrow> hot c \<noteq> [] | Inl _ \<Rightarrow> False)"

fun mount_entries :: "string list \<Rightarrow> (nat \<times> string) list" where
  "mount_entries [] = []"
| "mount_entries (line # lines) =
     (let parts = split_ws (length line) (strip_ws line) in
      if length parts \<ge> 5 then
        (case decimal (parts ! 0) of
           Some mid \<Rightarrow> (mid, parts ! 4) # mount_entries lines
         | None \<Rightarrow> [])
      else mount_entries lines)"

definition parse_mountinfo :: "string list option \<Rightarrow> (nat \<times> string) list" where
  "parse_mountinfo lines = (case lines of None \<Rightarrow> []
     | Some ls \<Rightarrow> sort_key (\<lambda>e. - int (length (snd e))) (mount_entries ls))"

text \<open>The mount that holds a cold file: the first match in order of falling length.\<close>

definition mount_of :: "(nat \<times> string) list \<Rightarrow> string \<Rightarrow> nat option" where
  "mount_of mountinfo path =
     map_option fst (find (\<lambda>(mid, mp). mp \<noteq> ''/'' \<and> prefix (mp @ ''/'') path) mountinfo)"

definition cold_mount_ids :: "(nat \<times> string) list \<Rightarrow> string list \<Rightarrow> nat list" where
  "cold_mount_ids mountinfo cold_files =
     (let root_mount_id = map_option fst (find (\<lambda>(mid, mp). mp = ''/'') mountinfo) in
      filter (\<lambda>mid. Some mid \<noteq> root_mount_id)
        (sort (remdups (List.map_filter (mount_of mountinfo) cold_files))))"

definition get_cold_external_args :: "adaptive \<Rightarrow> adapt_env \<Rightarrow> string list" where
  "get_cold_external_args st env =
     (if \<not> enable_external st then []
      else case classify_vmas (maps_lines env) (smaps_lines env) of
          Inl _ \<Rightarrow> []
        | Inr c \<Rightarrow>
            let cold_files = filter (\<lambda>p. p \<noteq> [] \<and> \<not> prefix ''['' p) (map v_pathname (cold c)) in
            if cold_files = [] then []
            else concat (map (\<lambda>mid. [''--external'', ''mnt['' @ dec mid @ '']:cold''])
              (cold_mount_ids (parse_mountinfo (mountinfo_lines env)) cold_files)))"

definition NS_SKIP_MOUNTS :: "string list" where
  "NS_SKIP_MOUNTS = [''/dev'', ''/dev/pts'', ''/dev/shm'', ''/run'']"

definition skip_mount_args :: "adapt_env \<Rightarrow> string list" where
  "skip_mount_args env = (case mountinfo_lines env of None \<Rightarrow> []
     | Some ls \<Rightarrow> concat (map (\<lambda>mp. [''--skip-mnt'', mp])
         (rev (remdups (rev (filter (\<lambda>mp. mp \<in> set NS_SKIP_MOUNTS)
           (List.map_filter (\<lambda>line. let parts = split_ws (length line) line in
              if ''-'' \<in> set parts \<and> length parts > 4 then Some (parts ! 4) else None) ls)))))))"

section \<open>Checkpoint\<close>

definition choose_strategy :: "adaptive \<Rightarrow> adapt_env \<Rightarrow> string \<Rightarrow> strategy" where
  "choose_strategy st env raw_command =
     (let base = parse_strategy raw_command;
          s = (if base = Predump \<and> \<not> enable_predump st then Standard else base) in
      if s = Standard \<and> enable_predump st \<and> has_hot_regions env then Predump else s)"

definition registered :: "registry \<Rightarrow> string \<Rightarrow> bool" where
  "registered reg k \<longleftrightarrow> k \<noteq> [] \<and> map_of reg k \<noteq> None"

definition up_of :: "registry \<Rightarrow> string \<Rightarrow> string option" where
  "up_of reg k = (if k = [] then None else Option.bind (map_of reg k) parent_id)"

text \<open>
  The loop that looks for the image to build on: it leaves the registry, or finds an entry that is
  not lightweight, or goes on to the parent.
\<close>

definition dump_parent :: "registry \<Rightarrow> string option \<Rightarrow> string option option" where
  "dump_parent reg walk_id =
     map_option (\<lambda>found. Option.bind found (\<lambda>k. if registered reg k then map_option mem_path (map_of reg k) else None))
       (climb (up_of reg) (\<lambda>k. \<not> registered reg k
          \<or> (case map_of reg k of Some e \<Rightarrow> ci_strategy e \<noteq> By Lightweight | None \<Rightarrow> True)) walk_id)"

definition mem_dir :: "adaptive \<Rightarrow> string \<Rightarrow> string \<Rightarrow> string" where
  "mem_dir st tag i = path_join (snapshot_store st) (tag @ ''_'' @ i @ ''_mem'')"

definition predump_dir :: "adaptive \<Rightarrow> string \<Rightarrow> string \<Rightarrow> string" where
  "predump_dir st tag i = path_join (snapshot_store st) (tag @ ''_'' @ i @ ''_predump'')"

text \<open>Running CRIU: the command is logged; a success adds the image.\<close>

definition run_criu :: "bool \<Rightarrow> criu_cmd \<Rightarrow> adaptive \<Rightarrow> (unit, adaptive) eff" where
  "run_criu ok cmd st =
     (if ok then (Inr (), st\<lparr>criu_log := criu_log st @ [cmd],
          images := AList.update (cc_dir cmd) (cc_prev cmd) (images st)\<rparr>)
      else (Inl (RuntimeError ''CalledProcessError''), st\<lparr>criu_log := criu_log st @ [cmd]\<rparr>))"

definition do_predump :: "adapt_env \<Rightarrow> string \<Rightarrow> string option \<Rightarrow> adaptive \<Rightarrow> (unit, adaptive) eff" where
  "do_predump env dir prev st =
     run_criu (predump_ok env) \<lparr>cc_verb = ''pre-dump'', cc_dir = dir, cc_prev = prev,
       cc_args = [''--tree'', dec (agent_pid st), ''--track-mem'']\<rparr> st"

definition do_dump :: "adapt_env \<Rightarrow> string \<Rightarrow> string option \<Rightarrow> adaptive \<Rightarrow> (unit, adaptive) eff" where
  "do_dump env dir prev st =
     (let curr = count_children (agent_pid st) (proc_entries env);
          prev' = (if curr \<noteq> last_child_count st then None else prev);
          st1 = st\<lparr>last_child_count := curr\<rparr> in
      run_criu (dump_ok env) \<lparr>cc_verb = ''dump'', cc_dir = dir, cc_prev = prev',
        cc_args = [''--tree'', dec (agent_pid st), ''--shell-job'', ''--leave-running'', ''--tcp-close'',
          ''--ext-unix-sk'', ''--track-mem''] @ get_cold_external_args st env
          @ (if use_pid_namespace st then skip_mount_args env else [])\<rparr> st1)"

text \<open>The registry entry; a lightweight one inherits the image of its parent and extends the replay list.\<close>

definition info_of :: "adaptive \<Rightarrow> adapt_env \<Rightarrow> string option \<Rightarrow> string \<Rightarrow> string \<Rightarrow> strategy \<Rightarrow> ckpt_info" where
  "info_of st env parent tag raw s =
     (let base = \<lparr>ci_id = new_id env, mem_path = mem_dir st tag (new_id env), parent_id = parent,
          ci_strategy = By s, dump_size_bytes = (if s = Lightweight then 0 else dump_size env),
          effective_restore_id = None, replay_cmds = []\<rparr> in
      if s = Lightweight then
        let p = Option.bind parent (map_of (AList.update (new_id env) base (registry st))) in
        base\<lparr>effective_restore_id := (case p of
             Some e \<Rightarrow> (case effective_restore_id e of Some x \<Rightarrow> Some x | None \<Rightarrow> Some parent)
           | None \<Rightarrow> Some parent),
          replay_cmds := (case p of Some e \<Rightarrow> replay_cmds e | None \<Rightarrow> []) @ [(tag, raw)]\<rparr>
      else base)"

definition checkpoint_adaptive ::
  "adapt_env \<Rightarrow> string option \<Rightarrow> string \<Rightarrow> string \<Rightarrow> adaptive \<Rightarrow> (ckpt_info, adaptive) eff option" where
  "checkpoint_adaptive env parent_ckpt_id tag raw_command st =
     (let s = choose_strategy st env raw_command; dir = mem_dir st tag (new_id env);
          finish = (\<lambda>st. let info = info_of st env parent_ckpt_id tag raw_command s in
            (Inr info, st\<lparr>registry := AList.update (new_id env) info (registry st)\<rparr>)) in
      if s = Predump then
        let pdir = predump_dir st tag (new_id env) in
        Some (bind_eff (do_predump env pdir (last_predump_dir st) st) (\<lambda>_ st.
          bind_eff (do_dump env dir (Some pdir) (st\<lparr>last_predump_dir := Some pdir\<rparr>)) (\<lambda>_. finish)))
      else Option.bind (dump_parent (registry st) parent_ckpt_id) (\<lambda>prev.
        if s = Lightweight then Some (finish st)
        else Some (bind_eff (do_dump env dir prev st) (\<lambda>_. finish))))"

section \<open>Restore\<close>

record restore_plan =
  rp_image :: string
  rp_lazy :: "string option"
  rp_replay :: "(string \<times> string) list"

text \<open>
  \<^verbatim>\<open>restore\<close>: which image is restored, over which socket, and which commands the caller replays.
  \<^verbatim>\<open>lazy_ok\<close> and \<^verbatim>\<open>criu_ok\<close>: whether the page server and CRIU succeed.
\<close>

definition restore_adaptive :: "adaptive \<Rightarrow> string \<Rightarrow> bool \<Rightarrow> bool \<Rightarrow> restore_plan result" where
  "restore_adaptive st target_ckpt_id lazy_ok criu_ok =
     (case map_of (registry st) target_ckpt_id of
        None \<Rightarrow> Inl (ValueError (''Unknown checkpoint ID: '' @ target_ckpt_id))
      | Some target \<Rightarrow>
        let effective = (case effective_restore_id target of Some e \<Rightarrow> e | None \<Rightarrow> Some target_ckpt_id) in
        andthen (if effective \<noteq> Some target_ckpt_id then
            (case Option.bind effective (map_of (registry st)) of
               Some e \<Rightarrow> Inr e | None \<Rightarrow> Inl (KeyError (case effective of Some e \<Rightarrow> e | None \<Rightarrow> ''None'')))
          else Inr target) (\<lambda>physical.
        if \<not> criu_ok then Inl (RuntimeError ''CalledProcessError'')
        else Inr \<lparr>rp_image = mem_path physical,
          rp_lazy = (if use_tmpfs st \<and> lazy_ok
            then Some (''/tmp/criu_lazy_'' @ take 6 (case effective of Some e \<Rightarrow> e | None \<Rightarrow> []) @ ''.sock'') else None),
          rp_replay = replay_cmds target\<rparr>))"

section \<open>Garbage collection and pruning\<close>

text \<open>
  \<^verbatim>\<open>sizes\<close>: the bytes of the files below a directory, 0 for one that is not there; \<^verbatim>\<open>rm_ok\<close>: whether it
  can be removed.
\<close>

definition gc_one :: "(string \<Rightarrow> nat) \<Rightarrow> (string \<Rightarrow> bool) \<Rightarrow> string \<Rightarrow> nat \<times> adaptive \<Rightarrow> nat \<times> adaptive" where
  "gc_one sizes rm_ok ckpt_id = (\<lambda>(freed, st).
     case map_of (registry st) ckpt_id of
       None \<Rightarrow> (freed, st)
     | Some e \<Rightarrow>
         (freed + sizes (mem_path e),
          st\<lparr>images := (if rm_ok (mem_path e) then AList.delete (mem_path e) (images st) else images st),
             registry := AList.delete ckpt_id (registry st)\<rparr>))"

definition garbage_collect ::
  "(string \<Rightarrow> nat) \<Rightarrow> (string \<Rightarrow> bool) \<Rightarrow> string list \<Rightarrow> adaptive \<Rightarrow> nat \<times> adaptive" where
  "garbage_collect sizes rm_ok obsolete_ids st = fold (gc_one sizes rm_ok) obsolete_ids (0, st)"

text \<open>The kept nodes: the active ones and every registered node on their paths to the root.\<close>

fun keep_paths :: "registry \<Rightarrow> string list \<Rightarrow> string list option" where
  "keep_paths reg [] = Some []"
| "keep_paths reg (a # as) = Option.bind (climb_path (up_of reg) (registered reg) (Some a)) (\<lambda>p.
     map_option (\<lambda>ps. a # p @ ps) (keep_paths reg as))"

definition beam_prune ::
  "(string \<Rightarrow> nat) \<Rightarrow> (string \<Rightarrow> bool) \<Rightarrow> string list \<Rightarrow> adaptive \<Rightarrow> ((nat \<times> nat) \<times> adaptive) option" where
  "beam_prune sizes rm_ok active_ids st = map_option (\<lambda>keep.
     let obsolete = filter (\<lambda>c. c \<notin> set keep) (map fst (registry st)) in
     if obsolete = [] then ((0, 0), st)
     else case garbage_collect sizes rm_ok obsolete st of (freed, st') \<Rightarrow> ((length obsolete, freed), st'))
     (keep_paths (registry st) active_ids)"

section \<open>Anchors\<close>

definition maybe_anchor_checkpoint ::
  "adapt_env \<Rightarrow> string \<Rightarrow> nat \<Rightarrow> adaptive \<Rightarrow> (string option, adaptive) eff" where
  "maybe_anchor_checkpoint env current_id interval st =
     (let st = st\<lparr>checkpoint_counter := checkpoint_counter st + 1\<rparr> in
      if interval = 0 then (Inl (ZeroDivisionError ''integer modulo by zero''), st)
      else if checkpoint_counter st mod interval \<noteq> 0 then (Inr None, st)
      else if map_of (registry st) current_id = None then (Inr None, st)
      else let dir = mem_dir st ''anchor'' (new_id env) in
        bind_eff (run_criu (dump_ok env) \<lparr>cc_verb = ''dump'', cc_dir = dir, cc_prev = None,
            cc_args = [''--tree'', dec (agent_pid st), ''--shell-job'', ''--leave-running'', ''--tcp-close'',
              ''--ext-unix-sk'']\<rparr> st) (\<lambda>_ st.
          (Inr (Some (new_id env)), st\<lparr>registry := AList.update (new_id env)
             \<lparr>ci_id = new_id env, mem_path = dir, parent_id = Some current_id, ci_strategy = Anchor,
              dump_size_bytes = dump_size env, effective_restore_id = None, replay_cmds = []\<rparr> (registry st)\<rparr>)))"

section \<open>Well-formed registries\<close>

text \<open>Parents precede their children; the rank of an identifier is its position.\<close>

abbreviation wf_reg :: "registry \<Rightarrow> bool" where
  "wf_reg \<equiv> wf_parents parent_id"

lemma up_of_up_par: "up_of = up_par parent_id"
  by (intro ext) (simp add: up_of_def up_par_def)

interpretation adaptive_registry: parent_registry wf_reg up_of dict_rank
  by unfold_locales (simp add: up_of_up_par up_par_rank)

lemma up_of_unregistered: "\<not> registered reg k \<Longrightarrow> up_of reg k = None"
  by (auto simp: up_of_def registered_def)

lemma dump_parent_ok:
  assumes "wf_reg reg"
  shows "\<exists>prev. dump_parent reg parent = Some prev \<and> (\<forall>d. prev = Some d \<longrightarrow>
    (\<exists>k0 k e. parent = Some k0 \<and> ancestor (up_of reg) k0 k \<and> map_of reg k = Some e
       \<and> ci_strategy e \<noteq> By Lightweight \<and> mem_path e = d))"
proof -
  define stop where "stop = (\<lambda>k. \<not> registered reg k
      \<or> (case map_of reg k of Some e \<Rightarrow> ci_strategy e \<noteq> By Lightweight | None \<Rightarrow> True))"
  obtain found where f: "climb (up_of reg) stop parent = Some found"
    using adaptive_registry.climb_returns [OF assms] by blast
  then have d: "dump_parent reg parent = Some (Option.bind found (\<lambda>k. if registered reg k then map_option mem_path (map_of reg k) else None))"
    by (simp add: dump_parent_def stop_def)
  show ?thesis
  proof (cases found)
    case None
    with d show ?thesis by simp
  next
    case (Some k)
    from f Some obtain k0 where k0: "parent = Some k0" by (cases parent) (auto simp: climb.simps)
    from adaptive_registry.climb_stops [OF assms f [unfolded k0 Some]]
    have "stop k" "ancestor (up_of reg) k0 k" by auto
    then show ?thesis using d Some k0 by (auto simp: stop_def registered_def split: option.splits)
  qed
qed

text \<open>
  The loop that looks for the image of an incremental dump ends on every registry in which
  parents come first, and what it finds is the image of an ancestor that has one: never the
  directory of a lightweight checkpoint, which holds no image.
\<close>

theorem dump_parent_sound:
  assumes "wf_reg reg"
  shows "\<exists>prev. dump_parent reg parent = Some prev \<and> (\<forall>d. prev = Some d \<longrightarrow>
    (\<exists>k0 k e. parent = Some k0 \<and> ancestor (up_of reg) k0 k \<and> map_of reg k = Some e
       \<and> ci_strategy e \<noteq> By Lightweight \<and> mem_path e = d))"
  using dump_parent_ok [OF assms] .

section \<open>The invariant of the controller\<close>

definition is_predump :: "string \<Rightarrow> bool" where
  "is_predump d \<longleftrightarrow> suffix ''_predump'' d"

definition prev_of :: "(string \<times> string option) list \<Rightarrow> string \<Rightarrow> string option" where
  "prev_of imgs d = Option.bind (map_of imgs d) id"

definition full :: "ckpt_info \<Rightarrow> bool" where
  "full e \<longleftrightarrow> ci_strategy e \<noteq> By Lightweight"

text \<open>A full entry restores itself; a lightweight one restores an ancestor, which is not lightweight.\<close>

definition entry_ok :: "registry \<Rightarrow> string \<Rightarrow> ckpt_info \<Rightarrow> bool" where
  "entry_ok reg k e \<longleftrightarrow> (if full e then effective_restore_id e = None \<and> replay_cmds e = []
     else \<exists>x. effective_restore_id e = Some x \<and> (\<forall>f. x = Some f \<longrightarrow> f \<noteq> k \<and> ancestor (up_of reg) k f
       \<and> (\<forall>e'. map_of reg f = Some e' \<longrightarrow> full e')))"

text \<open>The image of a full entry builds on nothing, on a pre-dump, or on the image of a full ancestor.\<close>

definition image_ok :: "registry \<Rightarrow> (string \<times> string option) list \<Rightarrow> string \<Rightarrow> ckpt_info \<Rightarrow> bool" where
  "image_ok reg imgs k e \<longleftrightarrow> full e \<longrightarrow> map_of imgs (mem_path e) \<noteq> None
     \<and> (\<forall>p. prev_of imgs (mem_path e) = Some p \<longrightarrow> is_predump p \<and> map_of imgs p \<noteq> None
          \<or> (\<exists>j e'. ancestor (up_of reg) k j \<and> map_of reg j = Some e' \<and> full e' \<and> mem_path e' = p))"

definition adaptive_inv :: "adaptive \<Rightarrow> bool" where
  "adaptive_inv st \<longleftrightarrow> wf_reg (registry st) \<and> [] \<notin> fst ` set (registry st)
     \<and> distinct (map (mem_path \<circ> snd) (registry st))
     \<and> (\<forall>(k, e) \<in> set (registry st). entry_ok (registry st) k e \<and> image_ok (registry st) (images st) k e
          \<and> \<not> is_predump (mem_path e))
     \<and> (\<forall>d. is_predump d \<and> map_of (images st) d \<noteq> None \<longrightarrow>
          (\<forall>p. prev_of (images st) d = Some p \<longrightarrow> is_predump p \<and> map_of (images st) p \<noteq> None))
     \<and> (\<forall>p. last_predump_dir st = Some p \<longrightarrow> is_predump p \<and> map_of (images st) p \<noteq> None)"

lemma adaptive_invD:
  assumes "adaptive_inv st"
  shows "wf_reg (registry st)" "[] \<notin> fst ` set (registry st)" "distinct (map (mem_path \<circ> snd) (registry st))"
    "(k, e) \<in> set (registry st) \<Longrightarrow> entry_ok (registry st) k e"
    "(k, e) \<in> set (registry st) \<Longrightarrow> image_ok (registry st) (images st) k e"
    "(k, e) \<in> set (registry st) \<Longrightarrow> \<not> is_predump (mem_path e)"
    "\<lbrakk>is_predump d; map_of (images st) d \<noteq> None; prev_of (images st) d = Some p\<rbrakk>
      \<Longrightarrow> is_predump p \<and> map_of (images st) p \<noteq> None"
    "last_predump_dir st = Some p \<Longrightarrow> is_predump p \<and> map_of (images st) p \<noteq> None"
  using assms unfolding adaptive_inv_def by blast+

lemma adaptive_invI:
  assumes "wf_reg (registry st)" "[] \<notin> fst ` set (registry st)" "distinct (map (mem_path \<circ> snd) (registry st))"
    "\<And>k e. (k, e) \<in> set (registry st) \<Longrightarrow> entry_ok (registry st) k e"
    "\<And>k e. (k, e) \<in> set (registry st) \<Longrightarrow> image_ok (registry st) (images st) k e"
    "\<And>k e. (k, e) \<in> set (registry st) \<Longrightarrow> \<not> is_predump (mem_path e)"
    "\<And>d p. \<lbrakk>is_predump d; map_of (images st) d \<noteq> None; prev_of (images st) d = Some p\<rbrakk>
      \<Longrightarrow> is_predump p \<and> map_of (images st) p \<noteq> None"
    "\<And>p. last_predump_dir st = Some p \<Longrightarrow> is_predump p \<and> map_of (images st) p \<noteq> None"
  shows "adaptive_inv st"
  using assms unfolding adaptive_inv_def by blast

text \<open>The random identifier is new, and so are the directories named after it.\<close>

definition fresh_id :: "adaptive \<Rightarrow> string \<Rightarrow> bool" where
  "fresh_id st i \<longleftrightarrow> i \<noteq> [] \<and> (\<forall>(k, e) \<in> set (registry st). k \<noteq> i \<and> parent_id e \<noteq> Some i
     \<and> effective_restore_id e \<noteq> Some (Some i))
     \<and> (\<forall>tag. map_of (images st) (mem_dir st tag i) = None \<and> map_of (images st) (predump_dir st tag i) = None
          \<and> mem_dir st tag i \<notin> (mem_path \<circ> snd) ` set (registry st))"

lemma suffix_path_join: "suffix s b \<Longrightarrow> suffix s (path_join a b)"
  by (auto simp: path_join_def intro: suffix_appendI suffix_ConsI)

lemma mem_dir_not_predump: "\<not> is_predump (mem_dir st tag i)"
proof
  assume "is_predump (mem_dir st tag i)"
  then have "last (mem_dir st tag i) = CHR ''p''" by (auto simp: is_predump_def suffix_def)
  moreover have "suffix ''_mem'' (mem_dir st tag i)"
    unfolding mem_dir_def by (rule suffix_path_join) (auto simp: suffix_def)
  then have "last (mem_dir st tag i) = CHR ''m''" by (auto simp: suffix_def)
  ultimately show False by simp
qed

lemma predump_dir_is_predump: "is_predump (predump_dir st tag i)"
  unfolding is_predump_def predump_dir_def by (rule suffix_path_join) (auto simp: suffix_def)

lemma ancestor_new_of:
  assumes "ancestor (up_of reg) k j" "k \<noteq> i" "\<forall>(k, e) \<in> set reg. parent_id e \<noteq> Some i"
  shows "ancestor (up_of (reg @ [(i, info)])) k j \<and> j \<noteq> i"
  using ancestor_new [of parent_id reg k j i info] assms by (simp add: up_of_up_par)

lemma images_update_inv:
  assumes "adaptive_inv st" "map_of (images st) d = None"
    and "is_predump d \<Longrightarrow> \<forall>p. prev = Some p \<longrightarrow> is_predump p \<and> map_of (images st) p \<noteq> None"
  shows "adaptive_inv (st\<lparr>images := AList.update d prev (images st), criu_log := l, last_child_count := n\<rparr>)"
proof -
  have m: "map_of (AList.update d prev (images st)) x = (if x = d then Some prev else map_of (images st) x)" for x
    by (simp add: update_conv')
  then have pv: "prev_of (AList.update d prev (images st)) x = (if x = d then prev else prev_of (images st) x)" for x
    by (simp add: prev_of_def)
  show ?thesis
  proof (rule adaptive_invI, goal_cases)
    case (5 k e)
    then have ok: "image_ok (registry st) (images st) k e" using adaptive_invD(5) [OF assms(1)] by simp
    show ?case
    proof (cases "full e")
      case True
      with ok have "map_of (images st) (mem_path e) \<noteq> None" by (simp add: image_ok_def)
      with assms(2) have "mem_path e \<noteq> d" by metis
      then show ?thesis using ok True unfolding image_ok_def by (simp add: m pv) (metis option.distinct(1))
    qed (simp add: image_ok_def)
  next
    case (7 x p)
    then show ?case using adaptive_invD(7) [OF assms(1), of x p] assms(3)
      by (cases "x = d") (auto simp: update_conv' prev_of_def)
  next
    case (8 p)
    then show ?case using adaptive_invD(8) [OF assms(1), of p] by (simp add: m)
  qed (use adaptive_invD [OF assms(1)] in simp_all)
qed

lemma register_inv:
  assumes "adaptive_inv st" "i \<noteq> []" "i \<notin> fst ` set (registry st)"
    and "\<forall>(k, e) \<in> set (registry st). parent_id e \<noteq> Some i \<and> effective_restore_id e \<noteq> Some (Some i)"
    and "parent_id info \<noteq> Some i" "mem_path info \<notin> (mem_path \<circ> snd) ` set (registry st)"
    and "\<not> is_predump (mem_path info)"
    and "entry_ok (registry st @ [(i, info)]) i info" "image_ok (registry st @ [(i, info)]) (images st) i info"
  shows "adaptive_inv (st\<lparr>registry := AList.update i info (registry st)\<rparr>)"
proof -
  let ?reg = "registry st @ [(i, info)]"
  have u: "AList.update i info (registry st) = ?reg" using assms(3) by (rule update_new_key)
  have par: "\<forall>(k, e) \<in> set (registry st). parent_id e \<noteq> Some i" using assms(4) by auto
  have old: "entry_ok ?reg k e \<and> image_ok ?reg (images st) k e \<and> \<not> is_predump (mem_path e)"
    if mem: "(k, e) \<in> set (registry st)" for k e
  proof -
    have k: "k \<noteq> i" using mem assms(3) by force
    note o = adaptive_invD(4,5,6) [OF assms(1) mem]
    have an: "ancestor (up_of ?reg) k j \<and> map_of ?reg j = map_of (registry st) j" if "ancestor (up_of (registry st)) k j" for j
      using ancestor_new_of [OF that k par, of info] map_of_new [of j i "registry st" info] by blast
    have "entry_ok ?reg k e" using o(1) an unfolding entry_ok_def by (simp split: if_splits) metis
    moreover have "image_ok ?reg (images st) k e" using o(2) an unfolding image_ok_def by metis
    ultimately show ?thesis using o(3) by simp
  qed
  have "wf_reg ?reg" using adaptive_invD(1) [OF assms(1)] assms(3,5) par by (intro wf_parents_append) auto
  moreover have "[] \<notin> fst ` set ?reg" using assms(2) adaptive_invD(2) [OF assms(1)] by auto
  moreover have "distinct (map (mem_path \<circ> snd) ?reg)" using assms(6) adaptive_invD(3) [OF assms(1)] by auto
  moreover have "entry_ok ?reg k e \<and> image_ok ?reg (images st) k e \<and> \<not> is_predump (mem_path e)"
    if "(k, e) \<in> set ?reg" for k e
  proof (cases "(k, e) \<in> set (registry st)")
    case False
    with that have "k = i" "e = info" by auto
    then show ?thesis using assms(7-9) by simp
  qed (rule old)
  ultimately have facts: "wf_reg ?reg" "[] \<notin> fst ` set ?reg" "distinct (map (mem_path \<circ> snd) ?reg)"
    "\<And>k e. (k, e) \<in> set ?reg \<Longrightarrow> entry_ok ?reg k e \<and> image_ok ?reg (images st) k e \<and> \<not> is_predump (mem_path e)"
    by blast+
  show ?thesis
  proof (rule adaptive_invI, goal_cases)
    case (7 d p)
    then show ?case using adaptive_invD(7) [OF assms(1), of d p] by simp
  next
    case (8 p)
    then show ?case using adaptive_invD(8) [OF assms(1), of p] by simp
  qed (use facts in \<open>simp_all add: u\<close>)
qed

subsection \<open>Checkpoints keep the invariant\<close>

lemma entry_ok_full: "full e \<Longrightarrow> effective_restore_id e = None \<Longrightarrow> replay_cmds e = [] \<Longrightarrow> entry_ok reg k e"
  by (simp add: entry_ok_def)

text \<open>The lightweight entry: its target is the parent, or what the parent restores.\<close>

lemma info_of_lightweight_ok:
  assumes inv: "adaptive_inv st" and i: "new_id env = i" "i \<noteq> []" "i \<notin> fst ` set (registry st)"
    and new: "\<forall>(k, e) \<in> set (registry st). parent_id e \<noteq> Some i \<and> effective_restore_id e \<noteq> Some (Some i)"
    and par: "parent \<noteq> Some i"
  shows "entry_ok (registry st @ [(i, info_of st env parent tag raw Lightweight)]) i
    (info_of st env parent tag raw Lightweight)"
proof -
  define info where "info = info_of st env parent tag raw Lightweight"
  let ?reg = "registry st @ [(i, info)]"
  have nf: "\<not> full info" and pid: "parent_id info = parent"
    by (simp_all add: info_def info_of_def Let_def full_def)
  have lk: "map_of (AList.update i b (registry st)) p = map_of (registry st) p" if "p \<noteq> i" for p b
    using that by (simp add: update_conv')
  have up: "up_of ?reg i = parent" using i(2,3) pid
    by (simp add: up_of_def map_add_def map_of_eq_None_iff [THEN iffD2] split: option.splits)
  have "\<exists>x. effective_restore_id info = Some x \<and> (\<forall>f. x = Some f \<longrightarrow> f \<noteq> i \<and> ancestor (up_of ?reg) i f
       \<and> (\<forall>e'. map_of ?reg f = Some e' \<longrightarrow> full e'))"
  proof (cases parent)
    case None
    then have "effective_restore_id info = Some None" by (simp add: info_def info_of_def Let_def)
    then show ?thesis by simp
  next
    case (Some p)
    with par have p: "p \<noteq> i" by simp
    have a: "ancestor (up_of ?reg) i p" using up Some ancestor.step [OF ancestor.self] by metis
    show ?thesis
    proof (cases "map_of (registry st) p")
      case None
      then have "effective_restore_id info = Some (Some p)"
        using Some p i(1) by (simp add: info_def info_of_def Let_def lk)
      then show ?thesis using a p None map_of_new [OF p, of "registry st" info] by auto
    next
      case e: (Some e)
      have mem: "(p, e) \<in> set (registry st)" using e by (rule map_of_SomeD)
      have eff: "effective_restore_id info = (case effective_restore_id e of Some x \<Rightarrow> Some x | None \<Rightarrow> Some (Some p))"
        using Some p i(1) e by (simp add: info_def info_of_def Let_def lk split: option.splits)
      show ?thesis
      proof (cases "full e")
        case True
        then have "effective_restore_id info = Some (Some p)"
          using eff adaptive_invD(4) [OF inv mem] by (simp add: entry_ok_def)
        then show ?thesis using a p True e map_of_new [OF p, of "registry st" info] by auto
      next
        case False
        then obtain x where x: "effective_restore_id e = Some x" and ok: "\<And>f. x = Some f \<Longrightarrow> f \<noteq> p
            \<and> ancestor (up_of (registry st)) p f \<and> (\<forall>e'. map_of (registry st) f = Some e' \<longrightarrow> full e')"
          using adaptive_invD(4) [OF inv mem] by (auto simp: entry_ok_def)
        have "f \<noteq> i \<and> ancestor (up_of ?reg) i f \<and> (\<forall>e'. map_of ?reg f = Some e' \<longrightarrow> full e')" if f: "x = Some f" for f
        proof -
          have "ancestor (up_of ?reg) p f \<and> f \<noteq> i"
            using ok [OF f] new by (intro ancestor_new_of [OF _ p]) auto
          then show ?thesis
            using ancestor_trans [OF a] ok [OF f] map_of_new [of f i "registry st" info] by metis
        qed
        then show ?thesis using eff x by simp
      qed
    qed
  qed
  then show ?thesis using nf by (simp add: entry_ok_def info_def)
qed

lemma adaptive_inv_cong:
  "\<lbrakk>registry a = registry b; images a = images b; last_predump_dir a = last_predump_dir b\<rbrakk>
    \<Longrightarrow> adaptive_inv a = adaptive_inv b"
  by (simp add: adaptive_inv_def)

lemma last_predump_inv:
  assumes "adaptive_inv st" "is_predump d" "map_of (images st) d \<noteq> None"
  shows "adaptive_inv (st\<lparr>last_predump_dir := Some d\<rparr>)"
proof (rule adaptive_invI, goal_cases)
  case (7 d p)
  then show ?case using adaptive_invD(7) [OF assms(1), of d p] by simp
next
  case (8 p)
  then show ?case using assms(2,3) by simp
qed (use adaptive_invD(1-6) [OF assms(1)] in simp_all)

lemma do_dump_state:
  assumes "adaptive_inv st" "map_of (images st) dir = None" "\<not> is_predump dir" "do_dump env dir prev st = (r, st')"
  shows "adaptive_inv st'" "registry st' = registry st" "snapshot_store st' = snapshot_store st"
    "r = Inr () \<Longrightarrow> \<exists>prev'. (prev' = None \<or> prev' = prev) \<and> images st' = AList.update dir prev' (images st)"
proof -
  define n where "n = count_children (agent_pid st) (proc_entries env)"
  define prev' where "prev' = (if n \<noteq> last_child_count st then None else prev)"
  define args where "args = [''--tree'', dec (agent_pid st), ''--shell-job'', ''--leave-running'', ''--tcp-close'',
          ''--ext-unix-sk'', ''--track-mem''] @ get_cold_external_args st env
          @ (if use_pid_namespace st then skip_mount_args env else [])"
  define l where "l = criu_log st @ [\<lparr>cc_verb = ''dump'', cc_dir = dir, cc_prev = prev', cc_args = args\<rparr>]"
  have d: "do_dump env dir prev st = run_criu (dump_ok env)
      \<lparr>cc_verb = ''dump'', cc_dir = dir, cc_prev = prev', cc_args = args\<rparr> (st\<lparr>last_child_count := n\<rparr>)"
    by (simp only: do_dump_def Let_def n_def prev'_def args_def)
  have pv: "prev' = None \<or> prev' = prev" by (simp add: prev'_def)
  have st': "st' = (if dump_ok env then st\<lparr>images := AList.update dir prev' (images st), criu_log := l, last_child_count := n\<rparr>
      else st\<lparr>criu_log := l, last_child_count := n\<rparr>)" and r: "r = Inr () \<Longrightarrow> dump_ok env"
    using assms(4) by (auto simp: d run_criu_def l_def split: if_splits)
  show "adaptive_inv st'"
    unfolding st' using images_update_inv [OF assms(1,2), where prev = prev' and l = l and n = n] assms(1,3)
      adaptive_inv_cong [of "st\<lparr>criu_log := l, last_child_count := n\<rparr>" st] by simp
  show "registry st' = registry st" "snapshot_store st' = snapshot_store st" by (simp_all add: st')
  show "\<exists>prev'. (prev' = None \<or> prev' = prev) \<and> images st' = AList.update dir prev' (images st)" if "r = Inr ()"
    using pv r [OF that] by (auto simp: st')
qed

lemma fresh_idD:
  assumes "fresh_id st i"
  shows "i \<noteq> []" "i \<notin> fst ` set (registry st)"
    "\<forall>(k, e) \<in> set (registry st). parent_id e \<noteq> Some i \<and> effective_restore_id e \<noteq> Some (Some i)"
    "map_of (images st) (mem_dir st tag i) = None" "map_of (images st) (predump_dir st tag i) = None"
    "mem_dir st tag i \<notin> (mem_path \<circ> snd) ` set (registry st)"
  using assms unfolding fresh_id_def by auto

lemma info_of_simps [simp]:
  "parent_id (info_of st env parent tag raw s) = parent"
  "mem_path (info_of st env parent tag raw s) = mem_dir st tag (new_id env)"
  "full (info_of st env parent tag raw s) \<longleftrightarrow> s \<noteq> Lightweight"
  "s \<noteq> Lightweight \<Longrightarrow> effective_restore_id (info_of st env parent tag raw s) = None"
  "s \<noteq> Lightweight \<Longrightarrow> replay_cmds (info_of st env parent tag raw s) = []"
  by (simp_all add: info_of_def Let_def full_def)

text \<open>The new entry fits into the invariant, given what its image builds on.\<close>

lemma finish_inv:
  assumes inv: "adaptive_inv st" and i: "i = new_id env" "i \<noteq> []" "i \<notin> fst ` set (registry st)"
    and new: "\<forall>(k, e) \<in> set (registry st). parent_id e \<noteq> Some i \<and> effective_restore_id e \<noteq> Some (Some i)"
    and par: "parent \<noteq> Some i" and dir: "mem_dir st tag i \<notin> (mem_path \<circ> snd) ` set (registry st)"
    and img: "s \<noteq> Lightweight \<Longrightarrow> map_of (images st) (mem_dir st tag i) \<noteq> None
      \<and> (\<forall>p. prev_of (images st) (mem_dir st tag i) = Some p \<longrightarrow> is_predump p \<and> map_of (images st) p \<noteq> None
          \<or> (\<exists>k0 k e. parent = Some k0 \<and> ancestor (up_of (registry st)) k0 k \<and> map_of (registry st) k = Some e
               \<and> full e \<and> mem_path e = p))"
  shows "adaptive_inv (st\<lparr>registry := AList.update i (info_of st env parent tag raw s) (registry st)\<rparr>)"
proof (rule register_inv [OF inv i(2,3) new])
  let ?info = "info_of st env parent tag raw s"
  let ?reg = "registry st @ [(i, ?info)]"
  show "parent_id ?info \<noteq> Some i" "mem_path ?info \<notin> (mem_path \<circ> snd) ` set (registry st)"
    "\<not> is_predump (mem_path ?info)" using par dir i(1) by (simp_all add: mem_dir_not_predump)
  show "entry_ok ?reg i ?info"
    using info_of_lightweight_ok [OF inv i(1) [symmetric] i(2,3) new par]
    by (cases "s = Lightweight") (auto intro: entry_ok_full)
  have up: "up_of ?reg i = parent" using i(2,3)
    by (simp add: up_of_def map_add_def map_of_eq_None_iff [THEN iffD2] split: option.splits)
  have anc: "ancestor (up_of ?reg) i k \<and> map_of ?reg k = map_of (registry st) k"
    if "parent = Some k0" "ancestor (up_of (registry st)) k0 k" for k0 k
  proof -
    have "k0 \<noteq> i" using par that(1) by simp
    moreover have "\<forall>(k, e) \<in> set (registry st). parent_id e \<noteq> Some i" using new by auto
    ultimately have "ancestor (up_of ?reg) k0 k \<and> k \<noteq> i" using ancestor_new_of [OF that(2)] by blast
    then show ?thesis
      using ancestor_front [of "up_of ?reg" k0 k i] up that(1) map_of_new [of k i "registry st" ?info] by simp
  qed
  show "image_ok ?reg (images st) i ?info"
    unfolding image_ok_def using img anc i(1) by (simp) metis
qed

lemma full_dump_inv:
  assumes inv: "adaptive_inv st" and i: "i = new_id env" "i \<noteq> []" "i \<notin> fst ` set (registry st)"
    and new: "\<forall>(k, e) \<in> set (registry st). parent_id e \<noteq> Some i \<and> effective_restore_id e \<noteq> Some (Some i)"
    and par: "parent \<noteq> Some i" and dir: "mem_dir st tag i \<notin> (mem_path \<circ> snd) ` set (registry st)"
    and none: "map_of (images st) (mem_dir st tag i) = None"
    and prev: "\<And>p. prev = Some p \<Longrightarrow> is_predump p \<and> map_of (images st) p \<noteq> None
          \<or> (\<exists>k0 k e. parent = Some k0 \<and> ancestor (up_of (registry st)) k0 k \<and> map_of (registry st) k = Some e
               \<and> full e \<and> mem_path e = p)"
    and s: "s \<noteq> Lightweight"
    and res: "bind_eff (do_dump env (mem_dir st tag i) prev st) (\<lambda>_ st.
          (Inr (info_of st env parent tag raw s),
           st\<lparr>registry := AList.update i (info_of st env parent tag raw s) (registry st)\<rparr>)) = (r, st')"
  shows "adaptive_inv st'"
proof -
  obtain r1 st1 where d: "do_dump env (mem_dir st tag i) prev st = (r1, st1)" by fastforce
  note ds = do_dump_state [OF inv none mem_dir_not_predump d]
  show ?thesis
  proof (cases r1)
    case (Inl e)
    with res d ds(1) show ?thesis by simp
  next
    case (Inr u)
    with ds(4) obtain prev' where p': "prev' = None \<or> prev' = prev"
      and im: "images st1 = AList.update (mem_dir st tag i) prev' (images st)" by auto
    have md: "mem_dir st1 tag x = mem_dir st tag x" for x by (simp add: mem_dir_def ds(3))
    have st': "st' = st1\<lparr>registry := AList.update i (info_of st1 env parent tag raw s) (registry st1)\<rparr>"
      using res d Inr by simp
    have pv: "prev_of (images st1) (mem_dir st tag i) = prev'" by (simp add: im prev_of_def update_conv')
    have keep: "map_of (images st) p \<noteq> None \<Longrightarrow> map_of (images st1) p \<noteq> None" for p
      by (simp add: im update_conv')
    show ?thesis unfolding st'
    proof (rule finish_inv [OF ds(1) i(1,2)])
      show "map_of (images st1) (mem_dir st1 tag i) \<noteq> None
      \<and> (\<forall>p. prev_of (images st1) (mem_dir st1 tag i) = Some p \<longrightarrow> is_predump p \<and> map_of (images st1) p \<noteq> None
          \<or> (\<exists>k0 k e. parent = Some k0 \<and> ancestor (up_of (registry st1)) k0 k \<and> map_of (registry st1) k = Some e
               \<and> full e \<and> mem_path e = p))"
        using prev p' keep pv by (auto simp: md im ds(2) update_conv')
    qed (use i new par dir in \<open>simp_all add: ds(2) md\<close>)
  qed
qed

lemma checkpoint_adaptive_inv:
  assumes inv: "adaptive_inv st" and fr: "fresh_id st (new_id env)" and par: "parent \<noteq> Some (new_id env)"
  shows "\<exists>r st'. checkpoint_adaptive env parent tag raw st = Some (r, st') \<and> adaptive_inv st'"
proof -
  define i where "i = new_id env"
  note f = fresh_idD [OF fr, folded i_def]
  have par': "parent \<noteq> Some i" using par by (simp add: i_def)
  let ?dir = "mem_dir st tag i" and ?pdir = "predump_dir st tag i"
  obtain prev where dp: "dump_parent (registry st) parent = Some prev"
    and pv: "\<And>d. prev = Some d \<Longrightarrow> \<exists>k0 k e. parent = Some k0 \<and> ancestor (up_of (registry st)) k0 k
      \<and> map_of (registry st) k = Some e \<and> full e \<and> mem_path e = d"
    using dump_parent_ok [OF adaptive_invD(1) [OF inv], of parent] by (auto simp: full_def)
  show ?thesis
  proof (cases "choose_strategy st env raw")
    case Lightweight
    let ?st' = "st\<lparr>registry := AList.update i (info_of st env parent tag raw Lightweight) (registry st)\<rparr>"
    have "checkpoint_adaptive env parent tag raw st = Some (Inr (info_of st env parent tag raw Lightweight), ?st')"
      using Lightweight dp by (simp add: checkpoint_adaptive_def Let_def i_def)
    moreover have "adaptive_inv ?st'"
      by (rule finish_inv [OF inv i_def f(1-3) par' f(6)]) simp
    ultimately show ?thesis by blast
  next
    case Standard
    obtain r st' where res: "bind_eff (do_dump env ?dir prev st) (\<lambda>_ st.
          (Inr (info_of st env parent tag raw Standard),
           st\<lparr>registry := AList.update i (info_of st env parent tag raw Standard) (registry st)\<rparr>)) = (r, st')"
      by fastforce
    then have "checkpoint_adaptive env parent tag raw st = Some (r, st')"
      using Standard dp by (simp add: checkpoint_adaptive_def Let_def i_def)
    moreover have "adaptive_inv st'"
      by (rule full_dump_inv [OF inv i_def f(1-3) par' f(6,4) _ _ res]) (use pv in auto)
    ultimately show ?thesis by blast
  next
    case Predump
    obtain r1 st1 where pd: "do_predump env ?pdir (last_predump_dir st) st = (r1, st1)" by fastforce
    show ?thesis
    proof (cases r1)
      case (Inl e)
      have "adaptive_inv st1" using inv pd Inl
        by (auto simp: do_predump_def run_criu_def split: if_splits intro: adaptive_inv_cong [THEN iffD1, rotated -1])
      then show ?thesis using Predump pd Inl by (auto simp: checkpoint_adaptive_def Let_def i_def)
    next
      case (Inr u)
      define st2 where "st2 = st1\<lparr>last_predump_dir := Some ?pdir\<rparr>"
      have st1: "st1 = st\<lparr>images := AList.update ?pdir (last_predump_dir st) (images st),
          criu_log := criu_log st1, last_child_count := last_child_count st\<rparr>"
        using pd Inr by (auto simp: do_predump_def run_criu_def split: if_splits)
      have inv1: "adaptive_inv st1"
        by (subst st1, rule images_update_inv [OF inv f(5)]) (use adaptive_invD(8) [OF inv] in blast)
      have im: "map_of (images st1) x = (if x = ?pdir then Some (last_predump_dir st) else map_of (images st) x)" for x
        by (subst st1) (simp add: update_conv')
      have inv2: "adaptive_inv st2"
        unfolding st2_def by (rule last_predump_inv [OF inv1 predump_dir_is_predump]) (simp add: im)
      have same: "registry st2 = registry st" "snapshot_store st2 = snapshot_store st" "images st2 = images st1"
        using pd Inr by (auto simp: st2_def do_predump_def run_criu_def split: if_splits)
      have md: "mem_dir st2 tag x = mem_dir st tag x" for x by (simp add: mem_dir_def same(2))
      have ne: "?dir \<noteq> ?pdir" using mem_dir_not_predump [of st tag i] predump_dir_is_predump [of st tag i] by metis
      obtain r st' where res: "bind_eff (do_dump env (mem_dir st2 tag i) (Some ?pdir) st2) (\<lambda>_ st.
          (Inr (info_of st env parent tag raw Predump),
           st\<lparr>registry := AList.update i (info_of st env parent tag raw Predump) (registry st)\<rparr>)) = (r, st')"
        by fastforce
      then have "checkpoint_adaptive env parent tag raw st = Some (r, st')"
        using Predump pd Inr by (simp add: checkpoint_adaptive_def Let_def i_def st2_def md [unfolded st2_def i_def])
      moreover have "adaptive_inv st'"
      proof (rule full_dump_inv [OF inv2 i_def f(1) _ _ par' _ _ _ _ res])
        show "map_of (images st2) (mem_dir st2 tag i) = None" using ne f(4) by (simp add: md same(3) im)
      qed (use f(2,3,6) in \<open>auto simp: same md im predump_dir_is_predump\<close>)
      ultimately show ?thesis by blast
    qed
  qed
qed

subsection \<open>Anchors keep the invariant\<close>

lemma maybe_anchor_inv:
  assumes inv: "adaptive_inv st" and fr: "fresh_id st (new_id env)" and par: "current_id \<noteq> new_id env"
    and "maybe_anchor_checkpoint env current_id interval st = (r, st')"
  shows "adaptive_inv st'"
proof -
  define i where "i = new_id env"
  define st0 where "st0 = st\<lparr>checkpoint_counter := checkpoint_counter st + 1\<rparr>"
  note f = fresh_idD [OF fr, folded i_def]
  have inv0: "adaptive_inv st0" using inv adaptive_inv_cong [of st0 st] by (simp add: st0_def)
  let ?dir = "mem_dir st ''anchor'' i"
  let ?info = "\<lparr>ci_id = i, mem_path = ?dir, parent_id = Some current_id, ci_strategy = Anchor,
              dump_size_bytes = dump_size env, effective_restore_id = None, replay_cmds = []\<rparr>"
  define l where "l = criu_log st @ [\<lparr>cc_verb = ''dump'', cc_dir = ?dir, cc_prev = None,
            cc_args = [''--tree'', dec (agent_pid st), ''--shell-job'', ''--leave-running'', ''--tcp-close'',
              ''--ext-unix-sk'']\<rparr>]"
  define st1 where "st1 = st0\<lparr>images := AList.update ?dir None (images st), criu_log := l,
     last_child_count := last_child_count st\<rparr>"
  have d0: "mem_dir st0 ''anchor'' i = ?dir" by (simp add: mem_dir_def st0_def)
  have "st' = st0 \<or> st' = st0\<lparr>criu_log := l\<rparr> \<or> st' = st1\<lparr>registry := AList.update i ?info (registry st1)\<rparr>"
  proof (cases "interval = 0 \<or> checkpoint_counter st0 mod interval \<noteq> 0 \<or> map_of (registry st0) current_id = None")
    case True
    then have "snd (maybe_anchor_checkpoint env current_id interval st) = st0"
      by (auto simp: maybe_anchor_checkpoint_def Let_def st0_def)
    then show ?thesis using assms(4) by simp
  next
    case False
    then have "maybe_anchor_checkpoint env current_id interval st =
      bind_eff (run_criu (dump_ok env) \<lparr>cc_verb = ''dump'', cc_dir = ?dir, cc_prev = None,
            cc_args = [''--tree'', dec (agent_pid st), ''--shell-job'', ''--leave-running'', ''--tcp-close'',
              ''--ext-unix-sk'']\<rparr> st0) (\<lambda>_ st. (Inr (Some i), st\<lparr>registry := AList.update i ?info (registry st)\<rparr>))"
      unfolding maybe_anchor_checkpoint_def Let_def st0_def [symmetric] i_def [symmetric] d0
      by (auto simp: st0_def)
    then show ?thesis using assms(4)
      by (cases "dump_ok env") (simp_all add: run_criu_def st1_def st0_def l_def)
  qed
  then consider "st' = st0" | "st' = st0\<lparr>criu_log := l\<rparr>"
    | "st' = st1\<lparr>registry := AList.update i ?info (registry st1)\<rparr>" by blast
  then show ?thesis
  proof cases
    case 2
    then show ?thesis using inv0 adaptive_inv_cong [of st' st0] by simp
  next
    case 3
    have inv1: "adaptive_inv st1"
      unfolding st1_def using f(4) mem_dir_not_predump
        images_update_inv [OF inv0, where d = ?dir and prev = None and l = l and n = "last_child_count st"]
      by (simp add: st0_def)
    have "prev_of (images st1) ?dir = None" "map_of (images st1) ?dir \<noteq> None"
      by (simp_all add: st1_def prev_of_def update_conv')
    then show ?thesis unfolding 3 using f par
      by (intro register_inv [OF inv1]) (auto simp: st1_def st0_def i_def mem_dir_not_predump image_ok_def
        full_def intro!: entry_ok_full)
  qed (use inv0 in simp)
qed

section \<open>Pruning\<close>

lemma AList_delete_filter: "AList.delete k xs = filter (\<lambda>x. fst x \<noteq> k) xs"
  by (induction xs) auto

lemma gc_fold:
  assumes "fold (gc_one sizes rm_ok) ids (n, st) = (m, st')" "distinct (map fst (registry st))"
  shows "registry st' = filter (\<lambda>x. fst x \<notin> set ids) (registry st)
    \<and> (\<forall>d. (\<forall>k e. k \<in> set ids \<and> map_of (registry st) k = Some e \<longrightarrow> mem_path e \<noteq> d) \<longrightarrow>
          map_of (images st') d = map_of (images st) d)
    \<and> last_predump_dir st' = last_predump_dir st \<and> use_tmpfs st' = use_tmpfs st"
  using assms
proof (induction ids arbitrary: n st)
  case Nil
  then show ?case by simp
next
  case (Cons i ids)
  obtain n1 st1 where g: "gc_one sizes rm_ok i (n, st) = (n1, st1)" by fastforce
  have reg1: "registry st1 = filter (\<lambda>x. fst x \<noteq> i) (registry st)"
    and same: "last_predump_dir st1 = last_predump_dir st" "use_tmpfs st1 = use_tmpfs st"
    and im1: "\<And>d. (\<forall>e. map_of (registry st) i = Some e \<longrightarrow> mem_path e \<noteq> d) \<Longrightarrow> map_of (images st1) d = map_of (images st) d"
    using g by (auto simp: gc_one_def Let_def AList_delete_filter map_of_filter_key [of "\<lambda>k. k \<noteq> _"]
      map_of_eq_None_iff filter_id_conv split: option.splits if_splits intro!: filter_True [symmetric])
  have d1: "distinct (map fst (registry st1))" using Cons.prems(2) by (simp add: reg1 distinct_map_filter)
  from Cons.IH [OF _ d1, of n1] Cons.prems(1) g
  have IH: "registry st' = filter (\<lambda>x. fst x \<notin> set ids) (registry st1)"
    "\<And>d. (\<forall>k e. k \<in> set ids \<and> map_of (registry st1) k = Some e \<longrightarrow> mem_path e \<noteq> d) \<Longrightarrow>
          map_of (images st') d = map_of (images st1) d"
    "last_predump_dir st' = last_predump_dir st1" "use_tmpfs st' = use_tmpfs st1" by auto
  have "map_of (images st') d = map_of (images st) d"
    if "\<forall>k e. k \<in> set (i # ids) \<and> map_of (registry st) k = Some e \<longrightarrow> mem_path e \<noteq> d" for d
  proof -
    have "map_of (images st') d = map_of (images st1) d"
      by (rule IH(2)) (use that in \<open>auto simp: reg1 map_of_filter_key [of "\<lambda>k. k \<noteq> i"] split: if_splits\<close>)
    also have "\<dots> = map_of (images st) d" by (rule im1) (use that in auto)
    finally show ?thesis .
  qed
  moreover have "filter (\<lambda>x. fst x \<notin> set ids) (filter (\<lambda>x. fst x \<noteq> i) (registry st))
      = filter (\<lambda>x. fst x \<notin> set (i # ids)) (registry st)"
    by (auto intro: filter_cong)
  ultimately show ?case using IH same by (simp add: reg1)
qed

lemma keep_paths_set:
  assumes "wf_reg reg" "keep_paths reg as = Some keep"
  shows "set keep = set as \<union> {j. \<exists>a \<in> set as. ancestor (up_of reg) a j \<and> registered reg j}"
  using assms(2)
proof (induction as arbitrary: keep)
  case Nil
  then show ?case by simp
next
  case (Cons a as)
  then obtain p ps where p: "climb_path (up_of reg) (registered reg) (Some a) = Some p"
    and ps: "keep_paths reg as = Some ps" and keep: "keep = a # p @ ps"
    by (auto split: bind_splits)
  have "set p = {j. ancestor (up_of reg) a j \<and> registered reg j}"
    by (rule adaptive_registry.climb_path_set [OF assms(1) up_of_unregistered p])
  with Cons.IH [OF ps] keep show ?case by auto
qed

lemma keep_paths_returns: "wf_reg reg \<Longrightarrow> \<exists>keep. keep_paths reg as = Some keep"
proof (induction as)
  case (Cons a as)
  then show ?case using adaptive_registry.climb_path_returns [of reg "registered reg" "Some a"] by auto
qed simp

text \<open>The registry after pruning: the kept entries, with their ancestors.\<close>

lemma kept_ancestors:
  assumes "set keep = set as \<union> {j. \<exists>a \<in> set as. ancestor (up_of reg) a j \<and> registered reg j}"
    and "ancestor (up_of reg) k j" "k \<in> set keep"
  shows "ancestor (up_of (filter (\<lambda>x. fst x \<in> set keep) reg)) k j \<and> (registered reg j \<longrightarrow> j \<in> set keep)"
  using assms(2,3)
proof (induction rule: ancestor.induct)
  case (self k)
  then show ?case by (auto intro: ancestor.self)
next
  case (step k j p)
  then have j: "ancestor (up_of (filter (\<lambda>x. fst x \<in> set keep) reg)) k j" "registered reg j \<longrightarrow> j \<in> set keep" by auto
  have rj: "registered reg j" using step.hyps(2) up_of_unregistered [of reg j] by auto
  with j(2) have jk: "j \<in> set keep" by simp
  have "up_of (filter (\<lambda>x. fst x \<in> set keep) reg) j = Some p"
    using step.hyps(2) jk by (simp add: up_of_def map_of_filter_key [of "\<lambda>k. k \<in> set keep"] split: if_splits)
  moreover have "p \<in> set keep" if "registered reg p"
  proof -
    from jk rj assms(1) obtain a where "a \<in> set as" "ancestor (up_of reg) a j"
      by (auto intro: ancestor.self)
    then have "ancestor (up_of reg) a p" using step.hyps(2) by (auto intro: ancestor.step)
    with \<open>a \<in> set as\<close> that assms(1) show ?thesis by auto
  qed
  ultimately show ?case using ancestor.step [OF j(1)] by auto
qed


text \<open>Every image that the image of a full entry is built on is a pre-dump or that of a full ancestor.\<close>

lemma image_chain:
  assumes inv: "adaptive_inv st" and k: "map_of (registry st) k = Some e" "full e"
    and "ancestor (prev_of (images st)) (mem_path e) x"
  shows "map_of (images st) x \<noteq> None \<and> (is_predump x
    \<or> (\<exists>j e'. ancestor (up_of (registry st)) k j \<and> map_of (registry st) j = Some e' \<and> full e' \<and> mem_path e' = x))"
  using assms(4)
proof (induction "mem_path e" x rule: ancestor.induct)
  case self
  have "image_ok (registry st) (images st) k e" by (rule adaptive_invD(5) [OF inv map_of_SomeD [OF k(1)]])
  then show ?case using k unfolding image_ok_def by (blast intro: ancestor.self)
next
  case (step x p)
  then consider "is_predump x" "map_of (images st) x \<noteq> None"
    | j e' where "ancestor (up_of (registry st)) k j" "map_of (registry st) j = Some e'" "full e'" "mem_path e' = x" by blast
  then show ?case
  proof cases
    case 1
    then show ?thesis using adaptive_invD(7) [OF inv _ _ step.hyps(3)] by blast
  next
    case 2
    have "image_ok (registry st) (images st) j e'" by (rule adaptive_invD(5) [OF inv map_of_SomeD [OF 2(2)]])
    with 2 step.hyps(3) consider "is_predump p" "map_of (images st) p \<noteq> None"
      | i e'' where "ancestor (up_of (registry st)) j i" "map_of (registry st) i = Some e''" "full e''" "mem_path e'' = p"
      unfolding image_ok_def by blast
    then show ?thesis
    proof cases
      case b: 2
      have "image_ok (registry st) (images st) i e''" by (rule adaptive_invD(5) [OF inv map_of_SomeD [OF b(2)]])
      then show ?thesis using b ancestor_trans [OF 2(1) b(1)] unfolding image_ok_def by blast
    qed blast
  qed
qed

text \<open>A restore that succeeds finds its image and every image below it.\<close>

lemma restore_image_chain:
  assumes inv: "adaptive_inv st" and r: "restore_adaptive st target lazy_ok criu_ok = Inr plan"
  shows "(\<exists>k e. ancestor (up_of (registry st)) target k \<and> map_of (registry st) k = Some e \<and> full e
      \<and> mem_path e = rp_image plan)
    \<and> (\<forall>x. ancestor (prev_of (images st)) (rp_image plan) x \<longrightarrow> map_of (images st) x \<noteq> None)"
proof -
  obtain t where t: "map_of (registry st) target = Some t"
    using r by (cases "map_of (registry st) target") (auto simp: restore_adaptive_def)
  have ok: "entry_ok (registry st) target t" by (rule adaptive_invD(4) [OF inv map_of_SomeD [OF t]])
  have "\<exists>k e. ancestor (up_of (registry st)) target k \<and> map_of (registry st) k = Some e \<and> full e \<and> mem_path e = rp_image plan"
  proof (cases "full t")
    case True
    then have "rp_image plan = mem_path t" using r ok t
      by (auto simp: restore_adaptive_def entry_ok_def andthen_def split: if_splits)
    then show ?thesis using t True by (auto intro: ancestor.self)
  next
    case False
    then obtain x where x: "effective_restore_id t = Some x" "\<forall>f. x = Some f \<longrightarrow> f \<noteq> target
       \<and> ancestor (up_of (registry st)) target f \<and> (\<forall>e'. map_of (registry st) f = Some e' \<longrightarrow> full e')"
      using ok unfolding entry_ok_def by auto
    then obtain f e where "x = Some f" "map_of (registry st) f = Some e" "mem_path e = rp_image plan"
      using r t by (cases x) (auto simp: restore_adaptive_def andthen_def Let_def split: if_splits option.splits)
    then show ?thesis using x(2) by blast
  qed
  then show ?thesis using image_chain [OF inv] by metis
qed

lemma kept_inv:
  assumes inv: "adaptive_inv st"
    and keep: "set keep = set as \<union> {j. \<exists>a \<in> set as. ancestor (up_of (registry st)) a j \<and> registered (registry st) j}"
    and reg: "registry st' = filter (\<lambda>x. fst x \<in> set keep) (registry st)"
    and im: "\<And>d. (\<forall>k e. k \<notin> set keep \<and> map_of (registry st) k = Some e \<longrightarrow> mem_path e \<noteq> d) \<Longrightarrow>
          map_of (images st') d = map_of (images st) d"
    and lp: "last_predump_dir st' = last_predump_dir st"
    and pim: "\<And>d. is_predump d \<Longrightarrow> map_of (images st') d = map_of (images st) d"
  shows "adaptive_inv st'"
proof -
  have mo: "map_of (registry st') k = (if k \<in> set keep then map_of (registry st) k else None)" for k
    by (simp add: reg map_of_filter_key [of "\<lambda>k. k \<in> set keep"])
  have anc: "ancestor (up_of (registry st')) k j \<and> (\<forall>e. map_of (registry st) j = Some e \<longrightarrow> map_of (registry st') j = Some e)"
    if "ancestor (up_of (registry st)) k j" "k \<in> set keep" for k j
  proof -
    have "registered (registry st) j" if "map_of (registry st) j = Some e" for e
      using that adaptive_invD(2) [OF inv] map_of_SomeD [OF that] by (force simp: registered_def)
    then show ?thesis using kept_ancestors [OF keep that] by (auto simp: reg mo [unfolded reg])
  qed
  have sub: "map_of (registry st') k = Some e \<Longrightarrow> map_of (registry st) k = Some e" for k e
    by (simp add: mo split: if_splits)
  have wf: "wf_reg (registry st)" by (rule adaptive_invD(1) [OF inv])
  have keepim: "map_of (images st') (mem_path e) = map_of (images st) (mem_path e)"
    if "(k, e) \<in> set (registry st)" "k \<in> set keep" for k e
  proof (rule im, intro allI impI notI)
    fix k' e' assume a: "k' \<notin> set keep \<and> map_of (registry st) k' = Some e'" "mem_path e' = mem_path e"
    have "inj_on (mem_path \<circ> snd) (set (registry st))" using adaptive_invD(3) [OF inv] by (simp add: distinct_map)
    from inj_onD [OF this, of "(k', e')" "(k, e)"] have "(k', e') = (k, e)"
      using a that(1) map_of_SomeD [of "registry st" k' e'] by simp
    with a that show False by simp
  qed
  show ?thesis
  proof (rule adaptive_invI, goal_cases)
    case 1 show ?case using wf by (simp add: reg wf_parents_filter)
  next
    case 2 show ?case using adaptive_invD(2) [OF inv] by (auto simp: reg)
  next
    case 3 show ?case using adaptive_invD(3) [OF inv] by (simp add: reg distinct_map_filter)
  next
    case (4 k e)
    then have m: "(k, e) \<in> set (registry st)" "k \<in> set keep" by (auto simp: reg)
    have "entry_ok (registry st) k e" by (rule adaptive_invD(4) [OF inv m(1)])
    then show ?case using anc [OF _ m(2)] sub unfolding entry_ok_def by (simp split: if_splits) metis
  next
    case (5 k e)
    then have m: "(k, e) \<in> set (registry st)" "k \<in> set keep" by (auto simp: reg)
    have ok: "image_ok (registry st) (images st) k e" by (rule adaptive_invD(5) [OF inv m(1)])
    have pv: "prev_of (images st') (mem_path e) = prev_of (images st) (mem_path e)"
      by (simp add: prev_of_def keepim [OF m])
    show ?case using ok anc [OF _ m(2)] pim unfolding image_ok_def pv keepim [OF m] by metis
  next
    case (6 k e)
    then show ?case using adaptive_invD(6) [OF inv] by (auto simp: reg)
  next
    case (7 d p)
    have "prev_of (images st) d = Some p" "map_of (images st) d \<noteq> None"
      using 7 by (simp_all add: prev_of_def pim)
    then show ?case using adaptive_invD(7) [OF inv 7(1)] pim by metis
  next
    case (8 p)
    then show ?case using adaptive_invD(8) [OF inv] pim lp by metis
  qed
qed

lemma beam_prune_kept:
  assumes inv: "adaptive_inv st" and keep: "keep_paths (registry st) active = Some keep"
    and r: "beam_prune sizes rm_ok active st = Some (res, st')"
  shows "registry st' = filter (\<lambda>x. fst x \<in> set keep) (registry st)"
    "(\<forall>k e. k \<notin> set keep \<and> map_of (registry st) k = Some e \<longrightarrow> mem_path e \<noteq> d) \<Longrightarrow>
          map_of (images st') d = map_of (images st) d"
    "last_predump_dir st' = last_predump_dir st" "use_tmpfs st' = use_tmpfs st"
proof -
  define obs where "obs = filter (\<lambda>c. c \<notin> set keep) (map fst (registry st))"
  have mem: "x \<in> set (registry st) \<Longrightarrow> fst x \<in> set obs \<longleftrightarrow> fst x \<notin> set keep" for x by (auto simp: obs_def)
  obtain n where g: "fold (gc_one sizes rm_ok) obs (0, st) = (n, st')"
    using r keep by (auto simp: beam_prune_def obs_def [symmetric] garbage_collect_def split: if_splits prod.splits)
  note gf = gc_fold [OF g wf_parents_distinct [OF adaptive_invD(1) [OF inv]]]
  show "registry st' = filter (\<lambda>x. fst x \<in> set keep) (registry st)"
    using gf mem by (auto intro!: filter_cong)
  show "map_of (images st') d = map_of (images st) d"
    if "\<forall>k e. k \<notin> set keep \<and> map_of (registry st) k = Some e \<longrightarrow> mem_path e \<noteq> d"
    using gf that unfolding obs_def by (metis (no_types, lifting) mem_Collect_eq set_filter)
  show "last_predump_dir st' = last_predump_dir st" "use_tmpfs st' = use_tmpfs st" using gf by auto
qed

lemma beam_prune_inv:
  assumes inv: "adaptive_inv st" and r: "beam_prune sizes rm_ok active st = Some (res, st')"
  shows "adaptive_inv st'"
proof -
  note wf = adaptive_invD(1) [OF inv]
  obtain keep where keep: "keep_paths (registry st) active = Some keep" using keep_paths_returns [OF wf] by blast
  note b = beam_prune_kept [OF inv keep r]
  show ?thesis
  proof (rule kept_inv [OF inv keep_paths_set [OF wf keep] b(1) b(2) b(3)])
    fix d assume "is_predump d"
    then show "map_of (images st') d = map_of (images st) d"
      using adaptive_invD(6) [OF inv] by (intro b(2)) (metis map_of_SomeD)
  qed
qed

lemma beam_prune_restore:
  assumes inv: "adaptive_inv st" and r: "beam_prune sizes rm_ok active st = Some (res, st')" and a: "a \<in> set active"
  shows "restore_adaptive st' a lazy_ok criu_ok = restore_adaptive st a lazy_ok criu_ok"
proof -
  note wf = adaptive_invD(1) [OF inv]
  obtain keep where keep: "keep_paths (registry st) active = Some keep" using keep_paths_returns [OF wf] by blast
  note b = beam_prune_kept [OF inv keep r] and ks = keep_paths_set [OF wf keep]
  have mo: "map_of (registry st') k = (if k \<in> set keep then map_of (registry st) k else None)" for k
    by (simp add: b(1) map_of_filter_key [of "\<lambda>k. k \<in> set keep"])
  have same: "map_of (registry st') a = map_of (registry st) a" using a by (simp add: mo ks)
  show ?thesis
  proof (cases "map_of (registry st) a")
    case None
    then show ?thesis using same by (simp add: restore_adaptive_def)
  next
    case (Some t)
    have ok: "entry_ok (registry st) a t" by (rule adaptive_invD(4) [OF inv map_of_SomeD [OF Some]])
    have eff: "map_of (registry st') f = map_of (registry st) f" if "effective_restore_id t = Some (Some f)" for f
    proof (cases "map_of (registry st) f")
      case None
      then show ?thesis by (simp add: mo)
    next
      case (Some e)
      have "f \<noteq> []" using adaptive_invD(2) [OF inv] map_of_SomeD [OF Some] by force
      with Some have "registered (registry st) f" by (simp add: registered_def)
      moreover have "ancestor (up_of (registry st)) a f" using ok that by (auto simp: entry_ok_def split: if_splits)
      ultimately show ?thesis using a by (auto simp: mo ks)
    qed
    have "Option.bind (case effective_restore_id t of Some e \<Rightarrow> e | None \<Rightarrow> Some a) (map_of (registry st'))
      = Option.bind (case effective_restore_id t of Some e \<Rightarrow> e | None \<Rightarrow> Some a) (map_of (registry st))"
      using eff same by (cases "effective_restore_id t"; cases "the (effective_restore_id t)") auto
    then show ?thesis by (simp add: restore_adaptive_def same Some b(4) Let_def)
  qed
qed

section \<open>Reachable states\<close>

text \<open>The states that checkpoints, anchors and pruning reach; the identifiers drawn are new.\<close>

inductive adaptive_reaches :: "adaptive \<Rightarrow> bool" where
  start: "adaptive_reaches (new_adaptive pid store predump tmpfs external pidns)"
| checkpoint: "\<lbrakk>adaptive_reaches st; fresh_id st (new_id env); parent \<noteq> Some (new_id env);
     checkpoint_adaptive env parent tag raw st = Some (r, st')\<rbrakk> \<Longrightarrow> adaptive_reaches st'"
| anchor: "\<lbrakk>adaptive_reaches st; fresh_id st (new_id env); current_id \<noteq> new_id env;
     maybe_anchor_checkpoint env current_id interval st = (a, st')\<rbrakk> \<Longrightarrow> adaptive_reaches st'"
| prune: "\<lbrakk>adaptive_reaches st; beam_prune sizes rm_ok active st = Some (n, st')\<rbrakk> \<Longrightarrow> adaptive_reaches st'"

lemma adaptive_reaches_inv: "adaptive_reaches st \<Longrightarrow> adaptive_inv st"
proof (induction rule: adaptive_reaches.induct)
  case (start pid store predump tmpfs external pidns)
  then show ?case by (simp add: adaptive_inv_def new_adaptive_def)
next
  case (checkpoint st env parent tag raw r st')
  then show ?case using checkpoint_adaptive_inv [of st env parent tag raw] by auto
next
  case (anchor st env current_id interval a st')
  then show ?case using maybe_anchor_inv by blast
next
  case (prune st sizes rm_ok active n st')
  then show ?case using beam_prune_inv by blast
qed

text \<open>
  C30. In every reachable state, a restore that is accepted restores the image of a checkpoint that
  has one, on the path from the target to the root, and every image that this image builds on, however
  long the chain of incremental dumps and pre-dumps, is still on disk.
\<close>

theorem restore_finds_images:
  assumes "adaptive_reaches st" "restore_adaptive st target lazy_ok criu_ok = Inr plan"
  shows "(\<exists>k e. ancestor (up_of (registry st)) target k \<and> map_of (registry st) k = Some e
        \<and> ci_strategy e \<noteq> By Lightweight \<and> mem_path e = rp_image plan)
    \<and> (\<forall>x. ancestor (prev_of (images st)) (rp_image plan) x \<longrightarrow> map_of (images st) x \<noteq> None)"
  using restore_image_chain [OF adaptive_reaches_inv [OF assms(1)] assms(2)] by (simp add: full_def)

text \<open>
  C29. Pruning returns in every reachable state, and a node that the search still holds restores
  exactly as before: same answer, same image, same commands to replay, with all its images on disk.
\<close>

theorem beam_prune_safe:
  assumes "adaptive_reaches st"
  shows "\<exists>res st'. beam_prune sizes rm_ok active st = Some (res, st')
    \<and> (\<forall>a \<in> set active. restore_adaptive st' a lazy_ok criu_ok = restore_adaptive st a lazy_ok criu_ok
       \<and> (\<forall>plan x. restore_adaptive st' a lazy_ok criu_ok = Inr plan
            \<and> ancestor (prev_of (images st')) (rp_image plan) x \<longrightarrow> map_of (images st') x \<noteq> None))"
proof -
  note inv = adaptive_reaches_inv [OF assms]
  have "beam_prune sizes rm_ok active st \<noteq> None"
    using keep_paths_returns [OF adaptive_invD(1) [OF inv], of active] by (auto simp: beam_prune_def)
  then obtain x where "beam_prune sizes rm_ok active st = Some x" by blast
  then obtain res st' where r: "beam_prune sizes rm_ok active st = Some (res, st')" by (cases x) simp
  then show ?thesis using beam_prune_restore [OF inv r] restore_image_chain [OF beam_prune_inv [OF inv r]] by blast
qed


section \<open>Witnesses\<close>

definition wit_env :: "string \<Rightarrow> adapt_env" where
  "wit_env i = \<lparr>new_id = i, proc_entries = [], maps_lines = None, smaps_lines = None, mountinfo_lines = None,
     predump_ok = True, dump_ok = True, dump_size = 4\<rparr>"

definition wit_start :: adaptive where
  "wit_start = new_adaptive 7 ''/snap'' False False False False"

definition wit_one :: adaptive where
  "wit_one = snd (the (checkpoint_adaptive (wit_env ''aa'') None ''step'' ''make'' wit_start))"

lemma wit_one_reaches: "adaptive_reaches wit_one"
proof (rule adaptive_reaches.checkpoint)
  show "adaptive_reaches wit_start" unfolding wit_start_def by (rule adaptive_reaches.start)
  show "checkpoint_adaptive (wit_env ''aa'') None ''step'' ''make'' wit_start
    = Some (fst (the (checkpoint_adaptive (wit_env ''aa'') None ''step'' ''make'' wit_start)), wit_one)"
    unfolding wit_one_def by code_simp
qed (simp_all add: fresh_id_def wit_start_def wit_env_def new_adaptive_def)

lemma wit_one_restore:
  "restore_adaptive wit_one ''aa'' False True
    = Inr \<lparr>rp_image = ''/snap/step_aa_mem'', rp_lazy = None, rp_replay = []\<rparr>"
  by code_simp

theorem dump_parent_sound_witness:
  "\<exists>e. wf_reg (registry wit_one) \<and> dump_parent (registry wit_one) (Some ''aa'') = Some (Some ''/snap/step_aa_mem'')
     \<and> map_of (registry wit_one) ''aa'' = Some e \<and> ci_strategy e \<noteq> By Lightweight"
proof -
  have w: "wf_reg (registry wit_one)" by (rule adaptive_invD(1) [OF adaptive_reaches_inv [OF wit_one_reaches]])
  have d: "dump_parent (registry wit_one) (Some ''aa'') = Some (Some ''/snap/step_aa_mem'')" by code_simp
  have u: "up_of (registry wit_one) ''aa'' = None" by code_simp
  from dump_parent_sound [OF w, of "Some ''aa''"] d obtain k e where
    "ancestor (up_of (registry wit_one)) ''aa'' k" "map_of (registry wit_one) k = Some e" "ci_strategy e \<noteq> By Lightweight"
    by auto
  with u w d show ?thesis by (auto simp: ancestor_cases_front [of _ "''aa''"])
qed

theorem restore_finds_images_witness:
  "map_of (images wit_one) ''/snap/step_aa_mem'' \<noteq> None"
  using restore_finds_images [OF wit_one_reaches wit_one_restore] by (auto intro: ancestor.self)

theorem beam_prune_safe_witness:
  "\<exists>res st'. beam_prune (\<lambda>_. 4) (\<lambda>_. True) [''aa''] wit_one = Some (res, st')
     \<and> restore_adaptive st' ''aa'' False True
        = Inr \<lparr>rp_image = ''/snap/step_aa_mem'', rp_lazy = None, rp_replay = []\<rparr>"
  using beam_prune_safe [OF wit_one_reaches, of "\<lambda>_. 4" "\<lambda>_. True" "[''aa'']" False True] wit_one_restore
  by auto

end
