(* ===== verification/Controller_State.thy ===== *)
theory Controller_State
  imports Proc_Files
begin

text \<open>
  The state of \<^verbatim>\<open>SandboxController\<close> (\<^verbatim>\<open>backends/deltabox/gsd/sandbox_controller.py\<close>) with its pool of
  frozen templates (\<^verbatim>\<open>template_fork.py\<close>), the registry entries of both checkpoint protocols, and the
  small operations that the larger ones share. Everything the controller does to the outside world is
  recorded, in order, in a list of events. The answers of the outside world are arguments.
\<close>

section \<open>Registry entries\<close>

text \<open>A future of the dump pool: still running, finished, or finished with an exception.\<close>

datatype dump_fut = Pending | Finished | Raised string

datatype phase = WARM_READY | DUMPING | DURABLE_READY | DURABLE_FAILED

record centry =
  e_id :: string
  e_mem_path :: string
  e_parent_id :: "string option"
  e_layers :: "string list"
  e_strategy :: string
  e_template_pid :: "nat option"
  e_async_dump_pid :: "nat option"
  e_future :: "dump_fut option"
  e_dump_error :: "string option"
  e_stats_error :: "string option"
  e_dump_tree_pid :: nat
  e_ns_init_pid :: nat
  e_external_pidns :: bool
  e_fixed_active_pid :: "nat option"
  e_prev_ckpt_id :: "string option"
  e_effective :: "string option option"
  e_replay_cmds :: "(string \<times> string) list"
  e_protocol :: "string option"
  e_phase :: "phase option"
  e_dispose_done :: bool

section \<open>Effects on the outside world\<close>

datatype sig = SIGKILL | SIGSTOP | SIGCONT

datatype event =
    Join string
  | Kill sig nat
  | Waitpid nat
  | Prepare
  | Wait_exit "nat list"
  | Reap_pid nat nat
  | Reap_children nat
  | Wait_slot
  | Switch "string list" string string string
  | Rename string string
  | Makedirs string
  | Rmtree string
  | Criu "string list"
  | Submit string "string list"
  | Dispatch_fork nat "nat option"
  | Root_checkpoint string
  | Root_restore string
  | Epoch nat
  | Abort_pending
  | Unlink_responses
  | Reset_channels

record controller =
  enable_warm_template :: bool
  checkpoint_stash_template :: bool
  prefork_template_dump :: bool
  async_template_full_dump :: bool
  enable_incremental_dump :: bool
  enable_adaptive :: bool
  fixed_active_pid :: "nat option"
  restore_fastfork_dump_pid :: bool
  enable_criu_lazy_restore :: bool
  parallel_lazy_restore :: bool
  async_incremental :: bool
  snapshot_store :: string
  layers_root :: string
  base_layer :: string
  overlay_mount_point :: string
  root_overlay_args :: "string list option"
  agent_pid :: nat
  ns_init_pid :: nat
  cregistry :: "(string \<times> centry) list"
  templates :: "(string \<times> nat) list"
  current_upper :: string
  current_work :: string
  last_predump :: "(string \<times> nat) option"
  active_dump_owner :: "string option"
  last_restore_target :: "string option"
  last_killed :: "nat list"
  pending_reaps :: "(nat \<times> (nat \<times> nat) list) list"
  current_epoch :: nat
  events :: "event list"

definition emit :: "event \<Rightarrow> controller \<Rightarrow> controller" where
  "emit e st = st\<lparr>events := events st @ [e]\<rparr>"

definition emits :: "event list \<Rightarrow> controller \<Rightarrow> controller" where
  "emits es st = st\<lparr>events := events st @ es\<rparr>"

lemma emit_simps [simp]:
  "events (emit e st) = events st @ [e]" "templates (emit e st) = templates st" "cregistry (emit e st) = cregistry st"
  "agent_pid (emit e st) = agent_pid st" "ns_init_pid (emit e st) = ns_init_pid st"
  "active_dump_owner (emit e st) = active_dump_owner st" "pending_reaps (emit e st) = pending_reaps st"
  "fixed_active_pid (emit e st) = fixed_active_pid st" "last_killed (emit e st) = last_killed st"
  "restore_fastfork_dump_pid (emit e st) = restore_fastfork_dump_pid st"
  "enable_warm_template (emit e st) = enable_warm_template st"
  "current_upper (emit e st) = current_upper st" "current_work (emit e st) = current_work st"
  "current_epoch (emit e st) = current_epoch st"
  by (simp_all add: emit_def)

lemma emits_simps [simp]:
  "events (emits es st) = events st @ es" "templates (emits es st) = templates st" "cregistry (emits es st) = cregistry st"
  "agent_pid (emits es st) = agent_pid st" "ns_init_pid (emits es st) = ns_init_pid st"
  "active_dump_owner (emits es st) = active_dump_owner st" "pending_reaps (emits es st) = pending_reaps st"
  "fixed_active_pid (emits es st) = fixed_active_pid st" "last_killed (emits es st) = last_killed st"
  "restore_fastfork_dump_pid (emits es st) = restore_fastfork_dump_pid st"
  "enable_warm_template (emits es st) = enable_warm_template st"
  "current_upper (emits es st) = current_upper st" "current_work (emits es st) = current_work st"
  "current_epoch (emits es st) = current_epoch st"
  by (simp_all add: emits_def)

section \<open>The constructor\<close>

text \<open>
  \<^verbatim>\<open>SandboxController.__init__\<close> with its switches read from the environment. \<^verbatim>\<open>root_args\<close> are the mount
  options of the root overlays, if there are any; a PID is an unsigned decimal numeral.
\<close>

definition env_flag :: "(string \<Rightarrow> string option) \<Rightarrow> string \<Rightarrow> string \<Rightarrow> string" where
  "env_flag environ name dflt = (case environ name of Some v \<Rightarrow> v | None \<Rightarrow> dflt)"

definition parse_fixed_active_pid :: "(string \<Rightarrow> string option) \<Rightarrow> nat option" where
  "parse_fixed_active_pid environ = (case environ ''DELTABOX_FIXED_ACTIVE_PID'' of
       None \<Rightarrow> None
     | Some raw \<Rightarrow> (case decimal (strip_ws raw) of Some pid \<Rightarrow> if pid \<le> 1 then None else Some pid | None \<Rightarrow> None))"

definition init_controller ::
  "(string \<Rightarrow> string option) \<Rightarrow> nat \<Rightarrow> nat option \<Rightarrow> bool \<Rightarrow> bool \<Rightarrow> bool \<Rightarrow> string \<Rightarrow> string \<Rightarrow> string \<Rightarrow> string
     \<Rightarrow> string \<Rightarrow> string \<Rightarrow> string list option \<Rightarrow> controller" where
  "init_controller environ pid ns_init adaptive warm_tmpl incremental store layers upper work mount_point base root_args =
     (let on = (\<lambda>name dflt. env_flag environ name dflt = ''1'');
          fixed = parse_fixed_active_pid environ;
          async = on ''DELTABOX_ASYNC_TEMPLATE_FULL_DUMP'' ''0'' in
      \<lparr>enable_warm_template = warm_tmpl, checkpoint_stash_template = on ''DELTABOX_CHECKPOINT_STASH_TEMPLATE'' ''1'',
       prefork_template_dump = on ''DELTABOX_PREFORK_TEMPLATE_DUMP'' ''0'', async_template_full_dump = async,
       enable_incremental_dump = (incremental \<and> \<not> async), enable_adaptive = adaptive, fixed_active_pid = fixed,
       restore_fastfork_dump_pid = (fixed \<noteq> None \<and> on ''DELTABOX_RESTORE_FASTFORK_DUMP_PID'' ''0''),
       enable_criu_lazy_restore = on ''DELTABOX_CRIU_LAZY_RESTORE'' ''0'',
       parallel_lazy_restore = (env_flag environ ''DELTABOX_CRIU_LAZY_RESTORE_PARALLEL'' ''1'' \<noteq> ''0''),
       async_incremental = (environ ''DELTABOX_ASYNC_INCREMENTAL_DUMP'' = Some ''1''),
       snapshot_store = store, layers_root = layers, base_layer = base, overlay_mount_point = mount_point,
       root_overlay_args = root_args, agent_pid = pid,
       ns_init_pid = (case ns_init of Some n \<Rightarrow> if n = 0 then pid else n | None \<Rightarrow> pid), cregistry = [], templates = [],
       current_upper = upper, current_work = work, last_predump = None, active_dump_owner = None,
       last_restore_target = None, last_killed = [], pending_reaps = [], current_epoch = 0,
       events = [Makedirs store, Makedirs layers, Epoch 0]\<rparr>)"

lemma init_controller_modes:
  "restore_fastfork_dump_pid (init_controller environ p n a w i s l u k m b r) \<Longrightarrow>
     \<exists>x > 1. fixed_active_pid (init_controller environ p n a w i s l u k m b r) = Some x"
  "async_template_full_dump (init_controller environ p n a w i s l u k m b r) \<Longrightarrow>
     \<not> enable_incremental_dump (init_controller environ p n a w i s l u k m b r)"
  by (auto simp: init_controller_def Let_def parse_fixed_active_pid_def split: option.splits if_splits)

section \<open>The template pool\<close>

text \<open>\<^verbatim>\<open>template_pool.templates\<close>; the pool exists exactly in the warm-template mode.\<close>

definition template_pids :: "controller \<Rightarrow> nat set" where
  "template_pids st = (if enable_warm_template st then snd ` set (templates st) else {})"

text \<open>\<^verbatim>\<open>TemplatePool.get\<close>: a template whose process is gone is dropped.\<close>

definition pool_get :: "procs \<Rightarrow> string option \<Rightarrow> controller \<Rightarrow> nat option \<times> controller" where
  "pool_get t sid st = (if \<not> enable_warm_template st then (None, st)
     else case Option.bind sid (map_of (templates st)) of
         None \<Rightarrow> (None, st)
       | Some pid \<Rightarrow> if map_of t pid = None then (None, st\<lparr>templates := AList.delete (the sid) (templates st)\<rparr>)
                    else (Some pid, st))"

text \<open>\<^verbatim>\<open>TemplatePool.discard\<close>.\<close>

definition pool_discard :: "string \<Rightarrow> controller \<Rightarrow> controller" where
  "pool_discard sid st = (case map_of (templates st) sid of None \<Rightarrow> st
     | Some pid \<Rightarrow> emit (Kill SIGKILL pid) (st\<lparr>templates := AList.delete sid (templates st)\<rparr>))"

text \<open>
  \<^verbatim>\<open>TemplatePool.request_fork\<close> and \<^verbatim>\<open>request_stash_template\<close>: \<^verbatim>\<open>reply\<close> is the host PID of the new process,
  once the agent's answer has been translated, or \<^term>\<open>None\<close> after a timeout or a refusal. A successful
  fork freezes the source as the template of the snapshot; a stash makes the new process the template.
\<close>

definition request_fork :: "nat option \<Rightarrow> nat \<Rightarrow> string option \<Rightarrow> controller \<Rightarrow> nat option \<times> controller" where
  "request_fork reply source_pid snapshot_id st =
     (let st = emit (Dispatch_fork source_pid None) st in
      case reply of None \<Rightarrow> (None, st)
      | Some child \<Rightarrow> (Some child, case snapshot_id of None \<Rightarrow> st
          | Some sid \<Rightarrow> st\<lparr>templates := AList.update sid source_pid (templates st)\<rparr>))"

definition request_stash_template :: "nat option \<Rightarrow> nat \<Rightarrow> string option \<Rightarrow> controller \<Rightarrow> nat option \<times> controller" where
  "request_stash_template reply source_pid snapshot_id st =
     (let st = emit (Dispatch_fork source_pid None) st in
      case reply of None \<Rightarrow> (None, st)
      | Some pid \<Rightarrow> (Some pid, case snapshot_id of None \<Rightarrow> st
          | Some sid \<Rightarrow> st\<lparr>templates := AList.update sid pid (templates st)\<rparr>))"

section \<open>Epochs and in-flight requests\<close>

text \<open>\<^verbatim>\<open>_bump_epoch\<close> with \<^verbatim>\<open>_persist_epoch\<close>, and \<^verbatim>\<open>_invalidate_inflight_llm\<close>.\<close>

definition bump_epoch :: "controller \<Rightarrow> controller" where
  "bump_epoch st = (let st = st\<lparr>current_epoch := current_epoch st + 1\<rparr> in emit (Epoch (current_epoch st)) st)"

definition invalidate_inflight_llm :: "controller \<Rightarrow> controller" where
  "invalidate_inflight_llm st = emit Abort_pending (emit Unlink_responses (bump_epoch st))"

section \<open>Layers\<close>

definition all_ext_mount_map_args :: "controller \<Rightarrow> string list" where
  "all_ext_mount_map_args st = [''--ext-mount-map'', overlay_mount_point st @ '':'' @ overlay_mount_point st]
     @ (case root_overlay_args st of None \<Rightarrow> [] | Some args \<Rightarrow> args)"

text \<open>\<^verbatim>\<open>_apply_overlay_switch\<close>: the option string that the ioctl takes; \<^verbatim>\<open>errno\<close> is its failure, if any.\<close>

definition overlay_options :: "string list \<Rightarrow> string \<Rightarrow> string \<Rightarrow> string \<Rightarrow> string" where
  "overlay_options layers upper_path work_path kind =
     ''lowerdir='' @ join_on (CHR '':'') layers @ '',upperdir='' @ upper_path @ '',workdir='' @ work_path
     @ '',ovl_kind='' @ kind"

definition ENOTTY :: int where "ENOTTY = 25"

definition apply_overlay_switch ::
  "int option \<Rightarrow> string list \<Rightarrow> string \<Rightarrow> string \<Rightarrow> string \<Rightarrow> controller \<Rightarrow> (unit, controller) eff" where
  "apply_overlay_switch errno layers upper_path work_path kind st =
     (case errno of
        None \<Rightarrow> (Inr (), emit (Switch layers upper_path work_path kind) st)
      | Some e \<Rightarrow> if e = ENOTTY then (Inl (RuntimeError ''DeltaBox OverlayFS layer switching is unavailable''), st)
                  else (Inl (OSError ''ioctl''), st))"

section \<open>Dump roots\<close>

definition current_dump_tree_pid :: "bool \<Rightarrow> controller \<Rightarrow> nat" where
  "current_dump_tree_pid fresh_pidns st =
     (if enable_warm_template st \<and> (checkpoint_stash_template st \<or> async_template_full_dump st \<or> fresh_pidns)
      then agent_pid st else ns_init_pid st)"

definition agent_inner_pid :: "procs \<Rightarrow> controller \<Rightarrow> nat option" where
  "agent_inner_pid t st = (let ns = pid_nspids t (agent_pid st) in if ns = [] then None else Some (last ns))"

definition need_fixed_dump_clone :: "procs \<Rightarrow> string \<Rightarrow> controller \<Rightarrow> bool" where
  "need_fixed_dump_clone t strategy st \<longleftrightarrow>
     restore_fastfork_dump_pid st \<and> enable_warm_template st \<and> strategy \<noteq> ''lightweight''
     \<and> (case agent_inner_pid t st of None \<Rightarrow> False | Some p \<Rightarrow> Some p \<noteq> fixed_active_pid st)"

definition external_pidns_args :: "procs \<Rightarrow> nat \<Rightarrow> controller \<Rightarrow> string list" where
  "external_pidns_args t dump_tree_pid st =
     (if is_pidns_init t (ns_init_pid st) dump_tree_pid then []
      else case pid_ns_inode t dump_tree_pid of
          Some inode \<Rightarrow> if inode = [] then [] else [''--external'', ''pid['' @ inode @ '']:deltabox_pidns'']
        | None \<Rightarrow> [])"

end
