(* ===== verification/Active_Kill.thy ===== *)
theory Active_Kill
  imports Controller_State
begin

text \<open>
  How \<^verbatim>\<open>sandbox_controller.py\<close> ends processes: the active agent before a restore, the stale descendants
  of a template, and the whole template pool before a cold restore into the same PID namespace; and how
  it reaps what it has killed. The process table is read several times; each reading is an argument.
\<close>

section \<open>Killing\<close>

text \<open>
  \<^verbatim>\<open>_join_active_dump_before_kill\<close>. The wait ends with the future or after thirty seconds; either way the
  method goes on.
\<close>

definition must_join :: "controller \<Rightarrow> string option" where
  "must_join st = (case active_dump_owner st of
       None \<Rightarrow> None
     | Some ckpt_id \<Rightarrow> if ckpt_id = [] then None else
         (case map_of (cregistry st) ckpt_id of
            None \<Rightarrow> None
          | Some entry \<Rightarrow>
              if (case e_async_dump_pid entry of Some p \<Rightarrow> p \<noteq> 0 \<and> p \<noteq> agent_pid st | None \<Rightarrow> False) then None
              else if e_future entry = Some Pending then Some ckpt_id else None))"

definition join_active_dump_before_kill :: "controller \<Rightarrow> controller" where
  "join_active_dump_before_kill st = (case must_join st of None \<Rightarrow> st | Some ckpt_id \<Rightarrow> emit (Join ckpt_id) st)"

text \<open>
  \<^verbatim>\<open>_kill_pids_and_wait\<close>: leaves first, then the non-blocking reaps, the preparation that runs while the
  victims exit, and the wait, which happens even when the preparation fails.
\<close>

definition kill_pids_and_wait ::
  "nat list \<Rightarrow> (controller \<Rightarrow> (unit, controller) eff) option \<Rightarrow> controller \<Rightarrow> (unit, controller) eff" where
  "kill_pids_and_wait pids during_exit st =
     (let st = emits (map (Kill SIGKILL) (rev pids) @ map Waitpid pids) st in
      case during_exit of
        None \<Rightarrow> (Inr (), emit (Wait_exit pids) st)
      | Some prepare \<Rightarrow> (case prepare st of (r, st) \<Rightarrow> (r, emit (Wait_exit pids) st)))"

definition queue_template_cleanup :: "nat \<Rightarrow> nat \<Rightarrow> nat \<Rightarrow> controller \<Rightarrow> controller" where
  "queue_template_cleanup template_pid dead_child_pid dead_child_host_pid st =
     (if template_pid \<noteq> 0 \<and> dead_child_pid \<noteq> 0
      then let old = dict_get (pending_reaps st) template_pid [] in
        st\<lparr>pending_reaps := AList.update template_pid (List.insert (dead_child_pid, dead_child_host_pid) old) (pending_reaps st)\<rparr>
      else st)"

text \<open>
  \<^verbatim>\<open>_kill_active_subtree\<close>. \<^verbatim>\<open>before\<close> and \<^verbatim>\<open>after\<close> are the process table before and after the kill;
  \<^verbatim>\<open>reap_pid_ans\<close> and \<^verbatim>\<open>reap_children_ans\<close> what the template answers.
\<close>

record kill_env =
  before :: procs
  after :: procs
  reap_pid_ans :: "nat list option"
  reap_children_ans :: "nat list option"

definition pending_writers :: "controller \<Rightarrow> nat set" where
  "pending_writers st = {p. \<exists>k e. (k, e) \<in> set (cregistry st) \<and> e_async_dump_pid e = Some p \<and> p \<noteq> 0
     \<and> e_future e = Some Pending}"

lemma pending_writers_code [code]:
  "pending_writers st = set (List.map_filter (\<lambda>(k, e). if e_future e = Some Pending then
     (case e_async_dump_pid e of Some p \<Rightarrow> if p \<noteq> 0 then Some p else None | None \<Rightarrow> None) else None) (cregistry st))"
  by (force simp: pending_writers_def List.map_filter_def image_iff split: option.splits if_splits)

definition inline_reap :: "kill_env \<Rightarrow> nat option \<Rightarrow> nat \<Rightarrow> bool \<Rightarrow> controller \<Rightarrow> bool \<times> controller" where
  "inline_reap env reaper reaper_child reapable st =
     (case (reaper, fixed_active_pid st) of
        (Some r, Some fixed) \<Rightarrow>
          if \<not> restore_fastfork_dump_pid st \<and> reapable
             \<and> translate_pid_in_ns (after env) fixed (ns_init_pid st) \<noteq> None then
            let st = emit (Reap_pid r reaper_child) st in
            (case reap_pid_ans env of
               Some (x # xs) \<Rightarrow> (True, st)
             | _ \<Rightarrow> (reap_children_ans env \<noteq> None, emit (Reap_children r) st))
          else (False, st)
      | _ \<Rightarrow> (False, st))"

definition kill_active_subtree ::
  "kill_env \<Rightarrow> (controller \<Rightarrow> (unit, controller) eff) option \<Rightarrow> controller \<Rightarrow> (unit, controller) eff" where
  "kill_active_subtree env during_exit st =
     (let tps = template_pids st;
          st = join_active_dump_before_kill st;
          protected = tps \<union> pending_writers st;
          to_kill = collect_subtree_pids (before env) (agent_pid st) protected;
          st = st\<lparr>last_killed := to_kill\<rparr>;
          reaper = pid_ppid (before env) (agent_pid st);
          reaper_child = (case reaper of Some r \<Rightarrow> pid_as_seen_by (before env) (agent_pid st) r | None \<Rightarrow> agent_pid st);
          dead_host_pid = agent_pid st in
      case kill_pids_and_wait to_kill during_exit st of (prepared, st) \<Rightarrow>
      let reapable = enable_warm_template st \<and> (\<exists>r \<in> set_option reaper. r \<in> tps) \<and> dead_host_pid \<in> set to_kill in
      case inline_reap env reaper reaper_child reapable st of (reaped_inline, st) \<Rightarrow>
      let st = emit Wait_slot st;
          st = (if \<not> reaped_inline \<and> reapable then queue_template_cleanup (the reaper) reaper_child dead_host_pid st
                else st) in
      (prepared, st))"

section \<open>Templates\<close>

text \<open>\<^verbatim>\<open>_kill_template_descendants\<close>.\<close>

definition stale_descendants :: "procs \<Rightarrow> nat \<Rightarrow> nat set \<Rightarrow> controller \<Rightarrow> nat list" where
  "stale_descendants t template_pid keep_pids st =
     filter (\<lambda>pid. pid \<notin> keep_pids \<union> template_pids st \<union> {template_pid}) (collect_descendant_pids t template_pid)"

definition reaper_pids :: "procs \<Rightarrow> nat \<Rightarrow> nat list \<Rightarrow> controller \<Rightarrow> nat list" where
  "reaper_pids t template_pid stale st = sort (remdups (template_pid #
     filter (\<lambda>p. p \<in> template_pids st \<or> p = template_pid) (List.map_filter (pid_ppid t) stale)))"

definition kill_template_descendants :: "procs \<Rightarrow> procs \<Rightarrow> nat \<Rightarrow> nat set \<Rightarrow> controller \<Rightarrow> controller" where
  "kill_template_descendants t t' template_pid keep_pids st =
     (let stale = stale_descendants t template_pid keep_pids st in
      if stale = [] then st
      else
        let st1 = snd (kill_pids_and_wait stale None st) in
        if \<not> enable_warm_template st then st1
        else
          let st2 = emits (map Reap_children (filter (\<lambda>r. \<not> pid_gone_or_zombie t' r) (reaper_pids t template_pid stale st))) st1 in
          st2\<lparr>templates := filter (\<lambda>(sid, pid). \<not> (pid \<in> set stale \<or> pid_gone_or_zombie t' pid)) (templates st2)\<rparr>)"

text \<open>\<^verbatim>\<open>_drain_pending_template_cleanup\<close>; \<^verbatim>\<open>stop_ok\<close>: whether the active agent could be stopped.\<close>

definition drain_pending_template_cleanup :: "procs \<Rightarrow> bool \<Rightarrow> controller \<Rightarrow> controller" where
  "drain_pending_template_cleanup t stop_ok st =
     (if pending_reaps st = [] then st
      else
        let pending = pending_reaps st;
            st = st\<lparr>pending_reaps := []\<rparr>;
            requests = (if enable_warm_template st then concat (map (\<lambda>(template_pid, children).
               if pid_gone_or_zombie t template_pid then []
               else map (\<lambda>(child, host). Reap_pid template_pid child)
                 (sort_key fst (sort_key snd children))) (sort_key fst pending)) else []) in
        emits ((if stop_ok then [Kill SIGSTOP (agent_pid st)] else []) @ requests
          @ (if stop_ok \<and> map_of t (agent_pid st) \<noteq> None then [Kill SIGCONT (agent_pid st)] else [])) st)"

section \<open>The pool before a cold restore\<close>

definition check_external_restore_pool_clear_allowed :: "bool \<Rightarrow> unit result" where
  "check_external_restore_pool_clear_allowed allow_clear =
     raise_if (\<not> allow_clear) (DumpUnavailableError ''external-pidns cold restore would clear warm-template pool'')"

text \<open>
  \<^verbatim>\<open>_wait_external_restore_reaped\<close>: the polls until the deadline, each a reading of the process table. Only
  a process that is no longer there counts.
\<close>

fun wait_reaped :: "procs list \<Rightarrow> nat list \<Rightarrow> unit result" where
  "wait_reaped [] pending = (if pending = [] then Inr ()
     else Inl (RuntimeError ''external restore blocked by unreaped host PIDs''))"
| "wait_reaped (t # polls) pending = (if pending = [] then Inr ()
     else wait_reaped polls (filter (\<lambda>pid. map_of t pid \<noteq> None) pending))"

definition wait_external_restore_reaped :: "procs list \<Rightarrow> nat set \<Rightarrow> controller \<Rightarrow> unit result" where
  "wait_external_restore_reaped polls pids st =
     wait_reaped polls (sorted_list_of_set {pid \<in> pids. pid \<noteq> 0 \<and> pid \<noteq> ns_init_pid st})"

definition external_kill_list :: "procs \<Rightarrow> controller \<Rightarrow> nat list" where
  "external_kill_list t st =
     (let tps = sort (remdups (filter (\<lambda>pid. pid \<noteq> 0 \<and> pid \<noteq> ns_init_pid st)
        (if enable_warm_template st then map snd (templates st) else []))) in
      foldl (\<lambda>to_kill pid. if pid_gone_or_zombie t pid then to_kill
          else foldl (\<lambda>acc p. if p = ns_init_pid st \<or> p \<in> set acc then acc else acc @ [p]) to_kill
            (collect_subtree_pids t pid {})) [] tps)"

definition clear_templates_for_external_restore ::
  "bool \<Rightarrow> procs \<Rightarrow> procs list \<Rightarrow> controller \<Rightarrow> (unit, controller) eff" where
  "clear_templates_for_external_restore allow_clear t polls st =
     bind_eff (check_external_restore_pool_clear_allowed allow_clear, st) (\<lambda>_ st.
       let tps = {pid \<in> template_pids st. pid \<noteq> 0 \<and> pid \<noteq> ns_init_pid st};
           to_kill = external_kill_list t st;
           to_reap = set (last_killed st) \<union> tps
             \<union> (if agent_pid st \<noteq> ns_init_pid st then {agent_pid st} else {}) \<union> set to_kill;
           st = (if to_kill \<noteq> [] then snd (kill_pids_and_wait to_kill None st) else st);
           st = (if enable_warm_template st then st\<lparr>templates := []\<rparr> else st);
           st = st\<lparr>pending_reaps := []\<rparr>;
           st = (if enable_warm_template st \<and> (fixed_active_pid st = None \<or> fixed_active_pid st = Some 0)
                    \<and> map_of t (ns_init_pid st) \<noteq> None
                 then emit (Reap_children (ns_init_pid st)) st else st) in
       (wait_external_restore_reaped polls to_reap st, st))"

section \<open>Properties\<close>

text \<open>Which PIDs the events of an operation kill.\<close>

definition kills :: "event list \<Rightarrow> nat set" where
  "kills es = {p. Kill SIGKILL p \<in> set es}"

lemma kills_simps [simp]:
  "kills [] = {}" "kills (es @ es') = kills es \<union> kills es'"
  "kills (e # es) = (case e of Kill SIGKILL p \<Rightarrow> insert p (kills es) | _ \<Rightarrow> kills es)"
  by (auto simp: kills_def split: event.splits sig.splits)

lemma kills_map [simp]:
  "kills (map (Kill SIGKILL) ps) = set ps" "kills (map Waitpid ps) = {}" "kills (map Reap_children ps) = {}"
  by (auto simp: kills_def)

text \<open>A preparation that leaves the registry, the pool and the identity of the agent alone and kills nothing.\<close>

definition quiet :: "(controller \<Rightarrow> (unit, controller) eff) \<Rightarrow> bool" where
  "quiet prepare \<longleftrightarrow> (\<forall>st. \<exists>es. events (snd (prepare st)) = events st @ es \<and> kills es = {}
     \<and> templates (snd (prepare st)) = templates st \<and> cregistry (snd (prepare st)) = cregistry st
     \<and> agent_pid (snd (prepare st)) = agent_pid st
     \<and> enable_warm_template (snd (prepare st)) = enable_warm_template st)"

lemma join_same [simp]:
  "templates (join_active_dump_before_kill st) = templates st" "cregistry (join_active_dump_before_kill st) = cregistry st"
  "agent_pid (join_active_dump_before_kill st) = agent_pid st"
  "enable_warm_template (join_active_dump_before_kill st) = enable_warm_template st"
  "pending_writers (join_active_dump_before_kill st) = pending_writers st"
  "events (join_active_dump_before_kill st) = events st @ (case must_join st of None \<Rightarrow> [] | Some i \<Rightarrow> [Join i])"
  by (simp_all add: join_active_dump_before_kill_def pending_writers_def split: option.splits)

lemma inline_reap_same:
  "inline_reap env r c b st = (x, st') \<Longrightarrow> templates st' = templates st \<and> cregistry st' = cregistry st
     \<and> agent_pid st' = agent_pid st \<and> (\<exists>es. events st' = events st @ es \<and> kills es = {})"
  by (auto simp: inline_reap_def Let_def split: if_splits option.splits list.splits)

lemma queue_same [simp]:
  "templates (queue_template_cleanup a b c st) = templates st" "cregistry (queue_template_cleanup a b c st) = cregistry st"
  "agent_pid (queue_template_cleanup a b c st) = agent_pid st" "events (queue_template_cleanup a b c st) = events st"
  by (simp_all add: queue_template_cleanup_def Let_def)

lemma kill_pids_and_wait_effect:
  assumes "kill_pids_and_wait pids during st = (r, st')" "case during of None \<Rightarrow> True | Some p \<Rightarrow> quiet p"
  shows "\<exists>es. events st' = events st @ map (Kill SIGKILL) (rev pids) @ map Waitpid pids @ es @ [Wait_exit pids] \<and> kills es = {}"
    "templates st' = templates st" "cregistry st' = cregistry st" "agent_pid st' = agent_pid st"
    "enable_warm_template st' = enable_warm_template st"
proof -
  have q: "quiet p \<Longrightarrow> \<exists>es. events (snd (p s)) = events s @ es \<and> kills es = {}
     \<and> templates (snd (p s)) = templates s \<and> cregistry (snd (p s)) = cregistry s \<and> agent_pid (snd (p s)) = agent_pid s
     \<and> enable_warm_template (snd (p s)) = enable_warm_template s" for p s
    by (simp add: quiet_def)
  note all = assms q [of _ "emits (map (Kill SIGKILL) (rev pids) @ map Waitpid pids) st"]
  show "\<exists>es. events st' = events st @ map (Kill SIGKILL) (rev pids) @ map Waitpid pids @ es @ [Wait_exit pids] \<and> kills es = {}"
    "templates st' = templates st" "cregistry st' = cregistry st" "agent_pid st' = agent_pid st"
    "enable_warm_template st' = enable_warm_template st"
    using all by (force simp: kill_pids_and_wait_def Let_def split: option.splits prod.splits)+
qed

text \<open>
  C8. Killing the active agent before a restore kills exactly its live subtree, cut at the frozen
  templates and at the writers of unfinished dumps, none of which is ever killed; it first waits for a
  dump that reads the agent's own memory; it waits for the victims before it returns, whatever the
  overlapped preparation does; and it leaves the pool and the registry as they are.
\<close>

theorem kill_active_safe:
  assumes "kill_active_subtree env during st = (r, st')" "case during of None \<Rightarrow> True | Some p \<Rightarrow> quiet p"
  shows "\<exists>es. events st' = events st @ es
    \<and> kills es = {p. subtree (before env) (template_pids st \<union> pending_writers st) (agent_pid st) p}
    \<and> kills es \<inter> (template_pids st \<union> pending_writers st) = {}
    \<and> (\<forall>ckpt_id. must_join st = Some ckpt_id \<longrightarrow> hd es = Join ckpt_id)
    \<and> (\<exists>pids. set pids = kills es \<and> Wait_exit pids \<in> set es)
    \<and> templates st' = templates st \<and> cregistry st' = cregistry st \<and> agent_pid st' = agent_pid st"
proof -
  define tk where "tk = collect_subtree_pids (before env) (agent_pid st) (template_pids st \<union> pending_writers st)"
  define st1 where "st1 = (join_active_dump_before_kill st)\<lparr>last_killed := tk\<rparr>"
  obtain prepared st2 where k: "kill_pids_and_wait tk during st1 = (prepared, st2)" by fastforce
  note ke = kill_pids_and_wait_effect [OF k assms(2)]
  obtain es1 where es1: "events st2 = events st1 @ map (Kill SIGKILL) (rev tk) @ map Waitpid tk @ es1 @ [Wait_exit tk]"
    "kills es1 = {}" using ke(1) by blast
  define j where "j = (case must_join st of None \<Rightarrow> [] | Some i \<Rightarrow> [Join i])"
  have ev1: "events st1 = events st @ j" by (simp add: st1_def j_def)
  define reaper where "reaper = pid_ppid (before env) (agent_pid st)"
  define rc where "rc = (case reaper of Some r \<Rightarrow> pid_as_seen_by (before env) (agent_pid st) r | None \<Rightarrow> agent_pid st)"
  define ok where "ok = (enable_warm_template st2 \<and> (\<exists>r \<in> set_option reaper. r \<in> template_pids st) \<and> agent_pid st \<in> set tk)"
  obtain b st3 where ir: "inline_reap env reaper rc ok st2 = (b, st3)" by fastforce
  from inline_reap_same [OF ir] obtain es2 where s: "templates st3 = templates st2" "cregistry st3 = cregistry st2"
    "agent_pid st3 = agent_pid st2" "events st3 = events st2 @ es2" "kills es2 = {}" by blast
  have "st' = (let s = emit Wait_slot st3 in if \<not> b \<and> ok then queue_template_cleanup (the reaper) rc (agent_pid st) s else s)"
    using assms(1) k ir unfolding kill_active_subtree_def Let_def tk_def st1_def reaper_def rc_def ok_def
    by (simp cong: option.case_cong if_cong)
  then have st': "events st' = events st3 @ [Wait_slot]" "templates st' = templates st3" "cregistry st' = cregistry st3"
      "agent_pid st' = agent_pid st3" by (simp_all add: Let_def)
  let ?es = "j @ map (Kill SIGKILL) (rev tk) @ map Waitpid tk @ es1 @ [Wait_exit tk] @ es2 @ [Wait_slot]"
  have kj: "kills j = {}" by (simp add: j_def split: option.splits)
  have kes: "kills ?es = set tk" using es1(2) s(5) kj by simp
  have tk: "set tk = {p. subtree (before env) (template_pids st \<union> pending_writers st) (agent_pid st) p}"
    by (simp add: tk_def collect_subtree_set)
  have "events st' = events st @ ?es" using st'(1) s(4) es1(1) ev1 by simp
  moreover have "\<forall>ckpt_id. must_join st = Some ckpt_id \<longrightarrow> hd ?es = Join ckpt_id" by (simp add: j_def)
  moreover have "Wait_exit tk \<in> set ?es" by simp
  moreover have "templates st' = templates st \<and> cregistry st' = cregistry st \<and> agent_pid st' = agent_pid st"
    using st' s ke by (simp add: st1_def)
  moreover have "set tk \<inter> (template_pids st \<union> pending_writers st) = {}" using subtree_not_excluded by (auto simp: tk)
  ultimately show ?thesis using kes tk by blast
qed

lemma external_kill_list_not_init: "ns_init_pid st \<notin> set (external_kill_list t st)"
proof -
  have inner: "i \<notin> set acc \<Longrightarrow> i \<notin> set (foldl (\<lambda>acc p. if p = i \<or> p \<in> set acc then acc else acc @ [p]) acc xs)" for i acc xs
    by (induction xs arbitrary: acc) (simp_all, metis (no_types, lifting) UnE empty_iff empty_set list.set_intros(1) set_ConsD set_append)
  have "i \<notin> set acc \<Longrightarrow> i \<notin> set (foldl (\<lambda>to_kill pid. if pid_gone_or_zombie t pid then to_kill
          else foldl (\<lambda>acc p. if p = i \<or> p \<in> set acc then acc else acc @ [p]) to_kill
            (collect_subtree_pids t pid {})) acc tps)" for i acc tps
    by (induction tps arbitrary: acc) (simp_all add: inner)
  then show ?thesis by (simp add: external_kill_list_def)
qed

lemma wait_reaped_ok:
  "wait_reaped polls pending = Inr () \<Longrightarrow> p \<in> set pending \<Longrightarrow> \<exists>t \<in> set polls. map_of t p = None"
  by (induction polls pending rule: wait_reaped.induct) (fastforce split: if_splits)+

text \<open>
  Clearing the pool before a cold restore never kills the init of the PID namespace, empties the pool
  and the queue of reaps, and succeeds only once every process it killed or had killed before, apart from
  that init, has disappeared from the process table in some poll; zombies do not count as gone. Without
  the explicit permission nothing is changed.
\<close>

theorem clear_templates_safe:
  assumes "clear_templates_for_external_restore allow t polls st = (r, st')"
  shows "if allow then \<exists>es. events st' = events st @ es \<and> ns_init_pid st \<notin> kills es
      \<and> (enable_warm_template st \<longrightarrow> templates st' = []) \<and> pending_reaps st' = []
      \<and> (r = Inr () \<longrightarrow> (\<forall>p \<in> kills es \<union> set (last_killed st) \<union> template_pids st \<union> {agent_pid st}.
           p \<noteq> 0 \<and> p \<noteq> ns_init_pid st \<longrightarrow> (\<exists>poll \<in> set polls. map_of poll p = None)))
    else st' = st \<and> (\<exists>m. r = Inl (DumpUnavailableError m))"
proof (cases allow)
  case False
  then show ?thesis using assms
    by (auto simp: clear_templates_for_external_restore_def check_external_restore_pool_clear_allowed_def)
next
  case True
  define tk where "tk = external_kill_list t st"
  define ks where "ks = (if tk = [] then [] else map (Kill SIGKILL) (rev tk) @ map Waitpid tk @ [Wait_exit tk])"
  define reap where "reap = (if enable_warm_template st \<and> (fixed_active_pid st = None \<or> fixed_active_pid st = Some 0)
       \<and> map_of t (ns_init_pid st) \<noteq> None then [Reap_children (ns_init_pid st)] else [])"
  define pids where "pids = set (last_killed st) \<union> {pid \<in> template_pids st. pid \<noteq> 0 \<and> pid \<noteq> ns_init_pid st}
             \<union> (if agent_pid st \<noteq> ns_init_pid st then {agent_pid st} else {}) \<union> set tk"
  have kks: "kills ks = set tk" by (simp add: ks_def)
  have kr: "kills reap = {}" by (simp add: reap_def)
  define s1 where "s1 = (if tk \<noteq> [] then snd (kill_pids_and_wait tk None st) else st)"
  define s2 where "s2 = (if enable_warm_template s1 then s1\<lparr>templates := []\<rparr> else s1)"
  define s3 where "s3 = s2\<lparr>pending_reaps := []\<rparr>"
  define s4 where "s4 = (if enable_warm_template s3 \<and> (fixed_active_pid s3 = None \<or> fixed_active_pid s3 = Some 0)
       \<and> map_of t (ns_init_pid s3) \<noteq> None then emit (Reap_children (ns_init_pid s3)) s3 else s3)"
  have "clear_templates_for_external_restore allow t polls st = (wait_external_restore_reaped polls pids s4, s4)"
    by (simp only: clear_templates_for_external_restore_def check_external_restore_pool_clear_allowed_def True
      not_True_eq_False raise_if_simps bind_eff_simps Let_def s4_def s3_def s2_def s1_def pids_def tk_def)
  then have "(r, st') = (wait_external_restore_reaped polls pids s4, s4)" using assms by simp
  moreover have s1: "events s1 = events st @ ks" "enable_warm_template s1 = enable_warm_template st"
      "fixed_active_pid s1 = fixed_active_pid st" "ns_init_pid s1 = ns_init_pid st"
    by (simp_all add: s1_def ks_def kill_pids_and_wait_def)
  then have s3: "events s3 = events st @ ks" "enable_warm_template s3 = enable_warm_template st"
      "fixed_active_pid s3 = fixed_active_pid st" "ns_init_pid s3 = ns_init_pid st" "pending_reaps s3 = []"
      "enable_warm_template st \<longrightarrow> templates s3 = []"
    by (simp_all add: s2_def s3_def)
  then have "events s4 = events st @ ks @ reap" "ns_init_pid s4 = ns_init_pid st" "pending_reaps s4 = []"
      "enable_warm_template st \<longrightarrow> templates s4 = []"
    by (simp_all add: s4_def reap_def)
  ultimately have main: "events st' = events st @ ks @ reap \<and> (enable_warm_template st \<longrightarrow> templates st' = []) \<and> pending_reaps st' = []
    \<and> r = wait_reaped polls (sorted_list_of_set {pid \<in> pids. pid \<noteq> 0 \<and> pid \<noteq> ns_init_pid st})"
    by (simp add: wait_external_restore_reaped_def)
  have fin: "finite {pid \<in> pids. pid \<noteq> 0 \<and> pid \<noteq> ns_init_pid st}"
    by (simp add: pids_def template_pids_def)
  have reaped: "\<exists>poll \<in> set polls. map_of poll p = None" if "r = Inr ()" "p \<in> set tk \<union> set (last_killed st) \<union> template_pids st \<union> {agent_pid st}"
    "p \<noteq> 0" "p \<noteq> ns_init_pid st" for p
    using main that fin wait_reaped_ok [of polls _ p] by (auto simp: pids_def)
  have "kills (ks @ reap) = set tk" using kks kr by simp
  moreover have "ns_init_pid st \<notin> set tk" unfolding tk_def by (rule external_kill_list_not_init)
  ultimately show ?thesis using main True reaped by (intro if_bool_eq_conj [THEN iffD2] conjI) (auto intro!: exI [of _ "ks @ reap"])
qed


section \<open>Witnesses\<close>

definition wit_proc :: "string \<Rightarrow> proc" where
  "wit_proc children = \<lparr>stat_text = ''1 (sh) S 1'', status_lines = [''PPid: 1'', ''NSpid: 5''],
     ns_link = Some ''pid:[7]'', task_children = [Some children]\<rparr>"

definition wit_procs :: procs where
  "wit_procs = [(10, wit_proc ''11 12 13''), (11, wit_proc ''14''), (12, wit_proc ''15''), (13, wit_proc []),
     (14, wit_proc []), (15, wit_proc [])]"

definition wit_writer :: centry where
  "wit_writer = \<lparr>e_id = ''c'', e_mem_path = ''m'', e_parent_id = None, e_layers = [], e_strategy = ''standard'',
     e_template_pid = None, e_async_dump_pid = Some 13, e_future = Some Pending, e_dump_error = None,
     e_stats_error = None, e_dump_tree_pid = 13, e_ns_init_pid = 1, e_external_pidns = False,
     e_fixed_active_pid = None, e_prev_ckpt_id = None, e_effective = None, e_replay_cmds = [],
     e_protocol = None, e_phase = None, e_dispose_done = False\<rparr>"

definition wit_ctl :: controller where
  "wit_ctl = \<lparr>enable_warm_template = True, checkpoint_stash_template = True, prefork_template_dump = False,
     async_template_full_dump = False, enable_incremental_dump = True, enable_adaptive = False,
     fixed_active_pid = None, restore_fastfork_dump_pid = False, enable_criu_lazy_restore = False,
     parallel_lazy_restore = True, async_incremental = False, snapshot_store = ''/s'', layers_root = ''/l'',
     base_layer = ''/b'', overlay_mount_point = ''/testbed'', root_overlay_args = None, agent_pid = 10,
     ns_init_pid = 1, cregistry = [(''c'', wit_writer)], templates = [(''t'', 12)], current_upper = ''/l/u'',
     current_work = ''/l/w'', last_predump = None, active_dump_owner = None, last_restore_target = None,
     last_killed = [], pending_reaps = [], current_epoch = 0, events = []\<rparr>"

definition wit_kill_env :: kill_env where
  "wit_kill_env = \<lparr>before = wit_procs, after = wit_procs, reap_pid_ans = None, reap_children_ans = None\<rparr>"

theorem kill_active_safe_witness:
  "\<exists>es. events (snd (kill_active_subtree wit_kill_env None wit_ctl)) = es
     \<and> 12 \<notin> kills es \<and> 13 \<notin> kills es \<and> kills es = {10, 11, 14}"
proof -
  have p: "template_pids wit_ctl \<union> pending_writers wit_ctl = {12, 13}" by code_simp
  have "{p. subtree (before wit_kill_env) {12, 13} (agent_pid wit_ctl) p}
      = set (collect_subtree_pids (before wit_kill_env) (agent_pid wit_ctl) {12, 13})" by (simp add: collect_subtree_set)
  also have "\<dots> = {10, 11, 14}" by code_simp
  finally have "{p. subtree (before wit_kill_env) {12, 13} (agent_pid wit_ctl) p} = {10, 11, 14}" .
  then show ?thesis
    using kill_active_safe [of wit_kill_env None wit_ctl, OF surjective_pairing] unfolding p
    by (auto simp: wit_ctl_def)
qed

theorem clear_templates_safe_witness:
  "templates (snd (clear_templates_for_external_restore True wit_procs [[]] wit_ctl)) = []"
  using clear_templates_safe [of True wit_procs "[[]]" wit_ctl, OF surjective_pairing] by (auto simp: wit_ctl_def)

end
