(* ===== verification/Snapshot_GC.thy ===== *)
theory Snapshot_GC
  imports Active_Kill
begin

text \<open>
  Which checkpoints survive a garbage collection: \<^verbatim>\<open>retained_ids\<close> of
  \<^verbatim>\<open>backends/deltabox/gsd/async_checkpoint.py\<close> and \<^verbatim>\<open>gc_obsolete_snapshots\<close> of \<^verbatim>\<open>sandbox_controller.py\<close>.
\<close>

type_synonym cregistry = "(string \<times> centry) list"

section \<open>The dependency closure\<close>

definition links :: "cregistry \<Rightarrow> string \<Rightarrow> string list" where
  "links reg i = (case map_of reg i of None \<Rightarrow> []
     | Some e \<Rightarrow> List.map_filter id [e_parent_id e, e_prev_ckpt_id e, Option.bind (e_effective e) id])"

definition new_links :: "cregistry \<Rightarrow> string \<Rightarrow> string list \<Rightarrow> string list" where
  "new_links reg i keep = rev (remdups (rev (filter (\<lambda>p. p \<in> fst ` set reg \<and> p \<notin> set keep) (links reg i))))"

text \<open>The loop of \<^verbatim>\<open>retained_ids\<close>; the stack of pending identifiers has its top first.\<close>

function retain_loop :: "cregistry \<Rightarrow> string list \<Rightarrow> string list \<Rightarrow> string list" where
  "retain_loop reg [] keep = keep"
| "retain_loop reg (i # pending) keep =
     retain_loop reg (rev (new_links reg i keep) @ pending) (keep @ new_links reg i keep)"
  by pat_completeness auto
termination
proof (relation "measures [\<lambda>(reg, pending, keep). card (fst ` set reg - set keep), \<lambda>(reg, pending, keep). length pending]",
    goal_cases)
  case (2 reg i pending keep)
  show ?case
  proof (cases "new_links reg i keep")
    case Nil
    then show ?thesis by simp
  next
    case (Cons p ps)
    then have "p \<in> set (new_links reg i keep)" by simp
    then have "p \<in> fst ` set reg - set keep" by (simp add: new_links_def)
    then have "fst ` set reg - set (keep @ new_links reg i keep) \<subset> fst ` set reg - set keep"
      using \<open>p \<in> set (new_links reg i keep)\<close> by auto
    then have "card (fst ` set reg - set (keep @ new_links reg i keep)) < card (fst ` set reg - set keep)"
      by (intro psubset_card_mono) auto
    then show ?thesis by simp
  qed
qed simp

definition pending_ids :: "cregistry \<Rightarrow> string list" where
  "pending_ids reg = map fst (filter (\<lambda>(k, e). e_future e = Some Pending) reg)"

definition retained_ids :: "cregistry \<Rightarrow> string list \<Rightarrow> string list" where
  "retained_ids reg requested = (let keep = remdups (requested @ pending_ids reg) in retain_loop reg keep keep)"

text \<open>What a checkpoint leads to: its logical parent, the parent of its memory image, and the checkpoint that a restore really uses.\<close>

inductive depends :: "cregistry \<Rightarrow> string \<Rightarrow> string \<Rightarrow> bool" for reg where
  logical: "\<lbrakk>map_of reg i = Some e; e_parent_id e = Some p\<rbrakk> \<Longrightarrow> depends reg i p"
| physical: "\<lbrakk>map_of reg i = Some e; e_prev_ckpt_id e = Some p\<rbrakk> \<Longrightarrow> depends reg i p"
| effective: "\<lbrakk>map_of reg i = Some e; e_effective e = Some (Some p)\<rbrakk> \<Longrightarrow> depends reg i p"

lemma links_depends: "p \<in> set (links reg i) \<longleftrightarrow> depends reg i p"
proof (cases "map_of reg i")
  case (Some e)
  then have "p \<in> set (links reg i) \<longleftrightarrow> e_parent_id e = Some p \<or> e_prev_ckpt_id e = Some p \<or> e_effective e = Some (Some p)"
    by (auto simp: links_def List.map_filter_def bind_eq_Some_conv)
  also have "\<dots> \<longleftrightarrow> depends reg i p" using Some by (subst depends.simps) simp
  finally show ?thesis .
next
  case None
  then show ?thesis by (subst depends.simps) (simp add: links_def)
qed

inductive needed :: "cregistry \<Rightarrow> string list \<Rightarrow> string \<Rightarrow> bool" for reg requested where
  requested: "i \<in> set requested \<Longrightarrow> needed reg requested i"
| writer: "i \<in> set (pending_ids reg) \<Longrightarrow> needed reg requested i"
| link: "\<lbrakk>needed reg requested i; depends reg i p; p \<in> fst ` set reg\<rbrakk> \<Longrightarrow> needed reg requested p"

lemma new_links_set: "set (new_links reg i keep) = {p \<in> set (links reg i). p \<in> fst ` set reg \<and> p \<notin> set keep}"
  by (auto simp: new_links_def)

lemma retain_loop_sound:
  "\<lbrakk>x \<in> set (retain_loop reg pending keep); \<forall>y \<in> set keep. needed reg req y; set pending \<subseteq> set keep\<rbrakk> \<Longrightarrow> needed reg req x"
proof (induction reg pending keep rule: retain_loop.induct)
  case (2 reg i pending keep)
  have "\<forall>y \<in> set (keep @ new_links reg i keep). needed reg req y"
    using 2(3,4) by (auto simp: new_links_set links_depends intro: needed.link)
  then show ?case using 2 by auto
qed auto

lemma retain_loop_closed:
  assumes "\<forall>y \<in> set keep - set pending. \<forall>p \<in> set (links reg y). p \<in> fst ` set reg \<longrightarrow> p \<in> set keep"
  shows "set keep \<subseteq> set (retain_loop reg pending keep)
    \<and> (\<forall>y \<in> set (retain_loop reg pending keep). \<forall>p \<in> set (links reg y). p \<in> fst ` set reg \<longrightarrow> p \<in> set (retain_loop reg pending keep))"
  using assms
proof (induction reg pending keep rule: retain_loop.induct)
  case (2 reg i pending keep)
  have "\<forall>y \<in> set (keep @ new_links reg i keep) - set (rev (new_links reg i keep) @ pending).
      \<forall>p \<in> set (links reg y). p \<in> fst ` set reg \<longrightarrow> p \<in> set (keep @ new_links reg i keep)"
  proof (intro ballI impI)
    fix y p assume y: "y \<in> set (keep @ new_links reg i keep) - set (rev (new_links reg i keep) @ pending)"
      and p: "p \<in> set (links reg y)" "p \<in> fst ` set reg"
    show "p \<in> set (keep @ new_links reg i keep)"
    proof (cases "y = i")
      case True
      then show ?thesis using p by (simp add: new_links_set)
    next
      case False
      then have "y \<in> set keep - set (i # pending)" using y by auto
      with 2(2) p have "p \<in> set keep" by blast
      then show ?thesis by simp
    qed
  qed
  note IH = 2(1) [OF this]
  show ?case unfolding retain_loop.simps(2)
  proof
    show "set keep \<subseteq> set (retain_loop reg (rev (new_links reg i keep) @ pending) (keep @ new_links reg i keep))"
      using conjunct1 [OF IH] by simp
  qed (rule conjunct2 [OF IH])
qed auto

lemma retained_ids_set: "set (retained_ids reg requested) = {i. needed reg requested i}"
proof -
  let ?k = "remdups (requested @ pending_ids reg)"
  have cl: "set ?k \<subseteq> set (retain_loop reg ?k ?k)"
    "\<And>y p. \<lbrakk>y \<in> set (retain_loop reg ?k ?k); p \<in> set (links reg y); p \<in> fst ` set reg\<rbrakk> \<Longrightarrow> p \<in> set (retain_loop reg ?k ?k)"
    using retain_loop_closed [of ?k ?k reg] by blast+
  have "i \<in> set (retain_loop reg ?k ?k)" if "needed reg requested i" for i
    using that
  proof (induction rule: needed.induct)
    case (link i p)
    then show ?case using cl(2) links_depends by blast
  qed (use cl(1) in auto)
  moreover have "needed reg requested i" if "i \<in> set (retain_loop reg ?k ?k)" for i
    by (rule retain_loop_sound [OF that]) (auto intro: needed.intros)
  ultimately show ?thesis unfolding retained_ids_def Let_def by blast
qed

text \<open>
  C32. The closure ends on every registry, cyclic links included, and keeps exactly what is needed: the
  requested checkpoints, those with an unfinished writer, and everything they lead to along the logical
  parent, the physical parent and the effective restore target.
\<close>

theorem retained_ids_exact: "set (retained_ids reg requested) = {i. needed reg requested i}"
  by (rule retained_ids_set)

section \<open>Garbage collection\<close>

text \<open>
  \<^verbatim>\<open>gc_obsolete_snapshots\<close>. \<^verbatim>\<open>readers\<close> are the identifiers with a live lazy-pages daemon; \<^verbatim>\<open>is_dir\<close> and \<^verbatim>\<open>names\<close>
  what the file system answers. \<^verbatim>\<open>xs[-0:]\<close> is the whole list.
\<close>

definition base_keep :: "nat \<Rightarrow> string list option \<Rightarrow> cregistry \<Rightarrow> string list" where
  "base_keep keep_n keep_ids reg = (case keep_ids of
       Some ids \<Rightarrow> filter (\<lambda>i. i \<in> fst ` set reg) ids
     | None \<Rightarrow> let all_ids = map fst reg in
         if length all_ids \<le> keep_n then all_ids
         else if keep_n = 0 then all_ids else drop (length all_ids - keep_n) all_ids)"

definition gc_keep :: "nat \<Rightarrow> string list option \<Rightarrow> string list \<Rightarrow> controller \<Rightarrow> string list" where
  "gc_keep keep_n keep_ids readers st = retained_ids (cregistry st) (base_keep keep_n keep_ids (cregistry st)
     @ map fst (filter (\<lambda>(k, e). e_template_pid e \<in> {Some (agent_pid st), Some (ns_init_pid st)}) (cregistry st))
     @ readers)"

definition gc_drop :: "(string \<Rightarrow> bool) \<Rightarrow> string \<Rightarrow> controller \<Rightarrow> controller" where
  "gc_drop is_dir rid st = (case map_of (cregistry st) rid of None \<Rightarrow> st
     | Some e \<Rightarrow>
         let st = st\<lparr>cregistry := AList.delete rid (cregistry st)\<rparr>;
             st = (if enable_warm_template st then pool_discard rid st else st) in
         if e_mem_path e \<noteq> [] \<and> is_dir (e_mem_path e) then emit (Rmtree (e_mem_path e)) st else st)"

definition gc_keep_dirs :: "controller \<Rightarrow> string list" where
  "gc_keep_dirs st = [current_upper st, current_work st] @ concat (map (e_layers \<circ> snd) (cregistry st))"

definition gc_obsolete_snapshots ::
  "nat \<Rightarrow> string list option \<Rightarrow> string list \<Rightarrow> (string \<Rightarrow> bool) \<Rightarrow> string list option \<Rightarrow> controller \<Rightarrow> controller" where
  "gc_obsolete_snapshots keep_n keep_ids readers is_dir names st =
     (let keep = gc_keep keep_n keep_ids readers st;
          st = fold (gc_drop is_dir) (filter (\<lambda>rid. rid \<notin> set keep) (map fst (cregistry st))) st in
      case names of None \<Rightarrow> st
      | Some ns \<Rightarrow> emits (map Rmtree (filter (\<lambda>full. full \<notin> set (gc_keep_dirs st) \<and> is_dir full)
          (map (path_join (layers_root st)) (filter (prefix ''restore_'') ns)))) st)"

subsection \<open>What a collection leaves\<close>

lemma pool_discard_same [simp]:
  "cregistry (pool_discard r st) = cregistry st" "current_upper (pool_discard r st) = current_upper st"
  "current_work (pool_discard r st) = current_work st" "layers_root (pool_discard r st) = layers_root st"
  "enable_warm_template (pool_discard r st) = enable_warm_template st"
  by (simp_all add: pool_discard_def emit_def split: option.splits)

lemma pool_discard_events: "\<exists>es. events (pool_discard r st) = events st @ es \<and> (\<forall>d. Rmtree d \<notin> set es)"
  by (simp add: pool_discard_def split: option.splits)

lemma delete_filter: "AList.delete k xs = filter (\<lambda>x. fst x \<noteq> k) xs"
  by (induction xs) auto

lemma gc_drop_effect:
  assumes "distinct (map fst (cregistry st))"
  shows "cregistry (gc_drop is_dir r st) = filter (\<lambda>x. fst x \<noteq> r) (cregistry st)
    \<and> current_upper (gc_drop is_dir r st) = current_upper st \<and> current_work (gc_drop is_dir r st) = current_work st
    \<and> layers_root (gc_drop is_dir r st) = layers_root st
    \<and> (\<exists>es. events (gc_drop is_dir r st) = events st @ es
        \<and> (\<forall>d. Rmtree d \<in> set es \<longrightarrow> (\<exists>e. (r, e) \<in> set (cregistry st) \<and> e_mem_path e = d)))"
proof (cases "map_of (cregistry st) r")
  case None
  then have "\<forall>x \<in> set (cregistry st). fst x \<noteq> r" by (auto simp: map_of_eq_None_iff)
  then have "filter (\<lambda>x. fst x \<noteq> r) (cregistry st) = cregistry st" by (rule filter_True)
  then show ?thesis using None by (simp add: gc_drop_def)
next
  case (Some e)
  define st1 where "st1 = st\<lparr>cregistry := AList.delete r (cregistry st)\<rparr>"
  define st2 where "st2 = (if enable_warm_template st1 then pool_discard r st1 else st1)"
  obtain es where es: "events st2 = events st @ es" "\<forall>d. Rmtree d \<notin> set es"
  proof (cases "enable_warm_template st1")
    case True
    then show ?thesis using that pool_discard_events [of r st1] by (auto simp: st1_def st2_def)
  next
    case False
    then show ?thesis using that [of "[]"] by (simp add: st1_def st2_def)
  qed
  have same: "cregistry st2 = filter (\<lambda>x. fst x \<noteq> r) (cregistry st)" "current_upper st2 = current_upper st"
    "current_work st2 = current_work st" "layers_root st2 = layers_root st"
    by (simp_all add: st1_def st2_def delete_filter)
  have g: "gc_drop is_dir r st = (if e_mem_path e \<noteq> [] \<and> is_dir (e_mem_path e) then emit (Rmtree (e_mem_path e)) st2 else st2)"
    by (simp add: gc_drop_def Some Let_def st1_def st2_def)
  show ?thesis
  proof (intro conjI)
    show "\<exists>es. events (gc_drop is_dir r st) = events st @ es
        \<and> (\<forall>d. Rmtree d \<in> set es \<longrightarrow> (\<exists>e. (r, e) \<in> set (cregistry st) \<and> e_mem_path e = d))"
      using es map_of_SomeD [OF Some] by (cases "e_mem_path e \<noteq> [] \<and> is_dir (e_mem_path e)") (auto simp: g)
  qed (use same in \<open>simp_all add: g emit_def\<close>)
qed

lemma gc_fold_effect:
  assumes "distinct (map fst (cregistry st))"
  shows "cregistry (fold (gc_drop is_dir) rs st) = filter (\<lambda>x. fst x \<notin> set rs) (cregistry st)
    \<and> current_upper (fold (gc_drop is_dir) rs st) = current_upper st
    \<and> current_work (fold (gc_drop is_dir) rs st) = current_work st
    \<and> layers_root (fold (gc_drop is_dir) rs st) = layers_root st
    \<and> (\<exists>es. events (fold (gc_drop is_dir) rs st) = events st @ es
        \<and> (\<forall>d. Rmtree d \<in> set es \<longrightarrow> (\<exists>r e. r \<in> set rs \<and> (r, e) \<in> set (cregistry st) \<and> e_mem_path e = d)))"
  using assms
proof (induction rs arbitrary: st)
  case Nil
  then show ?case by simp
next
  case (Cons r rs)
  note d = gc_drop_effect [OF Cons.prems, of is_dir r]
  let ?s = "gc_drop is_dir r st"
  have "distinct (map fst (cregistry ?s))" using d Cons.prems by (simp add: distinct_map_filter)
  note IH = Cons.IH [OF this]
  obtain es where es: "events ?s = events st @ es"
    "\<forall>d. Rmtree d \<in> set es \<longrightarrow> (\<exists>e. (r, e) \<in> set (cregistry st) \<and> e_mem_path e = d)" using d by blast
  obtain es' where es': "events (fold (gc_drop is_dir) rs ?s) = events ?s @ es'"
    "\<forall>d. Rmtree d \<in> set es' \<longrightarrow> (\<exists>r e. r \<in> set rs \<and> (r, e) \<in> set (cregistry ?s) \<and> e_mem_path e = d)" using IH by blast
  have "\<exists>r' e. r' \<in> set (r # rs) \<and> (r', e) \<in> set (cregistry st) \<and> e_mem_path e = x" if "Rmtree x \<in> set (es @ es')" for x
  proof (cases "Rmtree x \<in> set es")
    case True
    then show ?thesis using es(2) by (meson list.set_intros(1))
  next
    case False
    then have "Rmtree x \<in> set es'" using that by simp
    then obtain r' e where "r' \<in> set rs" "(r', e) \<in> set (cregistry ?s)" "e_mem_path e = x" using es'(2) by blast
    moreover from this(2) have "(r', e) \<in> set (cregistry st)" using conjunct1 [OF d] by simp
    ultimately show ?thesis by (metis list.set_intros(2))
  qed
  moreover have "cregistry (fold (gc_drop is_dir) (r # rs) st) = filter (\<lambda>x. fst x \<notin> set (r # rs)) (cregistry st)"
    using IH d by (auto intro: filter_cong)
  moreover have "events (fold (gc_drop is_dir) (r # rs) st) = events st @ (es @ es')" using es es' by simp
  ultimately show ?case using IH d by (metis fold_simps(2))
qed



text \<open>Asked to keep none of the recent checkpoints, a collection keeps all of them.\<close>

lemma gc_keep_zero: "base_keep 0 None reg = map fst reg"
  by (simp add: base_keep_def Let_def)

end
