(* ===== verification/Legacy_Checkpoint.thy ===== *)
theory Legacy_Checkpoint
  imports Snapshot_GC Registry Semantic_Parser
begin

text \<open>
  \<^verbatim>\<open>SandboxController._checkpoint_legacy\<close>: the strategy, the process that is dumped, the image it builds on,
  the CRIU command, the sinking of the file system layer, the warm template, and the registry entry. One
  definition per phase, in the order of the code.

  The validation-only and tracing switches (\<^verbatim>\<open>DELTABOX_VALIDATE_INCREMENTAL_EQUIV\<close>,
  \<^verbatim>\<open>DELTABOX_RESTAMP_PARENT_INVENTORY\<close>, \<^verbatim>\<open>CRIU_DEBUG\<close>) are unset, as they are by default. The process table
  is read once.
\<close>

section \<open>Answers and local variables\<close>

text \<open>How a dump ends that the caller waits for: the third case is the timeout of the wait.\<close>

datatype dump_outcome = Dump_ok | Dump_failed string | Dump_slow

record ckpt_env =
  new_id :: string
  table :: procs
  stop_ok :: bool
  has_hot :: bool
  hot_disabled :: bool
  fresh_pidns :: bool
  cross_pid_probe :: bool
  fork_reply :: "nat option"
  prefork_reply :: "nat option"
  prefork_fallback :: bool
  clone_reply :: "nat option"
  warm_reply :: "nat option"
  dump_reply :: "nat option"
  stash_reply :: "nat option"
  slot_free :: bool
  parent_join :: dump_outcome
  predump_ok :: bool
  dump_result :: dump_outcome
  fallback_disabled :: bool
  fallback_error :: "string option"
  reap_ok :: bool
  upper_dirty :: "bool option"
  switch_errno :: "int option"

record locals =
  l_template :: "nat option"
  l_dump_tree :: nat
  l_bootstrap :: bool
  l_prefork :: "nat option"
  l_clone :: "nat option"
  l_async_warm :: "nat option"
  l_async_dump :: "nat option"
  l_future :: "dump_fut option"
  l_stats_error :: "string option"
  l_prev :: "string option"

section \<open>Strategy and roots\<close>

definition strategy_name :: "strategy \<Rightarrow> string" where
  "strategy_name s = (case s of Lightweight \<Rightarrow> ''lightweight'' | Standard \<Rightarrow> ''standard'' | Predump \<Rightarrow> ''predump'')"

definition select_strategy :: "ckpt_env \<Rightarrow> string \<Rightarrow> controller \<Rightarrow> string" where
  "select_strategy env raw_command st =
     (if raw_command \<in> {''lightweight'', ''standard'', ''predump''} then raw_command
      else if enable_adaptive st \<and> raw_command \<noteq> [] then
        let s = parse_strategy raw_command in
        if s = Standard \<and> \<not> hot_disabled env \<and> has_hot env then ''predump'' else strategy_name s
      else ''standard'')"

text \<open>\<^verbatim>\<open>_bootstrap_active_before_dump\<close>: the agent moves off the init of its PID namespace.\<close>

definition bootstrap_active_before_dump :: "ckpt_env \<Rightarrow> string \<Rightarrow> controller \<Rightarrow> (nat option \<times> bool) \<times> controller" where
  "bootstrap_active_before_dump env snapshot_id st =
     (if fixed_active_pid st \<noteq> None then ((None, False), st)
      else if \<not> (enable_warm_template st \<and> agent_pid st = ns_init_pid st
                \<and> (checkpoint_stash_template st \<or> fresh_pidns env)) then ((None, False), st)
      else
        let parent = agent_pid st in
        case request_fork (fork_reply env) parent (Some snapshot_id) st of
          (Some child, st) \<Rightarrow> ((Some parent, True), st\<lparr>agent_pid := child\<rparr>)
        | (None, st) \<Rightarrow> ((None, True), st))"

definition stop_templates :: "controller \<Rightarrow> controller" where
  "stop_templates st = emits (map (Kill SIGSTOP) (filter (\<lambda>p. p \<noteq> agent_pid st) (map snd (templates st)))) st"

section \<open>Which process is dumped\<close>

definition phase_bootstrap :: "ckpt_env \<Rightarrow> string \<Rightarrow> controller \<Rightarrow> locals \<times> controller" where
  "phase_bootstrap env strategy st =
     (case (if strategy \<noteq> ''lightweight'' then bootstrap_active_before_dump env (new_id env) st else ((None, False), st)) of
        ((template, attempted), st) \<Rightarrow>
          (\<lparr>l_template = template, l_dump_tree = current_dump_tree_pid (fresh_pidns env) st, l_bootstrap = attempted,
            l_prefork = None, l_clone = None, l_async_warm = None, l_async_dump = None, l_future = None,
            l_stats_error = None, l_prev = None\<rparr>, st))"

definition predump_image :: "ckpt_env \<Rightarrow> string \<Rightarrow> controller \<Rightarrow> string" where
  "predump_image env tag st = path_join (snapshot_store st) (tag @ ''_'' @ new_id env @ ''_predump'')"

definition phase_predump :: "ckpt_env \<Rightarrow> string \<Rightarrow> string \<Rightarrow> locals \<Rightarrow> controller \<Rightarrow> (unit, controller) eff" where
  "phase_predump env strategy tag l st =
     (if strategy \<noteq> ''predump'' then (Inr (), st)
      else
        let dir = predump_image env tag st; tree = l_dump_tree l;
            prev = (case last_predump st of
                Some (d, p) \<Rightarrow> if d \<noteq> [] \<and> p = tree then [''--prev-images-dir'', relpath d dir] else []
              | None \<Rightarrow> []);
            st = emits [Makedirs dir, Criu ([''pre-dump'', ''--tree'', dec tree, ''-D'', dir, ''--track-mem'']
              @ external_pidns_args (table env) tree st @ prev)] st in
        if \<not> predump_ok env then (Inl (RuntimeError ''CalledProcessError''), st)
        else (Inr (), emit (Kill SIGCONT tree) (st\<lparr>last_predump := Some (dir, tree)\<rparr>)))"

definition phase_prefork :: "ckpt_env \<Rightarrow> string \<Rightarrow> locals \<Rightarrow> controller \<Rightarrow> (locals, controller) eff" where
  "phase_prefork env strategy l st =
     (if \<not> (prefork_template_dump st \<and> enable_warm_template st \<and> strategy \<noteq> ''lightweight'' \<and> \<not> l_bootstrap l)
      then (Inr l, st)
      else
        let parent = agent_pid st in
        case request_fork (prefork_reply env) parent (Some (new_id env)) (stop_templates st) of
          (Some child, st) \<Rightarrow>
            (Inr (l\<lparr>l_prefork := Some parent, l_template := Some parent, l_dump_tree := parent\<rparr>),
             st\<lparr>agent_pid := child\<rparr>)
        | (None, st) \<Rightarrow>
            if prefork_fallback env then (Inr l, st)
            else (Inl (RuntimeError ''Warm-template prefork-fork failed''), st))"

definition phase_clone :: "ckpt_env \<Rightarrow> string \<Rightarrow> locals \<Rightarrow> controller \<Rightarrow> (locals, controller) eff" where
  "phase_clone env strategy l st =
     (if \<not> (need_fixed_dump_clone (table env) strategy st \<and> \<not> prefork_template_dump st
             \<and> \<not> async_template_full_dump st \<and> \<not> l_bootstrap l)
      then (Inr l, st)
      else if \<not> slot_free env then (Inl (RuntimeError ''fixed dump PID is not free''), emit Wait_slot st)
      else case request_stash_template (clone_reply env) (agent_pid st) None (emit Wait_slot st) of
          (None, st) \<Rightarrow> (Inl (RuntimeError ''fixed dump clone failed''), st)
        | (Some p, st) \<Rightarrow> (Inr (l\<lparr>l_clone := Some p, l_dump_tree := p\<rparr>), st))"

definition phase_async :: "ckpt_env \<Rightarrow> string \<Rightarrow> locals \<Rightarrow> controller \<Rightarrow> (locals, controller) eff" where
  "phase_async env strategy l st =
     (if \<not> (async_template_full_dump st \<and> enable_warm_template st \<and> strategy \<noteq> ''lightweight'') then (Inr l, st)
      else if pid_gone_or_zombie (table env) (agent_pid st)
      then (Inl (RuntimeError ''async-template active pid is gone''), st)
      else case request_stash_template (warm_reply env) (agent_pid st) (Some (new_id env)) (stop_templates st) of
          (None, st) \<Rightarrow> (Inl (RuntimeError ''async-template warm stash failed''), st)
        | (Some wpid, st) \<Rightarrow>
            (case request_stash_template (dump_reply env) (agent_pid st) None st of
               (None, st) \<Rightarrow> (Inl (RuntimeError ''async-template full-dump stash failed''),
                 emit (Kill SIGKILL wpid) (st\<lparr>templates := AList.delete (new_id env) (templates st)\<rparr>))
             | (Some d, st) \<Rightarrow>
                 (Inr (l\<lparr>l_async_warm := Some wpid, l_async_dump := Some d, l_template := Some wpid,
                    l_dump_tree := d\<rparr>), st)))"

section \<open>The image to build on\<close>

definition in_reg :: "cregistry \<Rightarrow> string \<Rightarrow> bool" where
  "in_reg reg k \<longleftrightarrow> k \<noteq> [] \<and> map_of reg k \<noteq> None"

definition up_link :: "cregistry \<Rightarrow> string \<Rightarrow> string option" where
  "up_link reg k = (if k = [] then None else Option.bind (map_of reg k) e_parent_id)"

definition pid_identity_ok :: "ckpt_env \<Rightarrow> nat \<Rightarrow> centry \<Rightarrow> controller \<Rightarrow> bool" where
  "pid_identity_ok env tree e st \<longleftrightarrow>
     e_dump_tree_pid e = tree
     \<or> (fixed_active_pid st \<noteq> None \<and> e_fixed_active_pid e = fixed_active_pid st
        \<and> e_ns_init_pid e = ns_init_pid st \<and> e_external_pidns e)
     \<or> cross_pid_probe env \<or> fresh_pidns env"

definition usable_parent :: "ckpt_env \<Rightarrow> nat \<Rightarrow> controller \<Rightarrow> centry \<Rightarrow> bool" where
  "usable_parent env tree st e \<longleftrightarrow> e_strategy e \<noteq> ''lightweight'' \<and> pid_identity_ok env tree e st
     \<and> (e_dump_error e = None \<or> e_dump_error e = Some []) \<and> (e_stats_error e = None \<or> e_stats_error e = Some [])"

definition find_prev :: "ckpt_env \<Rightarrow> nat \<Rightarrow> string option \<Rightarrow> controller \<Rightarrow> string option option" where
  "find_prev env tree parent_ckpt_id st =
     (if \<not> enable_incremental_dump st \<or> \<not> (\<exists>p \<in> set_option parent_ckpt_id. in_reg (cregistry st) p) then Some None
      else map_option (\<lambda>found. Option.bind found (\<lambda>k. if in_reg (cregistry st) k then Some k else None))
        (climb (up_link (cregistry st)) (\<lambda>k. \<not> in_reg (cregistry st) k
           \<or> (case map_of (cregistry st) k of Some e \<Rightarrow> usable_parent env tree st e | None \<Rightarrow> True)) parent_ckpt_id))"

section \<open>The dump\<close>

definition ckpt_dir :: "ckpt_env \<Rightarrow> string \<Rightarrow> controller \<Rightarrow> string" where
  "ckpt_dir env tag st = path_join (snapshot_store st) (tag @ ''_'' @ new_id env @ ''_mem'')"

definition dump_command :: "ckpt_env \<Rightarrow> string \<Rightarrow> locals \<Rightarrow> string option \<Rightarrow> controller \<Rightarrow> string list" where
  "dump_command env dir l prev st =
     [''dump'', ''--tree'', dec (l_dump_tree l), ''-D'', dir, ''--shell-job'', ''--tcp-close'', ''--ext-unix-sk'',
      ''--manage-cgroups''] @ all_ext_mount_map_args st @ [''--link-remap'']
     @ (if enable_incremental_dump st then [''--track-mem''] else [])
     @ external_pidns_args (table env) (l_dump_tree l) st
     @ (case Option.bind prev (map_of (cregistry st)) of
          Some e \<Rightarrow> [''--prev-images-dir'', relpath (e_mem_path e) dir] | None \<Rightarrow> [])
     @ [if l_prefork l \<noteq> None \<or> l_async_dump l \<noteq> None \<or> l_clone l \<noteq> None then ''--leave-stopped'' else ''--leave-running'']"

text \<open>The callback of the dump future, run when a dump ends while the checkpoint waits for it.\<close>

definition outcome_error :: "dump_outcome \<Rightarrow> string option" where
  "outcome_error r = (case r of Dump_ok \<Rightarrow> None | Dump_failed e \<Rightarrow> Some e | Dump_slow \<Rightarrow> Some ''TimeoutError: '')"

definition join_dump :: "dump_outcome \<Rightarrow> locals \<Rightarrow> locals" where
  "join_dump r l = (case r of
       Dump_ok \<Rightarrow> l\<lparr>l_future := Some Finished\<rparr>
     | Dump_failed e \<Rightarrow> l\<lparr>l_future := Some (Raised e), l_stats_error := Some e\<rparr>
     | Dump_slow \<Rightarrow> l)"

definition phase_dump ::
  "ckpt_env \<Rightarrow> string \<Rightarrow> string \<Rightarrow> string option \<Rightarrow> locals \<Rightarrow> controller \<Rightarrow> (locals \<times> controller) option" where
  "phase_dump env strategy tag parent_ckpt_id l st =
     (if strategy = ''lightweight'' then Some (l, st)
      else map_option (\<lambda>prev.
        let st = emit (Submit (new_id env) (dump_command env (ckpt_dir env tag st) l prev st)) st;
            l = l\<lparr>l_future := Some Pending, l_prev := prev\<rparr> in
        if l_bootstrap l \<and> l_template l = None
        then (let l' = join_dump (dump_result env) l in
              (case outcome_error (dump_result env) of None \<Rightarrow> l' | Some e \<Rightarrow> l'\<lparr>l_stats_error := Some e\<rparr>,
               emit (Join (new_id env)) st))
        else (l, st)) (find_prev env (l_dump_tree l) parent_ckpt_id st))"

section \<open>The layer\<close>

definition parent_layers :: "string option \<Rightarrow> controller \<Rightarrow> string list" where
  "parent_layers parent_ckpt_id st = (case parent_ckpt_id of
       Some p \<Rightarrow> if in_reg (cregistry st) p then e_layers (the (map_of (cregistry st) p)) else [base_layer st]
     | None \<Rightarrow> [base_layer st])"

definition phase_sink :: "ckpt_env \<Rightarrow> string option \<Rightarrow> controller \<Rightarrow> (string list, controller) eff" where
  "phase_sink env parent_ckpt_id st =
     (let layers = parent_layers parent_ckpt_id st;
          dirty = (case upper_dirty env of Some d \<Rightarrow> d | None \<Rightarrow> True);
          root = (\<lambda>st. if root_overlay_args st \<noteq> None then emit (Root_checkpoint (new_id env)) st else st) in
      if dirty then
        let sunk = path_join (layers_root st) (''layer_'' @ new_id env);
            upper = path_join (layers_root st) (''upper_'' @ new_id env @ ''_next'');
            work = path_join (layers_root st) (''work_'' @ new_id env @ ''_next'') in
        bind_eff (apply_overlay_switch (switch_errno env) layers upper work ''ckpt''
            (emits [Rename (current_upper st) sunk, Makedirs upper, Makedirs work] st)) (\<lambda>_ st.
          (Inr (sunk # layers), root (st\<lparr>current_upper := upper, current_work := work\<rparr>)))
      else (Inr layers, root st))"

section \<open>The warm template\<close>

text \<open>\<^verbatim>\<open>_dump_full_fallback_image\<close>.\<close>

definition full_fallback :: "ckpt_env \<Rightarrow> string \<Rightarrow> locals \<Rightarrow> controller \<Rightarrow> (unit, controller) eff" where
  "full_fallback env dir l st =
     (if fallback_disabled env then (Inl (RuntimeError ''full fallback on incremental dump failure disabled''), st)
      else let st = emits [Rmtree dir, Makedirs dir, Criu ([''dump'', ''--tree'', dec (l_dump_tree l), ''-D'', dir,
        ''--shell-job'', ''--tcp-close'', ''--ext-unix-sk'', ''--manage-cgroups''] @ all_ext_mount_map_args st
        @ [''--link-remap''] @ (if enable_incremental_dump st then [''--track-mem''] else [])
        @ external_pidns_args (table env) (l_dump_tree l) st @ [''--leave-running''])] st in
      (case fallback_error env of None \<Rightarrow> Inr () | Some e \<Rightarrow> Inl (RuntimeError e), st))"

text \<open>\<^verbatim>\<open>_dispose_fixed_dump_clone\<close>.\<close>

definition dispose_fixed_dump_clone :: "procs \<Rightarrow> bool \<Rightarrow> nat \<Rightarrow> controller \<Rightarrow> controller" where
  "dispose_fixed_dump_clone t reaped pid st =
     (let parent = pid_ppid t pid;
          child = (case parent of Some p \<Rightarrow> pid_as_seen_by t pid p | None \<Rightarrow> pid);
          active = agent_pid st;
          stopped = (Some active \<noteq> parent \<and> map_of t active \<noteq> None) in
      emits ((if stopped then [Kill SIGSTOP active] else []) @ [Kill SIGKILL pid, Wait_exit [pid]]
        @ (case parent of Some p \<Rightarrow> if enable_warm_template st \<and> map_of t p \<noteq> None then Reap_pid p child # (if reaped then [] else [Reap_children p]) else [] | None \<Rightarrow> [])
        @ (if stopped then [Kill SIGCONT active] else []) @ [Wait_slot]) st)"

definition make_template :: "ckpt_env \<Rightarrow> locals \<Rightarrow> controller \<Rightarrow> locals \<times> controller" where
  "make_template env l st =
     (let (l, st) = (case l_clone l of Some p \<Rightarrow> (l\<lparr>l_clone := None\<rparr>, dispose_fixed_dump_clone (table env) (reap_ok env) p st) | None \<Rightarrow> (l, st));
          st = stop_templates st in
      if checkpoint_stash_template st then
        (case request_stash_template (stash_reply env) (agent_pid st) (Some (new_id env)) st of
           (r, st) \<Rightarrow> (l\<lparr>l_template := r\<rparr>, st))
      else
        let parent = agent_pid st in
        (case request_fork (stash_reply env) parent (Some (new_id env)) st of
           (Some child, st) \<Rightarrow> (l\<lparr>l_template := Some parent\<rparr>, st\<lparr>agent_pid := child\<rparr>)
         | (None, st) \<Rightarrow> (l, st)))"

definition phase_template :: "ckpt_env \<Rightarrow> string \<Rightarrow> string \<Rightarrow> locals \<Rightarrow> controller \<Rightarrow> locals \<times> controller" where
  "phase_template env strategy tag l st =
     (if \<not> (enable_warm_template st \<and> strategy \<noteq> ''lightweight'' \<and> \<not> l_bootstrap l \<and> l_prefork l = None
             \<and> l_async_dump l = None) then (l, st)
      else if l_future l = None then make_template env l st
      else
        let st = emit (Join (new_id env)) st; l = join_dump (dump_result env) l in
        if outcome_error (dump_result env) = None then make_template env l st
        else (case full_fallback env (ckpt_dir env tag st) l st of
            (Inr _, st) \<Rightarrow> make_template env (l\<lparr>l_stats_error := None, l_future := None, l_prev := None\<rparr>) st
          | (Inl e, st) \<Rightarrow> (l\<lparr>l_stats_error := Some (case e of RuntimeError m \<Rightarrow> m | _ \<Rightarrow> []), l_template := None\<rparr>, st)))"

section \<open>The entry\<close>

definition legacy_entry ::
  "ckpt_env \<Rightarrow> string \<Rightarrow> string \<Rightarrow> string \<Rightarrow> string option \<Rightarrow> string list \<Rightarrow> locals \<Rightarrow> controller \<Rightarrow> centry" where
  "legacy_entry env strategy tag raw parent_ckpt_id layers l st =
     (let parent = Option.bind parent_ckpt_id (map_of (cregistry st)); lw = (strategy = ''lightweight'') in
      \<lparr>e_id = new_id env, e_mem_path = ckpt_dir env tag st, e_parent_id = parent_ckpt_id, e_layers = layers,
       e_strategy = strategy, e_template_pid = l_template l, e_async_dump_pid = l_async_dump l,
       e_future = l_future l, e_dump_error = l_stats_error l, e_stats_error = l_stats_error l,
       e_dump_tree_pid = l_dump_tree l, e_ns_init_pid = ns_init_pid st,
       e_external_pidns = (\<not> is_pidns_init (table env) (ns_init_pid st) (l_dump_tree l)),
       e_fixed_active_pid = fixed_active_pid st, e_prev_ckpt_id = l_prev l,
       e_effective = (if lw then (case parent of
            Some e \<Rightarrow> (case e_effective e of Some x \<Rightarrow> Some x | None \<Rightarrow> Some parent_ckpt_id)
          | None \<Rightarrow> Some parent_ckpt_id) else None),
       e_replay_cmds = (if lw then (case parent of Some e \<Rightarrow> e_replay_cmds e | None \<Rightarrow> []) @ [(tag, raw)] else []),
       e_protocol = None, e_phase = None, e_dispose_done = False\<rparr>)"

text \<open>
  The whole method. \<^term>\<open>None\<close>: the walk to the parent image does not return. In the prefork mode it first
  waits for the parent's dump; a failure or a timeout of that wait is raised.
\<close>

definition join_parent :: "ckpt_env \<Rightarrow> string option \<Rightarrow> controller \<Rightarrow> (unit, controller) eff" where
  "join_parent env parent_ckpt_id st =
     (case Option.bind parent_ckpt_id (\<lambda>p. if p = [] then None else map_of (cregistry st) p) of
        Some e \<Rightarrow>
          if prefork_template_dump st \<and> e_future e = Some Pending then
            (case outcome_error (parent_join env) of None \<Rightarrow> Inr () | Some m \<Rightarrow> Inl (RuntimeError m),
             emit (Join (the parent_ckpt_id)) st)
          else (Inr (), st)
      | None \<Rightarrow> (Inr (), st))"

definition checkpoint_legacy ::
  "ckpt_env \<Rightarrow> string option \<Rightarrow> string \<Rightarrow> string \<Rightarrow> controller \<Rightarrow> (centry, controller) eff option" where
  "checkpoint_legacy env parent_ckpt_id tag raw st =
     (let st = (if async_template_full_dump st then st else drain_pending_template_cleanup (table env) (stop_ok env) st) in
      case join_parent env parent_ckpt_id st of (Inl e, st) \<Rightarrow> Some (Inl e, st) | (Inr _, st) \<Rightarrow>
      let st = emit (Makedirs (ckpt_dir env tag st)) st; strategy = select_strategy env raw st in
      case phase_bootstrap env strategy st of (l, st) \<Rightarrow>
      case bind_eff (phase_predump env strategy tag l st) (\<lambda>_ st. bind_eff (phase_prefork env strategy l st) (\<lambda>l st.
             bind_eff (phase_clone env strategy l st) (phase_async env strategy))) of
        (Inl e, st) \<Rightarrow> Some (Inl e, st)
      | (Inr l, st) \<Rightarrow>
          Option.bind (phase_dump env strategy tag parent_ckpt_id l st) (\<lambda>(l, st).
            Some (bind_eff (phase_sink env parent_ckpt_id st) (\<lambda>layers st.
              case phase_template env strategy tag l st of (l, st) \<Rightarrow>
              let info = legacy_entry env strategy tag raw parent_ckpt_id layers l st;
                  st = st\<lparr>cregistry := AList.update (new_id env) info (cregistry st)\<rparr>;
                  st = (if strategy \<noteq> ''lightweight'' \<and> l_prefork l = None \<and> l_async_dump l = None
                        then st\<lparr>active_dump_owner := Some (new_id env)\<rparr> else st) in
              (Inr info, st)))))"


section \<open>The method as a sequence of stages\<close>

text \<open>
  Every proof about the whole method follows the same stages: entry, preparation up to the asynchronous dump, dump, sinking of the layer, template
  and registration. The rule of this section names the intermediate states once.
\<close>

definition enter :: "ckpt_env \<Rightarrow> string option \<Rightarrow> controller \<Rightarrow> (unit, controller) eff" where
  "enter env parent st =
     join_parent env parent (if async_template_full_dump st then st else drain_pending_template_cleanup (table env) (stop_ok env) st)"

definition with_dir :: "ckpt_env \<Rightarrow> string \<Rightarrow> controller \<Rightarrow> controller" where
  "with_dir env tag st = emit (Makedirs (ckpt_dir env tag st)) st"

definition prepare :: "ckpt_env \<Rightarrow> string \<Rightarrow> string \<Rightarrow> controller \<Rightarrow> (locals, controller) eff" where
  "prepare env s tag st = (case phase_bootstrap env s st of (l, st) \<Rightarrow>
     bind_eff (phase_predump env s tag l st) (\<lambda>_ st. bind_eff (phase_prefork env s l st) (\<lambda>l st.
       bind_eff (phase_clone env s l st) (phase_async env s))))"

definition enlist :: "ckpt_env \<Rightarrow> string \<Rightarrow> locals \<Rightarrow> centry \<Rightarrow> controller \<Rightarrow> controller" where
  "enlist env s l info st = (let st = st\<lparr>cregistry := AList.update (new_id env) info (cregistry st)\<rparr> in
     if s \<noteq> ''lightweight'' \<and> l_prefork l = None \<and> l_async_dump l = None then st\<lparr>active_dump_owner := Some (new_id env)\<rparr> else st)"

lemma checkpoint_legacy_stages:
  "checkpoint_legacy env parent tag raw st = (case enter env parent st of (Inl e, st) \<Rightarrow> Some (Inl e, st) | (Inr _, st) \<Rightarrow>
     let s = select_strategy env raw (with_dir env tag st) in
     case prepare env s tag (with_dir env tag st) of (Inl e, st) \<Rightarrow> Some (Inl e, st) | (Inr l, st) \<Rightarrow>
       Option.bind (phase_dump env s tag parent l st) (\<lambda>(l, st). Some (bind_eff (phase_sink env parent st) (\<lambda>layers st.
         case phase_template env s tag l st of (l, st) \<Rightarrow>
           let info = legacy_entry env s tag raw parent layers l st in (Inr info, enlist env s l info st)))))"
  unfolding checkpoint_legacy_def enter_def prepare_def enlist_def with_dir_def Let_def by (auto split: prod.splits sum.splits)

lemma checkpoint_legacy_elim:
  assumes c: "checkpoint_legacy env parent tag raw st = Some (r, st')"
  obtains (entry) e where "r = Inl e" "enter env parent st = (Inl e, st')"
  | (preparation) e s1 s where "r = Inl e" "enter env parent st = (Inr (), s1)" "s = select_strategy env raw (with_dir env tag s1)"
      "prepare env s tag (with_dir env tag s1) = (Inl e, st')"
  | (sink) e s1 s l2 s2 l3 s3 where "r = Inl e" "enter env parent st = (Inr (), s1)" "s = select_strategy env raw (with_dir env tag s1)"
      "prepare env s tag (with_dir env tag s1) = (Inr l2, s2)" "phase_dump env s tag parent l2 s2 = Some (l3, s3)"
      "phase_sink env parent s3 = (Inl e, st')"
  | (ok) s1 s l2 s2 l3 s3 layers s4 l5 s5 info where "r = Inr info" "enter env parent st = (Inr (), s1)"
      "s = select_strategy env raw (with_dir env tag s1)" "prepare env s tag (with_dir env tag s1) = (Inr l2, s2)"
      "phase_dump env s tag parent l2 s2 = Some (l3, s3)" "phase_sink env parent s3 = (Inr layers, s4)"
      "phase_template env s tag l3 s4 = (l5, s5)" "info = legacy_entry env s tag raw parent layers l5 s5" "st' = enlist env s l5 info s5"
proof (cases "enter env parent st")
  case e: (Pair r1 s1)
  define s where "s = select_strategy env raw (with_dir env tag s1)"
  note u = c [unfolded checkpoint_legacy_stages e prod.case]
  show thesis
  proof (cases r1)
    case (Inl x)
    then show thesis using u entry e by auto
  next
    case r1: (Inr x)
    obtain r2 s2 where p: "prepare env s tag (with_dir env tag s1) = (r2, s2)" by fastforce
    note u = u [unfolded r1 sum.case Let_def s_def [symmetric] p prod.case]
    show thesis
    proof (cases r2)
      case (Inl x)
      then show thesis using u preparation [OF _ _ s_def] e r1 p by auto
    next
      case r2: (Inr l2)
      obtain l3 s3 where d: "phase_dump env s tag parent l2 s2 = Some (l3, s3)"
        using u [unfolded r2 sum.case] by (cases "phase_dump env s tag parent l2 s2") auto
      obtain r4 s4 where k: "phase_sink env parent s3 = (r4, s4)" by fastforce
      obtain l5 s5 where t: "phase_template env s tag l3 s4 = (l5, s5)" by fastforce
      show thesis
        using u [unfolded r2 sum.case d] sink [OF _ _ s_def _ d] ok [OF _ _ s_def _ d _ t] e r1 p r2 k t by (cases r4) auto
    qed
  qed
qed


section \<open>What the phases leave alone\<close>

definition frame :: "controller \<Rightarrow> cregistry \<times> string \<times> string \<times> string \<times> bool \<times> bool \<times> nat \<times> nat option" where
  "frame st = (cregistry st, base_layer st, layers_root st, snapshot_store st, enable_warm_template st,
     enable_incremental_dump st, ns_init_pid st, fixed_active_pid st)"

lemma frame_upd [simp]:
  "frame (emit e st) = frame st" "frame (emits es st) = frame st" "frame (st\<lparr>agent_pid := a\<rparr>) = frame st"
  "frame (st\<lparr>templates := ts\<rparr>) = frame st" "frame (st\<lparr>last_predump := x\<rparr>) = frame st"
  "frame (st\<lparr>current_upper := u, current_work := w\<rparr>) = frame st" "frame (st\<lparr>pending_reaps := rs\<rparr>) = frame st"
  by (simp_all add: frame_def emit_def emits_def)

lemma frame_requests [simp]:
  "frame (snd (request_fork r p i st)) = frame st" "frame (snd (request_stash_template r p i st)) = frame st"
  "frame (stop_templates st) = frame st" "frame (drain_pending_template_cleanup t b st) = frame st"
  "frame (dispose_fixed_dump_clone t b p st) = frame st"
  by (simp_all add: request_fork_def request_stash_template_def stop_templates_def Let_def
    drain_pending_template_cleanup_def dispose_fixed_dump_clone_def split: option.splits)

lemma frame_phase:
  "frame (snd (bootstrap_active_before_dump env i st)) = frame st"
  "frame (snd (phase_bootstrap env s st)) = frame st"
  "frame (snd (phase_predump env s tag l st)) = frame st"
  "frame (snd (phase_prefork env s l st)) = frame st"
  "frame (snd (phase_clone env s l st)) = frame st"
  "frame (snd (phase_async env s l st)) = frame st"
  "frame (snd (phase_sink env p st)) = frame st"
  "frame (snd (full_fallback env d l st)) = frame st"
  "frame (snd (make_template env l st)) = frame st"
  "frame (snd (join_parent env p st)) = frame st"
proof -
  show b: "frame (snd (bootstrap_active_before_dump env i st)) = frame st" for env i st
    by (auto simp: bootstrap_active_before_dump_def request_fork_def Let_def split: option.splits)
  show "frame (snd (phase_bootstrap env s st)) = frame st"
    using b [of env "new_id env" st] by (auto simp: phase_bootstrap_def split: prod.splits)
  show "frame (snd (phase_predump env s tag l st)) = frame st"
    by (simp add: phase_predump_def Let_def)
  show "frame (snd (phase_prefork env s l st)) = frame st"
    by (auto simp: phase_prefork_def request_fork_def Let_def split: option.splits)
  show "frame (snd (phase_clone env s l st)) = frame st"
    by (auto simp: phase_clone_def request_stash_template_def Let_def split: option.splits)
  show "frame (snd (phase_async env s l st)) = frame st"
    by (auto simp: phase_async_def request_stash_template_def Let_def split: option.splits)
  show "frame (snd (phase_sink env p st)) = frame st"
    by (auto simp: phase_sink_def apply_overlay_switch_def Let_def split: option.splits)
  show "frame (snd (full_fallback env d l st)) = frame st"
    by (simp add: full_fallback_def Let_def)
  show "frame (snd (make_template env l st)) = frame st"
    by (auto simp: make_template_def request_stash_template_def request_fork_def Let_def split: option.splits)
  show "frame (snd (join_parent env p st)) = frame st"
    by (auto simp: join_parent_def split: option.splits)
qed

lemma frame_template: "frame (snd (phase_template env s tag l st)) = frame st"
  using frame_phase(8) [of env _ _ st] frame_phase(9)
  by (auto simp: phase_template_def Let_def split: prod.splits sum.splits)
     (metis frame_phase(8) frame_upd(1) snd_conv)+

lemma frame_bind:
  "\<lbrakk>frame (snd m) = frame st; \<And>x s. frame s = frame st \<Longrightarrow> frame (snd (f x s)) = frame st\<rbrakk> \<Longrightarrow> frame (snd (bind_eff m f)) = frame st"
  by (cases m) (auto simp: bind_eff_def split: sum.splits)

lemma frame_stages:
  "frame (snd (enter env p st)) = frame st" "frame (with_dir env tag st) = frame st" "frame (snd (prepare env s tag st)) = frame st"
proof -
  show "frame (snd (enter env p st)) = frame st" by (simp add: enter_def frame_phase(10))
  show "frame (with_dir env tag st) = frame st" by (simp add: with_dir_def)
  obtain l s1 where b: "phase_bootstrap env s st = (l, s1)" by fastforce
  then have "frame s1 = frame st" using frame_phase(2) [of env s st] by simp
  then show "frame (snd (prepare env s tag st)) = frame st"
    unfolding prepare_def b prod.case by (intro frame_bind) (simp_all add: frame_phase)
qed

lemma strategy_stages: "enter env p st = (x, s1) \<Longrightarrow> select_strategy env raw (with_dir env tag s1) = select_strategy env raw st"
  by (auto simp: enter_def with_dir_def join_parent_def select_strategy_def drain_pending_template_cleanup_def emits_def emit_def Let_def
    split: option.splits if_splits)


section \<open>Well-formed registries\<close>

lemma up_link_up_par: "up_link = up_par e_parent_id"
  by (intro ext) (simp add: up_link_def up_par_def)

interpretation controller_registry: parent_registry "wf_parents e_parent_id" up_link dict_rank
  by unfold_locales (simp add: up_link_up_par up_par_rank)

definition is_light :: "centry \<Rightarrow> bool" where
  "is_light e \<longleftrightarrow> e_strategy e = ''lightweight''"

text \<open>
  An entry has layers; a full entry restores itself, a lightweight one an ancestor that is full if it is
  registered; the image of an entry builds on that of a full ancestor.
\<close>

definition centry_ok :: "cregistry \<Rightarrow> string \<Rightarrow> centry \<Rightarrow> bool" where
  "centry_ok reg k e \<longleftrightarrow> e_id e = k \<and> e_layers e \<noteq> []
     \<and> (if is_light e
        then \<exists>x. e_effective e = Some x \<and> (\<forall>f. x = Some f \<longrightarrow> f \<noteq> k \<and> ancestor (up_link reg) k f
               \<and> (\<forall>e'. map_of reg f = Some e' \<longrightarrow> \<not> is_light e'))
        else e_effective e = None \<and> e_replay_cmds e = [])
     \<and> (\<forall>p. e_prev_ckpt_id e = Some p \<longrightarrow> p \<noteq> k \<and> ancestor (up_link reg) k p
          \<and> (\<exists>e'. map_of reg p = Some e' \<and> \<not> is_light e'))"

definition creg_ok :: "cregistry \<Rightarrow> bool" where
  "creg_ok reg \<longleftrightarrow> wf_parents e_parent_id reg \<and> [] \<notin> fst ` set reg \<and> (\<forall>(k, e) \<in> set reg. centry_ok reg k e)"

definition fresh_ckpt :: "cregistry \<Rightarrow> string \<Rightarrow> bool" where
  "fresh_ckpt reg i \<longleftrightarrow> i \<noteq> [] \<and> i \<notin> fst ` set reg
     \<and> (\<forall>(k, e) \<in> set reg. e_parent_id e \<noteq> Some i \<and> e_effective e \<noteq> Some (Some i))"

lemma creg_okD:
  assumes "creg_ok reg"
  shows "wf_parents e_parent_id reg" "[] \<notin> fst ` set reg" "(k, e) \<in> set reg \<Longrightarrow> centry_ok reg k e"
  using assms by (auto simp: creg_ok_def)

lemma ancestor_link_new:
  assumes "ancestor (up_link reg) k j" "k \<noteq> i" "fresh_ckpt reg i"
  shows "ancestor (up_link (reg @ [(i, info)])) k j \<and> j \<noteq> i"
  using ancestor_new [of e_parent_id reg k j i info] assms by (auto simp: up_link_up_par fresh_ckpt_def)

lemma centry_ok_old:
  assumes ok: "centry_ok reg k e" and k: "k \<noteq> i" and fr: "fresh_ckpt reg i"
  shows "centry_ok (reg @ [(i, info)]) k e"
proof -
  have an: "ancestor (up_link (reg @ [(i, info)])) k j \<and> map_of (reg @ [(i, info)]) j = map_of reg j"
    if "ancestor (up_link reg) k j" for j
    using ancestor_link_new [OF that k fr, of info] map_of_new [of j i reg info] by blast
  show ?thesis
  proof (cases "is_light e")
    case True
    with ok obtain x where x: "e_effective e = Some x" "\<forall>f. x = Some f \<longrightarrow> f \<noteq> k \<and> ancestor (up_link reg) k f
               \<and> (\<forall>e'. map_of reg f = Some e' \<longrightarrow> \<not> is_light e')" unfolding centry_ok_def by auto
    then have "\<forall>f. x = Some f \<longrightarrow> f \<noteq> k \<and> ancestor (up_link (reg @ [(i, info)])) k f
               \<and> (\<forall>e'. map_of (reg @ [(i, info)]) f = Some e' \<longrightarrow> \<not> is_light e')" using an by metis
    then show ?thesis using ok True x(1) an unfolding centry_ok_def by (metis (no_types, lifting))
  next
    case False
    then show ?thesis using ok an unfolding centry_ok_def by (metis (no_types, lifting))
  qed
qed

lemma register_creg_ok:
  assumes "creg_ok reg" "fresh_ckpt reg i" "e_parent_id info \<noteq> Some i" "centry_ok (reg @ [(i, info)]) i info"
  shows "creg_ok (reg @ [(i, info)])"
proof -
  have "wf_parents e_parent_id (reg @ [(i, info)])"
    using assms creg_okD(1) [OF assms(1)] by (intro wf_parents_append) (auto simp: fresh_ckpt_def)
  moreover have "centry_ok (reg @ [(i, info)]) k e" if "(k, e) \<in> set reg" for k e
    using that creg_okD(3) [OF assms(1) that] assms(2) by (intro centry_ok_old) (force simp: fresh_ckpt_def)+
  ultimately show ?thesis using assms creg_okD(2) [OF assms(1)] by (auto simp: creg_ok_def fresh_ckpt_def)
qed

section \<open>The parent image\<close>

lemma find_prev_ok:
  assumes "wf_parents e_parent_id (cregistry st)"
  shows "\<exists>prev. find_prev env tree parent st = Some prev \<and> (\<forall>p. prev = Some p \<longrightarrow>
    (\<exists>k0 e. parent = Some k0 \<and> ancestor (up_link (cregistry st)) k0 p \<and> map_of (cregistry st) p = Some e
       \<and> usable_parent env tree st e))"
proof (cases "\<not> enable_incremental_dump st \<or> \<not> (\<exists>p \<in> set_option parent. in_reg (cregistry st) p)")
  case True
  then show ?thesis by (simp add: find_prev_def)
next
  case False
  let ?reg = "cregistry st"
  define stop where "stop = (\<lambda>k. \<not> in_reg ?reg k
      \<or> (case map_of ?reg k of Some e \<Rightarrow> usable_parent env tree st e | None \<Rightarrow> True))"
  obtain found where f: "climb (up_link ?reg) stop parent = Some found"
    using controller_registry.climb_returns [OF assms] by blast
  then have d: "find_prev env tree parent st = Some (Option.bind found (\<lambda>k. if in_reg ?reg k then Some k else None))"
    using False by (simp add: find_prev_def stop_def)
  show ?thesis
  proof (cases found)
    case None
    with d show ?thesis by simp
  next
    case (Some k)
    from False obtain k0 where k0: "parent = Some k0" by auto
    from controller_registry.climb_stops [OF assms f [unfolded k0 Some]]
    have "stop k" "ancestor (up_link ?reg) k0 k" by auto
    then show ?thesis using d Some k0 by (auto simp: stop_def in_reg_def split: option.splits)
  qed
qed

lemma find_prev_frame: "frame st = frame st' \<Longrightarrow> find_prev env t p st = find_prev env t p st'"
proof -
  assume f: "frame st = frame st'"
  then have "usable_parent env t st = usable_parent env t st'"
    by (intro ext) (simp add: usable_parent_def pid_identity_ok_def frame_def)
  then show ?thesis using f by (simp only: find_prev_def frame_def prod.inject)
qed

lemma parent_layers_frame: "frame st = frame st' \<Longrightarrow> parent_layers p st = parent_layers p st'"
  by (simp add: parent_layers_def frame_def split: option.splits)

definition sunk_layers :: "ckpt_env \<Rightarrow> string option \<Rightarrow> controller \<Rightarrow> string list" where
  "sunk_layers env parent st = (if (case upper_dirty env of Some d \<Rightarrow> d | None \<Rightarrow> True)
     then path_join (layers_root st) (''layer_'' @ new_id env) # parent_layers parent st else parent_layers parent st)"

lemma phase_sink_layers:
  "phase_sink env p st = (Inr layers, st') \<Longrightarrow> layers = sunk_layers env p st"
  by (auto simp: phase_sink_def sunk_layers_def apply_overlay_switch_def Let_def split: if_splits option.splits)

lemma make_template_prev: "l_prev (fst (make_template env l st)) = l_prev l"
  by (auto simp: make_template_def request_stash_template_def request_fork_def Let_def split: option.splits)

lemma phase_template_prev: "l_prev (fst (phase_template env s tag l st)) \<in> {None, l_prev l}"
  using make_template_prev [of env _ _]
  by (auto simp: phase_template_def Let_def join_dump_def make_template_prev split: prod.splits sum.splits dump_outcome.splits)

text \<open>What the method does to the registry, in all its modes.\<close>

lemma prepare_light:
  assumes "prepare env ''lightweight'' tag st = (Inr l, s1)"
  shows "l_prev l = None"
  using assms by (auto simp: prepare_def phase_bootstrap_def bind_eff_Inr_iff phase_prefork_def phase_clone_def phase_async_def
    need_fixed_dump_clone_def split: prod.splits if_splits)

lemma find_prev_at:
  assumes "wf_parents e_parent_id (cregistry st)" "frame s1 = frame st"
  obtains prev where "find_prev env t parent s1 = Some prev"
    "\<And>p. prev = Some p \<Longrightarrow> \<exists>k0 e. parent = Some k0 \<and> ancestor (up_link (cregistry st)) k0 p
      \<and> map_of (cregistry st) p = Some e \<and> usable_parent env t st e"
  using find_prev_ok [OF assms(1), of env t parent] find_prev_frame [OF assms(2)] by metis

lemma phase_dump_ok:
  assumes "wf_parents e_parent_id (cregistry st)" "frame s1 = frame st" "s = ''lightweight'' \<Longrightarrow> l_prev l = None"
    and d: "phase_dump env s tag parent l s1 = Some (l', s2)"
  shows "frame s2 = frame st \<and> (\<forall>p. l_prev l' = Some p \<longrightarrow> (\<exists>k0 e t. parent = Some k0 \<and> ancestor (up_link (cregistry st)) k0 p
        \<and> map_of (cregistry st) p = Some e \<and> usable_parent env t st e))"
proof (cases "s = ''lightweight''")
  case True
  then show ?thesis using d assms(2,3) by (auto simp: phase_dump_def)
next
  case False
  obtain prev where pv: "find_prev env (l_dump_tree l) parent s1 = Some prev"
    "\<And>p. prev = Some p \<Longrightarrow> \<exists>k0 e. parent = Some k0 \<and> ancestor (up_link (cregistry st)) k0 p
      \<and> map_of (cregistry st) p = Some e \<and> usable_parent env (l_dump_tree l) st e"
    by (rule find_prev_at [OF assms(1,2)]) blast
  have "frame s2 = frame st" "l_prev l' = prev"
    using d False pv(1) assms(2) by (auto simp: phase_dump_def Let_def join_dump_def split: if_splits option.splits dump_outcome.splits)
  then show ?thesis using pv(2) by blast
qed

lemma checkpoint_legacy_returns:
  assumes "wf_parents e_parent_id (cregistry st)"
  obtains r st' where "checkpoint_legacy env parent tag raw st = Some (r, st')"
proof (cases "checkpoint_legacy env parent tag raw st")
  case None
  then obtain s1 s l s2 where st: "enter env parent st = (Inr (), s1)" "prepare env s tag (with_dir env tag s1) = (Inr l, s2)"
    and d: "phase_dump env s tag parent l s2 = None"
    unfolding checkpoint_legacy_stages by (auto simp: Let_def bind_eq_None_conv split: prod.splits sum.splits)
  have "frame s2 = frame st" using frame_stages(1) [of env parent st] frame_stages(2,3) [of env] st by (metis snd_conv)
  then obtain prev where "find_prev env (l_dump_tree l) parent s2 = Some prev" using find_prev_at [OF assms] by blast
  then show ?thesis using d by (simp add: phase_dump_def split: if_splits)
qed (use that in force)

lemma checkpoint_legacy_cases:
  assumes wf: "wf_parents e_parent_id (cregistry st)"
  obtains (error) e st' where "checkpoint_legacy env parent tag raw st = Some (Inl e, st')" "frame st' = frame st"
  | (ok) l st1 st' info where "checkpoint_legacy env parent tag raw st = Some (Inr info, st')" "frame st1 = frame st"
      "info = legacy_entry env (select_strategy env raw st) tag raw parent (sunk_layers env parent st) l st1"
      "cregistry st' = AList.update (new_id env) info (cregistry st)"
      "\<And>p. l_prev l = Some p \<Longrightarrow> \<exists>k0 e t. parent = Some k0 \<and> ancestor (up_link (cregistry st)) k0 p
          \<and> map_of (cregistry st) p = Some e \<and> usable_parent env t st e"
proof -
  obtain r st' where c: "checkpoint_legacy env parent tag raw st = Some (r, st')" by (rule checkpoint_legacy_returns [OF wf])
  have f1: "frame (with_dir env tag s1) = frame st" if "enter env parent st = (x, s1)" for x s1
    using frame_stages(1) [of env parent st] frame_stages(2) [of env tag s1] that by simp
  have f2: "frame s2 = frame st" if "enter env parent st = (x, s1)" "prepare env s tag (with_dir env tag s1) = (y, s2)" for x s1 s y s2
    using frame_stages(3) [of env s tag "with_dir env tag s1"] f1 that by simp
  have f4: "frame s4 = frame s3" if "phase_sink env parent s3 = (x, s4)" for x s3 s4 using frame_phase(7) [of env parent s3] that by simp
  have d3: "frame s3 = frame st" "\<And>p. l_prev l3 = Some p \<Longrightarrow> \<exists>k0 e t. parent = Some k0 \<and> ancestor (up_link (cregistry st)) k0 p
        \<and> map_of (cregistry st) p = Some e \<and> usable_parent env t st e"
    if "enter env parent st = (x, s1)" "prepare env s tag (with_dir env tag s1) = (Inr l2, s2)" "phase_dump env s tag parent l2 s2 = Some (l3, s3)"
    for x s1 s l2 s2 l3 s3
    using phase_dump_ok [OF wf f2 [OF that(1,2)] _ that(3)] prepare_light that(2) by blast+
  from c show thesis
  proof (cases rule: checkpoint_legacy_elim)
    case (entry e)
    then show thesis using error c frame_stages(1) [of env parent st] by auto
  next
    case (preparation e s1 s)
    then show thesis using error c f2 by blast
  next
    case (sink e s1 s l2 s2 l3 s3)
    have "frame s3 = frame st" by (rule d3 [OF sink(2,4,5)])
    then show thesis using error c sink(1) f4 [OF sink(6)] by auto
  next
    case (ok s1 s l2 s2 l3 s3 layers s4 l5 s5 info)
    note f3 = d3(1) [OF ok(2,4,5)] and pv = d3(2) [OF ok(2,4,5)]
    have f5: "frame s5 = frame st" using frame_template [of env s tag l3 s4] ok(7) f4 [OF ok(6)] f3 by simp
    have lay: "layers = sunk_layers env parent st"
      using phase_sink_layers [OF ok(6)] f3 parent_layers_frame [of s3 st parent] by (simp add: sunk_layers_def frame_def)
    have "cregistry st' = AList.update (new_id env) info (cregistry st)" using ok(9) f5 by (simp add: enlist_def Let_def frame_def)
    moreover have "s = select_strategy env raw st" using ok(2,3) strategy_stages by blast
    moreover have "\<exists>k0 e t. parent = Some k0 \<and> ancestor (up_link (cregistry st)) k0 p \<and> map_of (cregistry st) p = Some e \<and> usable_parent env t st e"
      if "l_prev l5 = Some p" for p
      using phase_template_prev [of env s tag l3 s4] ok(7) that by (intro pv) auto
    ultimately show thesis using that(2) [of info st' s5 l5] c ok(1,8) f5 lay by blast
  qed
qed


section \<open>Checkpoints keep the registry well formed\<close>

lemma select_strategy_light:
  "select_strategy env raw st = ''lightweight'' \<or> select_strategy env raw st = ''standard'' \<or> select_strategy env raw st = ''predump''"
  by (auto simp: select_strategy_def strategy_name_def Let_def split: strategy.splits)

lemma parent_layers_ne:
  assumes "creg_ok (cregistry st)"
  shows "parent_layers parent st \<noteq> []"
proof (cases "\<exists>p. parent = Some p \<and> in_reg (cregistry st) p")
  case True
  then obtain p e where p: "parent = Some p" "map_of (cregistry st) p = Some e" by (auto simp: in_reg_def)
  have "centry_ok (cregistry st) p e" by (rule creg_okD(3) [OF assms map_of_SomeD [OF p(2)]])
  then show ?thesis using p True by (auto simp: parent_layers_def centry_ok_def)
qed (auto simp: parent_layers_def split: option.splits)

lemma legacy_entry_ok:
  assumes ok: "creg_ok reg" and fr: "fresh_ckpt reg i" and par: "parent \<noteq> Some i"
    and reg: "cregistry st1 = reg" and i: "i = new_id env"
    and info: "info = legacy_entry env s tag raw parent layers l st1" and lay: "layers \<noteq> []"
    and prev: "\<And>p. l_prev l = Some p \<Longrightarrow> \<exists>k0 e. parent = Some k0 \<and> ancestor (up_link reg) k0 p \<and> map_of reg p = Some e \<and> \<not> is_light e"
  shows "centry_ok (reg @ [(i, info)]) i info"
proof -
  let ?reg = "reg @ [(i, info)]"
  have ine: "i \<noteq> []" "i \<notin> fst ` set reg" using fr by (auto simp: fresh_ckpt_def)
  have "map_of reg i = None" using ine(2) by (simp add: map_of_eq_None_iff)
  then have mi: "map_of ?reg i = Some info" by (simp add: map_add_def)
  have pi: "e_parent_id info = parent" by (simp add: info legacy_entry_def Let_def)
  have up: "up_link ?reg i = parent" using ine(1) mi pi by (simp add: up_link_def)
  have via: "ancestor (up_link ?reg) i q \<and> q \<noteq> i \<and> map_of ?reg q = map_of reg q"
    if "parent = Some p" "ancestor (up_link reg) p q" for p q
  proof -
    have "p \<noteq> i" using par that(1) by simp
    then show ?thesis using ancestor_link_new [OF that(2) _ fr, of info] up that(1) ancestor_front [of "up_link ?reg" p q i] map_of_new [of q i reg info]
      by metis
  qed
  have eff: "\<exists>x. e_effective info = Some x \<and> (\<forall>f. x = Some f \<longrightarrow> f \<noteq> i \<and> ancestor (up_link ?reg) i f
               \<and> (\<forall>e'. map_of ?reg f = Some e' \<longrightarrow> \<not> is_light e'))" if "is_light info"
  proof -
    have lw: "s = ''lightweight''" using that by (simp add: is_light_def info legacy_entry_def Let_def)
    have e: "e_effective info = (case Option.bind parent (map_of reg) of
            Some e \<Rightarrow> (case e_effective e of Some x \<Rightarrow> Some x | None \<Rightarrow> Some parent) | None \<Rightarrow> Some parent)"
      by (simp add: info legacy_entry_def Let_def lw reg)
    show ?thesis
    proof (cases parent)
      case None
      then show ?thesis using e by simp
    next
      case (Some p)
      note self = via [OF Some ancestor.self]
      show ?thesis
      proof (cases "map_of reg p")
        case None
        then show ?thesis using e Some self by (simp del: map_of_append)
      next
        case pe: (Some pe)
        have pok: "centry_ok reg p pe" by (rule creg_okD(3) [OF ok map_of_SomeD [OF pe]])
        show ?thesis
        proof (cases "is_light pe")
          case True
          with pok obtain x where x: "e_effective pe = Some x" "\<forall>f. x = Some f \<longrightarrow> f \<noteq> p \<and> ancestor (up_link reg) p f
               \<and> (\<forall>e'. map_of reg f = Some e' \<longrightarrow> \<not> is_light e')" unfolding centry_ok_def by auto
          then show ?thesis using e Some pe via [OF Some] by (simp del: map_of_append)
        next
          case False
          then have "e_effective pe = None" using pok by (simp add: centry_ok_def)
          then show ?thesis using e Some pe self False by (simp del: map_of_append)
        qed
      qed
    qed
  qed
  have nl: "\<not> is_light info \<Longrightarrow> e_effective info = None \<and> e_replay_cmds info = []"
    by (simp add: is_light_def info legacy_entry_def Let_def)
  have pv: "p \<noteq> i \<and> ancestor (up_link ?reg) i p \<and> (\<exists>e'. map_of ?reg p = Some e' \<and> \<not> is_light e')"
    if "e_prev_ckpt_id info = Some p" for p
    using that prev [of p] via by (auto simp: info legacy_entry_def Let_def)
  have "e_id info = i" "e_layers info = layers" by (simp_all add: info legacy_entry_def Let_def i)
  then show ?thesis unfolding centry_ok_def using lay eff nl pv by simp
qed

lemma checkpoint_legacy_ok:
  assumes ok: "creg_ok (cregistry st)" and fr: "fresh_ckpt (cregistry st) (new_id env)" and par: "parent \<noteq> Some (new_id env)"
    and c: "checkpoint_legacy env parent tag raw st = Some (Inr info, st')"
  shows "cregistry st' = cregistry st @ [(new_id env, info)]" "centry_ok (cregistry st @ [(new_id env, info)]) (new_id env) info"
    "e_parent_id info = parent" "e_layers info = sunk_layers env parent st" "e_strategy info = select_strategy env raw st"
proof -
  note wf = creg_okD(1) [OF ok]
  show all: "cregistry st' = cregistry st @ [(new_id env, info)]" "centry_ok (cregistry st @ [(new_id env, info)]) (new_id env) info"
    "e_parent_id info = parent" "e_layers info = sunk_layers env parent st" "e_strategy info = select_strategy env raw st"
  proof -
    from checkpoint_legacy_cases [OF wf, of env parent tag raw]
    obtain l st1 where x: "frame st1 = frame st"
      "info = legacy_entry env (select_strategy env raw st) tag raw parent (sunk_layers env parent st) l st1"
      "cregistry st' = AList.update (new_id env) info (cregistry st)"
      "\<And>p. l_prev l = Some p \<Longrightarrow> \<exists>k0 e t. parent = Some k0 \<and> ancestor (up_link (cregistry st)) k0 p
          \<and> map_of (cregistry st) p = Some e \<and> usable_parent env t st e"
      by (cases) (use c in auto)
    show "cregistry st' = cregistry st @ [(new_id env, info)]"
      using x(3) fr by (simp add: update_new_key fresh_ckpt_def)
    show "centry_ok (cregistry st @ [(new_id env, info)]) (new_id env) info"
    proof (rule legacy_entry_ok [OF ok fr par _ refl x(2)])
      show "cregistry st1 = cregistry st" using x(1) by (simp add: frame_def)
      show "sunk_layers env parent st \<noteq> []" using parent_layers_ne [OF ok] by (simp add: sunk_layers_def)
      show "\<exists>k0 e. parent = Some k0 \<and> ancestor (up_link (cregistry st)) k0 p \<and> map_of (cregistry st) p = Some e \<and> \<not> is_light e"
        if "l_prev l = Some p" for p
        using x(4) [OF that] by (auto simp: usable_parent_def is_light_def)
    qed
    show "e_parent_id info = parent" "e_layers info = sunk_layers env parent st" "e_strategy info = select_strategy env raw st"
      by (simp_all add: x(2) legacy_entry_def Let_def)
  qed
qed

text \<open>
  C16. A checkpoint returns on every well-formed registry, in every mode. If it raises, the registry is
  unchanged; otherwise exactly one entry is appended, whose layers are those of its parent with the sunk
  layer on top when the upper directory was dirty, and the registry is well formed again: the image builds
  on that of a full ancestor, and a lightweight checkpoint restores a full ancestor.
\<close>

theorem checkpoint_legacy_registers:
  assumes "creg_ok (cregistry st)" "fresh_ckpt (cregistry st) (new_id env)" "parent \<noteq> Some (new_id env)"
  shows "\<exists>r st'. checkpoint_legacy env parent tag raw st = Some (r, st') \<and> creg_ok (cregistry st')
    \<and> (case r of Inl _ \<Rightarrow> cregistry st' = cregistry st
       | Inr info \<Rightarrow> cregistry st' = cregistry st @ [(new_id env, info)] \<and> e_parent_id info = parent
           \<and> e_layers info = sunk_layers env parent st)"
proof (rule checkpoint_legacy_cases [OF creg_okD(1) [OF assms(1)], of env parent tag raw])
  fix e st' assume "checkpoint_legacy env parent tag raw st = Some (Inl e, st')" "frame st' = frame st"
  then show ?thesis using assms(1) by (auto simp: frame_def)
next
  fix l st1 st' info assume c: "checkpoint_legacy env parent tag raw st = Some (Inr info, st')"
  note x = checkpoint_legacy_ok [OF assms c]
  have "creg_ok (cregistry st')"
    unfolding x(1) by (rule register_creg_ok [OF assms(1,2) _ x(2)]) (use x(3) assms(3) in simp)
  then show ?thesis using c x by (intro exI [of _ "Inr info"] exI [of _ st']) simp
qed


section \<open>One runnable agent\<close>

text \<open>
  The replies of the pool are PIDs of new processes: apart from the agent, from the templates and from
  each other.
\<close>

definition pool_vals :: "controller \<Rightarrow> nat set" where
  "pool_vals st = snd ` set (templates st)"

definition apart :: "nat list \<Rightarrow> controller \<Rightarrow> bool" where
  "apart ps st \<longleftrightarrow> distinct ps \<and> agent_pid st \<notin> pool_vals st
     \<and> (\<forall>p \<in> set ps. p \<noteq> agent_pid st \<and> p \<notin> pool_vals st)"

definition replies :: "nat option list \<Rightarrow> nat list" where
  "replies rs = List.map_filter id rs"

lemma replies_simps [simp]: "replies [] = []" "replies (None # rs) = replies rs" "replies (Some p # rs) = p # replies rs"
  by (simp_all add: replies_def List.map_filter_def)

lemma pool_vals_update: "pool_vals (st\<lparr>templates := AList.update k v (templates st)\<rparr>) \<subseteq> insert v (pool_vals st)"
proof -
  have "snd ` set (AList.update k v xs) \<subseteq> insert v (snd ` set xs)" for xs by (induction xs) auto
  then show ?thesis by (simp add: pool_vals_def)
qed

lemma pool_vals_delete: "pool_vals (st\<lparr>templates := AList.delete k (templates st)\<rparr>) \<subseteq> pool_vals st"
proof -
  have "snd ` set (AList.delete k xs) \<subseteq> snd ` set xs" for xs by (induction xs) auto
  then show ?thesis by (simp add: pool_vals_def)
qed

lemma pool_vals_upd [simp]:
  "pool_vals (emit e st) = pool_vals st" "pool_vals (emits es st) = pool_vals st"
  "pool_vals (st\<lparr>agent_pid := a\<rparr>) = pool_vals st" "pool_vals (stop_templates st) = pool_vals st"
  by (simp_all add: pool_vals_def emit_def emits_def stop_templates_def)

lemma apart_mono: "\<lbrakk>apart ps st; agent_pid st' = agent_pid st; pool_vals st' \<subseteq> pool_vals st\<rbrakk> \<Longrightarrow> apart ps st'"
  unfolding apart_def by (metis subsetD)

lemma apart_drop: "apart (replies (r # rs)) st \<Longrightarrow> apart (replies rs) st"
  by (cases r) (simp_all add: apart_def)

lemma apart_stash:
  "\<lbrakk>apart (p # ps) st; pool_vals st' \<subseteq> insert p (pool_vals st); agent_pid st' = agent_pid st\<rbrakk> \<Longrightarrow> apart ps st'"
  unfolding apart_def distinct.simps by (metis insertE list.set_intros subsetD)

lemma apart_fork:
  "\<lbrakk>apart (p # ps) st; pool_vals st' \<subseteq> insert (agent_pid st) (pool_vals st); agent_pid st' = p\<rbrakk> \<Longrightarrow> apart ps st'"
  unfolding apart_def distinct.simps by (metis insertE list.set_intros subsetD)

lemma request_fork_apart:
  assumes "apart (replies (r # rs)) st" "request_fork r (agent_pid st) sid st = (x, st')"
  shows "apart (replies rs) (case x of Some c \<Rightarrow> st'\<lparr>agent_pid := c\<rparr> | None \<Rightarrow> st')"
proof (cases r)
  case None
  then have "x = None" "st' = emit (Dispatch_fork (agent_pid st) None) st" using assms(2) by (auto simp: request_fork_def Let_def)
  then show ?thesis using apart_drop [OF assms(1)] by (simp add: apart_mono)
next
  case (Some c)
  have "pool_vals st' \<subseteq> insert (agent_pid st) (pool_vals st)" "x = Some c"
    using assms(2) Some pool_vals_update [where st = "emit (Dispatch_fork (agent_pid st) None) st"]
    by (auto simp: request_fork_def Let_def simp del: emit_simps split: option.splits)
  then show ?thesis using assms(1) Some by (auto intro!: apart_fork [of c "replies rs" st])
qed

lemma request_stash_apart:
  assumes "apart (replies (r # rs)) st" "request_stash_template r a sid st = (x, st')"
  shows "apart (replies rs) st'"
proof (cases r)
  case None
  then have "st' = emit (Dispatch_fork a None) st" using assms(2) by (auto simp: request_stash_template_def Let_def)
  then show ?thesis using apart_drop [OF assms(1)] by (simp add: apart_mono)
next
  case (Some c)
  have "pool_vals st' \<subseteq> insert c (pool_vals st)" "agent_pid st' = agent_pid st"
    using assms(2) Some pool_vals_update [where st = "emit (Dispatch_fork a None) st"]
    by (auto simp: request_stash_template_def Let_def simp del: emit_simps split: option.splits) (simp add: emit_def)+
  then show ?thesis using assms(1) Some by (auto intro!: apart_stash [of c "replies rs" st])
qed

lemma apart_upd [simp]:
  "apart ps (emit e st) = apart ps st" "apart ps (emits es st) = apart ps st" "apart ps (stop_templates st) = apart ps st"
  "apart ps (st\<lparr>last_predump := x\<rparr>) = apart ps st" "apart ps (st\<lparr>pending_reaps := y\<rparr>) = apart ps st"
  "apart ps (st\<lparr>current_upper := u, current_work := w\<rparr>) = apart ps st"
  "apart ps (drain_pending_template_cleanup t b st) = apart ps st"
  "apart ps (dispose_fixed_dump_clone t b p st) = apart ps st"
  by (simp_all add: apart_def pool_vals_def emit_def emits_def stop_templates_def drain_pending_template_cleanup_def
    dispose_fixed_dump_clone_def Let_def)

lemma same_agent [simp]: "agent_pid (stop_templates st) = agent_pid st"
  by (simp add: stop_templates_def)

lemma apart_phases:
  "apart (replies (fork_reply env # rs)) st \<Longrightarrow> apart (replies rs) (snd (phase_bootstrap env s st))"
  "apart ps st \<Longrightarrow> apart ps (snd (phase_predump env s tag l st))"
  "apart (replies (prefork_reply env # rs)) st \<Longrightarrow> apart (replies rs) (snd (phase_prefork env s l st))"
  "apart (replies (clone_reply env # rs)) st \<Longrightarrow> apart (replies rs) (snd (phase_clone env s l st))"
  "apart (replies (warm_reply env # dump_reply env # rs)) st \<Longrightarrow> apart (replies rs) (snd (phase_async env s l st))"
  "apart ps st \<Longrightarrow> apart ps (snd (phase_sink env p st))"
  "apart (replies (stash_reply env # rs)) st \<Longrightarrow> apart (replies rs) (snd (make_template env l st))"
proof -
  show "apart (replies rs) (snd (phase_bootstrap env s st))" if a: "apart (replies (fork_reply env # rs)) st"
    using request_fork_apart [OF a, of "Some (new_id env)"] apart_drop [OF a]
    by (auto simp: phase_bootstrap_def bootstrap_active_before_dump_def Let_def split: prod.splits option.splits if_splits)
  show "apart ps st \<Longrightarrow> apart ps (snd (phase_predump env s tag l st))"
    by (simp add: phase_predump_def Let_def)
  show "apart (replies rs) (snd (phase_prefork env s l st))" if a: "apart (replies (prefork_reply env # rs)) st"
  proof -
    have "apart (replies (prefork_reply env # rs)) (stop_templates st)" using a by simp
    from request_fork_apart [OF this, of "Some (new_id env)"] apart_drop [OF a]
    show ?thesis by (auto simp: phase_prefork_def Let_def split: prod.splits option.splits if_splits)
  qed
  show "apart (replies rs) (snd (phase_clone env s l st))" if a: "apart (replies (clone_reply env # rs)) st"
  proof -
    have "apart (replies (clone_reply env # rs)) (emit Wait_slot st)" using a by simp
    from request_stash_apart [OF this, of "agent_pid st" None] apart_drop [OF a]
    show ?thesis by (auto simp: phase_clone_def Let_def split: prod.splits option.splits if_splits)
  qed
  show "apart (replies rs) (snd (phase_async env s l st))" if a: "apart (replies (warm_reply env # dump_reply env # rs)) st"
  proof -
    have a1: "apart (replies (warm_reply env # dump_reply env # rs)) (stop_templates st)" using a by simp
    obtain w s1 where w: "request_stash_template (warm_reply env) (agent_pid st) (Some (new_id env)) (stop_templates st) = (w, s1)" by fastforce
    obtain d s2 where d: "request_stash_template (dump_reply env) (agent_pid s1) None s1 = (d, s2)" by fastforce
    note b1 = request_stash_apart [OF a1 w]
    note b2 = request_stash_apart [OF b1 d]
    have "apart (replies rs) (s2\<lparr>templates := AList.delete (new_id env) (templates s2)\<rparr>)"
      by (rule apart_mono [OF b2 _ pool_vals_delete]) simp
    then show ?thesis using w d b2 apart_drop [OF b1] apart_drop [OF apart_drop [OF a]]
      by (auto simp: phase_async_def Let_def split: prod.splits option.splits if_splits)
  qed
  show "apart ps st \<Longrightarrow> apart ps (snd (phase_sink env p st))"
    by (auto simp: phase_sink_def apply_overlay_switch_def Let_def split: option.splits)
  show "apart (replies rs) (snd (make_template env l st))" if a: "apart (replies (stash_reply env # rs)) st"
  proof -
    obtain l1 s1 where c: "(case l_clone l of Some p \<Rightarrow> (l\<lparr>l_clone := None\<rparr>, dispose_fixed_dump_clone (table env) (reap_ok env) p st) | None \<Rightarrow> (l, st)) = (l1, s1)"
      by fastforce
    have "apart (replies (stash_reply env # rs)) s1" using c a by (auto split: option.splits)
    then have a1: "apart (replies (stash_reply env # rs)) (stop_templates s1)" by simp
    note f = request_fork_apart [OF a1, of "Some (new_id env)", simplified] and g = request_stash_apart [OF a1, of "agent_pid s1" "Some (new_id env)"]
    show ?thesis unfolding make_template_def c Let_def prod.case using f g
      by (auto split: prod.splits option.splits)
  qed
qed

lemma apart_phase_dump:
  "phase_dump env s tag p l st = Some (l', st') \<Longrightarrow> apart ps st \<Longrightarrow> apart ps st'"
  by (auto simp: phase_dump_def Let_def split: if_splits)

lemma apart_template:
  assumes "apart (replies (stash_reply env # rs)) st"
  shows "apart (replies rs) (snd (phase_template env s tag l st))"
proof -
  have ff: "full_fallback env d l s = (x, s') \<Longrightarrow> apart ps s' = apart ps s" for d l s x s' ps
    by (auto simp: full_fallback_def Let_def split: if_splits)
  have m: "apart (replies rs) (snd (make_template env l' st'))" if "apart (replies (stash_reply env # rs)) st'" for l' st'
    by (rule apart_phases(7) [OF that])
  show ?thesis using assms apart_drop [OF assms]
    by (auto simp: phase_template_def Let_def ff intro!: m split: prod.splits sum.splits)
qed

lemma apart_prepare:
  assumes "apart (replies [fork_reply env, prefork_reply env, clone_reply env, warm_reply env, dump_reply env, stash_reply env]) st"
  shows "apart (replies [stash_reply env]) (snd (prepare env s tag st))"
proof -
  obtain l s0 where b: "phase_bootstrap env s st = (l, s0)" by fastforce
  note b0 = apart_phases(1) [OF assms, of s, unfolded b snd_conv]
  obtain x1 s1 where p1: "phase_predump env s tag l s0 = (x1, s1)" by fastforce
  note b1 = apart_phases(2) [OF b0, of env s tag l, unfolded p1 snd_conv]
  obtain x2 s2 where p2: "phase_prefork env s l s1 = (x2, s2)" by fastforce
  note b2 = apart_phases(3) [OF b1, of s l, unfolded p2 snd_conv]
  obtain x3 s3 where p3: "phase_clone env s (case x2 of Inr l \<Rightarrow> l | Inl _ \<Rightarrow> l) s2 = (x3, s3)" by fastforce
  note b3 = apart_phases(4) [OF b2, of s "case x2 of Inr l \<Rightarrow> l | Inl _ \<Rightarrow> l", unfolded p3 snd_conv]
  obtain x4 s4 where p4: "phase_async env s (case x3 of Inr l \<Rightarrow> l | Inl _ \<Rightarrow> l) s3 = (x4, s4)" by fastforce
  note b4 = apart_phases(5) [OF b3, of s "case x3 of Inr l \<Rightarrow> l | Inl _ \<Rightarrow> l", unfolded p4 snd_conv]
  have "snd (prepare env s tag st) \<in> {s1, s2, s3, s4}" using p1 p2 p3 p4 unfolding prepare_def b
    by (auto simp: bind_eff_def split: sum.splits)
  then show ?thesis using b1 b2 b3 b4 by (auto simp del: replies_simps dest: apart_drop)
qed

lemma apart_enter: "apart ps st \<Longrightarrow> enter env p st = (x, s1) \<Longrightarrow> apart ps s1"
  by (auto simp: enter_def join_parent_def split: option.splits if_splits)

text \<open>
  After a checkpoint, in every mode and also after a failure, the active agent is not one of the frozen
  templates, provided that it was not before and that the processes the pool reports are new ones. So at
  most one process that reads the control pipe is runnable.
\<close>

theorem checkpoint_agent_not_template:
  assumes a: "apart (replies [fork_reply env, prefork_reply env, clone_reply env, warm_reply env, dump_reply env, stash_reply env]) st"
    and c: "checkpoint_legacy env parent tag raw st = Some (r, st')"
  shows "agent_pid st' \<notin> template_pids st'"
proof -
  have a2: "apart (replies [stash_reply env]) s2" if "enter env parent st = (x, s1)" "prepare env s tag (with_dir env tag s1) = (y, s2)" for x s1 s y s2
    using apart_prepare [of env "with_dir env tag s1" s tag] apart_enter [OF a that(1)] that(2) by (simp add: with_dir_def)
  have a4: "apart ps s4" if "apart ps s3" "phase_sink env parent s3 = (x, s4)" for ps s3 x s4
    using apart_phases(6) [OF that(1), of env parent] that(2) by simp
  have drop: "apart ps x \<Longrightarrow> apart [] x" for ps x by (simp add: apart_def)
  from c have "apart [] st'"
  proof (cases rule: checkpoint_legacy_elim)
    case (entry e)
    then show ?thesis using apart_enter [OF a] drop by blast
  next
    case (preparation e s1 s)
    then show ?thesis using a2 drop by blast
  next
    case (sink e s1 s l2 s2 l3 s3)
    then show ?thesis using a4 apart_phase_dump [OF sink(5) a2 [OF sink(2,4)]] drop by blast
  next
    case (ok s1 s l2 s2 l3 s3 layers s4 l5 s5 info)
    note a3 = apart_phase_dump [OF ok(5) a2 [OF ok(2,4)]]
    have "apart [] s5" using apart_template [OF a4 [OF a3 ok(6)], of s tag l3] ok(7) by (simp add: drop)
    then show ?thesis using ok(9) by (simp add: enlist_def Let_def apart_def pool_vals_def)
  qed
  then show ?thesis by (simp add: apart_def template_pids_def pool_vals_def)
qed

section \<open>Witnesses\<close>

definition wit_ckpt_env :: ckpt_env where
  "wit_ckpt_env = \<lparr>new_id = ''n'', table = wit_procs, stop_ok = True, has_hot = False, hot_disabled = False,
     fresh_pidns = False, cross_pid_probe = False, fork_reply = Some 20, prefork_reply = Some 21,
     prefork_fallback = False, clone_reply = Some 22, warm_reply = Some 23, dump_reply = Some 24,
     stash_reply = Some 25, slot_free = True, parent_join = Dump_ok, predump_ok = True, dump_result = Dump_ok,
     fallback_disabled = False, fallback_error = None, reap_ok = True, upper_dirty = Some True, switch_errno = None\<rparr>"

definition wit_empty :: controller where
  "wit_empty = wit_ctl\<lparr>cregistry := [], templates := []\<rparr>"

lemma wit_empty_ok: "creg_ok (cregistry wit_empty) \<and> fresh_ckpt (cregistry wit_empty) (new_id wit_ckpt_env)"
  by (simp add: creg_ok_def fresh_ckpt_def wit_empty_def wit_ckpt_env_def)

theorem checkpoint_legacy_registers_witness:
  "\<exists>r st'. checkpoint_legacy wit_ckpt_env None ''step'' [] wit_empty = Some (r, st') \<and> creg_ok (cregistry st')"
  using checkpoint_legacy_registers [of wit_empty wit_ckpt_env None "''step''" "[]"] wit_empty_ok by auto

theorem checkpoint_agent_not_template_witness:
  "\<exists>r st'. checkpoint_legacy wit_ckpt_env None ''step'' [] wit_empty = Some (r, st') \<and> agent_pid st' \<notin> template_pids st'"
proof -
  have "apart (replies [fork_reply wit_ckpt_env, prefork_reply wit_ckpt_env, clone_reply wit_ckpt_env, warm_reply wit_ckpt_env,
      dump_reply wit_ckpt_env, stash_reply wit_ckpt_env]) wit_empty" by code_simp
  moreover obtain r st' where "checkpoint_legacy wit_ckpt_env None ''step'' [] wit_empty = Some (r, st')"
    using checkpoint_legacy_cases [of wit_empty wit_ckpt_env None "''step''" "[]"] by (metis creg_okD(1) wit_empty_ok)
  ultimately show ?thesis using checkpoint_agent_not_template [of wit_ckpt_env wit_empty None "''step''" "[]" r st'] by blast
qed

end
