(* ===== verification/Restore_Action.thy ===== *)
theory Restore_Action
  imports Legacy_Checkpoint
begin

text \<open>
  \<^verbatim>\<open>SandboxController.restore_action\<close>: which image a restore uses, what is refused before anything is
  touched, the kill of the active agent, the warm path (fork of the frozen template beside the layer
  switch), the cold path (CRIU), and the invalidation of requests in flight.
\<close>

section \<open>Answers\<close>

record restore_env =
  r_table :: procs
  force_criu :: bool
  allow_clear :: bool
  wait_result :: dump_outcome
  seen_after_wait :: "string \<Rightarrow> centry option"
  root_has :: "string \<Rightarrow> bool"
  root_error :: "py_error option"
  restore_id :: string
  prepare_error :: "py_error option"
  kenv :: kill_env
  dispatched :: bool
  fork_child :: "nat option"
  r_errno :: "int option"
  polls :: "procs list"
  pidns_fd :: "nat option"
  lazy_error :: "py_error option"
  resource_error :: "py_error option"
  resource_args :: "string list"
  criu_ok :: bool
  pidfile :: "string option"
  resume_error :: "py_error option"

definition PROTOCOL :: string where
  "PROTOCOL = ''exact-parent-v1''"

text \<open>
  \<^verbatim>\<open>drain_before_namespace_teardown\<close> of \<^verbatim>\<open>async_checkpoint.py\<close>: every writer of the exact-parent protocol must
  have ended and have been disposed of. \<^verbatim>\<open>seen k\<close> is the entry after the wait, \<^term>\<open>None\<close> if it timed out.
\<close>

fun drain_entries :: "(string \<Rightarrow> centry option) \<Rightarrow> cregistry \<Rightarrow> unit result" where
  "drain_entries seen [] = Inr ()"
| "drain_entries seen ((k, e) # es) =
     (if e_protocol e = Some PROTOCOL \<and> e_future e \<noteq> None then
        (case (if e_future e = Some Pending then seen k else Some e) of
           None \<Rightarrow> Inl (TimeoutError (''dump '' @ e_id e @ '' has not finished disposal''))
         | Some e' \<Rightarrow> if e_dispose_done e' then drain_entries seen es
             else Inl (RuntimeError (''Cannot tear down namespace: dump '' @ e_id e @ '' cleanup incomplete'')))
      else drain_entries seen es)"

definition drain_before_namespace_teardown :: "restore_env \<Rightarrow> controller \<Rightarrow> unit result" where
  "drain_before_namespace_teardown env st =
     (if async_incremental st then drain_entries (seen_after_wait env) (cregistry st) else Inr ())"

text \<open>\<^verbatim>\<open>_join_durable_dump\<close> followed by the check of the recorded errors.\<close>

definition join_durable_dump :: "restore_env \<Rightarrow> centry \<Rightarrow> unit result" where
  "join_durable_dump env physical = (case e_future physical of
       None \<Rightarrow> Inr ()
     | Some Finished \<Rightarrow> Inr ()
     | Some (Raised m) \<Rightarrow> Inl (DumpUnavailableError m)
     | Some Pending \<Rightarrow> (case outcome_error (wait_result env) of None \<Rightarrow> Inr () | Some m \<Rightarrow> Inl (DumpUnavailableError m)))"

definition recorded_error :: "centry \<Rightarrow> string option" where
  "recorded_error e = (case e_dump_error e of
       Some m \<Rightarrow> if m \<noteq> [] then Some m else (case e_stats_error e of Some m' \<Rightarrow> if m' \<noteq> [] then Some m' else None | None \<Rightarrow> None)
     | None \<Rightarrow> (case e_stats_error e of Some m' \<Rightarrow> if m' \<noteq> [] then Some m' else None | None \<Rightarrow> None))"

definition durable_image :: "restore_env \<Rightarrow> centry \<Rightarrow> unit result" where
  "durable_image env physical = andthen (join_durable_dump env physical) (\<lambda>_.
     case recorded_error physical of None \<Rightarrow> Inr ()
     | Some m \<Rightarrow> Inl (DumpUnavailableError (''durable dump unavailable: '' @ m)))"

section \<open>The phases\<close>

record restore_result =
  rr_path :: string
  rr_replay :: "(string \<times> string) list"

text \<open>Which image: the effective target, its template, the physical entry.\<close>

definition effective_id :: "string \<Rightarrow> centry \<Rightarrow> string option" where
  "effective_id target_ckpt_id target = (case e_effective target of Some x \<Rightarrow> x | None \<Rightarrow> Some target_ckpt_id)"

definition physical_target :: "string \<Rightarrow> centry \<Rightarrow> controller \<Rightarrow> centry result" where
  "physical_target target_ckpt_id target st =
     (let effective = effective_id target_ckpt_id target in
      if effective \<noteq> Some target_ckpt_id then
        (case Option.bind effective (map_of (cregistry st)) of
           Some e \<Rightarrow> Inr e | None \<Rightarrow> Inl (KeyError (case effective of Some e \<Rightarrow> e | None \<Rightarrow> ''None'')))
      else Inr target)"

definition warm_template :: "restore_env \<Rightarrow> string option \<Rightarrow> controller \<Rightarrow> nat option \<times> controller" where
  "warm_template env effective st = (case pool_get (r_table env) effective st of
     (p, st) \<Rightarrow> (if force_criu env then None else p, st))"

text \<open>What must hold before a cold restore touches the sandbox.\<close>

definition cold_prerequisites :: "restore_env \<Rightarrow> centry \<Rightarrow> controller \<Rightarrow> unit result" where
  "cold_prerequisites env physical st =
     andthen (durable_image env physical) (\<lambda>_.
     andthen (if e_external_pidns physical then check_external_restore_pool_clear_allowed (allow_clear env) else Inr ()) (\<lambda>_.
     if e_external_pidns physical then Inr () else drain_before_namespace_teardown env st))"

definition new_upper :: "restore_env \<Rightarrow> controller \<Rightarrow> string" where
  "new_upper env st = path_join (layers_root st) (''restore_'' @ restore_id env @ ''_upper'')"

definition new_work :: "restore_env \<Rightarrow> controller \<Rightarrow> string" where
  "new_work env st = path_join (layers_root st) (''restore_'' @ restore_id env @ ''_work'')"

definition prepare_restore :: "restore_env \<Rightarrow> controller \<Rightarrow> (unit, controller) eff" where
  "prepare_restore env st = (case prepare_error env of
       None \<Rightarrow> (Inr (), emits [Makedirs (new_upper env st), Makedirs (new_work env st)] st)
     | Some e \<Rightarrow> (Inl e, st))"

definition switch_layers :: "restore_env \<Rightarrow> centry \<Rightarrow> controller \<Rightarrow> (unit, controller) eff" where
  "switch_layers env physical st =
     bind_eff (apply_overlay_switch (r_errno env) (e_layers physical) (new_upper env st) (new_work env st) ''restore'' st)
       (\<lambda>_ st. (Inr (), st\<lparr>current_upper := new_upper env st, current_work := new_work env st\<rparr>))"

text \<open>The warm path: the fork is dispatched, the layers are switched, the child is awaited.\<close>

definition warm_restore :: "restore_env \<Rightarrow> nat \<Rightarrow> centry \<Rightarrow> controller \<Rightarrow> (nat option, controller) eff" where
  "warm_restore env template_pid physical st =
     bind_eff (switch_layers env physical (emit (Dispatch_fork template_pid
         (if restore_fastfork_dump_pid st then None else fixed_active_pid st)) st))
       (\<lambda>_ st. (Inr (if dispatched env then fork_child env else None), st))"

definition adopt_child :: "nat \<Rightarrow> string option \<Rightarrow> controller \<Rightarrow> controller" where
  "adopt_child child effective st = bump_epoch (st\<lparr>agent_pid := child, active_dump_owner := effective\<rparr>)"

text \<open>The cold path up to the start of CRIU.\<close>

definition cold_namespace :: "restore_env \<Rightarrow> centry \<Rightarrow> controller \<Rightarrow> (unit, controller) eff" where
  "cold_namespace env physical st =
     (if e_external_pidns physical then
        bind_eff (clear_templates_for_external_restore (allow_clear env) (r_table env) (polls env) st) (\<lambda>_ st.
          (case pidns_fd env of Some _ \<Rightarrow> Inr ()
           | None \<Rightarrow> Inl (DumpUnavailableError ''external pid namespace is unavailable''), st))
      else
        bind_eff (drain_before_namespace_teardown env st, st) (\<lambda>_ st.
          (Inr (), emits [Kill SIGKILL (ns_init_pid st), Waitpid (ns_init_pid st)] st)))"

definition restore_command :: "restore_env \<Rightarrow> centry \<Rightarrow> controller \<Rightarrow> string list" where
  "restore_command env physical st =
     [''restore'', ''-D'', e_mem_path physical] @ (if e_external_pidns physical then [] else [''--shell-job''])
     @ [''--restore-detached'', ''--tcp-close'', ''--ext-unix-sk'', ''--pidfile'', path_join (e_mem_path physical) ''restored.pid'']
     @ all_ext_mount_map_args st
     @ (if e_protocol physical = Some PROTOCOL then [''--leave-stopped''] else [])
     @ (case Option.bind (e_prev_ckpt_id physical) (\<lambda>p. if p = [] then None else map_of (cregistry st) p) of
          Some prev \<Rightarrow> if e_mem_path prev \<noteq> [] then [''--prev-images-dir'', relpath (e_mem_path prev) (e_mem_path physical)] else []
        | None \<Rightarrow> [])
     @ (case pidns_fd env of Some fd \<Rightarrow> if e_external_pidns physical then [''--inherit-fd'', ''fd['' @ dec fd @ '']:deltabox_pidns''] else []
        | None \<Rightarrow> [])
     @ (if e_protocol physical = Some PROTOCOL then resource_args env else [])
     @ (if enable_criu_lazy_restore st then [''--lazy-pages''] else [])"

text \<open>Activation of the restored process; \<^verbatim>\<open>RuntimeError\<close> only in the exact-parent protocol.\<close>

definition activate :: "restore_env \<Rightarrow> centry \<Rightarrow> string option \<Rightarrow> controller \<Rightarrow> (unit, controller) eff" where
  "activate env physical effective st =
     (let exact = (e_protocol physical = Some PROTOCOL) in
      case Option.bind (pidfile env) (\<lambda>s. decimal (strip_ws s)) of
        None \<Rightarrow> if exact then (Inl (RuntimeError ''exact-parent restore activation failed''), st) else (Inr (), st)
      | Some pid \<Rightarrow>
          if exact \<and> (pid \<le> 1 \<or> \<not> is_pidns_init (r_table env) (ns_init_pid st) pid)
          then (Inl (RuntimeError ''exact-parent restore did not publish a live namespace init''), st)
          else
            let st = st\<lparr>agent_pid := pid, active_dump_owner := effective\<rparr>;
                st = (if e_external_pidns physical then st else st\<lparr>ns_init_pid := pid\<rparr>) in
            if enable_criu_lazy_restore st \<or> exact then
              (case resume_error env of
                 None \<Rightarrow> (Inr (), emit (Kill SIGCONT pid) st)
               | Some e \<Rightarrow> if exact then (Inl (RuntimeError ''exact-parent restore activation failed''), st) else (Inr (), st))
            else (Inr (), st))"

definition cold_restore :: "restore_env \<Rightarrow> bool \<Rightarrow> centry \<Rightarrow> string option \<Rightarrow> controller \<Rightarrow> (unit, controller) eff" where
  "cold_restore env switched physical effective st =
     bind_eff (cold_namespace env physical st) (\<lambda>_ st.
     bind_eff (case (if e_protocol physical = Some PROTOCOL then resource_error env else None) of
         Some e \<Rightarrow> Inl e | None \<Rightarrow> Inr (), st) (\<lambda>_ st.
     bind_eff (case (if enable_criu_lazy_restore st then lazy_error env else None) of Some e \<Rightarrow> Inl e | None \<Rightarrow> Inr (), st) (\<lambda>_ st.
     let st = emit (Criu (restore_command env physical st)) st in
     bind_eff (if enable_criu_lazy_restore st \<and> parallel_lazy_restore st \<and> \<not> switched
               then switch_layers env physical st else (Inr (), st)) (\<lambda>_ st.
     if \<not> criu_ok env then (Inl (RuntimeError ''CalledProcessError''), st)
     else bind_eff (activate env physical effective st) (\<lambda>_ st.
       let st = (if enable_warm_template st \<and> \<not> e_external_pidns physical then emit Reset_channels (st\<lparr>templates := []\<rparr>) else st) in
       (Inr (), invalidate_inflight_llm st))))))"

text \<open>Before the kill: the registry lookups, the template, the refusals.\<close>

definition restore_front ::
  "restore_env \<Rightarrow> string \<Rightarrow> bool \<Rightarrow> controller \<Rightarrow> (centry \<times> centry \<times> nat option, controller) eff" where
  "restore_front env target_ckpt_id allow_cold st =
     (case map_of (cregistry st) target_ckpt_id of
        None \<Rightarrow> (Inl (ValueError (''Unknown ID: '' @ target_ckpt_id)), st)
      | Some target \<Rightarrow>
          let st = st\<lparr>last_restore_target := Some target_ckpt_id\<rparr> in
          case warm_template env (effective_id target_ckpt_id target) st of (template, st) \<Rightarrow>
          if template = None \<and> \<not> allow_cold
          then (Inl (RuntimeError ''Restore requires its live template; durable fallback is prohibited''), st)
          else bind_eff (physical_target target_ckpt_id target st, st) (\<lambda>physical st.
            bind_eff (if template = None then cold_prerequisites env physical st else Inr (), st) (\<lambda>_ st.
              (Inr (target, physical, template), st))))"

definition restore_root :: "restore_env \<Rightarrow> string option \<Rightarrow> controller \<Rightarrow> (unit, controller) eff" where
  "restore_root env effective st =
     (if root_overlay_args st \<noteq> None \<and> (\<exists>i \<in> set_option effective. root_has env i)
      then (case root_error env of None \<Rightarrow> (Inr (), emit (Root_restore (the effective)) st) | Some e \<Rightarrow> (Inl e, st))
      else (Inr (), st))"

text \<open>After the kill: the warm path with its cold fallback, or the cold path.\<close>

definition cold_answer :: "centry \<Rightarrow> controller \<Rightarrow> restore_result" where
  "cold_answer target st = \<lparr>rr_path = (if enable_criu_lazy_restore st then ''criu-lazy'' else ''criu''),
     rr_replay = e_replay_cmds target\<rparr>"

definition restore_warm ::
  "restore_env \<Rightarrow> bool \<Rightarrow> centry \<Rightarrow> centry \<Rightarrow> nat \<Rightarrow> string option \<Rightarrow> controller \<Rightarrow> (restore_result, controller) eff" where
  "restore_warm env allow_cold target physical template_pid effective st =
     bind_eff (warm_restore env template_pid physical st) (\<lambda>child st.
       case child of
         Some c \<Rightarrow> (Inr \<lparr>rr_path = ''warm-template'', rr_replay = e_replay_cmds target\<rparr>, adopt_child c effective st)
       | None \<Rightarrow>
           if \<not> allow_cold then (Inl (RuntimeError ''Restore template fork failed; durable fallback is prohibited''), st)
           else bind_eff (durable_image env physical, st) (\<lambda>_ st.
             bind_eff (cold_restore env True physical effective st) (\<lambda>_ st. (Inr (cold_answer target st), st))))"

definition restore_cold ::
  "restore_env \<Rightarrow> centry \<Rightarrow> centry \<Rightarrow> string option \<Rightarrow> controller \<Rightarrow> (restore_result, controller) eff" where
  "restore_cold env target physical effective st =
     (let parallel = (enable_criu_lazy_restore st \<and> parallel_lazy_restore st) in
      bind_eff (if parallel then (Inr (), st) else switch_layers env physical st) (\<lambda>_ st.
        bind_eff (cold_restore env (\<not> parallel) physical effective st) (\<lambda>_ st. (Inr (cold_answer target st), st))))"

definition restore_action :: "restore_env \<Rightarrow> string \<Rightarrow> bool \<Rightarrow> controller \<Rightarrow> (restore_result, controller) eff" where
  "restore_action env target_ckpt_id allow_cold st =
     bind_eff (restore_front env target_ckpt_id allow_cold st) (\<lambda>(target, physical, template) st.
       let effective = effective_id target_ckpt_id target in
       bind_eff (restore_root env effective (join_active_dump_before_kill st)) (\<lambda>_ st.
       bind_eff (kill_active_subtree (kenv env) (Some (prepare_restore env)) st) (\<lambda>_ st.
         case template of
           Some template_pid \<Rightarrow> restore_warm env allow_cold target physical template_pid effective st
         | None \<Rightarrow> restore_cold env target physical effective st)))"

section \<open>Refusals change nothing\<close>

text \<open>What a refusal may change: the record of the last target, and dead templates dropped from the pool.\<close>

definition untouched :: "controller \<Rightarrow> controller \<Rightarrow> bool" where
  "untouched st st' \<longleftrightarrow> events st' = events st \<and> cregistry st' = cregistry st \<and> agent_pid st' = agent_pid st
     \<and> ns_init_pid st' = ns_init_pid st \<and> current_upper st' = current_upper st \<and> current_work st' = current_work st
     \<and> current_epoch st' = current_epoch st \<and> set (templates st') \<subseteq> set (templates st)"

lemma pool_get_untouched: "pool_get t sid st = (p, st') \<Longrightarrow> untouched st st'"
proof -
  have "set (AList.delete k xs) \<subseteq> set xs" for k :: string and xs :: "(string \<times> nat) list" by (induction xs) auto
  from this [of "the sid" "templates st"] show "pool_get t sid st = (p, st') \<Longrightarrow> untouched st st'"
    unfolding pool_get_def untouched_def by (force split: if_splits option.splits)
qed

lemma restore_front_untouched: "restore_front env target allow st = (r, st') \<Longrightarrow> untouched st st'"
proof -
  assume r: "restore_front env target allow st = (r, st')"
  show ?thesis
  proof (cases "map_of (cregistry st) target")
    case None
    then show ?thesis using r by (auto simp: restore_front_def untouched_def)
  next
    case (Some e)
    define st1 where "st1 = st\<lparr>last_restore_target := Some target\<rparr>"
    obtain p st2 where w: "warm_template env (effective_id target e) st1 = (p, st2)" by fastforce
    obtain q where "pool_get (r_table env) (effective_id target e) st1 = (q, st2)"
      using w by (auto simp: warm_template_def split: prod.splits)
    then have "untouched st1 st2" by (rule pool_get_untouched)
    moreover have "st' = st2" using r Some w
      by (auto simp: restore_front_def st1_def [symmetric] bind_eff_def split: if_splits sum.splits)
    ultimately show ?thesis by (simp add: untouched_def st1_def)
  qed
qed

lemma physical_target_same: "cregistry st' = cregistry st \<Longrightarrow> physical_target x t st' = physical_target x t st"
  unfolding physical_target_def by (simp only:)

lemma cold_prerequisites_same:
  "\<lbrakk>cregistry st' = cregistry st; async_incremental st' = async_incremental st\<rbrakk>
    \<Longrightarrow> cold_prerequisites env ph st' = cold_prerequisites env ph st"
  by (simp add: cold_prerequisites_def drain_before_namespace_teardown_def)

lemma pool_get_async: "pool_get t sid st = (p, st') \<Longrightarrow> async_incremental st' = async_incremental st"
  by (auto simp: pool_get_def split: if_splits option.splits)

text \<open>
  C11. A cold restore that cannot succeed is refused before the sandbox is touched: when no template is alive
  and the durable image failed or is unfinished, when the pool may not be cleared, or when a writer still
  has to be disposed of, the restore raises, and no signal is sent, no layer is switched, and agent, layers,
  epoch and registry are as before.
\<close>

theorem restore_refuses_cleanly:
  assumes "map_of (cregistry st) target = Some t" "physical_target target t st = Inr ph"
    and "fst (warm_template env (effective_id target t) st) = None"
    and "cold_prerequisites env ph st = Inl e"
  shows "\<exists>e' st'. restore_action env target allow_cold st = (Inl e', st') \<and> untouched st st'"
proof -
  define st1 where "st1 = st\<lparr>last_restore_target := Some target\<rparr>"
  obtain q st2 where g: "pool_get (r_table env) (effective_id target t) st1 = (q, st2)" by fastforce
  have "pool_get (r_table env) (effective_id target t) st1
      = (case pool_get (r_table env) (effective_id target t) st of (p, s) \<Rightarrow> (p, s\<lparr>last_restore_target := Some target\<rparr>))"
    by (auto simp: pool_get_def st1_def split: option.splits)
  then have w: "warm_template env (effective_id target t) st1 = (None, st2)"
    using g assms(3) by (auto simp: warm_template_def split: prod.splits)
  have same: "cregistry st2 = cregistry st" "async_incremental st2 = async_incremental st"
    using pool_get_untouched [OF g] pool_get_async [OF g] by (simp_all add: untouched_def st1_def)
  have "physical_target target t st2 = Inr ph" using assms(2) physical_target_same [OF same(1)] by simp
  moreover have "cold_prerequisites env ph st2 = Inl e" using assms(4) cold_prerequisites_same [OF same] by simp
  ultimately obtain e' where "restore_front env target allow_cold st = (Inl e', st2)"
    using assms(1) w by (cases allow_cold) (auto simp: restore_front_def st1_def [symmetric])
  then show ?thesis using restore_front_untouched by (fastforce simp: restore_action_def)
qed

section \<open>What a restore does\<close>

definition rframe :: "controller \<Rightarrow> cregistry \<times> (string \<times> string \<times> string) \<times> string \<times> string \<times> nat \<times> bool \<times> bool" where
  "rframe st = (cregistry st, (layers_root st, base_layer st, snapshot_store st), current_upper st, current_work st, current_epoch st,
     enable_criu_lazy_restore st, parallel_lazy_restore st)"

text \<open>Events that touch layers or mounts; making a new directory changes no existing one.\<close>

definition fs_change :: "event \<Rightarrow> bool" where
  "fs_change e = (case e of Switch _ _ _ _ \<Rightarrow> True | Rename _ _ \<Rightarrow> True | Rmtree _ \<Rightarrow> True | _ \<Rightarrow> False)"

lemma fs_change_simps [simp]:
  "fs_change (Switch l u w k)" "fs_change (Rename x y)" "fs_change (Rmtree x)" "\<not> fs_change (Join i)" "\<not> fs_change (Kill s p)"
  "\<not> fs_change (Waitpid p)" "\<not> fs_change (Wait_exit ps)" "\<not> fs_change (Reap_pid p c)" "\<not> fs_change (Reap_children p)"
  "\<not> fs_change Wait_slot" "\<not> fs_change (Makedirs x)" "\<not> fs_change (Criu xs)" "\<not> fs_change (Submit i xs)"
  "\<not> fs_change (Dispatch_fork p q)" "\<not> fs_change (Root_checkpoint i)" "\<not> fs_change (Root_restore i)" "\<not> fs_change (Epoch n)"
  "\<not> fs_change Abort_pending" "\<not> fs_change Unlink_responses" "\<not> fs_change Reset_channels"
  by (simp_all add: fs_change_def)

definition still :: "event list \<Rightarrow> bool" where
  "still es \<longleftrightarrow> (\<forall>e \<in> set es. \<not> fs_change e)"

lemma still_simps [simp]:
  "still []" "still (e # es) \<longleftrightarrow> \<not> fs_change e \<and> still es" "still (es @ es') \<longleftrightarrow> still es \<and> still es'"
  "still (map (Kill s) ps)" "still (map Waitpid ps)" "still (map Reap_children ps)"
  by (auto simp: still_def)

definition quiet_step :: "controller \<Rightarrow> controller \<Rightarrow> bool" where
  "quiet_step st st' \<longleftrightarrow> rframe st' = rframe st
     \<and> (\<exists>es. events st' = events st @ es \<and> still es)"

lemma quiet_refl [simp]: "quiet_step st st"
  by (simp add: quiet_step_def)

lemma quiet_trans: "\<lbrakk>quiet_step a b; quiet_step b c\<rbrakk> \<Longrightarrow> quiet_step a c"
  unfolding quiet_step_def by force

lemma quiet_emits: "still es \<Longrightarrow> quiet_step st (emits es st)"
  by (auto simp: quiet_step_def rframe_def emits_def)

lemma quiet_emit: "\<not> fs_change e \<Longrightarrow> quiet_step st (emit e st)"
  by (auto simp: quiet_step_def rframe_def emit_def)

lemma quiet_fields:
  "\<lbrakk>events st' = events st; rframe st' = rframe st\<rbrakk> \<Longrightarrow> quiet_step st st'"
  by (auto simp: quiet_step_def)

lemma quiet_front: "restore_front env target allow st = (r, st') \<Longrightarrow> quiet_step st st'"
proof -
  assume r: "restore_front env target allow st = (r, st')"
  have g: "pool_get t sid s = (p, s') \<Longrightarrow> rframe s' = rframe s" for t sid s p s'
    by (auto simp: pool_get_def rframe_def split: if_splits option.splits)
  have "rframe st' = rframe st" using r
    by (auto simp: restore_front_def warm_template_def bind_eff_def rframe_def dest!: g
      split: if_splits sum.splits option.splits prod.splits)
  then show ?thesis using restore_front_untouched [OF r] by (simp add: quiet_fields untouched_def)
qed

lemma quiet_join: "quiet_step st (join_active_dump_before_kill st)"
  by (auto simp: join_active_dump_before_kill_def quiet_emit split: option.splits)

lemma quiet_kill:
  assumes "kill_active_subtree ke (Some (prepare_restore env)) st = (r, st')"
  shows "quiet_step st st'"
proof -
  have kp: "quiet_step s s'" if "kill_pids_and_wait pids (Some (prepare_restore env)) s = (x, s')" for pids s x s'
  proof -
    define s1 where "s1 = emits (map (Kill SIGKILL) (rev pids) @ map Waitpid pids) s"
    obtain y s2 where p: "prepare_restore env s1 = (y, s2)" by fastforce
    have "quiet_step s s1" unfolding s1_def by (rule quiet_emits) auto
    moreover have "quiet_step s1 s2" using p by (auto simp: prepare_restore_def quiet_emits split: option.splits)
    moreover have "s' = emit (Wait_exit pids) s2" using that p by (simp add: kill_pids_and_wait_def s1_def)
    then have "quiet_step s2 s'" by (simp add: quiet_emit)
    ultimately show ?thesis by (metis quiet_trans)
  qed
  have ir: "quiet_step s s'" if "inline_reap ke a b c s = (x, s')" for a b c s x s'
    using that by (auto simp: inline_reap_def Let_def quiet_emit intro: quiet_trans [OF quiet_emit quiet_emit] split: if_splits option.splits list.splits)
  have q: "quiet_step s (queue_template_cleanup a b c s)" for a b c s
    by (auto simp: queue_template_cleanup_def Let_def rframe_def intro!: quiet_fields)
  define st1 where "st1 = (join_active_dump_before_kill st)\<lparr>last_killed :=
    collect_subtree_pids (before ke) (agent_pid st) (template_pids st \<union> pending_writers st)\<rparr>"
  have "quiet_step (join_active_dump_before_kill st) st1" by (auto simp: st1_def rframe_def intro!: quiet_fields)
  then have q1: "quiet_step st st1" using quiet_trans quiet_join by blast
  obtain x st2 where k: "kill_pids_and_wait (last_killed st1) (Some (prepare_restore env)) st1 = (x, st2)" by fastforce
  define reaper where "reaper = pid_ppid (before ke) (agent_pid st)"
  define rc where "rc = (case reaper of Some r \<Rightarrow> pid_as_seen_by (before ke) (agent_pid st) r | None \<Rightarrow> agent_pid st)"
  define ok where "ok = (enable_warm_template st2 \<and> (\<exists>r \<in> set_option reaper. r \<in> template_pids st) \<and> agent_pid st \<in> set (last_killed st1))"
  obtain y st3 where i: "inline_reap ke reaper rc ok st2 = (y, st3)" by fastforce
  have "st' = (let s = emit Wait_slot st3 in if \<not> y \<and> ok then queue_template_cleanup (the reaper) rc (agent_pid st) s else s)"
    using assms k i unfolding kill_active_subtree_def Let_def st1_def reaper_def rc_def ok_def
    by (simp cong: option.case_cong if_cong)
  then have st': "st' = emit Wait_slot st3 \<or> (\<exists>a b c. st' = queue_template_cleanup a b c (emit Wait_slot st3))"
    by (auto simp: Let_def)
  have "quiet_step st3 (emit Wait_slot st3)" by (simp add: quiet_emit)
  then have "quiet_step st3 st'" using st' q quiet_trans by blast
  then show ?thesis using q1 kp [OF k] ir [OF i] quiet_trans by blast
qed

lemma quiet_clear:
  assumes "clear_templates_for_external_restore a t ps st = (r, st')"
  shows "quiet_step st st'"
proof -
  have k: "quiet_step s (snd (kill_pids_and_wait pids None s))" for pids s
  proof -
    have "quiet_step s (emits (map (Kill SIGKILL) (rev pids) @ map Waitpid pids) s)" by (rule quiet_emits) auto
    moreover have "quiet_step x (emit (Wait_exit pids) x)" for x by (simp add: quiet_emit)
    ultimately show ?thesis by (auto simp: kill_pids_and_wait_def intro: quiet_trans)
  qed
  have t: "quiet_step s (s\<lparr>templates := x\<rparr>)" "quiet_step s (s\<lparr>pending_reaps := y\<rparr>)" for s x y
    by (auto simp: rframe_def intro!: quiet_fields)
  show ?thesis
  proof (cases a)
    case False
    then show ?thesis using assms by (auto simp: clear_templates_for_external_restore_def check_external_restore_pool_clear_allowed_def)
  next
    case True
    define s1 where "s1 = (if external_kill_list t st \<noteq> [] then snd (kill_pids_and_wait (external_kill_list t st) None st) else st)"
    define s2 where "s2 = (if enable_warm_template s1 then s1\<lparr>templates := []\<rparr> else s1)"
    define s3 where "s3 = s2\<lparr>pending_reaps := []\<rparr>"
    have "quiet_step st s1" by (simp add: s1_def k)
    moreover have "quiet_step s1 s2" by (simp add: s2_def t)
    moreover have "quiet_step s2 s3" by (simp add: s3_def t)
    moreover have "st' = s3 \<or> st' = emit (Reap_children (ns_init_pid s3)) s3"
      using assms True by (simp only: clear_templates_for_external_restore_def check_external_restore_pool_clear_allowed_def
        not_True_eq_False raise_if_simps bind_eff_simps Let_def s1_def [symmetric] s2_def [symmetric] s3_def [symmetric])
        (auto split: if_splits)
    then have "quiet_step s3 st'" by (auto simp: quiet_emit)
    ultimately show ?thesis by (metis quiet_trans)
  qed
qed

text \<open>The one step that switches the layers.\<close>

definition switched_to :: "restore_env \<Rightarrow> centry \<Rightarrow> controller \<Rightarrow> controller \<Rightarrow> bool" where
  "switched_to env ph st st' \<longleftrightarrow>
     rframe st' = (cregistry st, (layers_root st, base_layer st, snapshot_store st), new_upper env st, new_work env st, current_epoch st,
       enable_criu_lazy_restore st, parallel_lazy_restore st)
     \<and> (\<exists>es es'. events st' = events st @ es @ [Switch (e_layers ph) (new_upper env st) (new_work env st) ''restore''] @ es'
          \<and> still (es @ es'))"

lemma new_dirs_same: "rframe st' = rframe st \<Longrightarrow> new_upper env st' = new_upper env st \<and> new_work env st' = new_work env st"
  by (simp add: rframe_def new_upper_def new_work_def)

lemma switch_layers_ok:
  assumes "switch_layers env ph st = (Inr (), st')"
  shows "switched_to env ph st st'"
proof -
  define s1 where "s1 = emit (Switch (e_layers ph) (new_upper env st) (new_work env st) ''restore'') st"
  have "new_upper env s1 = new_upper env st" "new_work env s1 = new_work env st"
    by (simp_all add: s1_def emit_def new_upper_def new_work_def)
  then have "st' = s1\<lparr>current_upper := new_upper env st, current_work := new_work env st\<rparr>"
    using assms by (auto simp: switch_layers_def apply_overlay_switch_def s1_def [symmetric] split: option.splits if_splits)
  then show ?thesis unfolding switched_to_def
    by (auto simp: rframe_def s1_def emit_def intro!: exI [of _ "[]"])
qed

lemma switched_quiet: "\<lbrakk>switched_to env ph a b; quiet_step b c\<rbrakk> \<Longrightarrow> switched_to env ph a c"
  unfolding switched_to_def quiet_step_def by force

lemma quiet_switched: "\<lbrakk>quiet_step a b; switched_to env ph b c\<rbrakk> \<Longrightarrow> switched_to env ph a c"
proof -
  assume q: "quiet_step a b" and s: "switched_to env ph b c"
  have "rframe b = rframe a" using q by (simp add: quiet_step_def)
  then have n: "new_upper env b = new_upper env a" "new_work env b = new_work env a" using new_dirs_same by blast+
  obtain es0 where e0: "events b = events a @ es0" "still es0"
    using q by (auto simp: quiet_step_def)
  obtain es es' where e: "events c = events b @ es @ [Switch (e_layers ph) (new_upper env b) (new_work env b) ''restore''] @ es'"
    "still (es @ es')" using s unfolding switched_to_def by blast
  have "events c = events a @ (es0 @ es) @ [Switch (e_layers ph) (new_upper env a) (new_work env a) ''restore''] @ es'"
    using e(1) e0(1) n by simp
  moreover have "still ((es0 @ es) @ es')" using e(2) e0(2) by simp
  moreover have "rframe c = (cregistry a, (layers_root a, base_layer a, snapshot_store a), new_upper env a, new_work env a, current_epoch a,
       enable_criu_lazy_restore a, parallel_lazy_restore a)"
    using s \<open>rframe b = rframe a\<close> n by (simp add: switched_to_def rframe_def)
  ultimately show ?thesis unfolding switched_to_def by blast
qed

lemma activate_quiet: "activate env ph eff st = (r, st') \<Longrightarrow> quiet_step st st'"
  by (auto simp: activate_def Let_def rframe_def emit_def quiet_step_def split: option.splits if_splits)

lemma cold_namespace_quiet: "cold_namespace env ph st = (r, st') \<Longrightarrow> quiet_step st st'"
proof (cases "e_external_pidns ph")
  case True
  assume c: "cold_namespace env ph st = (r, st')"
  obtain x st1 where k: "clear_templates_for_external_restore (allow_clear env) (r_table env) (polls env) st = (x, st1)" by fastforce
  have "st' = st1" using c True k by (cases x) (auto simp: cold_namespace_def split: option.splits)
  then show ?thesis using quiet_clear [OF k] by simp
next
  case False
  assume "cold_namespace env ph st = (r, st')"
  then show ?thesis using False by (auto simp: cold_namespace_def bind_eff_def intro!: quiet_emits split: sum.splits)
qed


lemma quiet_invalidate:
  "events (invalidate_inflight_llm st) = events st @ [Epoch (current_epoch st + 1), Unlink_responses, Abort_pending]"
  "rframe (invalidate_inflight_llm st) = rframe (st\<lparr>current_epoch := current_epoch st + 1\<rparr>)"
  by (simp_all add: invalidate_inflight_llm_def bump_epoch_def Let_def rframe_def emit_def)

text \<open>The epoch after a restore is the next one, and the last event before the answer publishes it.\<close>

definition restored_to :: "restore_env \<Rightarrow> centry \<Rightarrow> controller \<Rightarrow> controller \<Rightarrow> bool" where
  "restored_to env ph st st' \<longleftrightarrow>
     rframe st' = (cregistry st, (layers_root st, base_layer st, snapshot_store st), new_upper env st, new_work env st, current_epoch st + 1,
       enable_criu_lazy_restore st, parallel_lazy_restore st)
     \<and> (\<exists>es es'. events st' = events st @ es @ [Switch (e_layers ph) (new_upper env st) (new_work env st) ''restore''] @ es'
          \<and> Epoch (current_epoch st + 1) \<in> set es' \<and> still (es @ es'))"

lemma restored_invalidate: "switched_to env ph st st' \<Longrightarrow> restored_to env ph st (invalidate_inflight_llm st')"
  unfolding switched_to_def restored_to_def quiet_invalidate by (force simp: rframe_def)

lemma restored_adopt: "switched_to env ph st st' \<Longrightarrow> restored_to env ph st (adopt_child c eff st')"
  unfolding switched_to_def restored_to_def adopt_child_def bump_epoch_def Let_def by (force simp: rframe_def emit_def)

lemma quiet_restored: "\<lbrakk>quiet_step a b; restored_to env ph b c\<rbrakk> \<Longrightarrow> restored_to env ph a c"
proof -
  assume q: "quiet_step a b" and s: "restored_to env ph b c"
  have "rframe b = rframe a" using q by (simp add: quiet_step_def)
  then have n: "new_upper env b = new_upper env a" "new_work env b = new_work env a" using new_dirs_same by blast+
  have ce: "current_epoch b = current_epoch a" using \<open>rframe b = rframe a\<close> by (simp add: rframe_def)
  obtain es0 where e0: "events b = events a @ es0" "still es0"
    using q by (auto simp: quiet_step_def)
  obtain es es' where e: "events c = events b @ es @ [Switch (e_layers ph) (new_upper env b) (new_work env b) ''restore''] @ es'"
    "Epoch (current_epoch b + 1) \<in> set es'" "still (es @ es')" using s unfolding restored_to_def by blast
  have "events c = events a @ (es0 @ es) @ [Switch (e_layers ph) (new_upper env a) (new_work env a) ''restore''] @ es'"
    using e(1) e0(1) n by simp
  moreover have "still ((es0 @ es) @ es')" using e(3) e0(2) by simp
  moreover have "Epoch (current_epoch a + 1) \<in> set es'" using e(2) ce by simp
  moreover have "rframe c = (cregistry a, (layers_root a, base_layer a, snapshot_store a), new_upper env a, new_work env a, current_epoch a + 1,
       enable_criu_lazy_restore a, parallel_lazy_restore a)"
    using s \<open>rframe b = rframe a\<close> n by (simp add: restored_to_def rframe_def)
  ultimately show ?thesis unfolding restored_to_def by blast
qed

text \<open>A cold restore that succeeds switches the layers, unless that has been done before.\<close>

lemma cold_restore_ok:
  assumes c: "cold_restore env sw ph eff st = (Inr (), st')"
    and before: "if sw then switched_to env ph st0 st else quiet_step st0 st"
    and par: "\<not> sw \<Longrightarrow> enable_criu_lazy_restore st \<and> parallel_lazy_restore st"
  shows "restored_to env ph st0 st'"
proof -
  obtain s1 where s1: "cold_namespace env ph st = (Inr (), s1)" and c1: "
     bind_eff (if enable_criu_lazy_restore s1 \<and> parallel_lazy_restore s1 \<and> \<not> sw
               then switch_layers env ph (emit (Criu (restore_command env ph s1)) s1)
               else (Inr (), emit (Criu (restore_command env ph s1)) s1)) (\<lambda>_ st.
     if \<not> criu_ok env then (Inl (RuntimeError ''CalledProcessError''), st)
     else bind_eff (activate env ph eff st) (\<lambda>_ st.
       let st = (if enable_warm_template st \<and> \<not> e_external_pidns ph then emit Reset_channels (st\<lparr>templates := []\<rparr>) else st) in
       (Inr (), invalidate_inflight_llm st))) = (Inr (), st')"
    using c unfolding cold_restore_def
    by (auto simp: bind_eff_Inr_iff Let_def emit_def split: if_splits option.splits)
  define s2 where "s2 = emit (Criu (restore_command env ph s1)) s1"
  have q2: "quiet_step st s2"
    using cold_namespace_quiet [OF s1] quiet_emit [of "Criu (restore_command env ph s1)" s1] quiet_trans fs_change_simps(12)
    unfolding s2_def by blast
  have fl: "enable_criu_lazy_restore s1 = enable_criu_lazy_restore st" "parallel_lazy_restore s1 = parallel_lazy_restore st"
    using cold_namespace_quiet [OF s1] by (simp_all add: quiet_step_def rframe_def)
  obtain s3 where s3: "switched_to env ph st0 s3" and c3: "
     (if \<not> criu_ok env then (Inl (RuntimeError ''CalledProcessError''), s3)
     else bind_eff (activate env ph eff s3) (\<lambda>_ st.
       let st = (if enable_warm_template st \<and> \<not> e_external_pidns ph then emit Reset_channels (st\<lparr>templates := []\<rparr>) else st) in
       (Inr (), invalidate_inflight_llm st))) = (Inr (), st')"
  proof (cases sw)
    case True
    then show ?thesis using that [of s2] c1 before q2 switched_quiet by (auto simp: s2_def [symmetric])
  next
    case False
    then obtain s3 where "switch_layers env ph s2 = (Inr (), s3)" and c3: "
     (if \<not> criu_ok env then (Inl (RuntimeError ''CalledProcessError''), s3)
     else bind_eff (activate env ph eff s3) (\<lambda>_ st.
       let st = (if enable_warm_template st \<and> \<not> e_external_pidns ph then emit Reset_channels (st\<lparr>templates := []\<rparr>) else st) in
       (Inr (), invalidate_inflight_llm st))) = (Inr (), st')"
      using c1 par fl by (auto simp: s2_def [symmetric] bind_eff_Inr_iff)
    moreover have "quiet_step st0 s2" using before False q2 quiet_trans by auto
    ultimately show ?thesis using that quiet_switched switch_layers_ok by blast
  qed
  obtain s4 where s4: "activate env ph eff s3 = (Inr (), s4)" and st': "st' = invalidate_inflight_llm
      (if enable_warm_template s4 \<and> \<not> e_external_pidns ph then emit Reset_channels (s4\<lparr>templates := []\<rparr>) else s4)"
    using c3 by (auto simp: bind_eff_Inr_iff Let_def split: if_splits)
  have "quiet_step s4 (emit Reset_channels (s4\<lparr>templates := []\<rparr>))"
    by (auto simp: quiet_step_def rframe_def emit_def)
  then have "switched_to env ph st0 (if enable_warm_template s4 \<and> \<not> e_external_pidns ph then emit Reset_channels (s4\<lparr>templates := []\<rparr>) else s4)"
    using switched_quiet [OF switched_quiet [OF s3 activate_quiet [OF s4]]] by simp
  then show ?thesis unfolding st' by (rule restored_invalidate)
qed

lemma restore_front_ok:
  assumes "restore_front env target allow st = (Inr (t, ph, tmpl), st')"
  shows "map_of (cregistry st) target = Some t" "physical_target target t st = Inr ph"
    "tmpl = fst (warm_template env (effective_id target t) (st\<lparr>last_restore_target := Some target\<rparr>))"
proof -
  obtain t' where t': "map_of (cregistry st) target = Some t'" using assms
    by (cases "map_of (cregistry st) target") (auto simp: restore_front_def)
  define st1 where "st1 = st\<lparr>last_restore_target := Some target\<rparr>"
  obtain q st2 where g: "pool_get (r_table env) (effective_id target t') st1 = (q, st2)" by fastforce
  have cr: "cregistry st2 = cregistry st" using pool_get_untouched [OF g] by (simp add: untouched_def st1_def)
  define tm where "tm = (if force_criu env then None else q)"
  have w: "warm_template env (effective_id target t') st1 = (tm, st2)" using g by (simp add: warm_template_def tm_def)
  have "t = t'" "physical_target target t' st2 = Inr ph" "tmpl = tm"
    using assms t' w by (auto simp: restore_front_def st1_def [symmetric] bind_eff_Inr_iff split: if_splits)
  then show "map_of (cregistry st) target = Some t" "physical_target target t st = Inr ph"
    "tmpl = fst (warm_template env (effective_id target t) (st\<lparr>last_restore_target := Some target\<rparr>))"
    using t' physical_target_same [OF cr] w by (simp_all add: st1_def [symmetric])
qed

lemma restore_switched:
  assumes "restore_action env target allow_cold st = (Inr res, st')"
  shows "\<exists>t ph. map_of (cregistry st) target = Some t \<and> physical_target target t st = Inr ph
    \<and> rr_replay res = e_replay_cmds t \<and> restored_to env ph st st'"
proof -
  obtain t ph tmpl s1 where f: "restore_front env target allow_cold st = (Inr (t, ph, tmpl), s1)"
    using assms unfolding restore_action_def by (auto simp: bind_eff_Inr_iff)
  define eff where "eff = effective_id target t"
  obtain r3 s3 where r3: "restore_root env eff (join_active_dump_before_kill s1) = (r3, s3)" by fastforce
  obtain r4 s4 where k: "kill_active_subtree (kenv env) (Some (prepare_restore env)) s3 = (r4, s4)" by fastforce
  have body: "(case tmpl of Some p \<Rightarrow> restore_warm env allow_cold t ph p eff s4 | None \<Rightarrow> restore_cold env t ph eff s4) = (Inr res, st')"
    using assms f r3 k unfolding eff_def by (cases r3; cases r4) (simp_all add: restore_action_def Let_def)
  have "quiet_step (join_active_dump_before_kill s1) s3"
    using r3 by (auto simp: restore_root_def quiet_emit split: if_splits option.splits)
  then have q4: "quiet_step st s4"
    using quiet_trans [OF quiet_trans [OF quiet_trans [OF quiet_front [OF f] quiet_join]] quiet_kill [OF k]] by blast
  have "rr_replay res = e_replay_cmds t \<and> restored_to env ph st st'"
  proof (cases tmpl)
    case (Some p)
    obtain rc s5 where w: "warm_restore env p ph s4 = (rc, s5)" by fastforce
    then obtain child where rc: "rc = Inr child" using body Some by (cases rc) (simp_all add: restore_warm_def)
    obtain e0 where e0: "switch_layers env ph (emit (Dispatch_fork p e0) s4) = (Inr (), s5)"
      using w rc by (auto simp: warm_restore_def bind_eff_Inr_iff)
    have "quiet_step s4 (emit (Dispatch_fork p e0) s4)" by (simp add: quiet_emit)
    from quiet_switched [OF quiet_trans [OF q4 this] switch_layers_ok [OF e0]] have sw: "switched_to env ph st s5" .
    show ?thesis
    proof (cases child)
      case (Some c)
      have "rr_replay res = e_replay_cmds t" "st' = adopt_child c eff s5"
        using body \<open>tmpl = Some p\<close> w rc Some by (auto simp: restore_warm_def)
      then show ?thesis using restored_adopt [OF sw] by simp
    next
      case None
      then obtain s6 where "cold_restore env True ph eff s5 = (Inr (), s6)" "st' = s6" "rr_replay res = e_replay_cmds t"
        using body Some w rc by (auto simp: restore_warm_def cold_answer_def bind_eff_Inr_iff split: if_splits)
      then show ?thesis using cold_restore_ok [of env True ph eff s5 s6 st] sw by simp
    qed
  next
    case None
    show ?thesis
    proof (cases "enable_criu_lazy_restore s4 \<and> parallel_lazy_restore s4")
      case True
      then have "cold_restore env False ph eff s4 = (Inr (), st')" "rr_replay res = e_replay_cmds t"
        using body None by (auto simp: restore_cold_def cold_answer_def bind_eff_Inr_iff Let_def)
      then show ?thesis using cold_restore_ok [of env False ph eff s4 st' st] q4 True by simp
    next
      case False
      then obtain s5 where "switch_layers env ph s4 = (Inr (), s5)" "cold_restore env True ph eff s5 = (Inr (), st')"
        "rr_replay res = e_replay_cmds t"
        using body None by (auto simp: restore_cold_def cold_answer_def bind_eff_Inr_iff Let_def)
      then show ?thesis using cold_restore_ok [of env True ph eff s5 st' st] quiet_switched [OF q4 switch_layers_ok] by simp
    qed
  qed
  then show ?thesis using restore_front_ok [OF f] by blast
qed

text \<open>
  C12. A restore that succeeds, warm or cold, with or without lazy pages, switches the layer stack exactly
  once, to the layers recorded for the physical target under a fresh upper directory, which is the current
  one afterwards, and neither renames nor deletes any directory; it moves on to the next epoch and publishes
  it after the switch; it leaves the registry
  alone; and it answers with the commands recorded for the target.
\<close>

theorem restore_switches_once:
  assumes "restore_action env target allow_cold st = (Inr res, st')"
  shows "\<exists>t ph. map_of (cregistry st) target = Some t \<and> physical_target target t st = Inr ph
    \<and> rr_replay res = e_replay_cmds t \<and> restored_to env ph st st'"
  using assms by (rule restore_switched)

text \<open>The kill reports what the preparation that runs beside it reported.\<close>

lemma kill_active_result: "\<exists>s. fst (kill_active_subtree ke (Some p) st) = fst (p s)"
  by (simp add: kill_active_subtree_def kill_pids_and_wait_def Let_def split: prod.splits) (metis fst_conv)

lemma restore_warm_ok:
  assumes "map_of (cregistry st) target = Some t" "physical_target target t st = Inr ph"
    and "fst (warm_template env (effective_id target t) (st\<lparr>last_restore_target := Some target\<rparr>)) = Some p"
    and "root_overlay_args st = None" "prepare_error env = None" "dispatched env" "fork_child env = Some c" "r_errno env = None"
  shows "\<exists>st'. restore_action env target allow_cold st = (Inr \<lparr>rr_path = ''warm-template'', rr_replay = e_replay_cmds t\<rparr>, st')
    \<and> agent_pid st' = c \<and> active_dump_owner st' = effective_id target t"
proof -
  obtain s1 where w: "warm_template env (effective_id target t) (st\<lparr>last_restore_target := Some target\<rparr>) = (Some p, s1)"
    using assms(3) by (metis prod.collapse)
  then have g: "pool_get (r_table env) (effective_id target t) (st\<lparr>last_restore_target := Some target\<rparr>) = (Some p, s1)"
    by (auto simp: warm_template_def split: prod.splits if_splits)
  then have s1: "cregistry s1 = cregistry st" "root_overlay_args s1 = None"
    using assms(4) by (auto simp: pool_get_def split: if_splits option.splits)
  have f: "restore_front env target allow_cold st = (Inr (t, ph, Some p), s1)"
    using assms(1,2) w physical_target_same [OF s1(1)] by (simp add: restore_front_def)
  define s2 where "s2 = join_active_dump_before_kill s1"
  have "root_overlay_args s2 = None" using s1(2) by (simp add: s2_def join_active_dump_before_kill_def emit_def split: option.splits)
  then have r: "restore_root env (effective_id target t) s2 = (Inr (), s2)" by (simp add: restore_root_def)
  have "fst (kill_active_subtree (kenv env) (Some (prepare_restore env)) s2) = Inr ()"
    using kill_active_result [of "kenv env" "prepare_restore env" s2] assms(5) by (auto simp: prepare_restore_def)
  then obtain s3 where k: "kill_active_subtree (kenv env) (Some (prepare_restore env)) s2 = (Inr (), s3)"
    by (metis prod.collapse)
  show ?thesis
    using f r k assms(6-8)
    by (simp add: restore_action_def s2_def restore_warm_def warm_restore_def switch_layers_def apply_overlay_switch_def
      adopt_child_def bump_epoch_def Let_def)
qed


section \<open>Witnesses\<close>

definition wit_renv :: restore_env where
  "wit_renv = \<lparr>r_table = wit_procs, force_criu = False, allow_clear = False, wait_result = Dump_slow,
     seen_after_wait = (\<lambda>_. None), root_has = (\<lambda>_. False), root_error = None, restore_id = ''r1'', prepare_error = None,
     kenv = wit_kill_env, dispatched = True, fork_child = Some 30, r_errno = None, polls = [], pidns_fd = None,
     lazy_error = None, resource_error = None, resource_args = [], criu_ok = True, pidfile = None, resume_error = None\<rparr>"

definition wit_warm :: controller where
  "wit_warm = wit_ctl\<lparr>templates := [(''c'', 12)]\<rparr>"

theorem restore_refuses_cleanly_witness:
  "\<exists>e' st'. restore_action wit_renv ''c'' True wit_ctl = (Inl e', st') \<and> untouched wit_ctl st'"
proof (rule restore_refuses_cleanly)
  show "map_of (cregistry wit_ctl) ''c'' = Some wit_writer" by (simp add: wit_ctl_def)
  show "physical_target ''c'' wit_writer wit_ctl = Inr wit_writer"
    by (simp add: physical_target_def effective_id_def wit_writer_def Let_def)
  show "fst (warm_template wit_renv (effective_id ''c'' wit_writer) wit_ctl) = None"
    by (simp add: warm_template_def pool_get_def effective_id_def wit_writer_def wit_ctl_def split: prod.splits)
  show "cold_prerequisites wit_renv wit_writer wit_ctl = Inl (DumpUnavailableError ''TimeoutError: '')"
    by (simp add: cold_prerequisites_def durable_image_def join_durable_dump_def wit_writer_def wit_renv_def outcome_error_def)
qed

lemma wit_warm_facts:
  "map_of (cregistry wit_warm) ''c'' = Some wit_writer" "physical_target ''c'' wit_writer wit_warm = Inr wit_writer"
  "fst (warm_template wit_renv (effective_id ''c'' wit_writer) (wit_warm\<lparr>last_restore_target := Some ''c''\<rparr>)) = Some 12"
  "root_overlay_args wit_warm = None" "prepare_error wit_renv = None" "dispatched wit_renv" "fork_child wit_renv = Some 30"
  "r_errno wit_renv = None"
  by (simp_all add: wit_warm_def wit_ctl_def wit_renv_def physical_target_def effective_id_def wit_writer_def
    warm_template_def pool_get_def wit_procs_def)


text \<open>A cold restore that succeeds, for the next witness: the target has a finished image and no template.\<close>

definition wit_cold :: controller where
  "wit_cold = wit_ctl\<lparr>cregistry := [(''c'', wit_writer\<lparr>e_future := Some Finished\<rparr>)], agent_pid := 99\<rparr>"

theorem restore_switches_once_witness:
  "\<exists>ph. restored_to wit_renv ph wit_cold (snd (restore_action wit_renv ''c'' True wit_cold))"
proof -
  have "fst (restore_action wit_renv ''c'' True wit_cold) = Inr \<lparr>rr_path = ''criu'', rr_replay = []\<rparr>"
    by code_simp
  then have "restore_action wit_renv ''c'' True wit_cold
    = (Inr \<lparr>rr_path = ''criu'', rr_replay = []\<rparr>, snd (restore_action wit_renv ''c'' True wit_cold))"
    by (metis prod.collapse)
  from restore_switches_once [OF this] show ?thesis by blast
qed

end
