(* ===== verification/Async_Checkpoint.thy ===== *)
theory Async_Checkpoint
  imports Restore_Action
begin

text \<open>
  \<^verbatim>\<open>AsyncIncrementalCheckpoint\<close> (\<^verbatim>\<open>backends/deltabox/gsd/async_checkpoint.py\<close>): the checks of its
  constructor, the checkpoint transaction of the controller thread, and the writers that run behind it.

  A writer is cut into the pieces between which other threads can observe it: the wait for the physical
  parent, the CRIU dump with the move of the image, the disposal of the dumped process, the release of
  the admission slot, and the completion of its future. A checkpoint, a restore and a collection are
  calls of the one controller thread; writer pieces interleave with them in any order. Every outcome of
  the outside world is an argument.
\<close>

section \<open>State\<close>

datatype stage = Queued | Copying | Disposing "string option" | Releasing "string option" | Settling "string option"

record writer =
  w_id :: string
  w_parent :: "string option"
  w_staging :: string
  w_final :: string
  w_pid :: nat
  w_stage :: stage

record async =
  ctl :: controller
  max_pending :: nat
  free_slots :: nat
  latch :: "string option"
  writers :: "writer list"
  disk :: "string list"

section \<open>Construction\<close>

text \<open>
  \<^verbatim>\<open>__init__\<close>. \<^verbatim>\<open>dump_caps\<close> and \<^verbatim>\<open>restore_caps\<close> are the capabilities that the two CRIU binaries print,
  \<^term>\<open>None\<close> if there is no such binary; \<^verbatim>\<open>maximum\<close> and \<^verbatim>\<open>timeout_pos\<close> come from the environment.
\<close>

definition init_async ::
  "bool \<Rightarrow> bool \<Rightarrow> string option \<Rightarrow> string option \<Rightarrow> int \<Rightarrow> bool \<Rightarrow> controller \<Rightarrow> async result" where
  "init_async fresh restamp dump_caps restore_caps maximum timeout_pos c =
     andthen (raise_if (\<not> enable_warm_template c \<or> fixed_active_pid c \<noteq> None \<or> prefork_template_dump c
         \<or> async_template_full_dump c)
       (ValueError ''async-incremental requires warm templates, dynamic active PID and no legacy dump modes'')) (\<lambda>_.
     andthen (raise_if (\<not> checkpoint_stash_template c \<or> fresh)
       (ValueError ''async-incremental requires stash checkpoints and a non-init active task'')) (\<lambda>_.
     andthen (raise_if restamp (ValueError ''async-incremental prohibits parent inventory restamping'')) (\<lambda>_.
     case dump_caps of None \<Rightarrow> Inl (FileNotFoundError ''criu'')
     | Some capabilities \<Rightarrow>
       andthen (raise_if (\<not> sublist PROTOCOL capabilities)
         (RuntimeError ''async-incremental requires the pinned CRIU exact-parent-v1 capability'')) (\<lambda>_.
       andthen (if enable_criu_lazy_restore c then
           andthen (raise_if (\<not> sublist ''exact-parent-lazy-v1'' capabilities)
             (RuntimeError ''async-incremental lazy restore requires exact-parent-lazy-v1'')) (\<lambda>_.
           case restore_caps of None \<Rightarrow> Inl (FileNotFoundError ''criu'')
           | Some rc \<Rightarrow> raise_if (\<not> sublist ''exact-parent-lazy-v1'' rc)
               (RuntimeError ''lazy parent-page reader requires exact-parent-lazy-v1 restore binary''))
         else Inr ()) (\<lambda>_.
       andthen (raise_if (maximum < 1 \<or> maximum > 64) (ValueError ''DELTABOX_ASYNC_MAX_PENDING must be between 1 and 64'')) (\<lambda>_.
       andthen (raise_if (\<not> timeout_pos) (ValueError ''invalid async dump timeout'')) (\<lambda>_.
       Inr \<lparr>ctl = c, max_pending = nat maximum, free_slots = nat maximum, latch = None, writers = [], disk = []\<rparr>)))))))"

section \<open>The checkpoint transaction\<close>

record async_env =
  base_env :: ckpt_env
  children_error :: "py_error option"
  table1 :: procs
  quiesce_error :: "py_error option"
  resources_error :: "py_error option"
  upper_missing :: bool
  dirty_walk :: "bool result"
  warm_stops :: bool
  dump_stops :: bool
  table2 :: procs
  pidfd_error :: "py_error option"
  mkdir_error :: "py_error option"
  submit_error :: "py_error option"
  cleanup_err :: "string option"

text \<open>What the transaction has done so far, for its clean-up.\<close>

record txn =
  t_ctl :: controller
  t_warm :: "nat option"
  t_dump :: "nat option"
  t_staged :: bool

definition check :: "py_error option \<Rightarrow> txn \<Rightarrow> (unit, txn) eff" where
  "check e t = (case e of None \<Rightarrow> (Inr (), t) | Some err \<Rightarrow> (Inl err, t))"

definition require :: "bool \<Rightarrow> string \<Rightarrow> txn \<Rightarrow> (unit, txn) eff" where
  "require c m t = (raise_if (\<not> c) (RuntimeError m), t)"

text \<open>\<^verbatim>\<open>_parent\<close>.\<close>

definition async_parent :: "string option \<Rightarrow> controller \<Rightarrow> centry option result" where
  "async_parent parent_id c = (case parent_id of
       None \<Rightarrow> Inr None
     | Some p \<Rightarrow> if p = [] then Inr None else
         (case map_of (cregistry c) p of
            None \<Rightarrow> Inl (ValueError (''unknown checkpoint parent: '' @ p))
          | Some entry \<Rightarrow>
              let effective = (case e_effective entry of Some x \<Rightarrow> x | None \<Rightarrow> Some p) in
              (case Option.bind effective (map_of (cregistry c)) of
                 None \<Rightarrow> Inl (KeyError ''effective_restore_id'')
               | Some e \<Rightarrow> if e_protocol e \<noteq> Some PROTOCOL
                   then Inl (ValueError ''cannot attach exact-parent dump to a different checkpoint protocol'')
                   else Inr (Some e))))"

text \<open>\<^verbatim>\<open>_sink\<close>: unlike the synchronous checkpoint it makes the new directories before it renames the old one.\<close>

definition async_layers :: "string option \<Rightarrow> controller \<Rightarrow> string list" where
  "async_layers parent_id c = (case parent_id of
       Some p \<Rightarrow> if p = [] then [base_layer c]
                 else (case map_of (cregistry c) p of Some e \<Rightarrow> e_layers e | None \<Rightarrow> [base_layer c])
     | None \<Rightarrow> [base_layer c])"

definition async_sink :: "async_env \<Rightarrow> string \<Rightarrow> string option \<Rightarrow> controller \<Rightarrow> (string list, controller) eff" where
  "async_sink env i parent_id c =
     (let layers = async_layers parent_id c in
      if upper_missing env then (Inl (FileNotFoundError (current_upper c)), c)
      else case dirty_walk env of
        Inl e \<Rightarrow> (Inl e, c)
      | Inr dirty \<Rightarrow>
          if dirty then
            let frozen = path_join (layers_root c) (''layer_'' @ i);
                upper = path_join (layers_root c) (''upper_'' @ i @ ''_next'');
                work = path_join (layers_root c) (''work_'' @ i @ ''_next'') in
            bind_eff (apply_overlay_switch (switch_errno (base_env env)) layers upper work ''ckpt''
                (emits [Makedirs upper, Makedirs work, Rename (current_upper c) frozen] c)) (\<lambda>_ c.
              (Inr (frozen # layers), c\<lparr>current_upper := upper, current_work := work\<rparr>))
          else (Inr layers, c))"

definition on_ctl :: "(controller \<Rightarrow> ('a, controller) eff) \<Rightarrow> txn \<Rightarrow> ('a, txn) eff" where
  "on_ctl f t = (case f (t_ctl t) of (r, c) \<Rightarrow> (r, t\<lparr>t_ctl := c\<rparr>))"

text \<open>The move off the namespace init, and the two frozen children: the template and the process to dump.\<close>

definition txn_bootstrap :: "async_env \<Rightarrow> txn \<Rightarrow> (unit, txn) eff" where
  "txn_bootstrap env t =
     bind_eff (check (if is_pidns_init (table (base_env env)) (ns_init_pid (t_ctl t)) (agent_pid (t_ctl t))
         then children_error env else None) t) (\<lambda>_ t.
     case bootstrap_active_before_dump (base_env env) (new_id (base_env env)) (t_ctl t) of ((tmpl, attempted), c) \<Rightarrow>
     let t = t\<lparr>t_ctl := c, t_warm := tmpl\<rparr> in
     bind_eff (require (\<not> (attempted \<and> tmpl = None)) ''failed to move active off PID namespace init'' t) (\<lambda>_ t.
     require (\<not> is_pidns_init (table1 env) (ns_init_pid (t_ctl t)) (agent_pid (t_ctl t)))
       ''asynchronous writers cannot be children of an active PID namespace init'' t))"

definition txn_warm :: "async_env \<Rightarrow> txn \<Rightarrow> (unit, txn) eff" where
  "txn_warm env t =
     (let t = (if t_warm t = None then
          (case request_stash_template (stash_reply (base_env env)) (agent_pid (t_ctl t)) (Some (new_id (base_env env))) (t_ctl t) of
             (tmpl, c) \<Rightarrow> t\<lparr>t_ctl := c, t_warm := tmpl\<rparr>) else t) in
      require (t_warm t \<noteq> None \<and> warm_stops env) ''warm template failed to stop'' t)"

definition txn_dump :: "async_env \<Rightarrow> txn \<Rightarrow> (nat, txn) eff" where
  "txn_dump env t =
     (case request_stash_template (dump_reply (base_env env)) (agent_pid (t_ctl t)) None (t_ctl t) of (d, c) \<Rightarrow>
      let t = t\<lparr>t_ctl := c, t_dump := d\<rparr> in
      bind_eff (require (d \<noteq> None \<and> dump_stops env) ''disposable dump task failed to stop'' t) (\<lambda>_ t.
      bind_eff (require (is_pidns_init (table2 env) (ns_init_pid (t_ctl t)) (the d)) ''exact-parent writer must have virtual PID 1'' t) (\<lambda>_ t.
      bind_eff (check (pidfd_error env) t) (\<lambda>_ t.
      bind_eff (check (mkdir_error env) t) (\<lambda>_ t. (Inr (the d), t\<lparr>t_staged := True\<rparr>))))))"

definition async_final :: "async_env \<Rightarrow> string \<Rightarrow> controller \<Rightarrow> string" where
  "async_final env tag c = path_join (snapshot_store c) (tag @ ''_'' @ new_id (base_env env) @ ''_mem'')"

definition async_entry ::
  "async_env \<Rightarrow> string \<Rightarrow> string option \<Rightarrow> centry option \<Rightarrow> string list \<Rightarrow> nat \<Rightarrow> txn \<Rightarrow> centry" where
  "async_entry env tag parent_id parent layers d t =
     \<lparr>e_id = new_id (base_env env), e_mem_path = async_final env tag (t_ctl t), e_parent_id = parent_id, e_layers = layers,
      e_strategy = ''standard'', e_template_pid = t_warm t, e_async_dump_pid = Some d, e_future = Some Pending,
      e_dump_error = None, e_stats_error = None, e_dump_tree_pid = d, e_ns_init_pid = ns_init_pid (t_ctl t),
      e_external_pidns = False, e_fixed_active_pid = None, e_prev_ckpt_id = map_option e_id parent, e_effective = None,
      e_replay_cmds = [], e_protocol = Some PROTOCOL, e_phase = Some WARM_READY, e_dispose_done = False\<rparr>"

definition txn_body ::
  "async_env \<Rightarrow> string \<Rightarrow> string option \<Rightarrow> centry option \<Rightarrow> txn \<Rightarrow> (centry, txn) eff" where
  "txn_body env tag parent_id parent t =
     bind_eff (require (root_overlay_args (t_ctl t) = None) ''async-incremental does not yet support multiple root overlays'' t) (\<lambda>_ t.
     bind_eff (txn_bootstrap env t) (\<lambda>_ t.
     bind_eff (check (quiesce_error env) t) (\<lambda>_ t.
     bind_eff (check (resources_error env) t) (\<lambda>_ t.
     bind_eff (on_ctl (async_sink env (new_id (base_env env)) parent_id) t) (\<lambda>layers t.
     bind_eff (txn_warm env t) (\<lambda>_ t.
     bind_eff (txn_dump env t) (\<lambda>d t.
     let e = async_entry env tag parent_id parent layers d t;
         c = t_ctl t;
         t = t\<lparr>t_ctl := c\<lparr>cregistry := AList.update (e_id e) e (cregistry c)\<rparr>\<rparr> in
     bind_eff (check (submit_error env) t) (\<lambda>_ t. (Inr e, t)))))))))"

text \<open>The message of an exception, as the latch keeps it.\<close>

definition err_text :: "py_error \<Rightarrow> string" where
  "err_text e = err_name e @ '': '' @ err_msg e"

text \<open>The handler of the transaction: unregister, discard the template, dispose of the copy, drop the directory.\<close>

definition txn_undo :: "string \<Rightarrow> string \<Rightarrow> txn \<Rightarrow> controller" where
  "txn_undo i staging t =
     (let c = t_ctl t; c = c\<lparr>cregistry := AList.delete i (cregistry c)\<rparr>;
          c = (case t_warm t of Some wpid \<Rightarrow> if wpid \<noteq> ns_init_pid c then pool_discard i c else c | None \<Rightarrow> c);
          c = (case t_dump t of Some d \<Rightarrow> emit (Kill SIGKILL d) c | None \<Rightarrow> c) in
      if t_staged t then emit (Rmtree staging) c else c)"

definition async_checkpoint ::
  "async_env \<Rightarrow> string option \<Rightarrow> string \<Rightarrow> string \<Rightarrow> async \<Rightarrow> (centry, async) eff option" where
  "async_checkpoint env parent_id tag raw a =
     (case latch a of
        Some m \<Rightarrow> Some (Inl (RuntimeError (''async checkpoint transaction previously failed: '' @ m)), a)
      | None \<Rightarrow>
        if raw = ''predump'' then Some (Inl (ValueError ''async-incremental does not support predump checkpoints''), a)
        else case async_parent parent_id (ctl a) of
          Inl e \<Rightarrow> Some (Inl e, a)
        | Inr parent \<Rightarrow>
          if raw = ''lightweight'' then
            (if parent = None then Some (Inl (ValueError ''lightweight checkpoint requires a physical parent''), a)
             else map_option (\<lambda>(r, c). (r, a\<lparr>ctl := c\<rparr>)) (checkpoint_legacy (base_env env) parent_id tag raw (ctl a)))
          else if free_slots a = 0 then Some (Inl (TimeoutError ''async checkpoint admission timed out''), a)
          else
            let i = new_id (base_env env); final = async_final env tag (ctl a); staging = final @ ''.pending'';
                a = a\<lparr>free_slots := free_slots a - 1\<rparr> in
            (case txn_body env tag parent_id parent \<lparr>t_ctl = ctl a, t_warm = None, t_dump = None, t_staged = False\<rparr> of
               (Inr e, t) \<Rightarrow>
                 Some (Inr e, a\<lparr>ctl := t_ctl t, disk := staging # disk a,
                   writers := writers a @ [\<lparr>w_id = i, w_parent = e_prev_ckpt_id e, w_staging = staging, w_final = final,
                     w_pid = e_dump_tree_pid e, w_stage = Queued\<rparr>]\<rparr>)
             | (Inl err, t) \<Rightarrow>
                 Some (Inl err, a\<lparr>ctl := txn_undo i staging t, free_slots := Suc (free_slots a),
                   latch := Some (err_text err @ (if t_dump t \<noteq> None
                     then (case cleanup_err env of Some m \<Rightarrow> ''; cleanup: '' @ m | None \<Rightarrow> []) else []))\<rparr>)))"

section \<open>The writers\<close>

record run_env =
  timed_out :: bool
  criu_error :: "string option"
  stats_err :: "string option"
  replace_error :: "string option"
  dispose_error :: "string option"

definition upd_entry :: "string \<Rightarrow> (centry \<Rightarrow> centry) \<Rightarrow> async \<Rightarrow> async" where
  "upd_entry i f a = a\<lparr>ctl := (ctl a)\<lparr>cregistry := map (\<lambda>(k, e). (k, if k = i then f e else e)) (cregistry (ctl a))\<rparr>\<rparr>"

definition set_stage :: "string \<Rightarrow> stage \<Rightarrow> async \<Rightarrow> async" where
  "set_stage i s a = a\<lparr>writers := map (\<lambda>w. if w_id w = i then w\<lparr>w_stage := s\<rparr> else w) (writers a)\<rparr>"

definition fail_entry :: "string \<Rightarrow> centry \<Rightarrow> centry" where
  "fail_entry m e = e\<lparr>e_phase := Some DURABLE_FAILED, e_dump_error := Some m, e_stats_error := Some m\<rparr>"

definition fail_writer :: "string \<Rightarrow> string \<Rightarrow> async \<Rightarrow> async" where
  "fail_writer i m a = set_stage i (Disposing (Some m)) (upd_entry i (fail_entry m) a)"

text \<open>The wait for the physical parent: blocked while its writer runs, unless the wait times out.\<close>

definition start_writer :: "run_env \<Rightarrow> writer \<Rightarrow> async \<Rightarrow> async option" where
  "start_writer env w a =
     (let start = set_stage (w_id w) Copying (upd_entry (w_id w) (\<lambda>e. e\<lparr>e_phase := Some DUMPING\<rparr>) a) in
      case w_parent w of
        None \<Rightarrow> Some start
      | Some p \<Rightarrow> (case map_of (cregistry (ctl a)) p of
            None \<Rightarrow> Some (fail_writer (w_id w) ''RuntimeError: physical parent did not commit'' a)
          | Some pe \<Rightarrow> (case e_future pe of
                None \<Rightarrow> Some (fail_writer (w_id w) ''AttributeError: result'' a)
              | Some Pending \<Rightarrow> if timed_out env then Some (fail_writer (w_id w) ''TimeoutError: '' a) else None
              | Some (Raised m) \<Rightarrow> Some (fail_writer (w_id w) m a)
              | Some Finished \<Rightarrow> if e_phase pe = Some DURABLE_READY then Some start
                  else Some (fail_writer (w_id w) ''RuntimeError: physical parent did not commit'' a))))"

definition writer_command :: "writer \<Rightarrow> controller \<Rightarrow> string list" where
  "writer_command w c =
     [''dump'', ''--tree'', dec (w_pid w), ''-D'', w_staging w, ''--shell-job'', ''--leave-stopped'', ''--tcp-close'',
      ''--ext-unix-sk'', ''--manage-cgroups'', ''--link-remap''] @ all_ext_mount_map_args c @ [''-o'', ''dump.log'']
     @ (case Option.bind (w_parent w) (map_of (cregistry c)) of
          Some pe \<Rightarrow> [''--prev-images-dir'', relpath (e_mem_path pe) (w_staging w)] | None \<Rightarrow> [])"

definition copy_writer :: "run_env \<Rightarrow> writer \<Rightarrow> async \<Rightarrow> async" where
  "copy_writer env w a =
     (let a = a\<lparr>ctl := emit (Criu (writer_command w (ctl a))) (ctl a)\<rparr> in
      case (criu_error env, stats_err env, replace_error env) of
        (None, None, None) \<Rightarrow>
          let a = a\<lparr>disk := w_final w # removeAll (w_staging w) (disk a)\<rparr> in
          set_stage (w_id w) (Disposing None) (upd_entry (w_id w) (\<lambda>e. e\<lparr>e_phase := Some DURABLE_READY\<rparr>) a)
      | (Some m, _, _) \<Rightarrow> fail_writer (w_id w) m a
      | (None, Some m, _) \<Rightarrow> fail_writer (w_id w) m a
      | (None, None, Some m) \<Rightarrow> fail_writer (w_id w) m a)"

text \<open>\<^verbatim>\<open>_dispose\<close> of the dumped process, with the handling of its failure.\<close>

definition dispose_writer :: "run_env \<Rightarrow> writer \<Rightarrow> string option \<Rightarrow> async \<Rightarrow> async" where
  "dispose_writer env w err a =
     (let a = a\<lparr>ctl := emit (Kill SIGKILL (w_pid w)) (ctl a)\<rparr> in
      case dispose_error env of
        None \<Rightarrow> set_stage (w_id w) (Releasing err) (upd_entry (w_id w) (\<lambda>e. e\<lparr>e_dispose_done := True\<rparr>) a)
      | Some d \<Rightarrow>
          let fin = (\<lambda>e. (if err = None then fail_entry (''disposal: '' @ d) e else e)\<lparr>e_phase := Some DURABLE_FAILED, e_dispose_done := False\<rparr>) in
          set_stage (w_id w) (Releasing (Some (case err of None \<Rightarrow> d | Some m \<Rightarrow> m))) (upd_entry (w_id w) fin a))"

text \<open>The bounded semaphore refuses a release above its initial value; then the future is never completed.\<close>

definition release_writer :: "writer \<Rightarrow> string option \<Rightarrow> async \<Rightarrow> async option" where
  "release_writer w err a =
     (if free_slots a < max_pending a then Some (set_stage (w_id w) (Settling err) (a\<lparr>free_slots := Suc (free_slots a)\<rparr>))
      else None)"

definition settle_writer :: "writer \<Rightarrow> string option \<Rightarrow> async \<Rightarrow> async" where
  "settle_writer w err a =
     (let a = upd_entry (w_id w) (\<lambda>e. e\<lparr>e_future := Some (case err of None \<Rightarrow> Finished | Some m \<Rightarrow> Raised m)\<rparr>) a in
      a\<lparr>writers := filter (\<lambda>x. w_id x \<noteq> w_id w) (writers a)\<rparr>)"

definition run_writer :: "run_env \<Rightarrow> writer \<Rightarrow> async \<Rightarrow> async option" where
  "run_writer env w a = (case w_stage w of
       Queued \<Rightarrow> start_writer env w a
     | Copying \<Rightarrow> Some (copy_writer env w a)
     | Disposing err \<Rightarrow> Some (dispose_writer env w err a)
     | Releasing err \<Rightarrow> release_writer w err a
     | Settling err \<Rightarrow> Some (settle_writer w err a))"

section \<open>Interleaving\<close>

text \<open>A collection, with the directories it deletes taken off the disk.\<close>

definition async_gc ::
  "nat \<Rightarrow> string list option \<Rightarrow> string list \<Rightarrow> (string \<Rightarrow> bool) \<Rightarrow> string list option \<Rightarrow> async \<Rightarrow> async" where
  "async_gc keep_n keep_ids readers is_dir names a =
     (let c = gc_obsolete_snapshots keep_n keep_ids readers is_dir names (ctl a);
          new = drop (length (events (ctl a))) (events c) in
      a\<lparr>ctl := c, disk := filter (\<lambda>d. Rmtree d \<notin> set new) (disk a)\<rparr>)"

text \<open>
  What a fresh identifier and a fresh image directory mean, and that no name in the directory of the layers
  is an image.
\<close>

definition fresh_image :: "string \<Rightarrow> string \<Rightarrow> async \<Rightarrow> bool" where
  "fresh_image i dir a \<longleftrightarrow> fresh_ckpt (cregistry (ctl a)) i \<and> dir \<notin> (e_mem_path \<circ> snd) ` set (cregistry (ctl a))"

definition image_free :: "string list option \<Rightarrow> async \<Rightarrow> bool" where
  "image_free names a \<longleftrightarrow> (\<forall>n \<in> set (case names of Some ns \<Rightarrow> ns | None \<Rightarrow> []).
     path_join (layers_root (ctl a)) n \<notin> (e_mem_path \<circ> snd) ` set (cregistry (ctl a)))"

inductive async_step :: "async \<Rightarrow> async \<Rightarrow> bool" where
  checkpoint: "\<lbrakk>async_checkpoint env parent tag raw a = Some (r, a'); parent \<noteq> Some (new_id (base_env env));
      fresh_image (new_id (base_env env)) (ckpt_dir (base_env env) tag (ctl a)) a\<rbrakk> \<Longrightarrow> async_step a a'"
| writer: "\<lbrakk>w \<in> set (writers a); run_writer env w a = Some a'\<rbrakk> \<Longrightarrow> async_step a a'"
| collect: "\<lbrakk>a' = async_gc keep_n keep_ids readers is_dir names a; image_free names a\<rbrakk> \<Longrightarrow> async_step a a'"
| restore: "\<lbrakk>restore_action env target allow_cold (ctl a) = (r, c)\<rbrakk> \<Longrightarrow> async_step a (a\<lparr>ctl := c\<rparr>)"

end
