(* ===== verification/Async_Invariant.thy ===== *)
theory Async_Invariant
  imports Async_Checkpoint
begin

text \<open>
  The invariant of the asynchronous checkpoints under every interleaving of checkpoints, writer pieces,
  collections and restores: admission slots, durable image chains, writers and their registry entries.
\<close>

section \<open>The invariant\<close>

definition committed :: "centry \<Rightarrow> bool" where
  "committed e \<longleftrightarrow> e_future e = Some Finished \<and> e_phase e = Some DURABLE_READY"

definition exact_ok :: "cregistry \<Rightarrow> string list \<Rightarrow> centry \<Rightarrow> bool" where
  "exact_ok reg dsk e \<longleftrightarrow> e_future e \<noteq> None
     \<and> (\<forall>p. e_prev_ckpt_id e = Some p \<longrightarrow> (\<exists>pe. map_of reg p = Some pe \<and> e_protocol pe = Some PROTOCOL
          \<and> (e_phase e \<in> {Some DUMPING, Some DURABLE_READY} \<longrightarrow> committed pe)))
     \<and> (e_phase e = Some DURABLE_READY \<longrightarrow> e_mem_path e \<in> set dsk)
     \<and> (e_future e = Some Finished \<longrightarrow> e_phase e = Some DURABLE_READY \<and> e_dispose_done e)
     \<and> (\<forall>m. e_future e = Some (Raised m) \<longrightarrow> e_phase e = Some DURABLE_FAILED)"

definition ent_ok :: "cregistry \<Rightarrow> string list \<Rightarrow> string \<Rightarrow> centry \<Rightarrow> bool" where
  "ent_ok reg dsk k e \<longleftrightarrow> e_id e = k \<and> suffix ''_mem'' (e_mem_path e)
     \<and> (\<forall>p. e_prev_ckpt_id e = Some p \<longrightarrow> p \<in> fst ` set reg)
     \<and> (e_protocol e = Some PROTOCOL \<longrightarrow> exact_ok reg dsk e)"

definition reg_inv :: "cregistry \<Rightarrow> string list \<Rightarrow> bool" where
  "reg_inv reg dsk \<longleftrightarrow> wf_parents e_prev_ckpt_id reg \<and> wf_parents e_parent_id reg
     \<and> distinct (map (e_mem_path \<circ> snd) reg) \<and> (\<forall>(k, e) \<in> set reg. ent_ok reg dsk k e)"

definition stage_ok :: "stage \<Rightarrow> centry \<Rightarrow> bool" where
  "stage_ok s e \<longleftrightarrow> (case s of
       Queued \<Rightarrow> e_phase e = Some WARM_READY
     | Copying \<Rightarrow> e_phase e = Some DUMPING
     | Disposing None \<Rightarrow> e_phase e = Some DURABLE_READY
     | Disposing (Some m) \<Rightarrow> e_phase e = Some DURABLE_FAILED
     | Releasing None \<Rightarrow> e_phase e = Some DURABLE_READY \<and> e_dispose_done e
     | Releasing (Some m) \<Rightarrow> e_phase e = Some DURABLE_FAILED
     | Settling None \<Rightarrow> e_phase e = Some DURABLE_READY \<and> e_dispose_done e
     | Settling (Some m) \<Rightarrow> e_phase e = Some DURABLE_FAILED)"

definition owns :: "writer \<Rightarrow> centry \<Rightarrow> bool" where
  "owns w e \<longleftrightarrow> e_protocol e = Some PROTOCOL \<and> e_future e = Some Pending \<and> e_prev_ckpt_id e = w_parent w
     \<and> e_mem_path e = w_final w \<and> e_async_dump_pid e = Some (w_pid w) \<and> stage_ok (w_stage w) e"

definition writers_inv :: "cregistry \<Rightarrow> writer list \<Rightarrow> bool" where
  "writers_inv reg ws \<longleftrightarrow> distinct (map w_id ws)
     \<and> (\<forall>w \<in> set ws. suffix ''.pending'' (w_staging w) \<and> (\<exists>e. map_of reg (w_id w) = Some e \<and> owns w e))
     \<and> (\<forall>(k, e) \<in> set reg. e_protocol e = Some PROTOCOL \<and> e_future e = Some Pending \<longrightarrow> k \<in> w_id ` set ws)"

definition holds_slot :: "writer \<Rightarrow> bool" where
  "holds_slot w \<longleftrightarrow> (case w_stage w of Settling _ \<Rightarrow> False | _ \<Rightarrow> True)"

definition async_inv :: "async \<Rightarrow> bool" where
  "async_inv a \<longleftrightarrow> reg_inv (cregistry (ctl a)) (disk a) \<and> writers_inv (cregistry (ctl a)) (writers a)
     \<and> free_slots a + length (filter holds_slot (writers a)) = max_pending a \<and> max_pending a \<le> 64 \<and> 1 \<le> max_pending a"

section \<open>Updating one entry\<close>

definition upd_reg :: "string \<Rightarrow> (centry \<Rightarrow> centry) \<Rightarrow> cregistry \<Rightarrow> cregistry" where
  "upd_reg i f reg = map (\<lambda>(k, e). (k, if k = i then f e else e)) reg"

lemma upd_entry_simps [simp]:
  "cregistry (ctl (upd_entry i f a)) = upd_reg i f (cregistry (ctl a))" "writers (upd_entry i f a) = writers a"
  "disk (upd_entry i f a) = disk a" "free_slots (upd_entry i f a) = free_slots a" "max_pending (upd_entry i f a) = max_pending a"
  by (simp_all add: upd_entry_def upd_reg_def)

lemma set_stage_simps [simp]:
  "ctl (set_stage i s a) = ctl a" "disk (set_stage i s a) = disk a" "free_slots (set_stage i s a) = free_slots a"
  "max_pending (set_stage i s a) = max_pending a"
  "writers (set_stage i s a) = map (\<lambda>w. if w_id w = i then w\<lparr>w_stage := s\<rparr> else w) (writers a)"
  by (simp_all add: set_stage_def)

lemma upd_reg_keys [simp]: "fst ` set (upd_reg i f reg) = fst ` set reg"
  by (force simp: upd_reg_def)

lemma upd_reg_map_of: "map_of (upd_reg i f reg) k = (if k = i then map_option f (map_of reg k) else map_of reg k)"
  by (induction reg) (auto simp: upd_reg_def)

lemma upd_reg_wf: "(\<And>e. par (f e) = par e) \<Longrightarrow> wf_parents par (upd_reg i f reg) = wf_parents par reg"
proof (induction par reg rule: wf_parents.induct)
  case (2 par k e r)
  have "fst ` set (map (\<lambda>(k, e). (k, if k = i then f e else e)) r) = fst ` set r" by force
  then show ?case using 2 by (simp add: upd_reg_def)
qed (simp add: upd_reg_def)

text \<open>The fields that no piece of a writer changes.\<close>

definition keeps :: "(centry \<Rightarrow> centry) \<Rightarrow> bool" where
  "keeps f \<longleftrightarrow> (\<forall>e. e_id (f e) = e_id e \<and> e_mem_path (f e) = e_mem_path e \<and> e_prev_ckpt_id (f e) = e_prev_ckpt_id e
     \<and> e_parent_id (f e) = e_parent_id e \<and> e_protocol (f e) = e_protocol e \<and> e_async_dump_pid (f e) = e_async_dump_pid e)"

lemma reg_invD:
  assumes "reg_inv reg dsk"
  shows "distinct (map fst reg)" "map_of reg k = Some e \<Longrightarrow> ent_ok reg dsk k e" "wf_parents e_prev_ckpt_id reg"
  using assms wf_parents_distinct [of e_parent_id reg] map_of_SomeD [of reg k e] by (auto simp: reg_inv_def)

lemma prev_other: "\<lbrakk>reg_inv reg dsk; map_of reg k = Some e\<rbrakk> \<Longrightarrow> e_prev_ckpt_id e \<noteq> Some k"
  using wf_parents_rank [of e_prev_ckpt_id reg k e k] reg_invD(3) by blast

lemma upd_reg_inv:
  assumes inv: "reg_inv reg dsk" and e: "map_of reg i = Some e" "e_future e = Some Pending" "e_protocol e = Some PROTOCOL"
    and f: "keeps f" and new: "exact_ok reg dsk' (f e)"
    and dsk: "\<And>k e'. \<lbrakk>map_of reg k = Some e'; k \<noteq> i; e_mem_path e' \<in> set dsk\<rbrakk> \<Longrightarrow> e_mem_path e' \<in> set dsk'"
  shows "reg_inv (upd_reg i f reg) dsk'"
proof -
  have d: "distinct (map fst reg)" using reg_invD(1) [OF inv] .
  have mem: "map (e_mem_path \<circ> snd) (upd_reg i f reg) = map (e_mem_path \<circ> snd) reg"
    using f by (auto simp: upd_reg_def keeps_def)
  have nopar: "e_phase e' \<notin> {Some DUMPING, Some DURABLE_READY}"
    if "map_of reg k = Some e'" "e_prev_ckpt_id e' = Some i" "e_protocol e' = Some PROTOCOL" for k e'
    using reg_invD(2) [OF inv that(1)] that(2,3) e by (auto simp: ent_ok_def exact_ok_def committed_def)
  have lookup: "\<exists>pe'. map_of (upd_reg i f reg) p = Some pe' \<and> e_protocol pe' = Some PROTOCOL \<and> (p \<noteq> i \<longrightarrow> pe' = pe)"
    if "map_of reg p = Some pe" "e_protocol pe = Some PROTOCOL" for p pe
    using that f by (auto simp: upd_reg_map_of keeps_def)
  have ok: "ent_ok (upd_reg i f reg) dsk' k e'" if m: "map_of (upd_reg i f reg) k = Some e'" for k e'
  proof (cases "k = i")
    case True
    then have e': "e' = f e" using m e(1) by (simp add: upd_reg_map_of)
    have old: "ent_ok reg dsk i e" using reg_invD(2) [OF inv e(1)] .
    have "e_prev_ckpt_id e \<noteq> Some i" using prev_other [OF inv e(1)] .
    then have "exact_ok (upd_reg i f reg) dsk' (f e)" using new f by (auto simp: exact_ok_def upd_reg_map_of keeps_def)
    then show ?thesis using old f True e' by (simp add: ent_ok_def keeps_def)
  next
    case False
    then have m': "map_of reg k = Some e'" using m by (simp add: upd_reg_map_of)
    have old: "ent_ok reg dsk k e'" using reg_invD(2) [OF inv m'] .
    have "exact_ok (upd_reg i f reg) dsk' e'" if p: "e_protocol e' = Some PROTOCOL"
    proof -
      have x: "exact_ok reg dsk e'" using old p by (simp add: ent_ok_def)
      have "\<exists>pe. map_of (upd_reg i f reg) q = Some pe \<and> e_protocol pe = Some PROTOCOL
          \<and> (e_phase e' \<in> {Some DUMPING, Some DURABLE_READY} \<longrightarrow> committed pe)" if q: "e_prev_ckpt_id e' = Some q" for q
      proof -
        obtain pe where pe: "map_of reg q = Some pe" "e_protocol pe = Some PROTOCOL"
          "e_phase e' \<in> {Some DUMPING, Some DURABLE_READY} \<longrightarrow> committed pe" using x q unfolding exact_ok_def by blast
        obtain pe' where "map_of (upd_reg i f reg) q = Some pe'" "e_protocol pe' = Some PROTOCOL" "q \<noteq> i \<longrightarrow> pe' = pe"
          using lookup [OF pe(1,2)] by blast
        then show ?thesis using pe(3) nopar [OF m' _ p] q by (cases "q = i") auto
      qed
      moreover have "e_phase e' = Some DURABLE_READY \<longrightarrow> e_mem_path e' \<in> set dsk'" using x dsk [OF m' False] by (auto simp: exact_ok_def)
      ultimately show ?thesis using x unfolding exact_ok_def by blast
    qed
    then show ?thesis using old by (simp add: ent_ok_def)
  qed
  have d': "distinct (map fst (upd_reg i f reg))" using d by (simp add: upd_reg_def comp_def case_prod_beta)
  have "ent_ok (upd_reg i f reg) dsk' k e'" if "(k, e') \<in> set (upd_reg i f reg)" for k e'
    using ok [OF map_of_is_SomeI [OF d' that]] .
  then show ?thesis using inv f mem upd_reg_wf [of e_prev_ckpt_id f i reg] upd_reg_wf [of e_parent_id f i reg]
    by (auto simp: reg_inv_def keeps_def)
qed

section \<open>Writer pieces\<close>

lemma writers_invD:
  assumes "writers_inv reg ws" "w \<in> set ws"
  obtains e where "map_of reg (w_id w) = Some e" "owns w e"
  using assms by (auto simp: writers_inv_def)

lemma same_writer: "\<lbrakk>distinct (map w_id ws); w \<in> set ws; w' \<in> set ws; w_id w' = w_id w\<rbrakk> \<Longrightarrow> w' = w"
  by (meson distinct_map inj_on_def)

lemma writers_upd:
  assumes inv: "writers_inv reg ws" and w: "w \<in> set ws" and m: "map_of reg (w_id w) = Some e" and f: "keeps f"
    and new: "e_future (f e) = Some Pending" "stage_ok s (f e)" and ri: "reg_inv reg dsk"
  shows "writers_inv (upd_reg (w_id w) f reg) (map (\<lambda>x. if w_id x = w_id w then x\<lparr>w_stage := s\<rparr> else x) ws)"
proof -
  let ?ws = "map (\<lambda>x. if w_id x = w_id w then x\<lparr>w_stage := s\<rparr> else x) ws"
  have ids: "map w_id ?ws = map w_id ws" by simp
  have d: "distinct (map w_id ws)" using inv by (simp add: writers_inv_def)
  have own: "owns w e" using writers_invD [OF inv w] m by auto
  have "suffix ''.pending'' (w_staging x') \<and> (\<exists>e'. map_of (upd_reg (w_id w) f reg) (w_id x') = Some e' \<and> owns x' e')"
    if x': "x' \<in> set ?ws" for x'
  proof -
    obtain x where x: "x \<in> set ws" "x' = (if w_id x = w_id w then x\<lparr>w_stage := s\<rparr> else x)" using x' by auto
    obtain ex where ex: "map_of reg (w_id x) = Some ex" "owns x ex" using writers_invD [OF inv x(1)] .
    have st: "suffix ''.pending'' (w_staging x)" using inv x(1) by (simp add: writers_inv_def)
    show ?thesis
    proof (cases "w_id x = w_id w")
      case True
      then have "x = w" using same_writer [OF d w x(1)] by simp
      then have "owns (x\<lparr>w_stage := s\<rparr>) (f e)" using own f new by (simp add: owns_def keeps_def)
      then show ?thesis using True x(2) m st by (simp add: upd_reg_map_of)
    next
      case False
      then show ?thesis using x(2) ex st by (simp add: upd_reg_map_of)
    qed
  qed
  moreover have "k \<in> w_id ` set ?ws"
    if k: "(k, e') \<in> set (upd_reg (w_id w) f reg)" "e_protocol e' = Some PROTOCOL" "e_future e' = Some Pending" for k e'
  proof -
    have "k \<in> w_id ` set ws"
    proof (cases "k = w_id w")
      case True
      then show ?thesis using w by simp
    next
      case False
      then have "(k, e') \<in> set reg" using k(1) by (auto simp: upd_reg_def split: if_splits)
      then show ?thesis using inv k(2,3) by (force simp: writers_inv_def)
    qed
    then show ?thesis by (metis ids set_map)
  qed
  moreover have "distinct (map w_id ?ws)" unfolding ids by (rule d)
  ultimately show ?thesis unfolding writers_inv_def by blast
qed

lemma length_filter_map: "(\<And>x. x \<in> set xs \<Longrightarrow> P (g x) = P x) \<Longrightarrow> length (filter P (map g xs)) = length (filter P xs)"
  by (induction xs) auto

lemma slots_stage:
  assumes "distinct (map w_id ws)" "w \<in> set ws" "holds_slot w" "holds_slot (w\<lparr>w_stage := s\<rparr>)"
  shows "length (filter holds_slot (map (\<lambda>x. if w_id x = w_id w then x\<lparr>w_stage := s\<rparr> else x) ws)) = length (filter holds_slot ws)"
proof -
  have "holds_slot (if w_id x = w_id w then x\<lparr>w_stage := s\<rparr> else x) = holds_slot x" if "x \<in> set ws" for x
    using same_writer [OF assms(1,2) that] assms(3,4) by auto
  then show ?thesis by (rule length_filter_map)
qed

text \<open>A piece that changes its own entry and its stage, and keeps its slot.\<close>

lemma piece_inv:
  assumes inv: "async_inv a" and w: "w \<in> set (writers a)" and m: "map_of (cregistry (ctl a)) (w_id w) = Some e"
    and a': "cregistry (ctl a') = upd_reg (w_id w) f (cregistry (ctl a))" "free_slots a' = free_slots a" "max_pending a' = max_pending a"
      "writers a' = map (\<lambda>x. if w_id x = w_id w then x\<lparr>w_stage := s\<rparr> else x) (writers a)"
    and f: "keeps f" and new: "e_future (f e) = Some Pending" "stage_ok s (f e)" "exact_ok (cregistry (ctl a)) (disk a') (f e)"
    and dsk: "\<And>k e'. \<lbrakk>map_of (cregistry (ctl a)) k = Some e'; k \<noteq> w_id w; e_mem_path e' \<in> set (disk a)\<rbrakk> \<Longrightarrow> e_mem_path e' \<in> set (disk a')"
    and slot: "holds_slot w" "holds_slot (w\<lparr>w_stage := s\<rparr>)"
  shows "async_inv a'"
proof -
  have ri: "reg_inv (cregistry (ctl a)) (disk a)" and wi: "writers_inv (cregistry (ctl a)) (writers a)" using inv by (auto simp: async_inv_def)
  have own: "owns w e" using writers_invD [OF wi w] m by auto
  then have e: "e_future e = Some Pending" "e_protocol e = Some PROTOCOL" by (auto simp: owns_def)
  have d: "distinct (map w_id (writers a))" using wi by (simp add: writers_inv_def)
  have "reg_inv (cregistry (ctl a')) (disk a')" unfolding a'(1) by (rule upd_reg_inv [OF ri m e f new(3) dsk])
  moreover have "writers_inv (cregistry (ctl a')) (writers a')" unfolding a' by (rule writers_upd [OF wi w m f new(1,2) ri])
  moreover have "length (filter holds_slot (writers a')) = length (filter holds_slot (writers a))"
    unfolding a'(4) by (rule slots_stage [OF d w slot])
  ultimately show ?thesis using inv a'(2,3) by (simp add: async_inv_def)
qed

lemma owns_exact:
  assumes "async_inv a" "w \<in> set (writers a)"
  obtains e where "map_of (cregistry (ctl a)) (w_id w) = Some e" "owns w e" "exact_ok (cregistry (ctl a)) (disk a) e"
    "suffix ''.pending'' (w_staging w)"
proof -
  have ri: "reg_inv (cregistry (ctl a)) (disk a)" and wi: "writers_inv (cregistry (ctl a)) (writers a)" using assms(1) by (auto simp: async_inv_def)
  obtain e where e: "map_of (cregistry (ctl a)) (w_id w) = Some e" "owns w e" using writers_invD [OF wi assms(2)] .
  then have "exact_ok (cregistry (ctl a)) (disk a) e" using reg_invD(2) [OF ri e(1)] by (simp add: ent_ok_def owns_def)
  then show ?thesis using that e wi assms(2) by (auto simp: writers_inv_def)
qed

lemma fail_keeps: "keeps (fail_entry m)"
  by (simp add: keeps_def fail_entry_def)

lemma fail_writer_inv:
  assumes inv: "async_inv a" and w: "w \<in> set (writers a)" and h: "holds_slot w"
  shows "async_inv (fail_writer (w_id w) m a)"
proof -
  obtain e where e: "map_of (cregistry (ctl a)) (w_id w) = Some e" "owns w e" "exact_ok (cregistry (ctl a)) (disk a) e"
    using owns_exact [OF inv w] .
  show ?thesis
    by (rule piece_inv [OF inv w e(1), where f = "fail_entry m" and s = "Disposing (Some m)"])
       (use e(2,3) h in \<open>auto simp: fail_writer_def fail_keeps owns_def fail_entry_def stage_ok_def exact_ok_def holds_slot_def\<close>)
qed

lemma start_writer_inv:
  assumes inv: "async_inv a" and w: "w \<in> set (writers a)" and s: "w_stage w = Queued" and r: "start_writer env w a = Some a'"
  shows "async_inv a'"
proof -
  obtain e where e: "map_of (cregistry (ctl a)) (w_id w) = Some e" "owns w e" "exact_ok (cregistry (ctl a)) (disk a) e"
    using owns_exact [OF inv w] .
  have h: "holds_slot w" using s by (simp add: holds_slot_def)
  have par: "w_parent w = e_prev_ckpt_id e" using e(2) by (simp add: owns_def)
  define start where "start = set_stage (w_id w) Copying (upd_entry (w_id w) (\<lambda>e. e\<lparr>e_phase := Some DUMPING\<rparr>) a)"
  have st: "async_inv start" if c: "\<And>p pe. \<lbrakk>w_parent w = Some p; map_of (cregistry (ctl a)) p = Some pe\<rbrakk> \<Longrightarrow> committed pe"
    by (rule piece_inv [OF inv w e(1), where f = "\<lambda>e. e\<lparr>e_phase := Some DUMPING\<rparr>" and s = Copying])
       (use e(2,3) h c par in \<open>auto simp: start_def keeps_def owns_def stage_ok_def exact_ok_def holds_slot_def\<close>)
  show ?thesis
  proof (cases "a' = start")
    case True
    have "committed pe" if "w_parent w = Some p" "map_of (cregistry (ctl a)) p = Some pe" for p pe
    proof -
      have "a' \<noteq> fail_writer (w_id w) x a" for x
      proof
        assume "a' = fail_writer (w_id w) x a"
        then have "writers start = writers (fail_writer (w_id w) x a)" using True by simp
        moreover have "w\<lparr>w_stage := Copying\<rparr> \<in> set (writers start)" using w by (force simp: start_def)
        moreover have "\<forall>y \<in> set (writers (fail_writer (w_id w) x a)). w_id y = w_id w \<longrightarrow> w_stage y = Disposing (Some x)"
          by (auto simp: fail_writer_def)
        ultimately show False by fastforce
      qed
      then show ?thesis using r that
        by (auto simp: start_writer_def Let_def committed_def start_def [symmetric] split: option.splits dump_fut.splits if_splits)
    qed
    then show ?thesis using st True by blast
  next
    case False
    then obtain m where "a' = fail_writer (w_id w) m a"
      using r by (auto simp: start_writer_def Let_def start_def [symmetric] split: option.splits dump_fut.splits if_splits)
    then show ?thesis using fail_writer_inv [OF inv w h] by simp
  qed
qed

lemma emit_inv [simp]: "async_inv (a\<lparr>ctl := emit ev (ctl a)\<rparr>) = async_inv a"
  by (simp add: async_inv_def)

lemma copy_writer_inv:
  assumes inv: "async_inv a" and w: "w \<in> set (writers a)" and s: "w_stage w = Copying"
  shows "async_inv (copy_writer env w a)"
proof -
  define a1 where "a1 = a\<lparr>ctl := emit (Criu (writer_command w (ctl a))) (ctl a)\<rparr>"
  have inv1: "async_inv a1" and w1: "w \<in> set (writers a1)" using inv w by (simp_all add: a1_def)
  obtain e where e: "map_of (cregistry (ctl a1)) (w_id w) = Some e" "owns w e" "exact_ok (cregistry (ctl a1)) (disk a1) e"
    and sfx: "suffix ''.pending'' (w_staging w)" using owns_exact [OF inv1 w1] .
  have h: "holds_slot w" using s by (simp add: holds_slot_def)
  define fin where "fin = set_stage (w_id w) (Disposing None) (upd_entry (w_id w) (\<lambda>e. e\<lparr>e_phase := Some DURABLE_READY\<rparr>)
    (a1\<lparr>disk := w_final w # removeAll (w_staging w) (disk a1)\<rparr>))"
  have no: "e_mem_path e' \<noteq> w_staging w" if "map_of (cregistry (ctl a1)) k = Some e'" for k e'
  proof -
    have "suffix ''_mem'' (e_mem_path e')" using reg_invD(2) [OF _ that] inv1 by (auto simp: async_inv_def ent_ok_def)
    then show ?thesis using sfx by (auto simp: suffix_def)
  qed
  have "async_inv fin"
    by (rule piece_inv [OF inv1 w1 e(1), where f = "\<lambda>e. e\<lparr>e_phase := Some DURABLE_READY\<rparr>" and s = "Disposing None"])
       (use e(2,3) h no s in \<open>auto simp: fin_def keeps_def owns_def stage_ok_def exact_ok_def holds_slot_def\<close>)
  moreover have "copy_writer env w a \<in> {fin} \<union> range (\<lambda>m. fail_writer (w_id w) m a1)"
    by (auto simp: copy_writer_def Let_def a1_def fin_def split: option.splits)
  ultimately show ?thesis using fail_writer_inv [OF inv1 w1 h] by auto
qed

lemma dispose_writer_inv:
  assumes inv: "async_inv a" and w: "w \<in> set (writers a)" and s: "w_stage w = Disposing err"
  shows "async_inv (dispose_writer env w err a)"
proof -
  define a1 where "a1 = a\<lparr>ctl := emit (Kill SIGKILL (w_pid w)) (ctl a)\<rparr>"
  have inv1: "async_inv a1" and w1: "w \<in> set (writers a1)" using inv w by (simp_all add: a1_def)
  obtain e where e: "map_of (cregistry (ctl a1)) (w_id w) = Some e" "owns w e" "exact_ok (cregistry (ctl a1)) (disk a1) e"
    using owns_exact [OF inv1 w1] .
  have h: "holds_slot w" using s by (simp add: holds_slot_def)
  show ?thesis
  proof (cases "dispose_error env")
    case None
    show ?thesis
      by (rule piece_inv [OF inv1 w1 e(1), where f = "\<lambda>e. e\<lparr>e_dispose_done := True\<rparr>" and s = "Releasing err"])
         (use e(2,3) h s None in \<open>auto simp: dispose_writer_def a1_def keeps_def owns_def stage_ok_def exact_ok_def holds_slot_def split: option.splits\<close>)
  next
    case (Some d)
    define f where "f = (\<lambda>e. (if err = None then fail_entry (''disposal: '' @ d) e else e)\<lparr>e_phase := Some DURABLE_FAILED, e_dispose_done := False\<rparr>)"
    show ?thesis
      by (rule piece_inv [OF inv1 w1 e(1), where f = f and s = "Releasing (Some (case err of None \<Rightarrow> d | Some m \<Rightarrow> m))"])
         (use e(2,3) h Some in \<open>auto simp: dispose_writer_def a1_def f_def fail_entry_def keeps_def owns_def stage_ok_def exact_ok_def holds_slot_def split: option.splits\<close>)
  qed
qed

lemma slots_drop:
  assumes "distinct (map w_id ws)" "w \<in> set ws" "holds_slot w" "\<not> holds_slot (w\<lparr>w_stage := s\<rparr>)"
  shows "length (filter holds_slot ws) = Suc (length (filter holds_slot (map (\<lambda>x. if w_id x = w_id w then x\<lparr>w_stage := s\<rparr> else x) ws)))"
  using assms
proof (induction ws)
  case (Cons x ws)
  show ?case
  proof (cases "w_id x = w_id w")
    case True
    then have "x = w" using same_writer [OF Cons.prems(1,2), of x] by simp
    moreover have "map (\<lambda>x. if w_id x = w_id w then x\<lparr>w_stage := s\<rparr> else x) ws = ws"
      using Cons.prems(1) True by (intro map_idI) (metis distinct.simps(2) image_eqI list.set_map list.simps(9))
    ultimately show ?thesis using Cons.prems(3,4) by simp
  next
    case False
    then show ?thesis using Cons by (auto simp: in_set_conv_decomp)
  qed
qed simp

lemma release_writer_inv:
  assumes inv: "async_inv a" and w: "w \<in> set (writers a)" and s: "w_stage w = Releasing err" and r: "release_writer w err a = Some a'"
  shows "async_inv a'"
proof -
  have ri: "reg_inv (cregistry (ctl a)) (disk a)" and wi: "writers_inv (cregistry (ctl a)) (writers a)" using inv by (auto simp: async_inv_def)
  obtain e where e: "map_of (cregistry (ctl a)) (w_id w) = Some e" "owns w e" using owns_exact [OF inv w] .
  have id: "upd_reg i (\<lambda>e. e) reg = reg" for i reg by (induction reg) (auto simp: upd_reg_def)
  have "writers_inv (upd_reg (w_id w) (\<lambda>e. e) (cregistry (ctl a)))
      (map (\<lambda>x. if w_id x = w_id w then x\<lparr>w_stage := Settling err\<rparr> else x) (writers a))"
    by (rule writers_upd [OF wi w e(1) _ _ _ ri]) (use e(2) s in \<open>auto simp: keeps_def owns_def stage_ok_def split: option.splits\<close>)
  then have wi': "writers_inv (cregistry (ctl a)) (map (\<lambda>x. if w_id x = w_id w then x\<lparr>w_stage := Settling err\<rparr> else x) (writers a))"
    by (simp add: id)
  have d: "distinct (map w_id (writers a))" using wi by (simp add: writers_inv_def)
  have "length (filter holds_slot (writers a)) = Suc (length (filter holds_slot (map (\<lambda>x. if w_id x = w_id w then x\<lparr>w_stage := Settling err\<rparr> else x) (writers a))))"
    by (rule slots_drop [OF d w]) (simp_all add: holds_slot_def s)
  then show ?thesis using r inv ri wi' by (auto simp: release_writer_def async_inv_def split: if_splits)
qed

lemma settle_writer_inv:
  assumes inv: "async_inv a" and w: "w \<in> set (writers a)" and s: "w_stage w = Settling err"
  shows "async_inv (settle_writer w err a)"
proof -
  have ri: "reg_inv (cregistry (ctl a)) (disk a)" and wi: "writers_inv (cregistry (ctl a)) (writers a)" using inv by (auto simp: async_inv_def)
  obtain e where e: "map_of (cregistry (ctl a)) (w_id w) = Some e" "owns w e" "exact_ok (cregistry (ctl a)) (disk a) e"
    using owns_exact [OF inv w] .
  define f :: "centry \<Rightarrow> centry" where "f = (\<lambda>e. e\<lparr>e_future := Some (case err of None \<Rightarrow> Finished | Some m \<Rightarrow> Raised m)\<rparr>)"
  have f: "keeps f" by (simp add: keeps_def f_def)
  have "reg_inv (upd_reg (w_id w) f (cregistry (ctl a))) (disk a)"
    by (rule upd_reg_inv [OF ri e(1) _ _ f])
       (use e(2,3) s in \<open>auto simp: owns_def f_def stage_ok_def exact_ok_def split: option.splits\<close>)
  moreover have "writers_inv (upd_reg (w_id w) f (cregistry (ctl a))) (filter (\<lambda>x. w_id x \<noteq> w_id w) (writers a))"
  proof -
    have "\<exists>e. map_of (upd_reg (w_id w) f (cregistry (ctl a))) (w_id x) = Some e \<and> owns x e"
      if "x \<in> set (writers a)" "w_id x \<noteq> w_id w" for x
      using writers_invD [OF wi that(1)] that(2) by (metis upd_reg_map_of)
    moreover have "k \<in> w_id ` set (filter (\<lambda>x. w_id x \<noteq> w_id w) (writers a))"
      if k: "(k, e') \<in> set (upd_reg (w_id w) f (cregistry (ctl a)))" "e_protocol e' = Some PROTOCOL" "e_future e' = Some Pending" for k e'
    proof -
      have "k \<noteq> w_id w" using k(1,3) by (auto simp: upd_reg_def f_def split: if_splits option.splits)
      moreover from this have "(k, e') \<in> set (cregistry (ctl a))" using k(1) by (auto simp: upd_reg_def split: if_splits)
      then have "k \<in> w_id ` set (writers a)" using wi k(2,3) by (force simp: writers_inv_def)
      ultimately show ?thesis by auto
    qed
    ultimately show ?thesis using wi by (auto simp: writers_inv_def distinct_map_filter)
  qed
  moreover have "filter holds_slot (filter (\<lambda>x. w_id x \<noteq> w_id w) (writers a)) = filter holds_slot (writers a)"
    unfolding filter_filter
  proof (rule filter_cong [OF refl])
    fix x assume "x \<in> set (writers a)"
    then show "(w_id x \<noteq> w_id w \<and> holds_slot x) = holds_slot x"
      using same_writer [OF _ w, of x] wi s by (auto simp: writers_inv_def holds_slot_def)
  qed
  ultimately show ?thesis using inv by (simp add: settle_writer_def async_inv_def f_def Let_def)
qed

lemma run_writer_inv:
  assumes "async_inv a" "w \<in> set (writers a)" "run_writer env w a = Some a'"
  shows "async_inv a'"
  using assms start_writer_inv [OF assms(1,2)] copy_writer_inv [OF assms(1,2)] dispose_writer_inv [OF assms(1,2)]
    release_writer_inv [OF assms(1,2)] settle_writer_inv [OF assms(1,2)]
  by (auto simp: run_writer_def split: stage.splits)

section \<open>Collections and restores\<close>

lemma gc_deletes:
  assumes "distinct (map fst (cregistry st))"
  shows "cregistry (gc_obsolete_snapshots n ids rd isd names st) = filter (\<lambda>(k, e). k \<in> set (gc_keep n ids rd st)) (cregistry st)
    \<and> (\<forall>d. Rmtree d \<in> set (drop (length (events st)) (events (gc_obsolete_snapshots n ids rd isd names st))) \<longrightarrow>
        (\<exists>k e. (k, e) \<in> set (cregistry st) \<and> k \<notin> set (gc_keep n ids rd st) \<and> e_mem_path e = d)
        \<or> d \<in> path_join (layers_root st) ` set (case names of Some ns \<Rightarrow> ns | None \<Rightarrow> []))"
proof -
  define keep where "keep = gc_keep n ids rd st"
  define rs where "rs = filter (\<lambda>rid. rid \<notin> set keep) (map fst (cregistry st))"
  define st1 where "st1 = fold (gc_drop isd) rs st"
  note g = gc_fold_effect [OF assms, of isd rs, folded st1_def]
  have reg: "cregistry st1 = filter (\<lambda>(k, e). k \<in> set keep) (cregistry st)"
    using g by (auto simp: rs_def intro!: filter_cong)
  define dirs where "dirs = (case names of None \<Rightarrow> [] | Some ns \<Rightarrow> map Rmtree (filter (\<lambda>full. full \<notin> set (gc_keep_dirs st1) \<and> isd full)
          (map (path_join (layers_root st1)) (filter (prefix ''restore_'') ns))))"
  have st': "gc_obsolete_snapshots n ids rd isd names st = emits dirs st1"
    unfolding gc_obsolete_snapshots_def Let_def keep_def [symmetric] rs_def [symmetric] st1_def [symmetric]
    by (simp add: dirs_def emits_def split: option.splits)
  obtain es where es: "events st1 = events st @ es"
    "\<forall>d. Rmtree d \<in> set es \<longrightarrow> (\<exists>r e. r \<in> set rs \<and> (r, e) \<in> set (cregistry st) \<and> e_mem_path e = d)" using g by blast
  have "(\<exists>k e. (k, e) \<in> set (cregistry st) \<and> k \<notin> set keep \<and> e_mem_path e = d)
        \<or> d \<in> path_join (layers_root st) ` set (case names of Some ns \<Rightarrow> ns | None \<Rightarrow> [])" if d: "Rmtree d \<in> set (es @ dirs)" for d
  proof (cases "Rmtree d \<in> set es")
    case True
    then obtain r e where "r \<in> set rs" "(r, e) \<in> set (cregistry st)" "e_mem_path e = d" using es(2) by blast
    moreover from this(1) have "r \<notin> set keep" by (simp add: rs_def)
    ultimately show ?thesis by blast
  next
    case False
    then have "Rmtree d \<in> set dirs" using d by simp
    then show ?thesis using g by (auto simp: dirs_def split: option.splits)
  qed
  then show ?thesis by (simp add: st' reg es(1) keep_def)
qed

lemma needed_prev:
  assumes "needed reg req k" "map_of reg k = Some e" "e_prev_ckpt_id e = Some p" "p \<in> fst ` set reg"
  shows "needed reg req p"
  using needed.link [OF assms(1) depends.physical [OF assms(2,3)] assms(4)] .

lemma collect_inv:
  assumes inv: "async_inv a" and free: "image_free names a"
  shows "async_inv (async_gc n ids rd isd names a)"
proof -
  let ?reg = "cregistry (ctl a)"
  have ri: "reg_inv ?reg (disk a)" and wi: "writers_inv ?reg (writers a)" using inv by (auto simp: async_inv_def)
  define keep where "keep = gc_keep n ids rd (ctl a)"
  define c where "c = gc_obsolete_snapshots n ids rd isd names (ctl a)"
  define dsk where "dsk = filter (\<lambda>d. Rmtree d \<notin> set (drop (length (events (ctl a))) (events c))) (disk a)"
  obtain req where ks: "set keep = {i. needed ?reg req i}"
    by (metis keep_def gc_keep_def retained_ids_set)
  note g = gc_deletes [OF reg_invD(1) [OF ri], of n ids rd isd names, folded c_def keep_def]
  have reg: "cregistry c = filter (\<lambda>(k, e). k \<in> set keep) ?reg" using g by blast
  have m: "map_of (cregistry c) k = (if k \<in> set keep then map_of ?reg k else None)" for k unfolding reg by (simp add: map_of_filter_pair)
  have mems: "distinct (map (e_mem_path \<circ> snd) ?reg)" using ri by (simp add: reg_inv_def)
  have stay: "e_mem_path e \<in> set dsk" if e: "map_of ?reg k = Some e" "k \<in> set keep" "e_mem_path e \<in> set (disk a)" for k e
  proof -
    have "Rmtree (e_mem_path e) \<notin> set (drop (length (events (ctl a))) (events c))"
    proof
      assume "Rmtree (e_mem_path e) \<in> set (drop (length (events (ctl a))) (events c))"
      then consider k' e' where "(k', e') \<in> set ?reg" "k' \<notin> set keep" "e_mem_path e' = e_mem_path e"
        | "e_mem_path e \<in> path_join (layers_root (ctl a)) ` set (case names of Some ns \<Rightarrow> ns | None \<Rightarrow> [])" using g by blast
      then show False
      proof cases
        case 1
        then have "(k', e') = (k, e)" using inj_onD [of "e_mem_path \<circ> snd" "set ?reg" "(k', e')" "(k, e)"] mems map_of_SomeD [OF e(1)]
          by (simp add: distinct_map)
        then show ?thesis using 1 e(2) by simp
      next
        case 2
        then show ?thesis using free map_of_SomeD [OF e(1)] by (force simp: image_free_def)
      qed
    qed
    then show ?thesis using e(3) by (simp add: dsk_def)
  qed
  have ent: "ent_ok (cregistry c) dsk k e" if k: "map_of ?reg k = Some e" "k \<in> set keep" for k e
  proof -
    have old: "ent_ok ?reg (disk a) k e" using reg_invD(2) [OF ri k(1)] .
    have prev: "p \<in> set keep" if "e_prev_ckpt_id e = Some p" for p
      using needed_prev [OF _ k(1) that, of req] old that k(2) by (auto simp: ks ent_ok_def)
    have "p \<in> fst ` set (cregistry c)" if "e_prev_ckpt_id e = Some p" for p
      using prev [OF that] old that by (force simp: reg ent_ok_def)
    moreover have "exact_ok (cregistry c) dsk e" if pr: "e_protocol e = Some PROTOCOL"
    proof -
      have x: "exact_ok ?reg (disk a) e" using old pr by (simp add: ent_ok_def)
      have "map_of (cregistry c) p = map_of ?reg p" if "e_prev_ckpt_id e = Some p" for p using prev [OF that] by (simp add: m)
      then show ?thesis using x stay [OF k] by (auto simp: exact_ok_def)
    qed
    ultimately show ?thesis using old by (simp add: ent_ok_def)
  qed
  have "reg_inv (cregistry c) dsk"
    using ri ent map_of_is_SomeI [OF reg_invD(1) [OF ri]]
    by (auto simp: reg_inv_def reg wf_parents_filter distinct_map_filter)
  moreover have "writers_inv (cregistry c) (writers a)"
  proof -
    have "w_id w \<in> set keep" if w: "w \<in> set (writers a)" for w
    proof -
      obtain e where "map_of ?reg (w_id w) = Some e" "owns w e" using writers_invD [OF wi w] .
      then have "w_id w \<in> set (pending_ids ?reg)" by (force simp: pending_ids_def owns_def dest: map_of_SomeD)
      then show ?thesis by (simp add: ks needed.writer)
    qed
    then show ?thesis using wi unfolding writers_inv_def m by (auto simp: reg)
  qed
  ultimately show ?thesis using inv by (simp add: async_gc_def async_inv_def c_def dsk_def Let_def)
qed

text \<open>A restore leaves the registry alone, whatever it answers.\<close>

definition at_reg :: "cregistry \<Rightarrow> ('a, controller) eff \<Rightarrow> bool" where
  "at_reg R m \<longleftrightarrow> cregistry (snd m) = R"

lemma at_reg_bind: "\<lbrakk>at_reg R m; \<And>x s. cregistry s = R \<Longrightarrow> at_reg R (f x s)\<rbrakk> \<Longrightarrow> at_reg R (bind_eff m f)"
  by (cases m) (auto simp: at_reg_def bind_eff_def split: sum.splits)

lemma at_reg_pair [simp]: "at_reg R (r, s) \<longleftrightarrow> cregistry s = R"
  by (simp add: at_reg_def)

lemma quiet_registry: "quiet_step st st' \<Longrightarrow> cregistry st' = cregistry st"
  by (simp add: quiet_step_def rframe_def)

lemma at_reg_parts:
  assumes "cregistry st = R"
  shows "at_reg R (switch_layers env ph st)" "at_reg R (cold_namespace env ph st)" "at_reg R (activate env ph eff st)"
    "at_reg R (restore_front env tgt ac st)" "at_reg R (restore_root env eff st)"
    "at_reg R (kill_active_subtree (kenv env) (Some (prepare_restore env)) st)"
    "cregistry (invalidate_inflight_llm st) = R" "cregistry (adopt_child p eff st) = R"
proof -
  show "at_reg R (switch_layers env ph st)"
    using assms by (auto simp: switch_layers_def apply_overlay_switch_def split: option.splits)
  show "at_reg R (cold_namespace env ph st)" "at_reg R (activate env ph eff st)"
    "at_reg R (kill_active_subtree (kenv env) (Some (prepare_restore env)) st)"
    using assms quiet_registry [OF cold_namespace_quiet [of env ph st, OF surjective_pairing]]
      quiet_registry [OF activate_quiet [of env ph eff st, OF surjective_pairing]]
      quiet_registry [OF quiet_kill [of "kenv env" env st, OF surjective_pairing]] by (simp_all add: at_reg_def)
  show "at_reg R (restore_front env tgt ac st)"
    using assms restore_front_untouched [of env tgt ac st, OF surjective_pairing] by (simp add: at_reg_def untouched_def)
  show "at_reg R (restore_root env eff st)" using assms by (auto simp: restore_root_def split: option.splits)
  show "cregistry (invalidate_inflight_llm st) = R" "cregistry (adopt_child p eff st) = R"
    using assms by (simp_all add: invalidate_inflight_llm_def bump_epoch_def adopt_child_def Let_def)
qed

lemma at_reg_cold: "cregistry st = R \<Longrightarrow> at_reg R (cold_restore env sw ph eff st)"
  unfolding cold_restore_def Let_def by (intro at_reg_bind) (auto simp: at_reg_parts intro!: at_reg_bind)

lemma at_reg_warm: "cregistry st = R \<Longrightarrow> at_reg R (warm_restore env p ph st)"
  unfolding warm_restore_def by (intro at_reg_bind) (auto simp: at_reg_parts)

lemma restore_registry: "restore_action env target ac st = (r, st') \<Longrightarrow> cregistry st' = cregistry st"
proof -
  have w: "at_reg R (restore_warm env ac t ph p eff s)" if "cregistry s = R" for R t ph p eff s
    unfolding restore_warm_def
    by (intro at_reg_bind at_reg_warm) (use that in \<open>auto simp: at_reg_parts at_reg_cold intro!: at_reg_bind split: option.splits\<close>)
  have c: "at_reg R (restore_cold env t ph eff s)" if "cregistry s = R" for R t ph eff s
    unfolding restore_cold_def Let_def by (intro at_reg_bind) (use that in \<open>auto simp: at_reg_parts at_reg_cold\<close>)
  have "at_reg (cregistry st) (restore_action env target ac st)"
    unfolding restore_action_def Let_def
    by (intro at_reg_bind) (auto simp: at_reg_parts w c intro!: at_reg_bind split: option.splits)
  then show "restore_action env target ac st = (r, st') \<Longrightarrow> cregistry st' = cregistry st" by simp
qed

section \<open>Checkpoints\<close>

lemma stash_frame: "request_stash_template r p i st = (x, st') \<Longrightarrow> frame st' = frame st"
  by (metis frame_requests(2) snd_conv)

lemma frame_txn:
  "frame (t_ctl (snd (check e t))) = frame (t_ctl t)" "frame (t_ctl (snd (require b m t))) = frame (t_ctl t)"
  "frame (snd (async_sink env i p c)) = frame c"
  "frame (t_ctl (snd (on_ctl f t))) = frame (snd (f (t_ctl t)))"
  "frame (t_ctl (snd (txn_warm env t))) = frame (t_ctl t)"
proof -
  show req: "frame (t_ctl (snd (require b m t))) = frame (t_ctl t)" for b m t by (simp add: require_def)
  show "frame (t_ctl (snd (check e t))) = frame (t_ctl t)" by (simp add: check_def split: option.splits)
  show "frame (snd (async_sink env i p c)) = frame c"
    by (auto simp: async_sink_def apply_overlay_switch_def Let_def split: option.splits sum.splits)
  show "frame (t_ctl (snd (on_ctl f t))) = frame (snd (f (t_ctl t)))" by (simp add: on_ctl_def split: prod.splits)
  show "frame (t_ctl (snd (txn_warm env t))) = frame (t_ctl t)"
    by (auto simp: txn_warm_def Let_def req stash_frame split: prod.splits)
qed

definition at_frame :: "controller \<Rightarrow> ('a, txn) eff \<Rightarrow> bool" where
  "at_frame c m \<longleftrightarrow> frame (t_ctl (snd m)) = frame c"

lemma at_frame_bind:
  "\<lbrakk>at_frame c m; \<And>x t. frame (t_ctl t) = frame c \<Longrightarrow> at_frame c (f x t)\<rbrakk> \<Longrightarrow> at_frame c (bind_eff m f)"
  by (cases m) (auto simp: at_frame_def bind_eff_def split: sum.splits)

lemma at_frame_pair [simp]: "at_frame c (r, t) \<longleftrightarrow> frame (t_ctl t) = frame c"
  by (simp add: at_frame_def)

lemma at_frame_check:
  "at_frame c (check e t) \<longleftrightarrow> frame (t_ctl t) = frame c" "at_frame c (require b m t) \<longleftrightarrow> frame (t_ctl t) = frame c"
  "at_frame c (on_ctl (async_sink env i p) t) \<longleftrightarrow> frame (t_ctl t) = frame c" "at_frame c (txn_warm env t) \<longleftrightarrow> frame (t_ctl t) = frame c"
  by (simp_all add: at_frame_def frame_txn)

lemma at_frame_bootstrap: "frame (t_ctl t) = frame c \<Longrightarrow> at_frame c (txn_bootstrap env t)"
proof -
  assume t: "frame (t_ctl t) = frame c"
  have b: "frame (snd (bootstrap_active_before_dump (base_env env) i s)) = frame s" for i s by (rule frame_phase(1))
  show ?thesis unfolding txn_bootstrap_def Let_def
    by (intro at_frame_bind) (use t b in \<open>auto simp: at_frame_check intro!: at_frame_bind split: prod.splits, metis snd_conv\<close>)
qed

lemma at_frame_dump: "frame (t_ctl t) = frame c \<Longrightarrow> at_frame c (txn_dump env t)"
  by (auto simp: txn_dump_def Let_def at_frame_check stash_frame intro!: at_frame_bind split: prod.splits)

text \<open>What the transaction does to the registry: nothing before its end, then it registers its entry.\<close>

lemma txn_body_registry:
  assumes "txn_body env tag parent_id parent t = (r, t')"
  obtains (early) e where "r = Inl e" "frame (t_ctl t') = frame (t_ctl t)"
  | (late) layers d t1 where "frame (t_ctl t1) = frame (t_ctl t)"
      "cregistry (t_ctl t') = AList.update (new_id (base_env env)) (async_entry env tag parent_id parent layers d t1) (cregistry (t_ctl t))"
      "\<And>e. r = Inr e \<Longrightarrow> e = async_entry env tag parent_id parent layers d t1" "snapshot_store (t_ctl t') = snapshot_store (t_ctl t)"
proof -
  define pre where "pre = (\<lambda>t.
     bind_eff (require (root_overlay_args (t_ctl t) = None) ''async-incremental does not yet support multiple root overlays'' t) (\<lambda>_ t.
     bind_eff (txn_bootstrap env t) (\<lambda>_ t.
     bind_eff (check (quiesce_error env) t) (\<lambda>_ t.
     bind_eff (check (resources_error env) t) (\<lambda>_ t.
     bind_eff (on_ctl (async_sink env (new_id (base_env env)) parent_id) t) (\<lambda>layers t.
     bind_eff (txn_warm env t) (\<lambda>_ t.
     bind_eff (txn_dump env t) (\<lambda>d t. (Inr (layers, d), t)))))))))"
  have assoc: "bind_eff (bind_eff m f) g = bind_eff m (\<lambda>x s. bind_eff (f x s) g)" for m :: "('a, txn) eff" and f :: "'a \<Rightarrow> txn \<Rightarrow> ('b, txn) eff" and g :: "'b \<Rightarrow> txn \<Rightarrow> ('c, txn) eff"
    by (cases m) (auto simp: bind_eff_def split: sum.splits)
  have body: "txn_body env tag parent_id parent t = bind_eff (pre t) (\<lambda>(layers, d) t.
     let e = async_entry env tag parent_id parent layers d t; c = t_ctl t;
         t = t\<lparr>t_ctl := c\<lparr>cregistry := AList.update (e_id e) e (cregistry c)\<rparr>\<rparr> in
     bind_eff (check (submit_error env) t) (\<lambda>_ t. (Inr e, t)))"
    unfolding txn_body_def pre_def assoc by simp
  have "at_frame (t_ctl t) (pre t)"
    unfolding pre_def
    by (intro at_frame_bind) (auto simp: at_frame_check at_frame_bootstrap at_frame_dump)
  then obtain p t1 where p: "pre t = (p, t1)" "frame (t_ctl t1) = frame (t_ctl t)" by (cases "pre t") simp
  show thesis
  proof (cases p)
    case (Inl e)
    then show ?thesis using early [of e] assms body p by simp
  next
    case (Inr x)
    obtain layers d where x: "x = (layers, d)" by (cases x)
    have i: "e_id (async_entry env tag parent_id parent layers d t1) = new_id (base_env env)" by (simp add: async_entry_def)
    show ?thesis
      by (rule late [OF p(2)])
         (use assms body p Inr x in \<open>auto simp: check_def Let_def i frame_def split: option.splits\<close>)
  qed
qed

lemma path_join_suffix: "suffix x b \<Longrightarrow> suffix x (path_join a b)"
  by (auto simp: path_join_def suffix_def)

lemma image_suffix: "suffix ''_mem'' (path_join a (tag @ ''_'' @ i @ ''_mem''))"
  by (rule path_join_suffix) (simp add: suffix_def)

lemmas image_suffix' = image_suffix [unfolded append_Cons append_Nil]

lemma register_reg_inv:
  assumes inv: "reg_inv reg dsk" and fr: "fresh_ckpt reg i" and par: "e_parent_id e \<noteq> Some i"
    and mem: "e_mem_path e \<notin> (e_mem_path \<circ> snd) ` set reg" and ok: "ent_ok (reg @ [(i, e)]) dsk' i e" and pv: "e_prev_ckpt_id e \<noteq> Some i"
    and dsk: "set dsk \<subseteq> set dsk'"
  shows "reg_inv (reg @ [(i, e)]) dsk'"
proof -
  have i: "i \<notin> fst ` set reg" "\<forall>(k, e) \<in> set reg. e_parent_id e \<noteq> Some i" using fr by (auto simp: fresh_ckpt_def)
  have p: "\<forall>(k, e) \<in> set reg. e_prev_ckpt_id e \<noteq> Some i" using inv i(1) by (auto simp: reg_inv_def ent_ok_def)
  have old: "ent_ok (reg @ [(i, e)]) dsk' k e'" if k: "(k, e') \<in> set reg" for k e'
  proof -
    have o: "ent_ok reg dsk k e'" using inv k by (auto simp: reg_inv_def)
    have "map_of (reg @ [(i, e)]) q = Some pe" if "map_of reg q = Some pe" for q pe
      using that by (simp add: map_add_def)
    then have "exact_ok (reg @ [(i, e)]) dsk' e'" if "exact_ok reg dsk e'"
      using that dsk unfolding exact_ok_def by (meson subsetD)
    then show ?thesis using o by (auto simp: ent_ok_def)
  qed
  have "wf_parents e_prev_ckpt_id (reg @ [(i, e)])" "wf_parents e_parent_id (reg @ [(i, e)])"
    using inv i p par pv by (auto simp: reg_inv_def intro!: wf_parents_append)
  then show ?thesis using inv mem ok old by (auto simp: reg_inv_def)
qed

lemma async_parent_ok:
  assumes "reg_inv (cregistry c) dsk" "async_parent parent_id c = Inr (Some pe)"
  shows "map_of (cregistry c) (e_id pe) = Some pe \<and> e_protocol pe = Some PROTOCOL"
proof -
  obtain k where "map_of (cregistry c) k = Some pe" "e_protocol pe = Some PROTOCOL"
    using assms(2) by (auto simp: async_parent_def Let_def split: option.splits if_splits bind_splits)
  moreover from this(1) have "e_id pe = k" using reg_invD(2) [OF assms(1)] by (auto simp: ent_ok_def)
  ultimately show ?thesis by simp
qed

lemma legacy_step_inv:
  assumes inv: "async_inv a" and fr: "fresh_image (new_id env) (ckpt_dir env tag (ctl a)) a" and par: "parent \<noteq> Some (new_id env)"
    and c: "checkpoint_legacy env parent tag raw (ctl a) = Some (r, c)"
  shows "async_inv (a\<lparr>ctl := c\<rparr>)"
proof -
  let ?reg = "cregistry (ctl a)"
  have ri: "reg_inv ?reg (disk a)" and wi: "writers_inv ?reg (writers a)" using inv by (auto simp: async_inv_def)
  have wf: "wf_parents e_parent_id ?reg" using ri by (simp add: reg_inv_def)
  show ?thesis
  proof (rule checkpoint_legacy_cases [OF wf, of env parent tag raw])
    fix e c' assume "checkpoint_legacy env parent tag raw (ctl a) = Some (Inl e, c')" "frame c' = frame (ctl a)"
    then show ?thesis using c inv by (simp add: async_inv_def frame_def)
  next
    fix l st1 c' info
    assume c': "checkpoint_legacy env parent tag raw (ctl a) = Some (Inr info, c')" and f: "frame st1 = frame (ctl a)"
      and info: "info = legacy_entry env (select_strategy env raw (ctl a)) tag raw parent (sunk_layers env parent (ctl a)) l st1"
      and reg: "cregistry c' = AList.update (new_id env) info ?reg"
      and prev: "\<And>p. l_prev l = Some p \<Longrightarrow> \<exists>k0 e t. parent = Some k0 \<and> ancestor (up_link ?reg) k0 p
          \<and> map_of ?reg p = Some e \<and> usable_parent env t (ctl a) e"
    have i: "new_id env \<notin> fst ` set ?reg" using fr by (simp add: fresh_image_def fresh_ckpt_def)
    have reg': "cregistry c = ?reg @ [(new_id env, info)]" using c c' reg i by (simp add: update_new_key)
    have flds: "e_id info = new_id env" "e_parent_id info = parent" "e_protocol info = None" "e_prev_ckpt_id info = l_prev l"
      "e_mem_path info = ckpt_dir env tag (ctl a)"
      using f by (simp_all add: info legacy_entry_def Let_def ckpt_dir_def frame_def)
    have pv: "p \<in> fst ` set ?reg" if "e_prev_ckpt_id info = Some p" for p
      using prev that flds(4) by (force dest: map_of_SomeD)
    have "reg_inv (cregistry c) (disk a)" unfolding reg'
      by (rule register_reg_inv [OF ri])
         (use fr flds par pv i in \<open>auto simp: fresh_image_def ent_ok_def ckpt_dir_def image_suffix'\<close>)
    moreover have "writers_inv (cregistry c) (writers a)"
      using wi flds(3) i unfolding writers_inv_def reg' by (auto simp: map_add_def)
    ultimately show ?thesis using inv by (simp add: async_inv_def)
  qed
qed

lemma undo_registry: "cregistry (txn_undo i st t) = AList.delete i (cregistry (t_ctl t))"
  by (auto simp: txn_undo_def Let_def split: option.splits)

lemma async_checkpoint_cases:
  assumes c: "async_checkpoint env parent_id tag raw a = Some (r, a')"
  obtains (refused) "a' = a" "isl r"
  | (light) c' where "checkpoint_legacy (base_env env) parent_id tag raw (ctl a) = Some (r, c')" "a' = a\<lparr>ctl := c'\<rparr>"
  | (txn) parent where "async_parent parent_id (ctl a) = Inr parent" "free_slots a \<noteq> 0" "latch a = None" "raw \<noteq> ''lightweight''" "raw \<noteq> ''predump''"
proof (cases "latch a")
  case (Some m)
  then show ?thesis by (intro refused) (use c in \<open>auto simp: async_checkpoint_def\<close>)
next
  case l: None
  show ?thesis
  proof (cases "raw = ''predump''")
    case True
    then show ?thesis by (intro refused) (use c l in \<open>auto simp: async_checkpoint_def\<close>)
  next
    case pre: False
    show ?thesis
    proof (cases "async_parent parent_id (ctl a)")
      case (Inl e)
      then show ?thesis by (intro refused) (use c l pre in \<open>auto simp: async_checkpoint_def\<close>)
    next
      case (Inr parent)
      show ?thesis
      proof (cases "raw = ''lightweight''")
        case True
        show ?thesis
        proof (cases parent)
          case None
          then show ?thesis by (intro refused) (use c l True Inr in \<open>auto simp: async_checkpoint_def\<close>)
        next
          case (Some pe)
          then obtain c' where "checkpoint_legacy (base_env env) parent_id tag raw (ctl a) = Some (r, c')" "a' = a\<lparr>ctl := c'\<rparr>"
            using c l True Inr by (auto simp: async_checkpoint_def)
          then show ?thesis by (rule light)
        qed
      next
        case False
        show ?thesis
        proof (cases "free_slots a = 0")
          case True
          then show ?thesis by (intro refused) (use c l pre Inr False in \<open>auto simp: async_checkpoint_def\<close>)
        qed (use txn l pre Inr False in auto)
      qed
    qed
  qed
qed

lemma fresh_delete: "i \<notin> fst ` set xs \<Longrightarrow> AList.delete i xs = xs"
  unfolding delete_filter by (intro filter_True) force

lemma undo_same:
  assumes "txn_body env tag parent_id parent t0 = (rt, t)" "new_id (base_env env) \<notin> fst ` set (cregistry (t_ctl t0))"
  shows "cregistry (txn_undo (new_id (base_env env)) s t) = cregistry (t_ctl t0)"
  using assms(1)
proof (cases rule: txn_body_registry)
  case early
  then show ?thesis using fresh_delete [OF assms(2)] by (simp add: undo_registry frame_def)
next
  case (late layers d t1)
  then show ?thesis using fresh_delete [OF assms(2)] assms(2) by (simp add: undo_registry update_new_key delete_filter)
qed

lemma async_checkpoint_txn:
  assumes "async_parent parent_id (ctl a) = Inr parent" "free_slots a \<noteq> 0" "latch a = None" "raw \<noteq> ''lightweight''" "raw \<noteq> ''predump''"
    and "txn_body env tag parent_id parent \<lparr>t_ctl = ctl a, t_warm = None, t_dump = None, t_staged = False\<rparr> = (rt, t)"
  shows "async_checkpoint env parent_id tag raw a = (let i = new_id (base_env env); final = async_final env tag (ctl a);
      staging = final @ ''.pending'' in
      case rt of
        Inr e \<Rightarrow> Some (Inr e, a\<lparr>free_slots := free_slots a - 1, ctl := t_ctl t, disk := staging # disk a,
          writers := writers a @ [\<lparr>w_id = i, w_parent = e_prev_ckpt_id e, w_staging = staging, w_final = final,
            w_pid = e_dump_tree_pid e, w_stage = Queued\<rparr>]\<rparr>)
      | Inl err \<Rightarrow> Some (Inl err, a\<lparr>ctl := txn_undo i staging t, free_slots := free_slots a,
          latch := Some (err_text err @ (if t_dump t \<noteq> None
            then (case cleanup_err env of Some m \<Rightarrow> ''; cleanup: '' @ m | None \<Rightarrow> []) else []))\<rparr>))"
  unfolding async_checkpoint_def Let_def using assms by (cases rt) simp_all

lemma failed_txn:
  assumes "async_parent parent_id (ctl a) = Inr parent" "free_slots a \<noteq> 0" "latch a = None" "raw \<noteq> ''lightweight''" "raw \<noteq> ''predump''"
    and "async_checkpoint env parent_id tag raw a = Some (Inl err, a')" "new_id (base_env env) \<notin> fst ` set (cregistry (ctl a))"
  shows "cregistry (ctl a') = cregistry (ctl a) \<and> writers a' = writers a \<and> free_slots a' = free_slots a \<and> disk a' = disk a
    \<and> max_pending a' = max_pending a \<and> latch a' \<noteq> None"
proof -
  obtain rt t where b: "txn_body env tag parent_id parent \<lparr>t_ctl = ctl a, t_warm = None, t_dump = None, t_staged = False\<rparr> = (rt, t)"
    by fastforce
  have undo: "cregistry (txn_undo (new_id (base_env env)) s t) = cregistry (ctl a)" for s using undo_same [OF b] assms(7) by simp
  show ?thesis using async_checkpoint_txn [OF assms(1-5) b] assms(6) undo by (cases rt) (auto simp: Let_def)
qed

lemma async_checkpoint_not_legacy:
  "\<lbrakk>async_checkpoint env parent_id tag raw a = Some (Inl err, a'); raw \<noteq> ''lightweight''\<rbrakk>
    \<Longrightarrow> a' = a \<or> (\<exists>parent. async_parent parent_id (ctl a) = Inr parent \<and> free_slots a \<noteq> 0 \<and> latch a = None \<and> raw \<noteq> ''predump'')"
  by (cases "latch a"; cases "raw = ''predump''"; cases "async_parent parent_id (ctl a)"; cases "free_slots a = 0")
     (auto simp: async_checkpoint_def)

lemma async_checkpoint_inv:
  assumes inv: "async_inv a" and fr: "fresh_image (new_id (base_env env)) (ckpt_dir (base_env env) tag (ctl a)) a"
    and par: "parent_id \<noteq> Some (new_id (base_env env))" and c: "async_checkpoint env parent_id tag raw a = Some (r, a')"
  shows "async_inv a'"
proof -
  let ?reg = "cregistry (ctl a)" and ?i = "new_id (base_env env)"
  have ri: "reg_inv ?reg (disk a)" and wi: "writers_inv ?reg (writers a)" using inv by (auto simp: async_inv_def)
  have i: "?i \<notin> fst ` set ?reg" "fresh_ckpt ?reg ?i" using fr by (simp_all add: fresh_image_def fresh_ckpt_def)
  from c show ?thesis
  proof (cases rule: async_checkpoint_cases)
    case refused
    then show ?thesis using inv by simp
  next
    case light
    then show ?thesis using legacy_step_inv [OF inv fr par] by simp
  next
    case (txn parent)
    define t0 where "t0 = \<lparr>t_ctl = ctl a, t_warm = None, t_dump = None, t_staged = False\<rparr>"
    obtain rt t where b: "txn_body env tag parent_id parent t0 = (rt, t)" by fastforce
    note run = async_checkpoint_txn [OF txn b [unfolded t0_def]]
    show ?thesis
    proof (cases rt)
      case (Inl err)
      then obtain err' where "r = Inl err'" using c run by (auto simp: Let_def)
      from failed_txn [OF txn c [unfolded this] i(1)] show ?thesis using inv by (simp add: async_inv_def)
    next
      case (Inr e)
      from b obtain layers d t1 where f: "frame (t_ctl t1) = frame (ctl a)"
        and reg: "cregistry (t_ctl t) = AList.update ?i e ?reg" and e: "e = async_entry env tag parent_id parent layers d t1"
        by (cases rule: txn_body_registry) (use Inr in \<open>auto simp: t0_def\<close>)
      define final where "final = async_final env tag (ctl a)"
      have reg': "cregistry (t_ctl t) = ?reg @ [(?i, e)]" using reg i(1) by (simp add: update_new_key)
      have fin: "async_final env tag (t_ctl t1) = final" "final = ckpt_dir (base_env env) tag (ctl a)"
        using f by (simp_all add: async_final_def final_def frame_def ckpt_dir_def)
      define w where "w = \<lparr>w_id = ?i, w_parent = e_prev_ckpt_id e, w_staging = final @ ''.pending'', w_final = final,
         w_pid = e_dump_tree_pid e, w_stage = Queued\<rparr>"
      have a': "ctl a' = t_ctl t" "disk a' = (final @ ''.pending'') # disk a" "writers a' = writers a @ [w]"
        "free_slots a' = free_slots a - 1" "max_pending a' = max_pending a"
        using c run Inr by (auto simp: Let_def final_def w_def)
      have prev: "\<exists>pe. map_of (?reg @ [(?i, e)]) p = Some pe \<and> e_protocol pe = Some PROTOCOL \<and> p \<noteq> ?i \<and> p \<in> fst ` set ?reg"
        if pp: "e_prev_ckpt_id e = Some p" for p
      proof -
        obtain pe where pe: "parent = Some pe" "p = e_id pe" using pp by (auto simp: e async_entry_def)
        have m: "map_of ?reg p = Some pe" "e_protocol pe = Some PROTOCOL" using async_parent_ok [OF ri] txn(1) pe by auto
        then have p: "p \<in> fst ` set ?reg" by (force dest: map_of_SomeD)
        then have "p \<noteq> ?i" using i(1) by blast
        then show ?thesis using m p by (simp add: map_of_new del: map_of_append)
      qed
      have flds: "e_id e = ?i" "e_mem_path e = final" "e_future e = Some Pending" "e_phase e = Some WARM_READY" "e_protocol e = Some PROTOCOL"
        "e_parent_id e = parent_id" "e_async_dump_pid e = Some (e_dump_tree_pid e)" using fin by (simp_all add: e async_entry_def)
      have "ent_ok (?reg @ [(?i, e)]) (disk a') ?i e"
        unfolding ent_ok_def exact_ok_def flds using prev image_suffix by (fastforce simp: fin(2) ckpt_dir_def)
      then have "reg_inv (?reg @ [(?i, e)]) (disk a')"
        by (intro register_reg_inv [OF ri i(2)]) (use fr flds par prev fin a' in \<open>auto simp: fresh_image_def\<close>)
      moreover have "writers_inv (?reg @ [(?i, e)]) (writers a')"
      proof -
        have "w_id x \<noteq> ?i" if "x \<in> set (writers a)" for x
          using writers_invD [OF wi that] i(1) by (metis image_eqI map_of_SomeD fst_conv)
        then have "?i \<notin> w_id ` set (writers a)" by (metis imageE)
        moreover have "\<exists>ex. map_of (?reg @ [(?i, e)]) (w_id x) = Some ex \<and> owns x ex" if "x \<in> set (writers a)" for x
          using writers_invD [OF wi that] by (metis map_of_append map_add_Some_iff map_add_find_right map_add_dom_app_simps(3) map_of_new i(1) map_of_SomeD image_eqI fst_conv)
        moreover have "map_of (?reg @ [(?i, e)]) ?i = Some e" using i(1) by (simp add: map_add_def map_of_eq_None_iff [symmetric])
        moreover have "owns w e" using flds by (simp add: owns_def w_def stage_ok_def)
        ultimately show ?thesis using wi by (auto simp: writers_inv_def a' w_def suffix_def simp del: map_of_append)
      qed
      moreover have "filter holds_slot (writers a') = filter holds_slot (writers a) @ [w]" by (simp add: a' holds_slot_def w_def)
      ultimately show ?thesis using inv txn(2) reg' a' by (simp add: async_inv_def del: map_of_append)
    qed
  qed
qed

section \<open>Every interleaving\<close>

lemma async_step_inv: "\<lbrakk>async_step a a'; async_inv a\<rbrakk> \<Longrightarrow> async_inv a'"
proof (induction rule: async_step.induct)
  case (checkpoint env parent tag raw a r a')
  then show ?case using async_checkpoint_inv by blast
next
  case (writer w a env a')
  then show ?case using run_writer_inv by blast
next
  case (collect a' n ids rd isd names a)
  then show ?case using collect_inv by blast
next
  case (restore env target ac a r c)
  then show ?case using restore_registry [OF restore(1)] by (simp add: async_inv_def)
qed

lemma init_async_inv:
  assumes "init_async fresh restamp dc rc maximum tp c = Inr a" "cregistry c = []"
  shows "async_inv a"
  using assms
  by (auto simp: init_async_def async_inv_def reg_inv_def writers_inv_def andthen_Inr_iff split: option.splits if_splits)

text \<open>The reachable states: from a successful construction over an empty registry, by any interleaving.\<close>

inductive async_reachable :: "async \<Rightarrow> bool" where
  init: "\<lbrakk>init_async fresh restamp dc rc maximum tp c = Inr a; cregistry c = []\<rbrakk> \<Longrightarrow> async_reachable a"
| step: "\<lbrakk>async_reachable a; async_step a a'\<rbrakk> \<Longrightarrow> async_reachable a'"

lemma async_reachable_inv: "async_reachable a \<Longrightarrow> async_inv a"
  by (induction rule: async_reachable.induct) (auto intro: init_async_inv async_step_inv)

lemma releasing_below:
  assumes "async_inv a" "w \<in> set (writers a)" "w_stage w = Releasing err"
  shows "free_slots a < max_pending a"
proof -
  have "w \<in> set (filter holds_slot (writers a))" using assms by (simp add: holds_slot_def)
  then have "0 < length (filter holds_slot (writers a))" by (rule length_pos_if_in_set)
  then show ?thesis using assms(1) unfolding async_inv_def by linarith
qed

text \<open>
  C15. Under every interleaving, the free admission slots and the writers that still hold one add up to the
  configured bound, which is between 1 and 64. So at most that many copies are alive, no slot is lost, and
  no writer ever releases above the bound.
\<close>

theorem slots_conserved:
  assumes "async_reachable a"
  shows "free_slots a + length (filter holds_slot (writers a)) = max_pending a \<and> 1 \<le> max_pending a \<and> max_pending a \<le> 64
    \<and> (\<forall>w err. w \<in> set (writers a) \<and> w_stage w = Releasing err \<longrightarrow> release_writer w err a \<noteq> None)"
proof -
  have inv: "async_inv a" using assms by (rule async_reachable_inv)
  then have "release_writer w err a \<noteq> None" if "w \<in> set (writers a)" "w_stage w = Releasing err" for w err
    using that releasing_below by (fastforce simp: release_writer_def)
  then show ?thesis using inv by (auto simp: async_inv_def)
qed

text \<open>The images that a cold restore of a checkpoint reads: its own and those of its physical ancestors.\<close>

inductive image_chain :: "cregistry \<Rightarrow> string \<Rightarrow> centry \<Rightarrow> bool" for reg k where
  own: "map_of reg k = Some e \<Longrightarrow> image_chain reg k e"
| prev: "\<lbrakk>image_chain reg k e; e_prev_ckpt_id e = Some p; map_of reg p = Some pe\<rbrakk> \<Longrightarrow> image_chain reg k pe"

text \<open>
  C2. Under every interleaving, also with collections and failures, a checkpoint that is marked durable has
  its image on disk, every physical ancestor is still registered, is durable itself and has its image on
  disk; so a cold restore finds a complete chain.
\<close>

theorem durable_chain_complete:
  assumes "async_reachable a" "map_of (cregistry (ctl a)) k = Some e" "e_protocol e = Some PROTOCOL" "e_phase e = Some DURABLE_READY"
  shows "\<forall>x. image_chain (cregistry (ctl a)) k x \<longrightarrow> e_phase x = Some DURABLE_READY \<and> e_mem_path x \<in> set (disk a)
    \<and> (\<forall>p. e_prev_ckpt_id x = Some p \<longrightarrow> p \<in> fst ` set (cregistry (ctl a)))"
proof -
  have ri: "reg_inv (cregistry (ctl a)) (disk a)" using async_reachable_inv [OF assms(1)] by (simp add: async_inv_def)
  have ok: "e_phase x = Some DURABLE_READY \<Longrightarrow> e_protocol x = Some PROTOCOL \<Longrightarrow> map_of (cregistry (ctl a)) j = Some x \<Longrightarrow>
      e_mem_path x \<in> set (disk a) \<and> (\<forall>p. e_prev_ckpt_id x = Some p \<longrightarrow> (\<exists>pe. map_of (cregistry (ctl a)) p = Some pe
        \<and> e_protocol pe = Some PROTOCOL \<and> committed pe))" for j x
    using reg_invD(2) [OF ri, of j x] by (auto simp: ent_ok_def exact_ok_def)
  have "e_phase x = Some DURABLE_READY \<and> e_protocol x = Some PROTOCOL \<and> (\<exists>j. map_of (cregistry (ctl a)) j = Some x)"
    if "image_chain (cregistry (ctl a)) k x" for x
    using that
  proof (induction rule: image_chain.induct)
    case (own e')
    then show ?case using assms(2-4) by auto
  next
    case (prev e' p pe)
    then show ?case using ok [of e'] by (auto simp: committed_def)
  qed
  then show ?thesis using ok by (metis fst_conv image_eqI map_of_SomeD)
qed

section \<open>Writers finish\<close>

inductive writer_step :: "async \<Rightarrow> async \<Rightarrow> bool" where
  "\<lbrakk>w \<in> set (writers a); run_writer env w a = Some a'\<rbrakk> \<Longrightarrow> writer_step a a'"

fun stage_work :: "stage \<Rightarrow> nat" where
  "stage_work Queued = 5"
| "stage_work Copying = 4"
| "stage_work (Disposing _) = 3"
| "stage_work (Releasing _) = 2"
| "stage_work (Settling _) = 1"

definition work :: "async \<Rightarrow> nat" where
  "work a = (\<Sum>w \<leftarrow> writers a. stage_work (w_stage w))"

lemma stage_less:
  assumes "distinct (map w_id ws)" "w \<in> set ws" "stage_work s < stage_work (w_stage w)"
  shows "(\<Sum>x \<leftarrow> map (\<lambda>x. if w_id x = w_id w then x\<lparr>w_stage := s\<rparr> else x) ws. stage_work (w_stage x)) < (\<Sum>x \<leftarrow> ws. stage_work (w_stage x))"
  using assms
proof (induction ws)
  case (Cons x ws)
  show ?case
  proof (cases "w_id x = w_id w")
    case True
    then have "x = w" using same_writer [OF Cons.prems(1,2), of x] by simp
    moreover have "map (\<lambda>x. if w_id x = w_id w then x\<lparr>w_stage := s\<rparr> else x) ws = ws"
      using Cons.prems(1) True by (intro map_idI) (metis distinct.simps(2) image_eqI list.set_map list.simps(9))
    ultimately show ?thesis using Cons.prems(3) by simp
  next
    case False
    then show ?thesis using Cons by auto
  qed
qed simp

lemma settle_less:
  assumes "w \<in> set ws" "0 < stage_work (w_stage w)"
  shows "(\<Sum>x \<leftarrow> filter (\<lambda>x. w_id x \<noteq> w_id w) ws. stage_work (w_stage x)) < (\<Sum>x \<leftarrow> ws. stage_work (w_stage x))"
  using assms
proof (induction ws)
  case (Cons x ws)
  have le: "(\<Sum>x \<leftarrow> filter (\<lambda>x. w_id x \<noteq> w_id w) ws. stage_work (w_stage x)) \<le> (\<Sum>x \<leftarrow> ws. stage_work (w_stage x))"
    by (induction ws) auto
  show ?case
  proof (cases "x = w")
    case True
    then show ?thesis using le Cons.prems(2) by simp
  next
    case False
    then have "w \<in> set ws" using Cons.prems by simp
    then show ?thesis using Cons.IH Cons.prems(2) by auto
  qed
qed simp

lemma work_decreases:
  assumes inv: "async_inv a" and st: "writer_step a a'"
  shows "work a' < work a"
proof -
  obtain w env where w: "w \<in> set (writers a)" and r: "run_writer env w a = Some a'" using st by (auto elim: writer_step.cases)
  have d: "distinct (map w_id (writers a))" using inv by (simp add: async_inv_def writers_inv_def)
  have stage: "work a' < work a" if "a' = set_stage (w_id w) s b" "writers b = writers a"
      "stage_work s < stage_work (w_stage w)" for s b
    using stage_less [OF d w that(3)] that(1,2) by (simp add: work_def)
  show ?thesis
  proof (cases "w_stage w")
    case (Settling err)
    then have "writers a' = filter (\<lambda>x. w_id x \<noteq> w_id w) (writers a)" using r by (auto simp: run_writer_def settle_writer_def Let_def)
    then show ?thesis using settle_less [OF w] Settling by (simp add: work_def)
  next
    case Queued
    then consider "a' = set_stage (w_id w) Copying (upd_entry (w_id w) (\<lambda>e. e\<lparr>e_phase := Some DUMPING\<rparr>) a)"
      | m where "a' = fail_writer (w_id w) m a"
      using r by (auto simp: run_writer_def start_writer_def Let_def split: option.splits dump_fut.splits if_splits)
    then show ?thesis
    proof cases
      case 1
      from stage [OF 1] show ?thesis using Queued by simp
    next
      case 2
      from stage [OF 2 [unfolded fail_writer_def]] show ?thesis using Queued by simp
    qed
  next
    case Copying
    define a1 where "a1 = a\<lparr>ctl := emit (Criu (writer_command w (ctl a))) (ctl a)\<rparr>"
    have "a' = copy_writer env w a" using r Copying by (simp add: run_writer_def)
    then have "a' \<in> {set_stage (w_id w) (Disposing None) (upd_entry (w_id w) (\<lambda>e. e\<lparr>e_phase := Some DURABLE_READY\<rparr>)
        (a1\<lparr>disk := w_final w # removeAll (w_staging w) (disk a1)\<rparr>))} \<union> range (\<lambda>m. fail_writer (w_id w) m a1)"
      by (auto simp: copy_writer_def Let_def a1_def split: option.splits)
    then consider "a' = set_stage (w_id w) (Disposing None) (upd_entry (w_id w) (\<lambda>e. e\<lparr>e_phase := Some DURABLE_READY\<rparr>)
        (a1\<lparr>disk := w_final w # removeAll (w_staging w) (disk a1)\<rparr>))" | m where "a' = fail_writer (w_id w) m a1" by blast
    then show ?thesis
    proof cases
      case 1
      from stage [OF 1] show ?thesis using Copying by (simp add: a1_def)
    next
      case 2
      from stage [OF 2 [unfolded fail_writer_def]] show ?thesis using Copying by (simp add: a1_def)
    qed
  next
    case (Disposing err)
    then have a': "a' = dispose_writer env w err a" using r by (simp add: run_writer_def)
    show ?thesis
    proof (cases "dispose_error env")
      case None
      from stage [OF a' [unfolded dispose_writer_def Let_def None option.case]] show ?thesis using Disposing by simp
    next
      case (Some d)
      from stage [OF a' [unfolded dispose_writer_def Let_def Some option.case(2)]] show ?thesis using Disposing by simp
    qed
  next
    case (Releasing err)
    then have "a' = set_stage (w_id w) (Settling err) (a\<lparr>free_slots := Suc (free_slots a)\<rparr>)"
      using r by (auto simp: run_writer_def release_writer_def split: if_splits)
    from stage [OF this] show ?thesis using Releasing by simp
  qed
qed

text \<open>The writer whose entry was registered first is never blocked.\<close>

lemma writer_progress:
  assumes inv: "async_inv a" and ne: "writers a \<noteq> []"
  shows "\<exists>w \<in> set (writers a). run_writer env w a \<noteq> None"
proof -
  let ?reg = "cregistry (ctl a)"
  have ri: "reg_inv ?reg (disk a)" and wi: "writers_inv ?reg (writers a)" using inv by (auto simp: async_inv_def)
  obtain w where w: "w \<in> set (writers a)" and least: "\<And>x. x \<in> set (writers a) \<Longrightarrow> dict_rank ?reg (w_id w) \<le> dict_rank ?reg (w_id x)"
    using ne ex_is_arg_min_if_finite [of "set (writers a)" "\<lambda>w. dict_rank ?reg (w_id w)"]
    by (auto simp: is_arg_min_linorder)
  obtain e where e: "map_of ?reg (w_id w) = Some e" "owns w e" "exact_ok ?reg (disk a) e" using owns_exact [OF inv w] .
  have "run_writer env w a \<noteq> None"
  proof (cases "w_stage w")
    case Queued
    have "e_future pe \<noteq> Some Pending" if p: "w_parent w = Some p" "map_of ?reg p = Some pe" for p pe
    proof
      assume "e_future pe = Some Pending"
      moreover have pp: "e_prev_ckpt_id e = Some p" using e(2) p(1) by (simp add: owns_def)
      then have "e_protocol pe = Some PROTOCOL" using e(3) p(2) by (auto simp: exact_ok_def)
      ultimately have "p \<in> w_id ` set (writers a)" using wi map_of_SomeD [OF p(2)] by (force simp: writers_inv_def)
      then show False using least wf_parents_rank [OF reg_invD(3) [OF ri] e(1) pp] by force
    qed
    then show ?thesis using Queued
      by (auto simp: run_writer_def start_writer_def Let_def split: option.splits dump_fut.splits)
  next
    case (Releasing err)
    then show ?thesis using releasing_below [OF inv w] by (simp add: run_writer_def release_writer_def)
  qed (simp_all add: run_writer_def)
  then show ?thesis using w by blast
qed

lemma writer_steps_inv: "\<lbrakk>writer_step\<^sup>*\<^sup>* a a'; async_inv a\<rbrakk> \<Longrightarrow> async_inv a'"
  by (induction rule: rtranclp_induct) (auto elim!: writer_step.cases intro: run_writer_inv)

text \<open>
  C34. The writers finish, in every order and with every outcome of their dumps, also when no wait ever
  times out: every piece makes the remaining work smaller, and when no piece can run any more, there are no
  writers, every slot is free again and every future is completed. So no writer waits for its parent forever.
\<close>

theorem writers_finish:
  assumes "async_reachable a"
  shows "(\<forall>a' a''. writer_step\<^sup>*\<^sup>* a a' \<and> writer_step a' a'' \<longrightarrow> work a'' < work a')
    \<and> (\<forall>a' env. writer_step\<^sup>*\<^sup>* a a' \<and> (\<forall>w \<in> set (writers a'). run_writer env w a' = None) \<longrightarrow>
        writers a' = [] \<and> free_slots a' = max_pending a'
        \<and> (\<forall>(k, e) \<in> set (cregistry (ctl a')). e_protocol e = Some PROTOCOL \<longrightarrow> e_future e \<noteq> Some Pending))"
proof -
  have inv: "async_inv a'" if "writer_step\<^sup>*\<^sup>* a a'" for a'
    using that async_reachable_inv [OF assms] by (rule writer_steps_inv)
  have "work a'' < work a'" if "writer_step\<^sup>*\<^sup>* a a'" "writer_step a' a''" for a' a''
    using work_decreases inv that by blast
  moreover have "writers a' = [] \<and> free_slots a' = max_pending a'
      \<and> (\<forall>(k, e) \<in> set (cregistry (ctl a')). e_protocol e = Some PROTOCOL \<longrightarrow> e_future e \<noteq> Some Pending)"
    if "writer_step\<^sup>*\<^sup>* a a'" "\<forall>w \<in> set (writers a'). run_writer env w a' = None" for a' env
  proof -
    have "writers a' = []" by (rule ccontr) (use writer_progress [OF inv [OF that(1)], of env] that(2) in auto)
    then show ?thesis using inv [OF that(1)] by (auto simp: async_inv_def writers_inv_def)
  qed
  ultimately show ?thesis by blast
qed

section \<open>Failed transactions\<close>

lemma run_writer_latch: "run_writer env w a = Some a' \<Longrightarrow> latch a' = latch a"
proof -
  have s: "latch (set_stage i st b) = latch b" "latch (upd_entry i f b) = latch b" "latch (fail_writer i m b) = latch b" for i st b f m
    by (simp_all add: set_stage_def upd_entry_def fail_writer_def)
  show "run_writer env w a = Some a' \<Longrightarrow> latch a' = latch a"
    by (auto simp: run_writer_def start_writer_def copy_writer_def dispose_writer_def release_writer_def settle_writer_def Let_def s
      split: stage.splits option.splits dump_fut.splits if_splits)
qed

lemma latch_kept: "\<lbrakk>async_step b b'; latch b = Some m\<rbrakk> \<Longrightarrow> latch b' = Some m"
  by (induction rule: async_step.induct) (auto simp: async_checkpoint_def run_writer_latch async_gc_def Let_def)


section \<open>Witnesses\<close>

definition wit_async :: async where
  "wit_async = \<lparr>ctl = wit_empty, max_pending = 2, free_slots = 2, latch = None, writers = [], disk = []\<rparr>"

definition wit_aenv :: async_env where
  "wit_aenv = \<lparr>base_env = wit_ckpt_env, children_error = None, table1 = wit_procs, quiesce_error = None, resources_error = None,
     upper_missing = False, dirty_walk = Inr True, warm_stops = True, dump_stops = True,
     table2 = [(24, (wit_proc [])\<lparr>status_lines := [''NSpid: 24 1'']\<rparr>)], pidfd_error = None, mkdir_error = None,
     submit_error = None, cleanup_err = None\<rparr>"

definition wit_run :: run_env where
  "wit_run = \<lparr>timed_out = False, criu_error = None, stats_err = None, replace_error = None, dispose_error = None\<rparr>"

lemma wit_reach0: "async_reachable wit_async"
proof (rule async_reachable.init)
  show "init_async False False (Some ''exact-parent-v1'') None 2 True wit_empty = Inr wit_async"
    by (simp add: init_async_def wit_empty_def wit_ctl_def wit_async_def PROTOCOL_def)
  show "cregistry wit_empty = []" by (simp add: wit_empty_def)
qed

definition wit_async1 :: async where
  "wit_async1 = snd (the (async_checkpoint wit_aenv None ''step'' [] wit_async))"

definition wit_w :: "stage \<Rightarrow> writer" where
  "wit_w s = \<lparr>w_id = ''n'', w_parent = None, w_staging = ''/s/step_n_mem.pending'', w_final = ''/s/step_n_mem'', w_pid = 24, w_stage = s\<rparr>"

lemma wit_writers1: "writers wit_async1 = [wit_w Queued]" by code_simp

definition wit_async2 :: async where
  "wit_async2 = the (run_writer wit_run (wit_w Queued) wit_async1)"

definition wit_async3 :: async where
  "wit_async3 = the (run_writer wit_run (wit_w Copying) wit_async2)"

lemma wit_fresh: "fresh_image (new_id (base_env wit_aenv)) (ckpt_dir (base_env wit_aenv) ''step'' (ctl wit_async)) wit_async"
  by (simp add: fresh_image_def fresh_ckpt_def wit_aenv_def wit_ckpt_env_def wit_async_def wit_empty_def)

lemma wit_reach1: "async_reachable wit_async1"
proof -
  have "\<not> Option.is_none (async_checkpoint wit_aenv None ''step'' [] wit_async)" by code_simp
  then obtain r where "async_checkpoint wit_aenv None ''step'' [] wit_async = Some (r, wit_async1)"
    by (metis wit_async1_def Option.is_none_def option.exhaust_sel prod.collapse)
  from async_step.checkpoint [OF this _ wit_fresh] show ?thesis using async_reachable.step [OF wit_reach0] by simp
qed

lemma wit_step2: "run_writer wit_run (wit_w Queued) wit_async1 = Some wit_async2"
proof -
  have "\<not> Option.is_none (run_writer wit_run (wit_w Queued) wit_async1)" by code_simp
  then show ?thesis by (simp add: wit_async2_def Option.is_none_def)
qed

lemma wit_writers2: "writers wit_async2 = [wit_w Copying]" by code_simp

lemma wit_reach3: "async_reachable wit_async3"
proof -
  have "async_reachable wit_async2"
    using async_reachable.step [OF wit_reach1] async_step.writer [OF _ wit_step2] by (simp add: wit_writers1)
  moreover have "run_writer wit_run (wit_w Copying) wit_async2 = Some wit_async3"
    by (simp add: wit_async3_def run_writer_def wit_w_def)
  ultimately show ?thesis using async_reachable.step async_step.writer wit_writers2 by (metis list.set_intros(1))
qed

theorem slots_conserved_witness:
  "free_slots wit_async1 = 1 \<and> length (filter holds_slot (writers wit_async1)) = 1 \<and> 2 \<le> max_pending wit_async1"
proof -
  have "length (filter holds_slot (writers wit_async1)) = 1" "max_pending wit_async1 = 2" by code_simp+
  then show ?thesis using slots_conserved [OF wit_reach1] by simp
qed

theorem durable_chain_complete_witness:
  "\<exists>e. map_of (cregistry (ctl wit_async3)) ''n'' = Some e \<and> e_mem_path e \<in> set (disk wit_async3)"
proof -
  define e where "e = the (map_of (cregistry (ctl wit_async3)) ''n'')"
  have "\<not> Option.is_none (map_of (cregistry (ctl wit_async3)) ''n'')" by code_simp
  then have m: "map_of (cregistry (ctl wit_async3)) ''n'' = Some e" by (simp add: e_def Option.is_none_def)
  have p: "e_protocol e = Some PROTOCOL" "e_phase e = Some DURABLE_READY" unfolding e_def by code_simp+
  have "e_mem_path e \<in> set (disk wit_async3)"
    using durable_chain_complete [OF wit_reach3 m p] image_chain.own [OF m] by blast
  then show ?thesis using m by blast
qed

theorem writers_finish_witness: "writer_step wit_async1 wit_async2 \<and> work wit_async2 < work wit_async1"
proof -
  have "writer_step wit_async1 wit_async2" using writer_step.intros [OF _ wit_step2] by (simp add: wit_writers1)
  then show ?thesis using writers_finish [OF wit_reach1] by blast
qed


end
