(* ===== verification/Workspace_Rollback.thy ===== *)
theory Workspace_Rollback
  imports Restore_Action Root_Overlay
begin

text \<open>
  What the controller's events do to the files of the workspace mount, and that restoring a checkpoint
  brings back the files that were visible when it was taken. The mount and its directories are modelled
  after the comments of \<^verbatim>\<open>_checkpoint_legacy\<close>: a directory that is renamed while it is mounted stays mounted
  under its new name, and the checkpoint switch puts the old upper directory on top of the lower ones. A
  directory that does not exist reads as an empty one.
\<close>

section \<open>Directories and the mount\<close>

record fsys =
  f_dirs :: "(string \<times> file_layer) list"
  f_lowers :: "string list"
  f_upper :: string

definition dir_content :: "fsys \<Rightarrow> string \<Rightarrow> file_layer" where
  "dir_content fs d = (case map_of (f_dirs fs) d of Some l \<Rightarrow> l | None \<Rightarrow> [])"

definition renamed :: "string \<Rightarrow> string \<Rightarrow> string \<Rightarrow> string" where
  "renamed a b d = (if d = a then b else d)"

fun fs_event :: "event \<Rightarrow> fsys \<Rightarrow> fsys" where
  "fs_event (Makedirs d) fs = (if map_of (f_dirs fs) d = None then fs\<lparr>f_dirs := (d, []) # f_dirs fs\<rparr> else fs)"
| "fs_event (Rename a b) fs = fs\<lparr>f_dirs := AList.update b (dir_content fs a) (AList.delete a (f_dirs fs)),
     f_lowers := map (renamed a b) (f_lowers fs), f_upper := renamed a b (f_upper fs)\<rparr>"
| "fs_event (Rmtree d) fs = fs\<lparr>f_dirs := AList.delete d (f_dirs fs)\<rparr>"
| "fs_event (Switch layers upper work kind) fs =
     fs\<lparr>f_lowers := (if kind = ''ckpt'' then f_upper fs # layers else layers), f_upper := upper\<rparr>"
| "fs_event _ fs = fs"

definition fs_events :: "event list \<Rightarrow> fsys \<Rightarrow> fsys" where
  "fs_events es fs = fold fs_event es fs"

definition stack_view :: "fsys \<Rightarrow> string list \<Rightarrow> string \<Rightarrow> string option" where
  "stack_view fs ds = lookup_layers (map (dir_content fs) ds)"

definition visible :: "fsys \<Rightarrow> string \<Rightarrow> string option" where
  "visible fs = stack_view fs (f_upper fs # f_lowers fs)"

text \<open>The agent changes files: the upper directory gets new contents.\<close>

definition agent_write :: "file_layer \<Rightarrow> fsys \<Rightarrow> fsys" where
  "agent_write l fs = fs\<lparr>f_dirs := AList.update (f_upper fs) l (f_dirs fs)\<rparr>"

lemma fs_events_simps [simp]:
  "fs_events [] fs = fs" "fs_events (e # es) fs = fs_events es (fs_event e fs)" "fs_events (es @ es') fs = fs_events es' (fs_events es fs)"
  by (simp_all add: fs_events_def)

lemma dir_content_update [simp]:
  "dir_content (fs\<lparr>f_dirs := AList.update d l (f_dirs fs)\<rparr>) x = (if x = d then l else dir_content fs x)"
  by (simp add: dir_content_def update_conv)

lemma dir_content_delete: "x \<noteq> d \<Longrightarrow> dir_content (fs\<lparr>f_dirs := AList.delete d (f_dirs fs)\<rparr>) x = dir_content fs x"
  by (simp add: dir_content_def delete_conv)

lemma dir_content_mount [simp]:
  "dir_content (fs\<lparr>f_lowers := ls\<rparr>) = dir_content fs" "dir_content (fs\<lparr>f_upper := u\<rparr>) = dir_content fs"
  "dir_content (fs\<lparr>f_lowers := ls, f_upper := u\<rparr>) = dir_content fs"
  by (simp_all add: dir_content_def fun_eq_iff)

section \<open>Events that spare the workspace\<close>

text \<open>
  Between its layer operations the controller deletes nothing but directories of the snapshot store.
\<close>

definition spares :: "string \<Rightarrow> event \<Rightarrow> bool" where
  "spares store e \<longleftrightarrow> \<not> fs_change e \<or> (\<exists>x. \<not> prefix ''/'' x \<and> e = Rmtree (path_join store x))"

definition off_store :: "string \<Rightarrow> string \<Rightarrow> bool" where
  "off_store store d \<longleftrightarrow> (\<forall>x. \<not> prefix ''/'' x \<longrightarrow> d \<noteq> path_join store x)"

lemma spares_event:
  assumes "spares store e"
  shows "f_lowers (fs_event e fs) = f_lowers fs \<and> f_upper (fs_event e fs) = f_upper fs
    \<and> (\<forall>d. off_store store d \<longrightarrow> dir_content (fs_event e fs) d = dir_content fs d)"
  using assms
proof (cases e)
  case (Rmtree x)
  then obtain y where "x = path_join store y" "\<not> prefix ''/'' y" using assms by (auto simp: spares_def)
  then show ?thesis using Rmtree dir_content_delete by (auto simp: off_store_def)
next
  case (Makedirs x)
  then show ?thesis by (auto simp: dir_content_def)
qed (auto simp: spares_def)

lemma spares_events:
  assumes "\<forall>e \<in> set es. spares store e"
  shows "f_lowers (fs_events es fs) = f_lowers fs \<and> f_upper (fs_events es fs) = f_upper fs
    \<and> (\<forall>d. off_store store d \<longrightarrow> dir_content (fs_events es fs) d = dir_content fs d)"
  using assms
proof (induction es arbitrary: fs)
  case (Cons e es)
  then show ?case using spares_event [of store e fs] by simp
qed simp

text \<open>What a part of an operation does that spares the workspace.\<close>

definition calm :: "controller \<Rightarrow> controller \<Rightarrow> bool" where
  "calm st st' \<longleftrightarrow> frame st' = frame st \<and> current_upper st' = current_upper st \<and> current_work st' = current_work st
     \<and> (\<exists>es. events st' = events st @ es \<and> (\<forall>e \<in> set es. spares (snapshot_store st) e))"

lemma calm_refl [simp]: "calm st st"
  by (simp add: calm_def)

lemma calm_trans: "\<lbrakk>calm a b; calm b c\<rbrakk> \<Longrightarrow> calm a c"
  unfolding calm_def frame_def by fastforce

lemma calm_emit: "spares (snapshot_store st) e \<Longrightarrow> calm st (emit e st)"
  by (simp add: calm_def emit_def frame_def)

lemma calm_emits: "\<forall>e \<in> set es. spares (snapshot_store st) e \<Longrightarrow> calm st (emits es st)"
  by (simp add: calm_def emits_def frame_def)

lemma calm_fields:
  "calm st (st\<lparr>agent_pid := p\<rparr>)" "calm st (st\<lparr>templates := ts\<rparr>)" "calm st (st\<lparr>last_predump := x\<rparr>)" "calm st (st\<lparr>pending_reaps := rs\<rparr>)"
  by (simp_all add: calm_def)

lemma spares_still [simp]: "\<not> fs_change e \<Longrightarrow> spares store e"
  by (simp add: spares_def)

lemma calm_requests:
  "request_fork r p i st = (x, st') \<Longrightarrow> calm st st'" "request_stash_template r p i st = (x, st') \<Longrightarrow> calm st st'"
  "calm st (stop_templates st)" "calm st (drain_pending_template_cleanup t b st)" "calm st (dispose_fixed_dump_clone t b p st)"
proof -
  show "request_fork r p i st = (x, st') \<Longrightarrow> calm st st'"
    by (auto simp: request_fork_def Let_def calm_emit intro!: calm_trans [OF calm_emit calm_fields(2)] split: option.splits)
  show "request_stash_template r p i st = (x, st') \<Longrightarrow> calm st st'"
    by (auto simp: request_stash_template_def Let_def calm_emit intro!: calm_trans [OF calm_emit calm_fields(2)] split: option.splits)
  show "calm st (stop_templates st)" unfolding stop_templates_def by (rule calm_emits) auto
  show "calm st (drain_pending_template_cleanup t b st)"
    by (auto simp: drain_pending_template_cleanup_def Let_def intro!: calm_trans [OF calm_fields(4) calm_emits] split: prod.splits if_splits)
  show "calm st (dispose_fixed_dump_clone t b p st)"
    unfolding dispose_fixed_dump_clone_def Let_def by (rule calm_emits) (auto split: option.splits)
qed

lemma calm_agent: "calm st st' \<Longrightarrow> calm st (st'\<lparr>agent_pid := p\<rparr>)"
  using calm_trans calm_fields(1) by blast

lemma calm_phases:
  "calm st (snd (bootstrap_active_before_dump env i st))"
  "calm st (snd (phase_bootstrap env s st))"
  "calm st (snd (phase_predump env s tag l st))"
  "calm st (snd (phase_prefork env s l st))"
  "calm st (snd (phase_clone env s l st))"
  "calm st (snd (phase_async env s l st))"
  "\<not> prefix ''/'' x \<Longrightarrow> calm st (snd (full_fallback env (path_join (snapshot_store st) x) l st))"
  "calm st (snd (make_template env l st))"
  "calm st (snd (join_parent env p st))"
proof -
  show b: "calm st (snd (bootstrap_active_before_dump env i st))" for i
    by (auto simp: bootstrap_active_before_dump_def Let_def calm_agent calm_requests(1) split: prod.splits option.splits)
  show "calm st (snd (phase_bootstrap env s st))"
    using b [of "new_id env"] by (auto simp: phase_bootstrap_def split: prod.splits)
  show "calm st (snd (phase_predump env s tag l st))"
    by (auto simp: phase_predump_def Let_def intro!: calm_emits calm_trans [OF calm_emits calm_trans [OF calm_fields(3) calm_emit]])
  show "calm st (snd (phase_prefork env s l st))"
    by (auto simp: phase_prefork_def Let_def intro: calm_agent calm_trans [OF calm_requests(3) calm_requests(1)] split: prod.splits option.splits)
  have slot: "calm st (emit Wait_slot st)" by (simp add: calm_emit)
  show "calm st (snd (phase_clone env s l st))"
    by (auto simp: phase_clone_def slot intro: calm_trans [OF slot calm_requests(2)] split: prod.splits option.splits)
  show "calm st (snd (phase_async env s l st))"
    by (auto simp: phase_async_def intro!: calm_trans [OF _ calm_emit] calm_trans [OF _ calm_fields(2)]
      intro: calm_trans [OF calm_requests(3) calm_requests(2)] calm_trans [OF calm_trans [OF calm_requests(3) calm_requests(2)] calm_requests(2)]
      split: prod.splits option.splits)
  show "calm st (snd (full_fallback env (path_join (snapshot_store st) x) l st))" if "\<not> prefix ''/'' x"
    using that by (auto simp: full_fallback_def Let_def spares_def intro!: calm_emits)
  show "calm st (snd (join_parent env p st))"
    by (auto simp: join_parent_def calm_emit split: option.splits)
  have m: "calm st (snd (make_template env l' st))" if "l_clone l' = None" for l' and st :: controller
    using that by (auto simp: make_template_def Let_def intro: calm_agent calm_trans [OF calm_requests(3) calm_requests(1)]
      calm_trans [OF calm_requests(3) calm_requests(2)] split: prod.splits option.splits)
  show "calm st (snd (make_template env l st))"
  proof (cases "l_clone l")
    case (Some p)
    have "make_template env l st = make_template env (l\<lparr>l_clone := None\<rparr>) (dispose_fixed_dump_clone (table env) (reap_ok env) p st)"
      by (simp add: make_template_def Some)
    moreover have "calm (dispose_fixed_dump_clone (table env) (reap_ok env) p st)
        (snd (make_template env (l\<lparr>l_clone := None\<rparr>) (dispose_fixed_dump_clone (table env) (reap_ok env) p st)))"
      by (rule m) simp
    ultimately show ?thesis using calm_trans [OF calm_requests(5)] by metis
  qed (rule m)
qed

lemma calm_template:
  assumes "\<not> prefix ''/'' tag"
  shows "calm st (snd (phase_template env s tag l st))"
proof -
  have "\<not> prefix ''/'' (tag @ ''_'' @ new_id env @ ''_mem'')" using assms by (cases tag) auto
  note ff = calm_phases(7) [OF this]
  have "calm st st'" if "full_fallback env (ckpt_dir env tag (emit (Join (new_id env)) st)) l' (emit (Join (new_id env)) st) = (r, st')" for l' r st'
  proof -
    have c: "calm st (emit (Join (new_id env)) st)" by (simp add: calm_emit)
    have "calm (emit (Join (new_id env)) st) st'"
      using ff [of "emit (Join (new_id env)) st" env l'] that
      by (simp add: ckpt_dir_def)
    then show ?thesis using calm_trans [OF c] by blast
  qed
  moreover have "calm st (emit (Join (new_id env)) st)" by (simp add: calm_emit)
  ultimately show ?thesis
    by (auto simp: phase_template_def Let_def intro: calm_phases(8) calm_trans [OF _ calm_phases(8)] split: prod.splits sum.splits)
qed

lemma calm_dump: "phase_dump env s tag p l st = Some (l', st') \<Longrightarrow> calm st st'"
  by (auto simp: phase_dump_def Let_def calm_emit intro: calm_trans [OF calm_emit calm_emit] split: if_splits)

lemma calm_bind:
  "\<lbrakk>calm st (snd m); \<And>x s. calm st s \<Longrightarrow> calm st (snd (f x s))\<rbrakk> \<Longrightarrow> calm st (snd (bind_eff m f))"
  by (cases m) (auto simp: bind_eff_def split: sum.splits)

lemma calm_stages: "calm st (snd (enter env p st))" "calm st (with_dir env tag st)" "calm st (snd (prepare env s tag st))"
proof -
  show "calm st (snd (enter env p st))"
    using calm_phases(9) calm_trans [OF calm_requests(4) calm_phases(9)] by (simp add: enter_def)
  show "calm st (with_dir env tag st)" by (simp add: with_dir_def calm_emit)
  obtain l s1 where b: "phase_bootstrap env s st = (l, s1)" by fastforce
  then have "calm st s1" using calm_phases(2) [of st env s] by simp
  then show "calm st (snd (prepare env s tag st))" unfolding prepare_def b prod.case
    by (intro calm_bind) (erule calm_trans, rule calm_phases(3-6))+
qed

text \<open>Every phase of a checkpoint but the sinking of the layer spares the workspace.\<close>

lemma checkpoint_legacy_sink:
  assumes c: "checkpoint_legacy env parent tag raw st = Some (Inr info, st')" and tag: "\<not> prefix ''/'' tag"
  obtains sa sb sc where "calm st sa" "phase_sink env parent sa = (Inr (e_layers info), sb)" "calm sb sc"
    "events st' = events sc" "current_upper st' = current_upper sc" "layers_root st' = layers_root sc"
    "base_layer st' = base_layer sc" "snapshot_store st' = snapshot_store sc"
  using c
proof (cases rule: checkpoint_legacy_elim)
  case (ok s1 s l2 s2 l3 s3 layers s4 l5 s5 info')
  have "calm st (with_dir env tag s1)" using calm_trans [OF calm_stages(1,2)] ok(2) by (metis snd_conv)
  then have "calm st s2" using calm_trans [OF _ calm_stages(3)] ok(4) by (metis snd_conv)
  then have "calm st s3" using calm_trans [OF _ calm_dump [OF ok(5)]] by blast
  moreover have "calm s4 s5" using calm_template [OF tag, of s4 env s l3] ok(7) by simp
  moreover have "e_layers info = layers" using ok(1,8) by (simp add: legacy_entry_def Let_def)
  ultimately show thesis using that [of s3 s4 s5] ok(6,9) by (simp add: enlist_def Let_def)
qed auto

section \<open>The effect on the files\<close>

lemma view_cong: "(\<And>d. d \<in> set ds \<Longrightarrow> dir_content fs' d = dir_content fs d) \<Longrightarrow> stack_view fs' ds = stack_view fs ds"
  unfolding stack_view_def by (intro arg_cong [of _ _ lookup_layers] map_cong) auto

lemma view_empty: "dir_content fs d = [] \<Longrightarrow> stack_view fs (d # ds) = stack_view fs ds"
  by (simp add: stack_view_def fun_eq_iff)

definition sunk_dir :: "ckpt_env \<Rightarrow> controller \<Rightarrow> string" where
  "sunk_dir env c = path_join (layers_root c) (''layer_'' @ new_id env)"

definition next_upper :: "ckpt_env \<Rightarrow> controller \<Rightarrow> string" where
  "next_upper env c = path_join (layers_root c) (''upper_'' @ new_id env @ ''_next'')"

definition next_work :: "ckpt_env \<Rightarrow> controller \<Rightarrow> string" where
  "next_work env c = path_join (layers_root c) (''work_'' @ new_id env @ ''_next'')"

definition is_dirty :: "ckpt_env \<Rightarrow> bool" where
  "is_dirty env = (case upper_dirty env of Some d \<Rightarrow> d | None \<Rightarrow> True)"

lemma sink_cases:
  assumes "phase_sink env parent st = (Inr ls, st')"
  shows "if is_dirty env
    then ls = sunk_dir env st # parent_layers parent st \<and> current_upper st' = next_upper env st
      \<and> (\<exists>es. still es \<and> events st' = events st @ [Rename (current_upper st) (sunk_dir env st), Makedirs (next_upper env st),
          Makedirs (next_work env st), Switch (parent_layers parent st) (next_upper env st) (next_work env st) ''ckpt''] @ es)
    else ls = parent_layers parent st \<and> current_upper st' = current_upper st \<and> (\<exists>es. still es \<and> events st' = events st @ es)"
  using assms
  by (auto simp: phase_sink_def is_dirty_def sunk_dir_def next_upper_def next_work_def apply_overlay_switch_def Let_def
    split: option.splits if_splits)

lemma still_fs:
  assumes "still es"
  shows "f_lowers (fs_events es fs) = f_lowers fs \<and> f_upper (fs_events es fs) = f_upper fs \<and> dir_content (fs_events es fs) = dir_content fs"
proof -
  have "f_lowers (fs_event e fs) = f_lowers fs \<and> f_upper (fs_event e fs) = f_upper fs \<and> dir_content (fs_event e fs) = dir_content fs"
    if "\<not> fs_change e" for e fs
    using that by (cases e) (auto simp: dir_content_def fun_eq_iff)
  then show ?thesis using assms by (induction es arbitrary: fs) auto
qed

lemma sink_fs:
  assumes sk: "phase_sink env parent st = (Inr ls, st')" and es: "events st' = events st @ es"
    and up: "f_upper fs = current_upper st" and low: "f_lowers fs = parent_layers parent st"
    and honest: "\<not> is_dirty env \<Longrightarrow> dir_content fs (current_upper st) = []"
    and fresh: "\<And>d. d \<in> {sunk_dir env st, next_upper env st, next_work env st} \<Longrightarrow> dir_content fs d = [] \<and> d \<notin> insert (current_upper st) (set (parent_layers parent st))"
    and cu: "current_upper st \<notin> set (parent_layers parent st)" and ne: "sunk_dir env st \<noteq> next_upper env st"
  shows "f_upper (fs_events es fs) = current_upper st' \<and> f_lowers (fs_events es fs) = ls
    \<and> dir_content (fs_events es fs) (current_upper st') = []
    \<and> (\<forall>d. d \<notin> {current_upper st, sunk_dir env st} \<longrightarrow> dir_content (fs_events es fs) d = dir_content fs d)
    \<and> stack_view (fs_events es fs) ls = visible fs"
proof (cases "is_dirty env")
  case False
  then have e: "still es" "ls = parent_layers parent st" "current_upper st' = current_upper st" using sink_cases [OF sk] es by auto
  have "stack_view (fs_events es fs) ls = stack_view fs ls" using still_fs [OF e(1)] by (intro view_cong) simp
  also have "\<dots> = visible fs" using honest [OF False] up low e(2) by (simp add: visible_def view_empty)
  finally show ?thesis using still_fs [OF e(1)] e up low honest [OF False] by simp
next
  case True
  let ?u = "current_upper st" and ?s = "sunk_dir env st" and ?n = "next_upper env st" and ?w = "next_work env st"
  obtain es' where e: "still es'" "es = [Rename ?u ?s, Makedirs ?n, Makedirs ?w, Switch (parent_layers parent st) ?n ?w ''ckpt''] @ es'"
    and ls: "ls = ?s # parent_layers parent st" "current_upper st' = ?n" using sink_cases [OF sk] es True by auto
  define fs1 where "fs1 = fs_event (Rename ?u ?s) fs"
  have c1: "dir_content fs1 d = (if d = ?s then dir_content fs ?u else if d = ?u then [] else dir_content fs d)" for d
    by (auto simp: fs1_def dir_content_def update_conv delete_conv)
  define fs2 where "fs2 = fs_events [Makedirs ?n, Makedirs ?w] fs1"
  have s2: "f_lowers fs2 = f_lowers fs1" "f_upper fs2 = f_upper fs1" "dir_content fs2 = dir_content fs1"
    using still_fs [of "[Makedirs ?n, Makedirs ?w]" fs1] by (simp_all add: fs2_def)
  define fs3 where "fs3 = fs_event (Switch (parent_layers parent st) ?n ?w ''ckpt'') fs2"
  have "f_upper fs1 = ?s" using up by (simp add: fs1_def renamed_def)
  then have s3: "f_upper fs3 = ?n" "f_lowers fs3 = ?s # parent_layers parent st" "dir_content fs3 = dir_content fs1"
    using s2 by (simp_all add: fs3_def)
  have fin: "fs_events es fs = fs_events es' fs3" by (simp add: e(2) fs1_def fs2_def fs3_def)
  have same: "dir_content fs1 d = dir_content fs d" if "d \<in> set (parent_layers parent st)" for d
    using that c1 [of d] fresh [of ?s] cu by auto
  have "stack_view fs1 (?s # parent_layers parent st) = stack_view fs (?u # parent_layers parent st)"
    using same c1 [of ?s] by (simp add: stack_view_def map_eq_conv cong: list.map_cong_simp)
  also have "\<dots> = visible fs" using up low by (simp add: visible_def)
  finally have v: "stack_view fs1 ls = visible fs" by (simp add: ls)
  have "stack_view (fs_events es fs) ls = stack_view fs1 ls" unfolding fin using still_fs [OF e(1), of fs3] s3(3) by (intro view_cong) simp
  moreover have "dir_content fs1 ?n = []" using c1 [of ?n] fresh [of ?n] ne by auto
  ultimately show ?thesis unfolding fin using still_fs [OF e(1), of fs3] s3 ls v c1 by auto
qed

section \<open>The workspace as a whole\<close>

type_synonym workspace = "controller \<times> fsys"

definition used_dirs :: "controller \<Rightarrow> string set" where
  "used_dirs c = insert (base_layer c) (\<Union>(k, e) \<in> set (cregistry c). set (e_layers e))"

definition new_events :: "controller \<Rightarrow> controller \<Rightarrow> event list" where
  "new_events c c' = drop (length (events c)) (events c')"

text \<open>Directories with a fresh name: unused and without contents.\<close>

definition fresh_dirs :: "string set \<Rightarrow> workspace \<Rightarrow> bool" where
  "fresh_dirs ds x \<longleftrightarrow> (\<forall>d \<in> ds. dir_content (snd x) d = [] \<and> d \<notin> insert (current_upper (fst x)) (used_dirs (fst x)))"

text \<open>
  The mount shows the current upper directory over lower ones that are in use; nothing in use lies in the
  snapshot store.
\<close>

definition ws_inv :: "workspace \<Rightarrow> bool" where
  "ws_inv x \<longleftrightarrow> (case x of (c, fs) \<Rightarrow> creg_ok (cregistry c) \<and> f_upper fs = current_upper c
     \<and> set (f_lowers fs) \<subseteq> used_dirs c \<and> current_upper c \<notin> used_dirs c
     \<and> (\<forall>d \<in> insert (current_upper c) (used_dirs c). off_store (snapshot_store c) d)
     \<and> (\<forall>d. \<not> prefix ''/'' d \<longrightarrow> off_store (snapshot_store c) (path_join (layers_root c) d)))"

text \<open>
  A successful checkpoint whose caller names a parent with the mounted layers, in a run where the scan of the
  upper directory tells the truth, under a tag that is a relative name.
\<close>

definition ws_checkpoint :: "ckpt_env \<Rightarrow> string option \<Rightarrow> string \<Rightarrow> string \<Rightarrow> workspace \<Rightarrow> workspace \<Rightarrow> bool" where
  "ws_checkpoint env parent tag raw x y \<longleftrightarrow>
     (\<exists>info. checkpoint_legacy env parent tag raw (fst x) = Some (Inr info, fst y))
     \<and> snd y = fs_events (new_events (fst x) (fst y)) (snd x)
     \<and> \<not> prefix ''/'' tag \<and> fresh_ckpt (cregistry (fst x)) (new_id env) \<and> parent \<noteq> Some (new_id env)
     \<and> parent_layers parent (fst x) = f_lowers (snd x)
     \<and> (\<not> is_dirty env \<longrightarrow> dir_content (snd x) (current_upper (fst x)) = [])
     \<and> fresh_dirs {sunk_dir env (fst x), next_upper env (fst x), next_work env (fst x)} x"

definition ws_restore :: "restore_env \<Rightarrow> string \<Rightarrow> bool \<Rightarrow> workspace \<Rightarrow> workspace \<Rightarrow> bool" where
  "ws_restore env target allow_cold x y \<longleftrightarrow>
     (\<exists>res. restore_action env target allow_cold (fst x) = (Inr res, fst y))
     \<and> snd y = fs_events (new_events (fst x) (fst y)) (snd x)
     \<and> fresh_dirs {new_upper env (fst x), new_work env (fst x)} x"

inductive ws_step :: "workspace \<Rightarrow> workspace \<Rightarrow> bool" where
  checkpoint: "ws_checkpoint env parent tag raw x y \<Longrightarrow> ws_step x y"
| restore: "ws_restore env target allow_cold x y \<Longrightarrow> ws_step x y"
| agent: "ws_step (c, fs) (c, agent_write l fs)"

text \<open>The files that the layers of a registered checkpoint hold.\<close>

definition saved_files :: "workspace \<Rightarrow> string \<Rightarrow> (string \<Rightarrow> string option) option" where
  "saved_files x k = map_option (\<lambda>e. stack_view (snd x) (e_layers e)) (map_of (cregistry (fst x)) k)"

lemma calm_new:
  assumes "calm st st'"
  obtains es where "events st' = events st @ es" "\<forall>e \<in> set es. spares (snapshot_store st) e"
  using assms by (auto simp: calm_def)

text \<open>What a checkpoint finds: the mount is that of the controller, the directories it makes are new, and nothing lies in the snapshot store.\<close>

definition new_dirs :: "ckpt_env \<Rightarrow> controller \<Rightarrow> string set" where
  "new_dirs env c = {sunk_dir env c, next_upper env c, next_work env c}"

definition sinkable :: "ckpt_env \<Rightarrow> string option \<Rightarrow> controller \<Rightarrow> fsys \<Rightarrow> bool" where
  "sinkable env parent c fs \<longleftrightarrow> f_upper fs = current_upper c \<and> f_lowers fs = parent_layers parent c \<and> set (f_lowers fs) \<subseteq> used_dirs c
     \<and> current_upper c \<notin> used_dirs c \<and> (\<forall>d \<in> insert (current_upper c) (used_dirs c) \<union> new_dirs env c. off_store (snapshot_store c) d)
     \<and> (\<not> is_dirty env \<longrightarrow> dir_content fs (current_upper c) = [])
     \<and> (\<forall>d \<in> new_dirs env c. dir_content fs d = [] \<and> d \<notin> insert (current_upper c) (used_dirs c))"

lemma ws_checkpoint_sinkable:
  assumes "ws_inv (c, fs)" "ws_checkpoint env parent tag raw (c, fs) y"
  shows "sinkable env parent c fs"
  using assms by (auto simp: sinkable_def ws_inv_def ws_checkpoint_def fresh_dirs_def new_dirs_def sunk_dir_def next_upper_def next_work_def)

lemma sunk_not_upper: "sunk_dir env c \<noteq> next_upper env c"
  by (simp add: sunk_dir_def next_upper_def path_join_relative)

lemma frame_dirs:
  "frame sa = frame c \<Longrightarrow> sunk_dir env sa = sunk_dir env c \<and> next_upper env sa = next_upper env c \<and> next_work env sa = next_work env c
    \<and> parent_layers parent sa = parent_layers parent c \<and> new_dirs env sa = new_dirs env c"
  using parent_layers_frame [of sa c parent] by (simp add: sunk_dir_def next_upper_def next_work_def new_dirs_def frame_def)

lemma sink_dirs:
  assumes k: "sinkable env parent c fs" and a: "calm c sa" and sk: "phase_sink env parent sa = (Inr layers, sb)" and b: "calm sb sc"
  shows "set layers \<subseteq> insert (sunk_dir env c) (used_dirs c)" "current_upper sc \<in> {next_upper env c, current_upper c}"
    "current_upper sc \<notin> used_dirs c \<union> set layers" "frame sc = frame c"
proof -
  have fa: "frame sa = frame c" "current_upper sa = current_upper c" "current_upper sc = current_upper sb" using a b by (simp_all add: calm_def)
  then show "frame sc = frame c" using frame_phase(7) [of env parent sa] sk b by (simp add: calm_def)
  note d = frame_dirs [OF fa(1), of env parent] and low = k [unfolded sinkable_def]
  show l: "set layers \<subseteq> insert (sunk_dir env c) (used_dirs c)" and u: "current_upper sc \<in> {next_upper env c, current_upper c}"
    using sink_cases [OF sk] low d fa by (auto split: if_splits)
  have "current_upper sc \<notin> used_dirs c" using u low by (auto simp: new_dirs_def)
  moreover have "current_upper sc \<notin> set layers"
    using sink_cases [OF sk] sunk_not_upper [of env c] low d fa by (auto simp: new_dirs_def split: if_splits)
  ultimately show "current_upper sc \<notin> used_dirs c \<union> set layers" by simp
qed

text \<open>The files around the sinking of the layer: what was visible is what the new lower layers show, and layers in use keep their files.\<close>

lemma sink_step:
  assumes k: "sinkable env parent c fs" and a: "calm c sa" and sk: "phase_sink env parent sa = (Inr layers, sb)"
    and e: "events sb = events c @ es" and fsb: "fsb = fs_events es fs"
  shows "f_upper fsb = current_upper sb" "f_lowers fsb = layers" "dir_content fsb (current_upper sb) = []"
    "d \<in> used_dirs c \<Longrightarrow> dir_content fsb d = dir_content fs d" "stack_view fsb layers = visible fs"
proof -
  note kk = k [unfolded sinkable_def]
  have fa: "frame sa = frame c" "current_upper sa = current_upper c" using a by (simp_all add: calm_def)
  note dirs = frame_dirs [OF fa(1), of env parent]
  obtain ea where ea: "events sa = events c @ ea" "\<forall>e \<in> set ea. spares (snapshot_store c) e" by (rule calm_new [OF a])
  obtain eb where eb: "events sb = events sa @ eb" using sink_cases [OF sk] by (auto split: if_splits)
  define fsa where "fsa = fs_events ea fs"
  have "es = ea @ eb" using e ea(1) eb by simp
  then have f: "fsb = fs_events eb fsa" by (simp add: fsb fsa_def)
  note A = spares_events [OF ea(2), of fs, folded fsa_def]
  have cont: "dir_content fsa d = dir_content fs d" if "d \<in> insert (current_upper c) (used_dirs c) \<union> new_dirs env c" for d
    using A kk that by blast
  have "f_upper fsb = current_upper sb \<and> f_lowers fsb = layers \<and> dir_content fsb (current_upper sb) = []
    \<and> (\<forall>d. d \<notin> {current_upper sa, sunk_dir env sa} \<longrightarrow> dir_content fsb d = dir_content fsa d) \<and> stack_view fsb layers = visible fsa"
    unfolding f
  proof (rule sink_fs [OF sk eb])
    show "f_upper fsa = current_upper sa" "f_lowers fsa = parent_layers parent sa" using A kk fa dirs by simp_all
    show "dir_content fsa (current_upper sa) = []" if "\<not> is_dirty env" using kk cont [of "current_upper c"] fa that by simp
    show "dir_content fsa d = [] \<and> d \<notin> insert (current_upper sa) (set (parent_layers parent sa))"
      if "d \<in> {sunk_dir env sa, next_upper env sa, next_work env sa}" for d
      using that [folded new_dirs_def] cont [of d] kk dirs fa by auto
    show "current_upper sa \<notin> set (parent_layers parent sa)" "sunk_dir env sa \<noteq> next_upper env sa" using kk dirs fa sunk_not_upper by auto
  qed
  moreover have "visible fsa = visible fs" using A kk by (simp add: visible_def) (intro view_cong, auto)
  moreover have "d \<notin> {current_upper sa, sunk_dir env sa}" if "d \<in> used_dirs c" using that kk fa dirs by (auto simp: new_dirs_def)
  ultimately show "f_upper fsb = current_upper sb" "f_lowers fsb = layers" "dir_content fsb (current_upper sb) = []"
    "d \<in> used_dirs c \<Longrightarrow> dir_content fsb d = dir_content fs d" "stack_view fsb layers = visible fs"
    using cont [of d] by simp_all
qed

lemma sink_files:
  assumes k: "sinkable env parent c fs" and a: "calm c sa" and sk: "phase_sink env parent sa = (Inr layers, sb)" and b: "calm sb sc"
    and fs': "fs' = fs_events (new_events c sc) fs"
  shows "f_upper fs' = current_upper sc" "f_lowers fs' = layers" "dir_content fs' (current_upper sc) = []"
    "d \<in> used_dirs c \<Longrightarrow> dir_content fs' d = dir_content fs d" "stack_view fs' layers = visible fs"
proof -
  obtain ea where ea: "events sa = events c @ ea" by (rule calm_new [OF a])
  obtain eb where eb: "events sb = events sa @ eb" using sink_cases [OF sk] by (auto split: if_splits)
  have f: "frame sb = frame c" using frame_phase(7) [of env parent sa] sk a by (simp add: calm_def)
  obtain ec where ec: "events sc = events sb @ ec" "\<forall>e \<in> set ec. spares (snapshot_store c) e"
    by (rule calm_new [OF b]) (use f in \<open>simp add: frame_def\<close>)
  define fsb where "fsb = fs_events (ea @ eb) fs"
  have fs'_eq: "fs' = fs_events ec fsb" using ec(1) eb ea by (simp add: fs' new_events_def fsb_def)
  note C = spares_events [OF ec(2), of fsb, folded fs'_eq] and B = sink_step [OF k a sk _ fsb_def, unfolded ea eb append_assoc, OF refl]
  note D = sink_dirs [OF k a sk b]
  have off: "off_store (snapshot_store c) d" if "d \<in> insert (current_upper sc) (used_dirs c \<union> set layers)" for d
    using that D k by (auto simp: sinkable_def new_dirs_def)
  have "current_upper sc = current_upper sb" using b by (simp add: calm_def)
  then show "f_upper fs' = current_upper sc" "f_lowers fs' = layers" "dir_content fs' (current_upper sc) = []"
    "d \<in> used_dirs c \<Longrightarrow> dir_content fs' d = dir_content fs d" using B C off by auto
  show "stack_view fs' layers = visible fs" using B(5) C off by (simp add: view_cong [of layers fs' fsb])
qed

lemma ws_checkpoint_ok:
  assumes inv: "ws_inv x" and ck: "ws_checkpoint env parent tag raw x y"
  shows "ws_inv y \<and> visible (snd y) = visible (snd x) \<and> saved_files y (new_id env) = Some (visible (snd x))
    \<and> (\<forall>k v. saved_files x k = Some v \<longrightarrow> saved_files y k = Some v)"
proof -
  obtain c fs where x: "x = (c, fs)" by (cases x)
  obtain c' fs' where y: "y = (c', fs')" by (cases y)
  have reg_ok: "creg_ok (cregistry c)" using inv by (simp add: ws_inv_def x)
  obtain info where ci: "checkpoint_legacy env parent tag raw c = Some (Inr info, c')" using ck by (auto simp: ws_checkpoint_def x y)
  have fs': "fs' = fs_events (new_events c c') fs" and fr: "fresh_ckpt (cregistry c) (new_id env)" "parent \<noteq> Some (new_id env)"
    and tag: "\<not> prefix ''/'' tag" using ck by (simp_all add: ws_checkpoint_def x y)
  note k = ws_checkpoint_sinkable [OF inv [unfolded x] ck [unfolded x]] and reg = checkpoint_legacy_ok [OF reg_ok fr ci]
  obtain sa sb sc where s: "calm c sa" "phase_sink env parent sa = (Inr (e_layers info), sb)" "calm sb sc"
    and c': "events c' = events sc" "current_upper c' = current_upper sc" "layers_root c' = layers_root sc"
      "base_layer c' = base_layer sc" "snapshot_store c' = snapshot_store sc"
    by (rule checkpoint_legacy_sink [OF ci tag])
  note D = sink_dirs [OF k s] and F = sink_files [OF k s, of fs', unfolded new_events_def, folded c'(1), folded new_events_def, OF fs']
  have used': "used_dirs c' = used_dirs c \<union> set (e_layers info)" using reg(1) c'(4) D(4) by (auto simp: used_dirs_def frame_def)
  have m: "map_of (cregistry c') k = (if k = new_id env then Some info else map_of (cregistry c) k)" for k
    using fr(1) map_of_new [of k "new_id env" "cregistry c" info] map_of_eq_None_iff [of "cregistry c" "new_id env"]
    by (auto simp: reg(1) fresh_ckpt_def map_add_def simp del: map_of_append map_of_eq_None_iff)
       (simp add: map_add_def)
  have "creg_ok (cregistry c')" unfolding reg(1) by (rule register_creg_ok [OF reg_ok fr(1) _ reg(2)]) (use reg(3) fr(2) in simp)
  moreover have "snapshot_store c' = snapshot_store c" "layers_root c' = layers_root c" using c' D(4) by (simp_all add: frame_def)
  moreover have "off_store (snapshot_store c) d" if "d \<in> insert (current_upper c') (used_dirs c')" for d
    using that D c'(2) used' k by (auto simp: sinkable_def new_dirs_def)
  ultimately have "ws_inv y" using F(1,2) D(3) c'(2) used' inv by (simp add: ws_inv_def x y)
  moreover have "visible fs' = visible fs" using F by (simp add: visible_def view_empty)
  moreover have "saved_files y k = Some v" if s: "saved_files x k = Some v" for k v
  proof -
    obtain e where e: "map_of (cregistry c) k = Some e" "v = stack_view fs (e_layers e)" using s by (auto simp: saved_files_def x)
    have "k \<noteq> new_id env" using e(1) fr(1) by (force simp: fresh_ckpt_def dest: map_of_SomeD)
    moreover have "stack_view fs' (e_layers e) = stack_view fs (e_layers e)"
      using map_of_SomeD [OF e(1)] by (intro view_cong F(4)) (force simp: used_dirs_def)
    ultimately show ?thesis using e by (simp add: saved_files_def y m)
  qed
  ultimately show ?thesis using F(5) by (simp add: saved_files_def x y m)
qed

lemma ws_checkpoint_reg:
  assumes inv: "ws_inv x" and ck: "ws_checkpoint env parent tag raw x y"
  shows "\<forall>k e. map_of (cregistry (fst x)) k = Some e \<longrightarrow> map_of (cregistry (fst y)) k = Some e"
proof -
  obtain info where ci: "checkpoint_legacy env parent tag raw (fst x) = Some (Inr info, fst y)" using ck by (auto simp: ws_checkpoint_def)
  have fr: "creg_ok (cregistry (fst x))" "fresh_ckpt (cregistry (fst x)) (new_id env)" "parent \<noteq> Some (new_id env)"
    using ck inv by (auto simp: ws_checkpoint_def ws_inv_def)
  have "map_of (cregistry (fst x)) (new_id env) = None" using fr(2) by (simp add: fresh_ckpt_def map_of_eq_None_iff)
  then show ?thesis unfolding checkpoint_legacy_ok(1) [OF fr ci] by (auto simp: map_add_def split: option.splits)
qed

lemma ws_restore_ok:
  assumes inv: "ws_inv x" and re: "ws_restore env target allow_cold x y"
  shows "ws_inv y \<and> cregistry (fst y) = cregistry (fst x)
    \<and> (\<exists>t ph. map_of (cregistry (fst x)) target = Some t \<and> physical_target target t (fst x) = Inr ph
          \<and> visible (snd y) = stack_view (snd x) (e_layers ph))
    \<and> (\<forall>k. saved_files y k = saved_files x k)"
proof -
  obtain c fs where x: "x = (c, fs)" by (cases x)
  obtain c' fs' where y: "y = (c', fs')" by (cases y)
  obtain res where r: "restore_action env target allow_cold c = (Inr res, c')" using re by (auto simp: ws_restore_def x y)
  have fs': "fs' = fs_events (new_events c c') fs" using re by (simp add: ws_restore_def x y)
  have fd: "dir_content fs (new_upper env c) = []" "new_upper env c \<notin> used_dirs c"
    using re by (auto simp: ws_restore_def fresh_dirs_def x y)
  obtain t ph where t: "map_of (cregistry c) target = Some t" "physical_target target t c = Inr ph" and to: "restored_to env ph c c'"
    using restore_switched [OF r] by blast
  have fr: "cregistry c' = cregistry c" "layers_root c' = layers_root c" "base_layer c' = base_layer c"
      "snapshot_store c' = snapshot_store c" "current_upper c' = new_upper env c"
    using to by (simp_all add: restored_to_def rframe_def)
  obtain es es' where e: "events c' = events c @ es @ [Switch (e_layers ph) (new_upper env c) (new_work env c) ''restore''] @ es'"
    "still es" "still es'" using to by (auto simp: restored_to_def)
  define fs1 where "fs1 = fs_events es fs"
  define fs2 where "fs2 = fs_event (Switch (e_layers ph) (new_upper env c) (new_work env c) ''restore'') fs1"
  have fin: "fs' = fs_events es' fs2" using fs' e(1) by (simp add: new_events_def fs1_def fs2_def)
  have d: "dir_content fs' = dir_content fs" "f_upper fs' = new_upper env c" "f_lowers fs' = e_layers ph"
    using still_fs [OF e(2), of fs] still_fs [OF e(3), of fs2] by (simp_all add: fin fs1_def [symmetric], simp_all add: fs2_def)
  have used: "used_dirs c' = used_dirs c" using fr by (simp add: used_dirs_def)
  have ph: "\<exists>k. (k, ph) \<in> set (cregistry c)"
    using t by (auto simp: physical_target_def Let_def bind_eq_Some_conv dest!: map_of_SomeD split: if_splits option.splits)
  then have "set (e_layers ph) \<subseteq> used_dirs c" by (force simp: used_dirs_def)
  then have "ws_inv y" using inv fr d fd used unfolding ws_inv_def x y prod.case by (simp add: new_upper_def)
  moreover have v: "stack_view fs' = stack_view fs" by (intro ext) (simp add: stack_view_def d)
  moreover have "visible fs' = stack_view fs (e_layers ph)" using fd d by (simp add: visible_def v view_empty)
  ultimately show ?thesis using t fr by (simp add: x y saved_files_def)
qed

lemma ws_agent_ok:
  assumes "ws_inv (c, fs)"
  shows "ws_inv (c, agent_write l fs) \<and> saved_files (c, agent_write l fs) k = saved_files (c, fs) k"
proof -
  have d: "dir_content (agent_write l fs) d = (if d = f_upper fs then l else dir_content fs d)" for d
    by (simp add: agent_write_def)
  have "stack_view (agent_write l fs) (e_layers e) = stack_view fs (e_layers e)" if "map_of (cregistry c) k = Some e" for e
  proof (intro view_cong)
    fix x assume "x \<in> set (e_layers e)"
    then have "x \<in> used_dirs c" using map_of_SomeD [OF that] by (force simp: used_dirs_def)
    then show "dir_content (agent_write l fs) x = dir_content fs x" using assms d by (auto simp: ws_inv_def)
  qed
  then show ?thesis using assms by (cases "map_of (cregistry c) k") (simp_all add: ws_inv_def saved_files_def agent_write_def)
qed

text \<open>Whatever happens later, a registered checkpoint stays registered with its files.\<close>

lemma ws_steps_keep:
  assumes "ws_step\<^sup>*\<^sup>* x y" "ws_inv x"
  shows "ws_inv y \<and> (\<forall>k v. saved_files x k = Some v \<longrightarrow> saved_files y k = Some v)
    \<and> (\<forall>k e. map_of (cregistry (fst x)) k = Some e \<longrightarrow> map_of (cregistry (fst y)) k = Some e)"
  using assms
proof (induction rule: rtranclp_induct)
  case (step y z)
  then have y: "ws_inv y" by blast
  have "ws_inv z \<and> (\<forall>k v. saved_files y k = Some v \<longrightarrow> saved_files z k = Some v)
    \<and> (\<forall>k e. map_of (cregistry (fst y)) k = Some e \<longrightarrow> map_of (cregistry (fst z)) k = Some e)"
    using step.hyps(2)
  proof cases
    case (checkpoint env parent tag raw)
    then show ?thesis using ws_checkpoint_ok [OF y checkpoint] ws_checkpoint_reg [OF y checkpoint] by blast
  next
    case (restore env target allow_cold)
    then show ?thesis using ws_restore_ok [OF y restore] by simp
  next
    case (agent c fs l)
    then show ?thesis using ws_agent_ok [of c fs l] y by simp
  qed
  then show ?case using step by blast
qed simp

lemma restore_target_layers:
  assumes "creg_ok (cregistry c)" "map_of (cregistry c) k = Some t" "\<not> is_light t" "physical_target k t c = Inr ph"
  shows "ph = t"
proof -
  have "e_effective t = None" using creg_okD(3) [OF assms(1) map_of_SomeD [OF assms(2)]] assms(3) by (simp add: centry_ok_def)
  then show ?thesis using assms(4) by (simp add: physical_target_def effective_id_def Let_def)
qed

text \<open>
  C1. Rollback of the workspace: from a state where the mount shows the current upper directory over layers in
  use, take a checkpoint that is not a lightweight one, then let the agent write and the controller take and
  restore checkpoints in any order, and then restore the first one. The checkpoint itself changes nothing that
  is visible, and after the restore exactly the files are visible that were visible when it was taken. The
  caller has to name the parent whose layers are mounted, the scan of the upper directory has to be right
  when it says that nothing was written, and the fresh names must be unused.
\<close>

theorem workspace_rollback:
  assumes "ws_inv x" "ws_checkpoint env parent tag raw x x1" "ws_step\<^sup>*\<^sup>* x1 x2" "ws_restore renv (new_id env) allow_cold x2 x3"
    and full: "\<forall>e \<in> set_option (map_of (cregistry (fst x1)) (new_id env)). \<not> is_light e"
  shows "visible (snd x1) = visible (snd x) \<and> visible (snd x3) = visible (snd x)"
proof -
  note c = ws_checkpoint_ok [OF assms(1,2)]
  note s = ws_steps_keep [OF assms(3) conjunct1 [OF c]]
  obtain e where e: "map_of (cregistry (fst x1)) (new_id env) = Some e" using c by (auto simp: saved_files_def)
  then have e2: "map_of (cregistry (fst x2)) (new_id env) = Some e" using s by blast
  have "saved_files x2 (new_id env) = Some (visible (snd x))" using c s by blast
  then have v: "stack_view (snd x2) (e_layers e) = visible (snd x)" using e2 by (simp add: saved_files_def)
  obtain t ph where t: "map_of (cregistry (fst x2)) (new_id env) = Some t" "physical_target (new_id env) t (fst x2) = Inr ph"
    "visible (snd x3) = stack_view (snd x2) (e_layers ph)" using ws_restore_ok [OF _ assms(4)] s by blast
  have "creg_ok (cregistry (fst x2))" using s by (auto simp: ws_inv_def)
  then have "ph = e" using restore_target_layers [of "fst x2" "new_id env" e ph] t e2 e full by simp
  then show ?thesis using c t v by simp
qed

section \<open>A concrete run\<close>

definition wit_fs :: fsys where
  "wit_fs = \<lparr>f_dirs = [(''/b'', [(''a'', Some ''1'')]), (''/l/u'', [(''a'', None), (''b'', Some ''2'')])],
     f_lowers = [''/b''], f_upper = ''/l/u''\<rparr>"

definition ws_after :: "workspace \<Rightarrow> controller \<Rightarrow> workspace" where
  "ws_after x c = (c, fs_events (new_events (fst x) c) (snd x))"

definition wit_x0 :: workspace where
  "wit_x0 = (wit_empty, wit_fs)"

definition wit_saved :: centry where
  "wit_saved = wit_writer\<lparr>e_id := ''n'', e_mem_path := ''/s/step_n_mem'', e_layers := [''/l/layer_n'', ''/b''], e_template_pid := Some 25,
     e_async_dump_pid := None, e_future := Some Finished, e_dump_tree_pid := 10, e_external_pidns := True\<rparr>"

definition wit_mid :: controller where
  "wit_mid = wit_empty\<lparr>cregistry := [(''n'', wit_saved)], templates := [(''n'', 25)], current_upper := ''/l/upper_n_next'',
     current_work := ''/l/work_n_next'', active_dump_owner := Some ''n'',
     events := [Makedirs ''/s/step_n_mem'',
       Submit ''n'' [''dump'', ''--tree'', ''10'', ''-D'', ''/s/step_n_mem'', ''--shell-job'', ''--tcp-close'', ''--ext-unix-sk'',
         ''--manage-cgroups'', ''--ext-mount-map'', ''/testbed:/testbed'', ''--link-remap'', ''--track-mem'', ''--external'',
         ''pid[7]:deltabox_pidns'', ''--leave-running''],
       Rename ''/l/u'' ''/l/layer_n'', Makedirs ''/l/upper_n_next'', Makedirs ''/l/work_n_next'',
       Switch [''/b''] ''/l/upper_n_next'' ''/l/work_n_next'' ''ckpt'', Join ''n'', Dispatch_fork 10 None]\<rparr>"

lemma wit_ckpt_runs: "checkpoint_legacy wit_ckpt_env None ''step'' [] wit_empty = Some (Inr wit_saved, wit_mid)"
  by code_simp

definition wit_x1 :: workspace where
  "wit_x1 = ws_after wit_x0 wit_mid"

definition wit_x2 :: workspace where
  "wit_x2 = (wit_mid, agent_write [(''b'', Some ''3''), (''c'', Some ''4'')] (snd wit_x1))"

definition wit_rn :: restore_env where
  "wit_rn = wit_renv\<lparr>r_table := [(25, wit_proc [])]\<rparr>"

lemma wit_restore_runs:
  "\<exists>c. restore_action wit_rn ''n'' True wit_mid = (Inr \<lparr>rr_path = ''warm-template'', rr_replay = []\<rparr>, c)"
proof -
  have m: "map_of (cregistry wit_mid) ''n'' = Some wit_saved" by (simp add: wit_mid_def)
  have e: "effective_id ''n'' wit_saved = Some ''n''" "e_replay_cmds wit_saved = []"
    by (simp_all add: effective_id_def wit_saved_def wit_writer_def)
  have p: "physical_target ''n'' wit_saved wit_mid = Inr wit_saved" by (simp add: physical_target_def e)
  have w: "fst (warm_template wit_rn (effective_id ''n'' wit_saved) (wit_mid\<lparr>last_restore_target := Some ''n''\<rparr>)) = Some 25"
    unfolding e by code_simp
  have k: "root_overlay_args wit_mid = None" "prepare_error wit_rn = None" "dispatched wit_rn" "fork_child wit_rn = Some 30" "r_errno wit_rn = None"
    by (simp_all add: wit_mid_def wit_empty_def wit_ctl_def wit_rn_def wit_renv_def)
  show ?thesis using restore_warm_ok [OF m p w k, of True] e(2) by auto
qed

definition wit_x3 :: workspace where
  "wit_x3 = ws_after wit_x2 (snd (restore_action wit_rn ''n'' True wit_mid))"

lemma wit_x0_inv: "ws_inv wit_x0"
  by (simp add: ws_inv_def wit_x0_def wit_fs_def wit_empty_def wit_ctl_def creg_ok_def used_dirs_def off_store_def path_join_def suffix_def)

lemma wit_fresh1:
  "fresh_dirs {sunk_dir wit_ckpt_env wit_empty, next_upper wit_ckpt_env wit_empty, next_work wit_ckpt_env wit_empty} wit_x0"
  by code_simp

lemma wit_fresh2: "fresh_dirs {new_upper wit_rn wit_mid, new_work wit_rn wit_mid} wit_x2"
  by code_simp

lemma wit_checkpoint: "ws_checkpoint wit_ckpt_env None ''step'' [] wit_x0 wit_x1"
  using wit_ckpt_runs wit_fresh1 wit_empty_ok
  by (auto simp: ws_checkpoint_def wit_x1_def wit_x0_def ws_after_def parent_layers_def wit_fs_def is_dirty_def wit_ckpt_env_def
      wit_empty_def wit_ctl_def)

lemma wit_restore: "ws_restore wit_rn ''n'' True wit_x2 wit_x3"
proof -
  have "fst wit_x2 = wit_mid" by (simp add: wit_x2_def)
  moreover obtain c where "restore_action wit_rn ''n'' True wit_mid = (Inr \<lparr>rr_path = ''warm-template'', rr_replay = []\<rparr>, c)"
    using wit_restore_runs by blast
  ultimately show ?thesis using wit_fresh2 by (simp add: ws_restore_def wit_x3_def ws_after_def)
qed

theorem workspace_rollback_witness:
  "visible (snd wit_x3) = visible (snd wit_x0) \<and> visible (snd wit_x2) ''c'' = Some ''4'' \<and> visible (snd wit_x0) ''c'' = None"
proof -
  have "\<forall>e \<in> set_option (map_of (cregistry (fst wit_x1)) (new_id wit_ckpt_env)). \<not> is_light e"
    by (simp add: wit_x1_def ws_after_def wit_mid_def wit_ckpt_env_def is_light_def wit_saved_def wit_writer_def)
  moreover have "ws_step\<^sup>*\<^sup>* wit_x1 wit_x2"
    unfolding wit_x2_def using ws_step.agent [of wit_mid "snd wit_x1"] by (auto simp: wit_x1_def ws_after_def)
  moreover have "ws_restore wit_rn (new_id wit_ckpt_env) True wit_x2 wit_x3" using wit_restore by (simp add: wit_ckpt_env_def)
  ultimately have "visible (snd wit_x3) = visible (snd wit_x0)" using workspace_rollback [OF wit_x0_inv wit_checkpoint] by blast
  moreover have "visible (snd wit_x2) ''c'' = Some ''4'' \<and> visible (snd wit_x0) ''c'' = None" by code_simp
  ultimately show ?thesis by blast
qed

end
