(* ===== verification/Lazy_Prestart.thy ===== *)
theory Lazy_Prestart
  imports Prelude "HOL-Library.Multiset"
begin

text \<open>
  The lazy-pages daemons of cold restores and their background start: the part of \<^verbatim>\<open>sandbox_controller.py\<close>
  around \<^verbatim>\<open>_lazy_prestart_lock\<close>. Every section that runs under the lock is one definition and one atomic step;
  between them the single worker of the prestart pool, the controller's own thread and the callbacks of finished dumps
  interleave freely, and a daemon may exit at any time. Processes are numbers. Starting a daemon may fail; stopping
  one that was terminated and killed does not.
\<close>

section \<open>State\<close>

text \<open>Where the worker of the pool is in \<^verbatim>\<open>_prestart_lazy_pages_daemon\<close>, with the daemons that its frame holds.\<close>

datatype wstage = W_idle | W_evicting string "nat list" | W_spawning string | W_ready string nat | W_dropping string nat | W_ending string

text \<open>Where the controller's thread is in \<^verbatim>\<open>_take_lazy_pages_daemon\<close>, \<^verbatim>\<open>_retire_lazy_prestart\<close> or \<^verbatim>\<open>_close_lazy_prestart\<close>.\<close>

datatype cstage = C_free | C_got string nat | C_waiting string | C_woken string | C_starting string | C_stopping "nat list" | C_draining

record lazy =
  prestart_on :: bool
  lazy_max :: nat
  prestarted :: "(string \<times> nat) list"
  futures :: "string list"
  retired :: "string list"
  closing :: bool
  drained :: bool
  queue :: "string list"
  worker :: wstage
  ctl_at :: cstage
  readers :: "(nat \<times> string) list"
  live :: "nat list"
  next_proc :: nat

definition init_lazy :: "bool \<Rightarrow> int \<Rightarrow> lazy" where
  "init_lazy on n = \<lparr>prestart_on = on, lazy_max = nat (max 1 n), prestarted = [], futures = [], retired = [], closing = False, drained = False,
     queue = [], worker = W_idle, ctl_at = C_free, readers = [], live = [], next_proc = 0\<rparr>"

section \<open>Scheduling\<close>

definition schedule_lazy_prestart :: "string \<Rightarrow> lazy \<Rightarrow> lazy" where
  "schedule_lazy_prestart p st =
     (if \<not> prestart_on st \<or> p = [] then st
      else if closing st \<or> p \<in> set (retired st) \<or> p \<in> fst ` set (prestarted st) \<or> p \<in> set (futures st) then st
      else st\<lparr>queue := queue st @ [p], futures := futures st @ [p]\<rparr>)"

record durable =
  d_failed :: bool
  d_state :: "string option"
  d_error :: bool
  d_stats_error :: bool
  d_path :: string

definition on_durable_image :: "durable \<Rightarrow> lazy \<Rightarrow> lazy" where
  "on_durable_image d st =
     (if d_failed d then st
      else if d_state d \<notin> {None, Some ''DURABLE_READY''} \<or> d_error d \<or> d_stats_error d then st
      else schedule_lazy_prestart (d_path d) st)"

section \<open>The worker\<close>

text \<open>The oldest daemons go, until there is room for one more.\<close>

fun evict :: "nat \<Rightarrow> (string \<times> nat) list \<Rightarrow> nat list \<times> (string \<times> nat) list" where
  "evict m [] = ([], [])"
| "evict m (x # xs) = (if length (x # xs) \<ge> m then (case evict m xs of (es, ys) \<Rightarrow> (snd x # es, ys)) else ([], x # xs))"

definition stop_proc :: "nat \<Rightarrow> lazy \<Rightarrow> lazy" where
  "stop_proc x st = st\<lparr>live := removeAll x (live st)\<rparr>"

text \<open>
  The start of a daemon: \<open>None\<close> when the process cannot be started, else what the polls before the deadline see, an exit or the byte
  that the status pipe gives, if any. The daemon is ready with the first NUL byte.
\<close>

datatype poll = Died | Status "nat option"

fun await_ready :: "poll list \<Rightarrow> unit result" where
  "await_ready [] = Inl (TimeoutError ''criu lazy-pages daemon did not signal ready'')"
| "await_ready (Died # polls) = Inl (RuntimeError ''criu lazy-pages daemon died'')"
| "await_ready (Status b # polls) = (if b = Some 0 then Inr () else await_ready polls)"

definition spawn_lazy_pages_daemon :: "poll list option \<Rightarrow> unit result" where
  "spawn_lazy_pages_daemon start = (case start of None \<Rightarrow> Inl (OSError []) | Some polls \<Rightarrow> await_ready polls)"

definition begin_prestart :: "string \<Rightarrow> lazy \<Rightarrow> lazy" where
  "begin_prestart p st =
     (if closing st \<or> p \<in> set (retired st) then st\<lparr>worker := W_ending p\<rparr>
      else case evict (lazy_max st) (prestarted st) of (evicted, kept) \<Rightarrow> st\<lparr>prestarted := kept, worker := W_evicting p evicted\<rparr>)"

definition spawn_prestart :: "poll list option \<Rightarrow> string \<Rightarrow> lazy \<Rightarrow> lazy" where
  "spawn_prestart start p st =
     (if spawn_lazy_pages_daemon start = Inr () then st\<lparr>worker := W_ready p (next_proc st), live := next_proc st # live st, next_proc := Suc (next_proc st)\<rparr>
      else st\<lparr>worker := W_ending p\<rparr>)"

definition publish_prestart :: "string \<Rightarrow> nat \<Rightarrow> lazy \<Rightarrow> lazy" where
  "publish_prestart p x st =
     (if \<not> (closing st \<or> p \<in> set (retired st)) then st\<lparr>prestarted := AList.update p x (prestarted st), worker := W_ending p\<rparr>
      else st\<lparr>worker := W_dropping p x\<rparr>)"

definition end_prestart :: "string \<Rightarrow> lazy \<Rightarrow> lazy" where
  "end_prestart p st = st\<lparr>futures := removeAll p (futures st), worker := W_idle\<rparr>"

text \<open>The future of the task is done once the task has left, and whoever waits for it goes on.\<close>

definition wake_waiter :: "string \<Rightarrow> lazy \<Rightarrow> lazy" where
  "wake_waiter p st = (if ctl_at st = C_waiting p then st\<lparr>ctl_at := C_woken p\<rparr> else st)"

inductive worker_step :: "lazy \<Rightarrow> lazy \<Rightarrow> bool" where
  start_task: "\<lbrakk>worker st = W_idle; queue st = p # q\<rbrakk> \<Longrightarrow> worker_step st (begin_prestart p (st\<lparr>queue := q\<rparr>))"
| stop_evicted: "worker st = W_evicting p (x # xs) \<Longrightarrow> worker_step st (stop_proc x (st\<lparr>worker := W_evicting p xs\<rparr>))"
| check_dir: "worker st = W_evicting p [] \<Longrightarrow> worker_step st (st\<lparr>worker := (if is_dir then W_spawning p else W_ending p)\<rparr>)"
| spawn: "worker st = W_spawning p \<Longrightarrow> worker_step st (spawn_prestart start p st)"
| publish: "worker st = W_ready p x \<Longrightarrow> worker_step st (publish_prestart p x st)"
| drop: "worker st = W_dropping p x \<Longrightarrow> worker_step st (stop_proc x (st\<lparr>worker := W_ending p\<rparr>))"
| finish: "worker st = W_ending p \<Longrightarrow> worker_step st (wake_waiter p (end_prestart p st))"

section \<open>The controller's thread\<close>

definition pop_prestarted :: "string \<Rightarrow> lazy \<Rightarrow> nat option \<times> lazy" where
  "pop_prestarted p st = (map_of (prestarted st) p, st\<lparr>prestarted := AList.delete p (prestarted st)\<rparr>)"

definition take_first :: "string \<Rightarrow> lazy \<Rightarrow> lazy" where
  "take_first p st = (case pop_prestarted p st of
       (Some x, st) \<Rightarrow> st\<lparr>ctl_at := C_got p x\<rparr>
     | (None, st) \<Rightarrow> st\<lparr>ctl_at := (if p \<in> set (futures st) then C_waiting p else C_starting p)\<rparr>)"

definition take_again :: "string \<Rightarrow> lazy \<Rightarrow> lazy" where
  "take_again p st = (case pop_prestarted p st of
       (Some x, st) \<Rightarrow> st\<lparr>ctl_at := C_got p x\<rparr> | (None, st) \<Rightarrow> st\<lparr>ctl_at := C_starting p\<rparr>)"

text \<open>A live daemon becomes a reader; a dead one is reaped, and the start is synchronous.\<close>

definition use_taken :: "string \<Rightarrow> nat \<Rightarrow> lazy \<Rightarrow> lazy" where
  "use_taken p x st = (if x \<in> set (live st) then st\<lparr>readers := readers st @ [(x, p)], ctl_at := C_free\<rparr>
     else st\<lparr>ctl_at := C_starting p\<rparr>)"

definition reap_readers :: "lazy \<Rightarrow> lazy" where
  "reap_readers st = st\<lparr>readers := filter (\<lambda>(x, p). x \<in> set (live st)) (readers st)\<rparr>"

definition start_lazy_pages_daemon :: "poll list option \<Rightarrow> string \<Rightarrow> lazy \<Rightarrow> lazy" where
  "start_lazy_pages_daemon start p st =
     (let st = reap_readers st in
      if spawn_lazy_pages_daemon start = Inr () then st\<lparr>readers := readers st @ [(next_proc st, p)], live := next_proc st # live st, next_proc := Suc (next_proc st), ctl_at := C_free\<rparr>
      else st\<lparr>ctl_at := C_free\<rparr>)"

definition stop_lazy_pages_daemon :: "nat \<Rightarrow> lazy \<Rightarrow> lazy" where
  "stop_lazy_pages_daemon x st = reap_readers (stop_proc x st)"

definition retire_lazy_prestart :: "string \<Rightarrow> lazy \<Rightarrow> lazy" where
  "retire_lazy_prestart p st =
     (if p = [] then st
      else case pop_prestarted p (st\<lparr>retired := p # retired st\<rparr>) of (x, st) \<Rightarrow> st\<lparr>ctl_at := C_stopping (case x of Some x \<Rightarrow> [x] | None \<Rightarrow> [])\<rparr>)"

definition close_first :: "lazy \<Rightarrow> lazy" where
  "close_first st = st\<lparr>closing := True, ctl_at := C_draining\<rparr>"

definition close_last :: "lazy \<Rightarrow> lazy" where
  "close_last st = st\<lparr>prestarted := [], drained := True, ctl_at := C_stopping (map snd (prestarted st))\<rparr>"

inductive control_step :: "lazy \<Rightarrow> lazy \<Rightarrow> bool" where
  take: "ctl_at st = C_free \<Longrightarrow> control_step st (take_first p st)"
| got: "ctl_at st = C_got p x \<Longrightarrow> control_step st (use_taken p x st)"
| waited: "ctl_at st = C_woken p \<Longrightarrow> control_step st (take_again p st)"
| timeout: "ctl_at st = C_waiting p \<Longrightarrow> control_step st (st\<lparr>ctl_at := C_free\<rparr>)"
| start: "ctl_at st = C_starting p \<Longrightarrow> control_step st (start_lazy_pages_daemon start p st)"
| stop_reader: "\<lbrakk>ctl_at st = C_free; (x, p) \<in> set (readers st)\<rbrakk> \<Longrightarrow> control_step st (stop_lazy_pages_daemon x st)"
| reap: "ctl_at st = C_free \<Longrightarrow> control_step st (reap_readers st)"
| retire: "ctl_at st = C_free \<Longrightarrow> control_step st (retire_lazy_prestart p st)"
| stop_one: "ctl_at st = C_stopping (x # xs) \<Longrightarrow> control_step st (stop_proc x (st\<lparr>ctl_at := C_stopping xs\<rparr>))"
| stopped: "ctl_at st = C_stopping [] \<Longrightarrow> control_step st (st\<lparr>ctl_at := C_free\<rparr>)"
| close: "ctl_at st = C_free \<Longrightarrow> control_step st (close_first st)"
| close_idle: "\<lbrakk>ctl_at st = C_draining; queue st = []; worker st = W_idle\<rbrakk> \<Longrightarrow> control_step st (close_last st)"

text \<open>All threads together; a callback of a dump, or the end of a restore, schedules a start; a daemon may exit.\<close>

inductive lazy_step :: "lazy \<Rightarrow> lazy \<Rightarrow> bool" where
  work: "worker_step st st' \<Longrightarrow> lazy_step st st'"
| control: "control_step st st' \<Longrightarrow> lazy_step st st'"
| durable: "lazy_step st (on_durable_image d st)"
| again: "ctl_at st = C_free \<Longrightarrow> lazy_step st (schedule_lazy_prestart p st)"
| exits: "lazy_step st (st\<lparr>live := removeAll x (live st)\<rparr>)"

section \<open>The invariant\<close>

fun worker_path :: "wstage \<Rightarrow> string list" where
  "worker_path W_idle = []"
| "worker_path (W_evicting p _) = [p]"
| "worker_path (W_spawning p) = [p]"
| "worker_path (W_ready p _) = [p]"
| "worker_path (W_dropping p _) = [p]"
| "worker_path (W_ending p) = [p]"

fun worker_holds :: "wstage \<Rightarrow> nat list" where
  "worker_holds (W_evicting p xs) = xs"
| "worker_holds (W_ready p x) = [x]"
| "worker_holds (W_dropping p x) = [x]"
| "worker_holds _ = []"

fun control_holds :: "cstage \<Rightarrow> nat list" where
  "control_holds (C_got p x) = [x]"
| "control_holds (C_stopping xs) = xs"
| "control_holds _ = []"

definition owners :: "lazy \<Rightarrow> nat list" where
  "owners st = map snd (prestarted st) @ worker_holds (worker st) @ control_holds (ctl_at st) @ map fst (readers st)"

text \<open>The worker has made room and has not used it yet.\<close>

fun making_room :: "wstage \<Rightarrow> bool" where
  "making_room (W_evicting _ _) = True"
| "making_room (W_spawning _) = True"
| "making_room (W_ready _ _) = True"
| "making_room _ = False"

definition owned_once :: "lazy \<Rightarrow> bool" where
  "owned_once st \<longleftrightarrow> distinct (owners st) \<and> set (live st) \<subseteq> set (owners st) \<and> (\<forall>x \<in> set (owners st). x < next_proc st)"

definition lazy_inv :: "lazy \<Rightarrow> bool" where
  "lazy_inv st \<longleftrightarrow> owned_once st
     \<and> distinct (worker_path (worker st) @ queue st) \<and> set (futures st) = set (worker_path (worker st) @ queue st)
     \<and> distinct (map fst (prestarted st))
     \<and> (\<forall>p \<in> set (queue st). p \<notin> fst ` set (prestarted st))
     \<and> (making_room (worker st) \<longrightarrow> length (prestarted st) < lazy_max st \<and> (\<forall>p \<in> set (worker_path (worker st)). p \<notin> fst ` set (prestarted st)))
     \<and> length (prestarted st) \<le> lazy_max st \<and> 0 < lazy_max st
     \<and> (\<forall>p \<in> set (retired st). p \<notin> fst ` set (prestarted st))
     \<and> (ctl_at st = C_draining \<or> drained st \<longrightarrow> closing st) \<and> (drained st \<longrightarrow> queue st = [] \<and> worker st = W_idle \<and> prestarted st = [])"

lemma lazy_invD:
  assumes "lazy_inv st"
  shows "owned_once st" "distinct (worker_path (worker st) @ queue st)" "set (futures st) = set (worker_path (worker st) @ queue st)"
    "distinct (map fst (prestarted st))" "\<forall>p \<in> set (queue st). p \<notin> fst ` set (prestarted st)"
    "making_room (worker st) \<Longrightarrow> length (prestarted st) < lazy_max st \<and> (\<forall>p \<in> set (worker_path (worker st)). p \<notin> fst ` set (prestarted st))"
    "length (prestarted st) \<le> lazy_max st" "0 < lazy_max st" "\<forall>p \<in> set (retired st). p \<notin> fst ` set (prestarted st)"
    "ctl_at st = C_draining \<or> drained st \<longrightarrow> closing st" "drained st \<longrightarrow> queue st = [] \<and> worker st = W_idle \<and> prestarted st = []"
  using assms by (simp_all add: lazy_inv_def)

lemma distinct_sub: "\<lbrakk>distinct xs; mset ys \<subseteq># mset xs\<rbrakk> \<Longrightarrow> distinct ys"
  unfolding distinct_count_atmost_1
  by (metis One_nat_def count_mset_0_iff le_0_eq le_Suc_eq mset_subset_eq_count)

lemma owned_sub:
  assumes "owned_once st" "mset (owners st') \<subseteq># mset (owners st)" "set (live st') \<subseteq> set (live st) \<inter> set (owners st')" "next_proc st' = next_proc st"
  shows "owned_once st'"
proof -
  have "distinct (owners st')" using assms(1,2) distinct_sub by (auto simp: owned_once_def)
  moreover have "set (owners st') \<subseteq> set (owners st)" using assms(2) by (metis set_mset_mono set_mset_mset)
  ultimately show ?thesis using assms(1,3,4) by (auto simp: owned_once_def)
qed

lemma owned_perm:
  assumes "owned_once st" "mset (owners st') = mset (owners st)" "set (live st') \<subseteq> set (live st)" "next_proc st' = next_proc st"
  shows "owned_once st'"
proof (rule owned_sub [OF assms(1) _ _ assms(4)])
  have "set (owners st') = set (owners st)" using assms(2) by (metis set_mset_mset)
  then show "set (live st') \<subseteq> set (live st) \<inter> set (owners st')" using assms(1,3) by (auto simp: owned_once_def)
qed (simp add: assms(2))

lemma evict_ok:
  assumes "evict m xs = (es, ys)" "0 < m"
  shows "map snd xs = es @ map snd ys \<and> length ys < m \<and> (\<exists>zs. xs = zs @ ys)"
  using assms by (induction xs arbitrary: es) (auto split: if_splits prod.splits)

lemma pop_mset: "\<lbrakk>distinct (map fst xs); map_of xs p = Some x\<rbrakk> \<Longrightarrow> mset (map snd xs) = add_mset x (mset (map snd (AList.delete p xs)))"
proof (induction xs)
  case (Cons a xs)
  show ?case
  proof (cases "fst a = p")
    case True
    then have "AList.delete p xs = xs" using Cons.prems(1) by (metis delete_id distinct.simps(2) list.simps(9) image_set)
    then show ?thesis using True Cons.prems(2) by (cases a) simp
  next
    case False
    then show ?thesis using Cons by (cases a) auto
  qed
qed simp

lemma pop_none: "map_of xs p = None \<Longrightarrow> AList.delete p xs = xs"
  by (simp add: delete_id map_of_eq_None_iff)

lemma delete_keys: "fst ` set (AList.delete p xs) = fst ` set xs - {p}" "length (AList.delete p xs) \<le> length xs"
  "distinct (map fst xs) \<Longrightarrow> distinct (map fst (AList.delete p xs))"
  by (force simp: AList.delete_eq length_filter_le distinct_map_filter)+

section \<open>Every step keeps it\<close>

lemma schedule_inv: "lazy_inv st \<Longrightarrow> lazy_inv (schedule_lazy_prestart p st)"
  unfolding schedule_lazy_prestart_def by (auto simp: lazy_inv_def owned_once_def owners_def)

lemma on_durable_inv: "lazy_inv st \<Longrightarrow> lazy_inv (on_durable_image d st)"
  by (simp add: on_durable_image_def schedule_inv)

lemma exits_inv: "lazy_inv st \<Longrightarrow> lazy_inv (st\<lparr>live := removeAll x (live st)\<rparr>)"
  by (auto simp: lazy_inv_def owned_once_def owners_def)

lemma stop_proc_inv:
  assumes "lazy_inv st0" "owned_once (stop_proc x st)"
    and "prestarted st = prestarted st0" "futures st = futures st0" "retired st = retired st0" "closing st = closing st0"
      "drained st = drained st0" "queue st = queue st0" "lazy_max st = lazy_max st0"
    and "worker_path (worker st) = worker_path (worker st0)" "making_room (worker st) \<Longrightarrow> making_room (worker st0)"
      "worker st0 = W_idle \<Longrightarrow> worker st = W_idle" "ctl_at st = C_draining \<Longrightarrow> ctl_at st0 = C_draining"
  shows "lazy_inv (stop_proc x st)"
  using assms(2-) lazy_invD [OF assms(1)] unfolding lazy_inv_def by (simp add: stop_proc_def)

lemma worker_step_inv:
  assumes "worker_step st st'" and inv: "lazy_inv st"
  shows "lazy_inv st'"
  using assms(1)
proof cases
  case (start_task p q)
  show ?thesis
  proof (cases "closing st \<or> p \<in> set (retired st)")
    case True
    then show ?thesis using start_task inv
      by (auto simp: begin_prestart_def lazy_inv_def owned_once_def owners_def)
  next
    case False
    obtain es ks where e: "evict (lazy_max st) (prestarted st) = (es, ks)" by fastforce
    note k = evict_ok [OF e lazy_invD(8) [OF inv]]
    have st': "st' = st\<lparr>queue := q, prestarted := ks, worker := W_evicting p es\<rparr>" using start_task False e by (simp add: begin_prestart_def)
    have "owned_once st'" by (rule owned_perm [OF lazy_invD(1) [OF inv]]) (use k start_task(2) in \<open>simp_all only: st', simp_all add: owners_def flip: mset_map\<close>)
    moreover have "fst ` set ks \<subseteq> fst ` set (prestarted st)" "distinct (map fst ks)" using k lazy_invD(4) [OF inv] by auto
    moreover have "\<forall>r \<in> set (p # q). r \<notin> fst ` set ks" using calculation(2) lazy_invD(5) [OF inv] start_task(3) by auto
    moreover have "\<forall>r \<in> set (retired st). r \<notin> fst ` set ks" using calculation(2) lazy_invD(9) [OF inv] by blast
    ultimately show ?thesis using lazy_invD(2,3,8,10,11) [OF inv] start_task(2,3) k by (simp add: lazy_inv_def st')
  qed
next
  case (stop_evicted p x xs)
  have "owned_once st'" by (rule owned_sub [OF lazy_invD(1) [OF inv]])
      (use stop_evicted lazy_invD(1) [OF inv] in \<open>auto simp: owners_def stop_proc_def owned_once_def\<close>)
  then show ?thesis unfolding stop_evicted(1) by (rule stop_proc_inv [OF inv]) (use stop_evicted in simp_all)
next
  case (check_dir p is_dir)
  then show ?thesis using inv by (auto simp: lazy_inv_def owned_once_def owners_def)
next
  case (spawn p start)
  have "owned_once st'" using lazy_invD(1) [OF inv] spawn by (cases "spawn_lazy_pages_daemon start = Inr ()") (auto simp: spawn_prestart_def owned_once_def owners_def less_Suc_eq)
  then show ?thesis using lazy_invD(2-) [OF inv] spawn by (cases "spawn_lazy_pages_daemon start = Inr ()") (simp_all add: spawn_prestart_def lazy_inv_def)
next
  case (publish p x)
  then show ?thesis using inv
    by (auto simp: publish_prestart_def lazy_inv_def owned_once_def owners_def update_new_key)
next
  case (drop p x)
  have "owned_once st'" by (rule owned_sub [OF lazy_invD(1) [OF inv]])
      (use drop lazy_invD(1) [OF inv] in \<open>auto simp: owners_def stop_proc_def owned_once_def\<close>)
  then show ?thesis unfolding drop(1) by (rule stop_proc_inv [OF inv]) (use drop in simp_all)
next
  case (finish p)
  then show ?thesis using inv by (auto simp: end_prestart_def wake_waiter_def lazy_inv_def owned_once_def owners_def)
qed

text \<open>Taking a daemon out of the idle ones hands it to the controller's thread.\<close>

lemma popped_inv:
  assumes inv: "lazy_inv st" and c: "control_holds (ctl_at st) = []" "ctl_at st \<noteq> C_draining"
    and st1: "st1 = st\<lparr>prestarted := AList.delete p (prestarted st), ctl_at := c'\<rparr>"
    and h: "control_holds c' = (case map_of (prestarted st) p of Some x \<Rightarrow> [x] | None \<Rightarrow> [])" "c' \<noteq> C_draining"
  shows "lazy_inv st1"
proof -
  have "mset (map snd (prestarted st)) = mset (control_holds c') + mset (map snd (AList.delete p (prestarted st)))"
    using pop_mset [OF lazy_invD(4) [OF inv], of p] pop_none [of "prestarted st" p] h(1) by (auto split: option.splits)
  then have "owned_once st1" by (intro owned_perm [OF lazy_invD(1) [OF inv]]) (simp_all add: st1 owners_def c(1) flip: mset_map)
  then show ?thesis using lazy_invD [OF inv] delete_keys [where p = p and xs = "prestarted st"] h(2)
    by (auto simp: lazy_inv_def st1 simp del: mset_map)
qed

lemma readers_inv:
  assumes inv: "lazy_inv st" and "owned_once st'" "ctl_at st' \<noteq> C_draining \<or> ctl_at st = C_draining"
    and "prestarted st' = prestarted st" "futures st' = futures st" "retired st' = retired st" "closing st' = closing st"
      "drained st' = drained st" "queue st' = queue st" "lazy_max st' = lazy_max st" "worker st' = worker st"
  shows "lazy_inv st'"
  using assms(2-) lazy_invD [OF inv] unfolding lazy_inv_def by simp

lemma reap_owned:
  assumes "owned_once st"
  shows "owned_once (reap_readers st)"
proof (rule owned_sub [OF assms])
  have "mset (map fst (filter (\<lambda>(x, p). x \<in> set (live st)) (readers st))) \<subseteq># mset (map fst (readers st))"
    by (simp add: image_mset_subseteq_mono)
  then show "mset (owners (reap_readers st)) \<subseteq># mset (owners st)" by (simp add: owners_def reap_readers_def del: mset_map)
  show "set (live (reap_readers st)) \<subseteq> set (live st) \<inter> set (owners (reap_readers st))"
  proof
    fix x assume "x \<in> set (live (reap_readers st))"
    then have l: "x \<in> set (live st)" by (simp add: reap_readers_def)
    moreover have "x \<in> set (owners st)" using assms l by (auto simp: owned_once_def)
    ultimately show "x \<in> set (live st) \<inter> set (owners (reap_readers st))" by (force simp: owners_def reap_readers_def)
  qed
qed (simp add: reap_readers_def)

lemma reap_fields [simp]:
  "prestarted (reap_readers st) = prestarted st" "futures (reap_readers st) = futures st" "retired (reap_readers st) = retired st"
  "closing (reap_readers st) = closing st" "drained (reap_readers st) = drained st" "queue (reap_readers st) = queue st"
  "lazy_max (reap_readers st) = lazy_max st" "worker (reap_readers st) = worker st" "ctl_at (reap_readers st) = ctl_at st"
  "live (reap_readers st) = live st" "next_proc (reap_readers st) = next_proc st"
  by (simp_all add: reap_readers_def)

lemma start_owned:
  assumes "owned_once st" "control_holds (ctl_at st) = []"
  shows "owned_once (start_lazy_pages_daemon start p st)"
  using reap_owned [OF assms(1)] assms(2) unfolding start_lazy_pages_daemon_def Let_def owned_once_def owners_def
  by (cases "spawn_lazy_pages_daemon start = Inr ()") (auto simp: less_Suc_eq)

lemma control_step_inv:
  assumes "control_step st st'" and inv: "lazy_inv st"
  shows "lazy_inv st'"
  using assms(1)
proof cases
  case (take p)
  then show ?thesis
    by (intro popped_inv [OF inv, where p = p and c' = "ctl_at st'"])
       (auto simp: take_first_def pop_prestarted_def split: option.splits)
next
  case (waited p)
  then show ?thesis
    by (intro popped_inv [OF inv, where p = p and c' = "ctl_at st'"])
       (auto simp: take_again_def pop_prestarted_def split: option.splits)
next
  case (got p x)
  have "owned_once st'"
  proof (cases "x \<in> set (live st)")
    case True
    then show ?thesis by (intro owned_perm [OF lazy_invD(1) [OF inv]]) (simp_all add: got use_taken_def owners_def)
  next
    case False
    then show ?thesis using lazy_invD(1) [OF inv] by (auto simp: got use_taken_def owned_once_def owners_def)
  qed
  then show ?thesis by (rule readers_inv [OF inv]) (simp_all add: got use_taken_def)
next
  case (start p polls)
  then have "owned_once st'" using start_owned [OF lazy_invD(1) [OF inv]] by simp
  then show ?thesis by (rule readers_inv [OF inv]) (simp_all add: start start_lazy_pages_daemon_def Let_def)
next
  case (stop_reader x p)
  have "owned_once (stop_proc x st)" using lazy_invD(1) [OF inv] by (auto simp: owned_once_def owners_def stop_proc_def)
  then have "owned_once st'" using reap_owned by (simp add: stop_reader stop_lazy_pages_daemon_def)
  then show ?thesis by (rule readers_inv [OF inv]) (simp_all add: stop_reader stop_lazy_pages_daemon_def stop_proc_def)
next
  case reap
  have "owned_once st'" using reap_owned [OF lazy_invD(1) [OF inv]] reap by simp
  then show ?thesis by (rule readers_inv [OF inv]) (simp_all add: reap)
next
  case (retire p)
  show ?thesis
  proof (cases "p = []")
    case False
    define st0 where "st0 = st\<lparr>prestarted := AList.delete p (prestarted st), ctl_at := C_stopping (case map_of (prestarted st) p of Some x \<Rightarrow> [x] | None \<Rightarrow> [])\<rparr>"
    have i0: "lazy_inv st0" by (rule popped_inv [OF inv _ _ st0_def]) (use retire in \<open>auto split: option.splits\<close>)
    have "st' = st0\<lparr>retired := p # retired st\<rparr>" using False retire by (simp add: retire_lazy_prestart_def pop_prestarted_def st0_def)
    moreover have "p \<notin> fst ` set (prestarted st0)" "retired st0 = retired st" using delete_keys(1) [where p = p and xs = "prestarted st"] by (simp_all add: st0_def)
    ultimately show ?thesis using i0 by (simp add: lazy_inv_def owned_once_def owners_def)
  qed (use retire inv in \<open>simp add: retire_lazy_prestart_def\<close>)
next
  case (stop_one x xs)
  have "owned_once st'" by (rule owned_sub [OF lazy_invD(1) [OF inv]])
      (use stop_one lazy_invD(1) [OF inv] in \<open>auto simp: owners_def stop_proc_def owned_once_def\<close>)
  then show ?thesis unfolding stop_one(1) by (rule stop_proc_inv [OF inv]) (use stop_one in simp_all)
next
  case close_idle
  have "owned_once st'" by (rule owned_perm [OF lazy_invD(1) [OF inv]]) (simp_all add: close_idle close_last_def owners_def)
  then show ?thesis using lazy_invD [OF inv] close_idle by (auto simp: lazy_inv_def close_last_def)
qed (use inv in \<open>auto simp: lazy_inv_def owned_once_def owners_def close_first_def\<close>)

inductive lazy_reachable :: "bool \<Rightarrow> int \<Rightarrow> lazy \<Rightarrow> bool" where
  init: "lazy_reachable on n (init_lazy on n)"
| step: "\<lbrakk>lazy_reachable on n st; lazy_step st st'\<rbrakk> \<Longrightarrow> lazy_reachable on n st'"

lemma lazy_reachable_inv: "lazy_reachable on n st \<Longrightarrow> lazy_inv st"
proof (induction rule: lazy_reachable.induct)
  case (init on n)
  then show ?case by (simp add: init_lazy_def lazy_inv_def owned_once_def owners_def)
next
  case (step on n st st')
  from step.hyps(2) step.IH show ?case
    by cases (auto intro: worker_step_inv control_step_inv on_durable_inv schedule_inv exits_inv)
qed


section \<open>What the controller can rely on\<close>

lemma spawn_ready_iff:
  "spawn_lazy_pages_daemon start = Inr () \<longleftrightarrow> (\<exists>before after. start = Some (before @ Status (Some 0) # after) \<and> Died \<notin> set before)"
proof -
  have "await_ready polls = Inr () \<longleftrightarrow> (\<exists>before after. polls = before @ Status (Some 0) # after \<and> Died \<notin> set before)" for polls
  proof (induction polls rule: await_ready.induct)
    case (3 b polls)
    show ?case
    proof (cases "b = Some 0")
      case False
      then have "(\<exists>before after. Status b # polls = before @ Status (Some 0) # after \<and> Died \<notin> set before)
          \<longleftrightarrow> (\<exists>before after. polls = before @ Status (Some 0) # after \<and> Died \<notin> set before)"
        by (auto simp: Cons_eq_append_conv) (metis list.set_intros(1) poll.distinct(1) set_ConsD)
      then show ?thesis using 3 False by simp
    qed (auto intro: exI [of _ "[]"])
  qed (auto simp: Cons_eq_append_conv)
  then show ?thesis by (auto simp: spawn_lazy_pages_daemon_def split: option.splits)
qed

lemma step_keeps_max: "lazy_step st st' \<Longrightarrow> lazy_max st' = lazy_max st"
  by (auto elim!: lazy_step.cases worker_step.cases control_step.cases
      simp: begin_prestart_def spawn_prestart_def publish_prestart_def end_prestart_def wake_waiter_def stop_proc_def take_first_def take_again_def
        pop_prestarted_def use_taken_def start_lazy_pages_daemon_def Let_def stop_lazy_pages_daemon_def retire_lazy_prestart_def close_first_def
        close_last_def on_durable_image_def schedule_lazy_prestart_def split: prod.splits option.splits)

lemma reachable_max: "lazy_reachable on n st \<Longrightarrow> lazy_max st = nat (max 1 n)"
  by (induction rule: lazy_reachable.induct) (simp_all add: init_lazy_def step_keeps_max)

text \<open>A restore that waits for a background start waits for a task that the pool still has.\<close>

definition waiter_served :: "lazy \<Rightarrow> bool" where
  "waiter_served st \<longleftrightarrow> (\<forall>p. ctl_at st = C_waiting p \<longrightarrow> p \<in> set (futures st))"

lemma worker_serves: "\<lbrakk>worker_step st st'; waiter_served st\<rbrakk> \<Longrightarrow> waiter_served st'"
  by (auto elim!: worker_step.cases simp: waiter_served_def begin_prestart_def spawn_prestart_def publish_prestart_def end_prestart_def
      wake_waiter_def stop_proc_def split: prod.splits if_splits)

lemma control_serves: "\<lbrakk>control_step st st'; waiter_served st\<rbrakk> \<Longrightarrow> waiter_served st'"
  by (auto elim!: control_step.cases simp: waiter_served_def stop_proc_def take_first_def take_again_def pop_prestarted_def use_taken_def
      start_lazy_pages_daemon_def Let_def stop_lazy_pages_daemon_def retire_lazy_prestart_def close_first_def close_last_def reap_readers_def
      split: prod.splits option.splits if_splits)

lemma lazy_reachable_served: "lazy_reachable on n st \<Longrightarrow> waiter_served st"
proof (induction rule: lazy_reachable.induct)
  case (init on n)
  then show ?case by (simp add: init_lazy_def waiter_served_def)
next
  case (step on n st st')
  from step.hyps(2) step.IH show ?case
  proof cases
    case work
    then show ?thesis using step.IH by (rule worker_serves)
  next
    case control
    then show ?thesis using step.IH by (rule control_serves)
  qed (auto simp: waiter_served_def on_durable_image_def schedule_lazy_prestart_def)
qed

lemma worker_moves:
  assumes "lazy_inv st" "p \<in> set (futures st)"
  shows "\<exists>st'. worker_step st st'"
proof (cases "worker st")
  case W_idle
  then obtain q qs where "queue st = q # qs" using lazy_invD(3) [OF assms(1)] assms(2) by (cases "queue st") auto
  then show ?thesis using start_task [OF W_idle] by blast
next
  case (W_evicting q xs)
  then show ?thesis using stop_evicted check_dir by (cases xs) blast+
qed (blast intro: worker_step.intros)+

text \<open>
  C21. Whatever the interleaving of the prestart worker, the controller's thread, the callbacks of finished dumps and
  the exits of daemons: at most \<^verbatim>\<open>lazy_prestart_max\<close> idle daemons are kept, one per image, and none for an image
  that garbage collection has retired; every running daemon belongs to exactly one place that will stop it, the idle table,
  the worker, the controller's thread or the list of readers, and no daemon is in two of them; a restore that waits for a
  background start always finds the worker able to move; and once the shutdown has drained the pool, stopped what it
  took and stopped the readers, no daemon runs any more.
\<close>

theorem lazy_daemons_owned:
  assumes "lazy_reachable on n st"
  shows "int (length (prestarted st)) \<le> max 1 n \<and> distinct (map fst (prestarted st)) \<and> fst ` set (prestarted st) \<inter> set (retired st) = {}
    \<and> distinct (owners st) \<and> set (live st) \<subseteq> set (owners st)
    \<and> (\<forall>p. ctl_at st = C_waiting p \<longrightarrow> (\<exists>st'. worker_step st st'))
    \<and> (drained st \<and> ctl_at st = C_free \<and> readers st = [] \<longrightarrow> live st = [])"
proof -
  note inv = lazy_invD [OF lazy_reachable_inv [OF assms]]
  have "int (length (prestarted st)) \<le> max 1 n" using inv(7) reachable_max [OF assms] by simp
  moreover have "distinct (map fst (prestarted st))" "fst ` set (prestarted st) \<inter> set (retired st) = {}" using inv(4,9) by auto
  moreover have "distinct (owners st)" and l: "set (live st) \<subseteq> set (owners st)" using inv(1) by (simp_all add: owned_once_def)
  moreover have "\<exists>st'. worker_step st st'" if w: "ctl_at st = C_waiting p" for p
    using worker_moves [OF lazy_reachable_inv [OF assms]] lazy_reachable_served [OF assms] w by (auto simp: waiter_served_def)
  moreover have "live st = []" if d: "drained st" "ctl_at st = C_free" "readers st = []"
    using l inv(11) d by (simp add: owners_def)
  ultimately show ?thesis by blast
qed

section \<open>Runs\<close>

lemma then_work: "\<lbrakk>lazy_reachable on n st; worker_step st st'\<rbrakk> \<Longrightarrow> lazy_reachable on n st'"
  by (rule lazy_reachable.step [OF _ lazy_step.work])

lemma then_control: "\<lbrakk>lazy_reachable on n st; control_step st st'\<rbrakk> \<Longrightarrow> lazy_reachable on n st'"
  by (rule lazy_reachable.step [OF _ lazy_step.control])

text \<open>
  A restore wakes up when the dump of its image is done; the callbacks of the same future run after the waiters have been
  notified. The restore then finds neither a daemon nor a pending start and starts one itself, while the callback
  schedules a start of the same image: two daemons serve one image directory.
\<close>

definition run_take :: lazy where "run_take = take_first ''img'' (init_lazy True 1)"
definition run_callback :: lazy where
  "run_callback = on_durable_image \<lparr>d_failed = False, d_state = Some ''DURABLE_READY'', d_error = False, d_stats_error = False, d_path = ''img''\<rparr> run_take"
definition run_begin :: lazy where "run_begin = begin_prestart ''img'' (run_callback\<lparr>queue := []\<rparr>)"
definition run_spawn :: lazy where "run_spawn = spawn_prestart (Some [Status (Some 0)]) ''img'' (run_begin\<lparr>worker := W_spawning ''img''\<rparr>)"
definition run_start :: lazy where "run_start = start_lazy_pages_daemon (Some [Status None, Status (Some 0)]) ''img'' run_spawn"
definition run_publish :: lazy where "run_publish = publish_prestart ''img'' 0 run_start"

lemmas runs = spawn_lazy_pages_daemon_def run_take_def run_callback_def run_begin_def run_spawn_def run_start_def run_publish_def init_lazy_def take_first_def pop_prestarted_def
  on_durable_image_def schedule_lazy_prestart_def begin_prestart_def spawn_prestart_def start_lazy_pages_daemon_def Let_def reap_readers_def publish_prestart_def

lemma run_publish_reachable: "lazy_reachable True 1 run_publish"
proof -
  have "lazy_reachable True 1 run_take" unfolding run_take_def
    by (rule then_control [OF init control_step.take]) (simp add: init_lazy_def)
  then have "lazy_reachable True 1 run_callback" unfolding run_callback_def by (rule lazy_reachable.step [OF _ lazy_step.durable])
  then have "lazy_reachable True 1 run_begin" unfolding run_begin_def
    by (rule then_work) (rule start_task, simp_all add: runs)
  then have "lazy_reachable True 1 (run_begin\<lparr>worker := W_spawning ''img''\<rparr>)"
    by (rule then_work) (use check_dir [of run_begin "''img''" True] in \<open>simp add: runs\<close>)
  then have "lazy_reachable True 1 run_spawn" unfolding run_spawn_def
    by (rule then_work) (rule spawn, simp)
  then have "lazy_reachable True 1 run_start" unfolding run_start_def
    by (rule then_control) (rule control_step.start, simp add: runs)
  then show ?thesis unfolding run_publish_def
    by (rule then_work) (rule publish, simp add: runs)
qed

lemma double_start_reachable:
  "\<exists>st. lazy_reachable True 1 st \<and> (''img'', 0) \<in> set (prestarted st) \<and> (1, ''img'') \<in> set (readers st) \<and> {0, 1} \<subseteq> set (live st)"
  by (rule exI [of _ run_publish]) (simp add: run_publish_reachable, simp add: runs)

theorem lazy_daemons_owned_witness:
  "prestarted run_publish = [(''img'', 0)] \<and> owners run_publish = [0, 1] \<and> distinct (owners run_publish) \<and> set (live run_publish) \<subseteq> set (owners run_publish)"
  using lazy_daemons_owned [OF run_publish_reachable] by (simp add: runs owners_def)

end
