(* ===== verification/Async_Resources.thy ===== *)
theory Async_Resources
  imports Proc_Files
begin

text \<open>
  The resource contract of asynchronous dumps, \<^verbatim>\<open>backends/deltabox/gsd/async_resources.py\<close>. A worker may be dumped from a
  forked copy only if nothing it holds refers to the files that will change: its working directory, executable, descriptors
  and mappings are read from \<^verbatim>\<open>/proc\<close> and checked. The accepted contract then drives the reopening of the transports in the copy and
  their inheritance by a restore. What \<^verbatim>\<open>/proc\<close> shows, with the errors of reading it, is a record; descriptors are numbers in a
  table of references to open files, as the kernel keeps it.
\<close>

unbundle bit_operations_syntax

section \<open>Paths and text\<close>

definition DEFAULT_FIFOS :: "string list" where
  "DEFAULT_FIFOS = [''/tmp/agent.in'', ''/tmp/agent.out'', ''/tmp/template_ctrl.in'', ''/tmp/template_ctrl.out'', ''/tmp/npd_req.fifo'', ''/tmp/npd_notify.fifo'']"

definition DEFAULT_STDIO :: "string list" where
  "DEFAULT_STDIO = [''/tmp/replay-agent.log'', ''/tmp/criu_agent.log'', ''/tmp/replay.log'']"

definition IMMUTABLE_MAPPING_ROOTS :: "string list" where
  "IMMUTABLE_MAPPING_ROOTS = [''/usr'', ''/lib'', ''/lib64'', ''/bin'', ''/sbin'', ''/opt'', ''/app'', ''/mnt/data/opt'']"

definition absolute :: "string \<Rightarrow> string result" where
  "absolute path = (if \<not> prefix ''/'' path \<or> CHR 0x00 \<in> set path
     then Inl (UnsupportedAsyncResources (''Expected an absolute resource path: '' @ py_repr path)) else Inr (normpath path))"

definition rstrip_slash :: "string \<Rightarrow> string" where
  "rstrip_slash s = rev (dropWhile (\<lambda>c. c = CHR ''/'') (rev s))"

definition within :: "string \<Rightarrow> string \<Rightarrow> bool" where
  "within path base \<longleftrightarrow> path = base \<or> prefix (rstrip_slash base @ ''/'') path"

definition immutable_path :: "string \<Rightarrow> bool" where
  "immutable_path path \<longleftrightarrow> list_ex (within path) IMMUTABLE_MAPPING_ROOTS"

definition deleted :: "string \<Rightarrow> bool" where
  "deleted path \<longleftrightarrow> suffix '' (deleted)'' path"

text \<open>\<^verbatim>\<open>str.splitlines\<close>.\<close>

definition line_break :: "char \<Rightarrow> bool" where
  "line_break c \<longleftrightarrow> (of_char c :: nat) \<in> {10, 11, 12, 13, 28, 29, 30, 133}"

fun break_line :: "string \<Rightarrow> string \<times> string" where
  "break_line [] = ([], [])"
| "break_line (c # cs) = (if line_break c then ([], if c = CHR 0x0D \<and> prefix [CHR 0x0A] cs then tl cs else cs)
     else case break_line cs of (l, r) \<Rightarrow> (c # l, r))"

lemma break_line_shorter: "s \<noteq> [] \<Longrightarrow> length (snd (break_line s)) < length s"
proof (induction s)
  case (Cons c cs)
  then show ?case by (cases cs) (auto split: prod.splits)
qed simp

function splitlines :: "string \<Rightarrow> string list" where
  "splitlines s = (if s = [] then [] else case break_line s of (l, r) \<Rightarrow> l # splitlines r)"
  by pat_completeness auto
termination
  by (relation "measure length") (auto, metis break_line_shorter snd_conv)

declare splitlines.simps [simp del]

definition octal :: "string \<Rightarrow> int option" where
  "octal s = (let t = strip_ws s in
     if t \<noteq> [] \<and> list_all (\<lambda>c. is_digit c \<and> (of_char c :: nat) < 56) t then Some (foldl (\<lambda>a c. 8 * a + (int (of_char c) - 48)) 0 t) else None)"

definition need :: "py_error \<Rightarrow> 'a option \<Rightarrow> 'a result" where
  "need e x = (case x of Some a \<Rightarrow> Inr a | None \<Rightarrow> Inl e)"

definition colon_pair :: "string \<Rightarrow> string \<times> string" where
  "colon_pair line = (takeWhile (\<lambda>c. c \<noteq> CHR '':'') line, drop 1 (dropWhile (\<lambda>c. c \<noteq> CHR '':'') line))"

text \<open>The dictionary of an \<^verbatim>\<open>fdinfo\<close> file: the last line with a key counts.\<close>

definition fdinfo_dict :: "string \<Rightarrow> (string \<times> string) list" where
  "fdinfo_dict text = fold (\<lambda>(k, v). AList.update k v) (map colon_pair (filter (\<lambda>l. CHR '':'' \<in> set l) (splitlines text))) []"

section \<open>What \<^verbatim>\<open>/proc\<close> shows\<close>

datatype ftype = Fifo | Chr_dev | Reg_file | Other_type

record fd_reading =
  r_link :: "string result"
  r_info :: "string result"
  r_mode :: "ftype result"
  r_inode :: "nat result"

record worker_view =
  stat_first :: "string result"
  stat_again :: "string result"
  task_names :: "string list result"
  children_text :: "string result"
  child_stat :: "nat \<Rightarrow> string result"
  cwd_link :: "string result"
  exe_link :: "string result"
  fd_first :: "string list result"
  fd_again :: "string list result"
  fd_reading_of :: "string \<Rightarrow> fd_reading"
  maps_text :: "string result"

text \<open>\<^verbatim>\<open>except (OSError, ValueError, KeyError)\<close>.\<close>

fun caught :: "py_error \<Rightarrow> bool" where
  "caught (ValueError _) = True"
| "caught (KeyError _) = True"
| "caught e = os_error e"

definition guarded :: "string \<Rightarrow> 'a result \<Rightarrow> 'a result" where
  "guarded msg r = (case r of Inl e \<Rightarrow> Inl (if caught e then UnsupportedAsyncResources msg else e) | Inr a \<Rightarrow> Inr a)"

definition unsupported_if :: "bool \<Rightarrow> string \<Rightarrow> unit result" where
  "unsupported_if c msg = raise_if c (UnsupportedAsyncResources msg)"

section \<open>Identity and children\<close>

definition status_identity :: "string result \<Rightarrow> (string \<times> nat) result" where
  "status_identity stat = andthen stat (\<lambda>text.
     case rpartition (CHR '')'') text of (_, sep, tail) \<Rightarrow>
       let fields = tokens tail in
       andthen (unsupported_if (sep = [] \<or> length fields < 20) ''Cannot verify worker process identity'') (\<lambda>_.
       andthen (need (ValueError ''invalid literal for int()'') (decimal (fields ! 19))) (\<lambda>t. Inr (fields ! 0, t))))"

definition identity :: "string result \<Rightarrow> nat result" where
  "identity stat = andthen (status_identity stat) (\<lambda>(_, t). Inr t)"

text \<open>A child has exited if its files are gone or it is a zombie.\<close>

definition child_exited :: "worker_view \<Rightarrow> nat \<Rightarrow> bool result" where
  "child_exited v child = (case status_identity (child_stat v child) of
       Inl (FileNotFoundError _) \<Rightarrow> Inr True
     | Inl e \<Rightarrow> Inl e
     | Inr (state, _) \<Rightarrow> Inr (state \<in> {''Z'', ''X''}))"

definition validate_replay_children :: "worker_view \<Rightarrow> nat list \<Rightarrow> nat list result" where
  "validate_replay_children v allowed_child_pids = guarded ''Cannot verify async replay children''
     (andthen (children_text v) (\<lambda>text.
      andthen (need (ValueError ''invalid literal for int()'') (decimals (tokens text))) (\<lambda>children.
      let rest = filter (\<lambda>c. c \<notin> set allowed_child_pids) (remdups children) in
      andthen (map_result (child_exited v) rest) (\<lambda>gone.
      andthen (unsupported_if (False \<in> set gone) ''Live/unowned worker children'') (\<lambda>_. Inr (sort rest))))))"

section \<open>Descriptors\<close>

datatype fd_kind = Protocol_fifo | Null_stdio | Diagnostic_stdio

record fd_item =
  i_fd :: nat
  i_path :: string
  i_flags :: int
  i_kind :: fd_kind
  i_cloexec :: bool
  i_inode :: nat
  i_mnt_id :: nat

definition O_ACCMODE :: int where "O_ACCMODE = 3"
definition O_RDWR :: int where "O_RDWR = 2"
definition O_APPEND :: int where "O_APPEND = 1024"
definition O_NONBLOCK :: int where "O_NONBLOCK = 2048"
definition O_CLOEXEC :: int where "O_CLOEXEC = 524288"

definition fd_kind_of ::
  "string list \<Rightarrow> string list \<Rightarrow> nat \<Rightarrow> string \<Rightarrow> int \<Rightarrow> ftype \<Rightarrow> string list \<Rightarrow> (fd_kind \<times> string list) result" where
  "fd_kind_of fifos stdio fd path flags mode seen =
     (if mode = Fifo \<and> path \<in> set fifos then
        andthen (unsupported_if (flags AND O_ACCMODE \<noteq> O_RDWR \<or> flags AND O_NONBLOCK = 0) ''Protocol FIFO must be RDWR|NONBLOCK'') (\<lambda>_.
        andthen (unsupported_if (path \<in> set seen) ''Duplicated protocol FIFO descriptors are unsupported'') (\<lambda>_.
        Inr (Protocol_fifo, path # seen)))
      else if mode = Chr_dev \<and> path = ''/dev/null'' \<and> fd \<in> {0, 1, 2} then Inr (Null_stdio, seen)
      else if mode = Reg_file \<and> fd \<in> {1, 2} \<and> path \<in> set stdio \<and> flags AND O_APPEND \<noteq> 0 then Inr (Diagnostic_stdio, seen)
      else Inl (UnsupportedAsyncResources ''Unsupported persistent fd''))"

definition check_fd ::
  "worker_view \<Rightarrow> string list \<Rightarrow> string list \<Rightarrow> string \<Rightarrow> string list \<times> fd_item list \<Rightarrow> (string list \<times> fd_item list) result" where
  "check_fd v fifos stdio name st =
     (case st of (seen, fds) \<Rightarrow> let r = fd_reading_of v name in
      andthen (need (ValueError ''invalid literal for int()'') (decimal name)) (\<lambda>fd.
      andthen (r_link r) (\<lambda>path.
      andthen (r_info r) (\<lambda>text. let info = fdinfo_dict text in
      andthen (need (KeyError ''flags'') (map_of info ''flags'')) (\<lambda>f.
      andthen (need (ValueError ''invalid literal for int()'') (octal f)) (\<lambda>flags.
      andthen (r_mode r) (\<lambda>mode.
      andthen (unsupported_if (deleted path) ''Deleted-open fd'') (\<lambda>_.
      andthen (fd_kind_of fifos stdio fd path flags mode seen) (\<lambda>(kind, seen).
      andthen (r_inode r) (\<lambda>inode.
      andthen (need (KeyError ''mnt_id'') (map_of info ''mnt_id'')) (\<lambda>m.
      andthen (need (ValueError ''invalid literal for int()'') (decimal (strip_ws m))) (\<lambda>mnt.
      Inr (seen, fds @ [\<lparr>i_fd = fd, i_path = path, i_flags = flags, i_kind = kind, i_cloexec = (flags AND O_CLOEXEC \<noteq> 0),
        i_inode = inode, i_mnt_id = mnt\<rparr>])))))))))))))"

text \<open>\<^verbatim>\<open>sorted(names, key=int)\<close>.\<close>

definition sorted_names :: "string list \<Rightarrow> string list result" where
  "sorted_names names = (if list_all (\<lambda>n. decimal n \<noteq> None) names then Inr (sort_key dec_val names)
     else Inl (ValueError ''invalid literal for int()''))"

section \<open>Mappings\<close>

record mapping_item =
  m_address :: string
  m_perms :: string
  m_path :: string

definition check_mapping :: "string \<Rightarrow> string \<Rightarrow> mapping_item list \<Rightarrow> mapping_item list result" where
  "check_mapping overlay line mappings =
     (let fields = split_ws 5 line in
      andthen (unsupported_if (length fields < 5 \<or> length (fields ! 1) \<noteq> 4) ''Malformed worker mapping'') (\<lambda>_.
      let address = fields ! 0; perms = fields ! 1; path = (if length fields = 6 then fields ! 5 else []) in
      if path \<in> {''[vvar]'', ''[vvar_vclock]'', ''[vdso]'', ''[vsyscall]''} then Inr mappings
      else
        let immutable_shared = (perms = ''r--s'' \<and> prefix ''/'' path \<and> \<not> within path overlay \<and> immutable_path path) in
        andthen (unsupported_if (perms ! 3 \<noteq> CHR ''p'' \<and> \<not> immutable_shared) ''Shared mapping cannot be frozen by fork'') (\<lambda>_.
        andthen (unsupported_if (deleted path) ''Deleted file mapping is unsupported'') (\<lambda>_.
        if prefix ''/'' path then
          andthen (unsupported_if (within path overlay) ''Persistent mapping of mutable task files'') (\<lambda>_.
          andthen (unsupported_if (\<not> immutable_path path) ''Mapping outside the immutable image contract'') (\<lambda>_.
          Inr (mappings @ [\<lparr>m_address = address, m_perms = perms, m_path = path\<rparr>])))
        else
          andthen (unsupported_if (path \<noteq> [] \<and> path \<notin> {''[heap]'', ''[stack]''} \<and> \<not> prefix ''[anon:'' path) ''Unknown mapping resource'') (\<lambda>_.
          Inr mappings)))))"

section \<open>The contract\<close>

record contract =
  c_version :: int
  c_pid :: nat
  c_starttime :: nat
  c_overlay :: string
  c_cwd :: string
  c_executable :: string
  c_fds :: "fd_item list"
  c_mappings :: "mapping_item list"
  c_fifos_external :: bool
  c_mutable_refs :: bool
  c_exited :: "nat list"

definition check_cwd :: "string \<Rightarrow> string \<Rightarrow> unit result" where
  "check_cwd overlay cwd =
     andthen (unsupported_if (\<not> prefix ''/'' cwd \<or> deleted cwd) ''Unsupported cwd'') (\<lambda>_.
     unsupported_if (within cwd overlay) ''Worker cwd refers to mutable task overlay'')"

definition check_executable :: "string \<Rightarrow> string \<Rightarrow> unit result" where
  "check_executable overlay executable =
     unsupported_if (deleted executable \<or> within executable overlay \<or> \<not> immutable_path executable)
       ''Executable outside the immutable image contract''"

definition validate_replay_resources ::
  "worker_view \<Rightarrow> nat \<Rightarrow> string \<Rightarrow> nat list \<Rightarrow> string list option \<Rightarrow> string list option \<Rightarrow> contract result" where
  "validate_replay_resources v pid overlay_mount_point allowed_child_pids allowed_fifo_paths allowed_stdio_paths =
     andthen (absolute overlay_mount_point) (\<lambda>overlay.
     andthen (map_result absolute (case allowed_fifo_paths of None \<Rightarrow> DEFAULT_FIFOS | Some ps \<Rightarrow> ps)) (\<lambda>fifos.
     andthen (map_result absolute (case allowed_stdio_paths of None \<Rightarrow> DEFAULT_STDIO | Some ps \<Rightarrow> ps)) (\<lambda>stdio.
     guarded ''Cannot verify async replay resources''
      (andthen (identity (stat_first v)) (\<lambda>ident.
       andthen (task_names v) (\<lambda>tasks.
       andthen (unsupported_if (tasks \<noteq> [dec pid]) ''Worker must be single-threaded'') (\<lambda>_.
       andthen (validate_replay_children v allowed_child_pids) (\<lambda>exited.
       andthen (cwd_link v) (\<lambda>cwd.
       andthen (check_cwd overlay cwd) (\<lambda>_.
       andthen (exe_link v) (\<lambda>executable.
       andthen (check_executable overlay executable) (\<lambda>_.
       andthen (andthen (fd_first v) sorted_names) (\<lambda>fd_names.
       andthen (fold_result (check_fd v fifos stdio) fd_names ([], [])) (\<lambda>(_, fds).
       andthen (maps_text v) (\<lambda>text.
       andthen (fold_result (check_mapping overlay) (splitlines text) []) (\<lambda>mappings.
       andthen (identity (stat_again v)) (\<lambda>ident2.
       andthen (if ident \<noteq> ident2 then Inr True else andthen (andthen (fd_again v) sorted_names) (\<lambda>names2. Inr (fd_names \<noteq> names2))) (\<lambda>changed.
       andthen (unsupported_if changed ''Worker resources changed during inspection'') (\<lambda>_.
       Inr \<lparr>c_version = 1, c_pid = pid, c_starttime = ident, c_overlay = overlay, c_cwd = cwd, c_executable = executable, c_fds = fds,
         c_mappings = mappings, c_fifos_external = True, c_mutable_refs = False, c_exited = exited\<rparr>)))))))))))))))))))"

definition validate_contract :: "contract \<Rightarrow> string result" where
  "validate_contract c =
     andthen (unsupported_if (c_version c \<noteq> 1 \<or> \<not> c_fifos_external c \<or> c_mutable_refs c) ''Unknown or unverified async resource contract'') (\<lambda>_.
     absolute (c_overlay c))"

section \<open>The disposable copy\<close>

record child_fd =
  f_fd :: nat
  f_path :: string
  f_flags :: int
  f_kind :: fd_kind
  f_cloexec :: bool

record child_contract =
  k_version :: int
  k_overlay :: string
  k_cwd :: string
  k_fifos_external :: bool
  k_mutable_refs :: bool
  k_fds :: "child_fd list"

definition dump_child_contract :: "contract \<Rightarrow> child_contract result" where
  "dump_child_contract c = andthen (validate_contract c) (\<lambda>_.
     Inr \<lparr>k_version = c_version c, k_overlay = c_overlay c, k_cwd = c_cwd c, k_fifos_external = c_fifos_external c, k_mutable_refs = c_mutable_refs c,
       k_fds = map (\<lambda>i. \<lparr>f_fd = i_fd i, f_path = i_path i, f_flags = i_flags i, f_kind = i_kind i, f_cloexec = i_cloexec i\<rparr>) (c_fds c)\<rparr>)"

definition validate_child_contract :: "child_contract \<Rightarrow> string result" where
  "validate_child_contract c =
     andthen (unsupported_if (k_version c \<noteq> 1 \<or> \<not> k_fifos_external c \<or> k_mutable_refs c) ''Unknown or unverified async resource contract'') (\<lambda>_.
     absolute (k_overlay c))"

text \<open>
  The descriptors of a process refer to open files; two descriptors may share one. A new open file gets a number of its own, and
  \<^verbatim>\<open>os.open\<close> the lowest free descriptor, not inheritable.
\<close>

record open_file =
  o_path :: string
  o_flags :: int

record fd_table =
  fd_ref :: "(nat \<times> nat \<times> bool) list"
  open_files :: "(nat \<times> open_file) list"
  next_file :: nat

definition lowest_free :: "(nat \<times> 'a) list \<Rightarrow> nat" where
  "lowest_free t = hd (filter (\<lambda>n. n \<notin> fst ` set t) [0..<Suc (length t)])"

definition os_open :: "(string \<Rightarrow> py_error option) \<Rightarrow> string \<Rightarrow> int \<Rightarrow> fd_table \<Rightarrow> (nat, fd_table) eff" where
  "os_open open_error path flags t = (case open_error path of
       Some e \<Rightarrow> (Inl e, t)
     | None \<Rightarrow> let fd = lowest_free (fd_ref t) in
         (Inr fd, t\<lparr>fd_ref := AList.update fd (next_file t, True) (fd_ref t),
           open_files := AList.update (next_file t) \<lparr>o_path = path, o_flags = flags\<rparr> (open_files t), next_file := Suc (next_file t)\<rparr>))"

definition os_dup2 :: "nat \<Rightarrow> nat \<Rightarrow> bool \<Rightarrow> fd_table \<Rightarrow> fd_table" where
  "os_dup2 old new inheritable t = (case map_of (fd_ref t) old of
       Some (file, _) \<Rightarrow> t\<lparr>fd_ref := AList.update new (file, \<not> inheritable) (fd_ref t)\<rparr> | None \<Rightarrow> t)"

definition set_inheritable :: "nat \<Rightarrow> bool \<Rightarrow> fd_table \<Rightarrow> fd_table" where
  "set_inheritable fd inheritable t = (case map_of (fd_ref t) fd of
       Some (file, _) \<Rightarrow> t\<lparr>fd_ref := AList.update fd (file, \<not> inheritable) (fd_ref t)\<rparr> | None \<Rightarrow> t)"

definition os_close :: "nat \<Rightarrow> fd_table \<Rightarrow> fd_table" where
  "os_close fd t = t\<lparr>fd_ref := AList.delete fd (fd_ref t)\<rparr>"

definition reopen_fd :: "(string \<Rightarrow> py_error option) \<Rightarrow> child_fd \<Rightarrow> fd_table \<Rightarrow> (unit, fd_table) eff" where
  "reopen_fd open_error item t = bind_eff (os_open open_error (f_path item) (f_flags item AND NOT O_CLOEXEC) t) (\<lambda>newfd t.
     (Inr (), if newfd \<noteq> f_fd item then os_close newfd (os_dup2 newfd (f_fd item) (\<not> f_cloexec item) t)
       else set_inheritable newfd (\<not> f_cloexec item) t))"

record frozen_view =
  v_overlay :: string
  v_lowers :: "string list"

definition freeze_dump_view ::
  "(string \<Rightarrow> py_error option) \<Rightarrow> child_contract \<Rightarrow> string list \<Rightarrow> fd_table \<Rightarrow> (frozen_view, fd_table) eff" where
  "freeze_dump_view open_error c lower_layers t =
     (case andthen (validate_child_contract c) (\<lambda>target.
          andthen (unsupported_if (within (k_cwd c) target) ''Guard-only replay cannot freeze an overlay cwd'') (\<lambda>_.
          andthen (map_result absolute lower_layers) (\<lambda>lowers. Inr (target, lowers)))) of
        Inl e \<Rightarrow> (Inl e, t)
      | Inr (target, lowers) \<Rightarrow> bind_eff (for_eff (reopen_fd open_error) (k_fds c) t) (\<lambda>_ t. (Inr \<lparr>v_overlay = target, v_lowers = lowers\<rparr>, t)))"

section \<open>Descriptors for a restore\<close>

record inherit_state =
  h_seen :: "string list"
  h_fds :: "nat list"
  h_args :: "string list"

definition inherit_fd ::
  "(string \<Rightarrow> py_error option) \<Rightarrow> (string \<Rightarrow> ftype) \<Rightarrow> fd_item \<Rightarrow> inherit_state \<times> fd_table \<Rightarrow> (unit, inherit_state \<times> fd_table) eff" where
  "inherit_fd open_error type_of_path item = (\<lambda>(h, t).
     if i_kind item \<notin> {Protocol_fifo, Diagnostic_stdio} \<or> i_path item \<in> set (h_seen h) then (Inr (), (h, t))
     else
       let h = h\<lparr>h_seen := i_path item # h_seen h\<rparr> in
       case os_open open_error (i_path item) (i_flags item AND NOT O_CLOEXEC) t of
         (Inl e, t) \<Rightarrow> (Inl e, (h, t))
       | (Inr fd, t) \<Rightarrow>
           let h = h\<lparr>h_fds := h_fds h @ [fd]\<rparr>; mode = type_of_path (i_path item) in
           if i_kind item = Protocol_fifo \<and> mode \<noteq> Fifo \<or> i_kind item = Diagnostic_stdio \<and> mode \<noteq> Reg_file
           then (Inl (UnsupportedAsyncResources ''External replay transport replaced''), (h, t))
           else (Inr (), (h\<lparr>h_args := h_args h @ [''--inherit-fd'', ''fd['' @ dec fd @ '']:'' @ dropWhile (\<lambda>c. c = CHR ''/'') (i_path item)]\<rparr>, t)))"

text \<open>
  The context manager: what happens before the body runs, and the clean-up, which also runs when the opening fails.
\<close>

definition close_inherited :: "nat list \<Rightarrow> fd_table \<Rightarrow> fd_table" where
  "close_inherited fds t = fold os_close fds t"

definition protocol_restore_fds ::
  "(string \<Rightarrow> py_error option) \<Rightarrow> (string \<Rightarrow> ftype) \<Rightarrow> contract \<Rightarrow> fd_table \<Rightarrow> (string list \<times> nat list, fd_table) eff" where
  "protocol_restore_fds open_error type_of_path c t = (case validate_contract c of
       Inl e \<Rightarrow> (Inl e, t)
     | Inr _ \<Rightarrow> (case for_eff (inherit_fd open_error type_of_path) (c_fds c) (\<lparr>h_seen = [], h_fds = [], h_args = []\<rparr>, t) of
           (Inl e, (h, t)) \<Rightarrow> (Inl e, close_inherited (h_fds h) t)
         | (Inr _, (h, t)) \<Rightarrow> (Inr (h_args h, h_fds h), t)))"

section \<open>What an accepted worker holds\<close>

definition fd_ok :: "string list \<Rightarrow> string list \<Rightarrow> fd_item \<Rightarrow> bool" where
  "fd_ok fifos stdio i \<longleftrightarrow> \<not> deleted (i_path i) \<and> (case i_kind i of
       Protocol_fifo \<Rightarrow> i_path i \<in> set fifos \<and> i_flags i AND O_ACCMODE = O_RDWR \<and> i_flags i AND O_NONBLOCK \<noteq> 0
     | Null_stdio \<Rightarrow> i_path i = ''/dev/null'' \<and> i_fd i \<le> 2
     | Diagnostic_stdio \<Rightarrow> i_path i \<in> set stdio \<and> i_fd i \<in> {1, 2} \<and> i_flags i AND O_APPEND \<noteq> 0)"

definition fd_read_as :: "worker_view \<Rightarrow> string \<Rightarrow> fd_item \<Rightarrow> bool" where
  "fd_read_as v name i \<longleftrightarrow> decimal name = Some (i_fd i) \<and> r_link (fd_reading_of v name) = Inr (i_path i)
     \<and> r_mode (fd_reading_of v name) = Inr (case i_kind i of Protocol_fifo \<Rightarrow> Fifo | Null_stdio \<Rightarrow> Chr_dev | Diagnostic_stdio \<Rightarrow> Reg_file)"

definition fifo_paths :: "fd_item list \<Rightarrow> string list" where
  "fifo_paths fds = map i_path (filter (\<lambda>i. i_kind i = Protocol_fifo) fds)"

lemma need_Inr [simp]: "need e x = Inr a \<longleftrightarrow> x = Some a"
  by (simp add: need_def split: option.splits)

lemma unsupported_if_Inr [simp]: "unsupported_if c m = Inr u \<longleftrightarrow> \<not> c"
  by (simp add: unsupported_if_def)

lemma guarded_Inr [simp]: "guarded m r = Inr a \<longleftrightarrow> r = Inr a"
  by (simp add: guarded_def split: sum.splits)

lemma check_fd_ok:
  assumes "check_fd v fifos stdio name (seen, fds) = Inr (seen', fds')"
  obtains i where "fds' = fds @ [i]" "fd_read_as v name i" "fd_ok fifos stdio i"
    "seen' = (if i_kind i = Protocol_fifo then i_path i # seen else seen)" "i_kind i = Protocol_fifo \<longrightarrow> i_path i \<notin> set seen"
    "i_cloexec i = (i_flags i AND O_CLOEXEC \<noteq> 0)"
proof -
  from assms obtain fd path f flags mode kind inode mnt where r:
    "decimal name = Some fd" "r_link (fd_reading_of v name) = Inr path" "octal f = Some flags" "r_mode (fd_reading_of v name) = Inr mode"
    "\<not> deleted path" "fd_kind_of fifos stdio fd path flags mode seen = Inr (kind, seen')"
    "fds' = fds @ [\<lparr>i_fd = fd, i_path = path, i_flags = flags, i_kind = kind, i_cloexec = (flags AND O_CLOEXEC \<noteq> 0), i_inode = inode, i_mnt_id = mnt\<rparr>]"
    by (auto simp: check_fd_def Let_def andthen_Inr_iff)
  show thesis
    using r that [OF r(7)] by (auto simp: fd_kind_of_def fd_read_as_def fd_ok_def andthen_Inr_iff split: if_splits)
qed

lemma check_fds_ok:
  assumes "fold_result (check_fd v fifos stdio) names (seen, fds) = Inr (seen', fds')"
    and "set seen = set (fifo_paths fds)" "distinct (fifo_paths fds)"
  shows "\<exists>new. fds' = fds @ new \<and> list_all2 (\<lambda>n i. fd_read_as v n i \<and> fd_ok fifos stdio i \<and> i_cloexec i = (i_flags i AND O_CLOEXEC \<noteq> 0)) names new
    \<and> distinct (fifo_paths fds')"
  using assms
proof (induction names arbitrary: seen fds)
  case Nil
  then show ?case by (simp add: exI [of _ "[]"])
next
  case (Cons n names)
  obtain seen1 fds1 where c: "check_fd v fifos stdio n (seen, fds) = Inr (seen1, fds1)"
    and rest: "fold_result (check_fd v fifos stdio) names (seen1, fds1) = Inr (seen', fds')" using Cons.prems(1) by (auto simp: andthen_Inr_iff)
  from c obtain i where i: "fds1 = fds @ [i]" "fd_read_as v n i" "fd_ok fifos stdio i"
    "seen1 = (if i_kind i = Protocol_fifo then i_path i # seen else seen)" "i_kind i = Protocol_fifo \<longrightarrow> i_path i \<notin> set seen"
    "i_cloexec i = (i_flags i AND O_CLOEXEC \<noteq> 0)" by (rule check_fd_ok)
  have "set seen1 = set (fifo_paths fds1)" "distinct (fifo_paths fds1)"
    using i(1,4,5) Cons.prems(2,3) by (auto simp: fifo_paths_def)
  from Cons.IH [OF rest this] obtain new where "fds' = fds1 @ new"
    "list_all2 (\<lambda>n i. fd_read_as v n i \<and> fd_ok fifos stdio i \<and> i_cloexec i = (i_flags i AND O_CLOEXEC \<noteq> 0)) names new" "distinct (fifo_paths fds')" by blast
  then show ?case using i by (intro exI [of _ "i # new"]) simp
qed

text \<open>A mapping that a forked copy keeps unchanged.\<close>

definition line_perms :: "string \<Rightarrow> string" where
  "line_perms line = split_ws 5 line ! 1"

definition line_path :: "string \<Rightarrow> string" where
  "line_path line = (let fields = split_ws 5 line in if length fields = 6 then fields ! 5 else [])"

definition mapping_ok :: "string \<Rightarrow> string \<Rightarrow> bool" where
  "mapping_ok overlay line \<longleftrightarrow> line_path line \<in> {''[vvar]'', ''[vvar_vclock]'', ''[vdso]'', ''[vsyscall]''}
     \<or> (line_perms line ! 3 = CHR ''p'' \<or> line_perms line = ''r--s'' \<and> prefix ''/'' (line_path line))
       \<and> (if prefix ''/'' (line_path line) then \<not> within (line_path line) overlay \<and> immutable_path (line_path line) \<and> \<not> deleted (line_path line)
          else line_path line \<in> {[], ''[heap]'', ''[stack]''} \<or> prefix ''[anon:'' (line_path line))"

lemma check_mapping_ok: "check_mapping overlay line ms = Inr ms' \<Longrightarrow> mapping_ok overlay line"
  by (auto simp: check_mapping_def mapping_ok_def line_path_def line_perms_def Let_def andthen_Inr_iff split: if_splits)

lemma check_mappings_ok:
  "fold_result (check_mapping overlay) lines ms = Inr ms' \<Longrightarrow> \<forall>line \<in> set lines. mapping_ok overlay line"
  by (induction lines arbitrary: ms) (auto simp: andthen_Inr_iff dest: check_mapping_ok)

lemma map_result_absolute: "map_result absolute ps = Inr qs \<Longrightarrow> set qs = normpath ` set ps"
  by (induction ps arbitrary: qs) (auto simp: andthen_Inr_iff absolute_def split: if_splits)

lemma map_result_member: "\<lbrakk>map_result f xs = Inr ys; x \<in> set xs\<rbrakk> \<Longrightarrow> \<exists>y \<in> set ys. f x = Inr y"
  by (induction xs arbitrary: ys) (auto simp: andthen_Inr_iff)

lemma children_ok:
  assumes "validate_replay_children v allowed = Inr gone"
  obtains listing children where "children_text v = Inr listing" "decimals (tokens listing) = Some children"
    "\<forall>c \<in> set children - set allowed. child_exited v c = Inr True"
proof -
  from assms obtain listing children flags where c: "children_text v = Inr listing" "decimals (tokens listing) = Some children"
    "map_result (child_exited v) (filter (\<lambda>c. c \<notin> set allowed) (remdups children)) = Inr flags" "False \<notin> set flags"
    by (auto simp: validate_replay_children_def Let_def andthen_Inr_iff)
  have "child_exited v c = Inr True" if "c \<in> set children - set allowed" for c
  proof -
    have "c \<in> set (filter (\<lambda>c. c \<notin> set allowed) (remdups children))" using that by simp
    with map_result_member [OF c(3)] obtain b where "b \<in> set flags" "child_exited v c = Inr b" by blast
    moreover have "b = True" using c(4) calculation(1) by (metis (full_types))
    ultimately show ?thesis by simp
  qed
  then show thesis using that c(1,2) by blast
qed

lemma accepted_parts:
  assumes "validate_replay_resources v pid overlay allowed fifos stdio = Inr c"
  obtains fs ss names body where
    "absolute overlay = Inr (c_overlay c)" "map_result absolute (case fifos of None \<Rightarrow> DEFAULT_FIFOS | Some ps \<Rightarrow> ps) = Inr fs"
    "map_result absolute (case stdio of None \<Rightarrow> DEFAULT_STDIO | Some ps \<Rightarrow> ps) = Inr ss"
    "validate_replay_children v allowed = Inr (c_exited c)" "cwd_link v = Inr (c_cwd c)" "check_cwd (c_overlay c) (c_cwd c) = Inr ()"
    "exe_link v = Inr (c_executable c)" "check_executable (c_overlay c) (c_executable c) = Inr ()"
    "fd_first v = Inr names" "sorted_names names = Inr (sort_key dec_val names)"
    "\<exists>seen. fold_result (check_fd v fs ss) (sort_key dec_val names) ([], []) = Inr (seen, c_fds c)"
    "maps_text v = Inr body" "\<exists>ms. fold_result (check_mapping (c_overlay c)) (splitlines body) [] = Inr ms"
    "c_version c = 1" "c_fifos_external c" "\<not> c_mutable_refs c" "task_names v = Inr [dec pid]"
  using assms by (auto simp: validate_replay_resources_def andthen_Inr_iff sorted_names_def split: if_splits)


lemma check_cwd_iff: "check_cwd overlay cwd = Inr u \<longleftrightarrow> prefix ''/'' cwd \<and> \<not> deleted cwd \<and> \<not> within cwd overlay"
  by (auto simp: check_cwd_def andthen_Inr_iff)

lemma check_executable_iff: "check_executable overlay exe = Inr u \<longleftrightarrow> \<not> deleted exe \<and> \<not> within exe overlay \<and> immutable_path exe"
  by (simp add: check_executable_def)

lemma accepted_fds:
  assumes "validate_replay_resources v pid overlay allowed fifos stdio = Inr c" "fd_first v = Inr names"
    and "map_result absolute (case fifos of None \<Rightarrow> DEFAULT_FIFOS | Some ps \<Rightarrow> ps) = Inr fs"
    and "map_result absolute (case stdio of None \<Rightarrow> DEFAULT_STDIO | Some ps \<Rightarrow> ps) = Inr ss"
  shows "list_all2 (\<lambda>n i. fd_read_as v n i \<and> fd_ok fs ss i \<and> i_cloexec i = (i_flags i AND O_CLOEXEC \<noteq> 0)) (sort_key dec_val names) (c_fds c)"
    and "distinct (fifo_paths (c_fds c))"
proof -
  obtain seen where "fold_result (check_fd v fs ss) (sort_key dec_val names) ([], []) = Inr (seen, c_fds c)"
    using accepted_parts [OF assms(1)] assms(2-4) by (metis Inr_inject)
  from check_fds_ok [OF this]
  show "list_all2 (\<lambda>n i. fd_read_as v n i \<and> fd_ok fs ss i \<and> i_cloexec i = (i_flags i AND O_CLOEXEC \<noteq> 0)) (sort_key dec_val names) (c_fds c)"
    "distinct (fifo_paths (c_fds c))" by (auto simp: fifo_paths_def)
qed

lemma list_all2_ex: "\<lbrakk>list_all2 P xs ys; x \<in> set xs\<rbrakk> \<Longrightarrow> \<exists>y \<in> set ys. P x y"
  by (induction rule: list_all2_induct) auto


section \<open>The copy gets transports of its own\<close>

lemma lowest_free_fresh: "lowest_free t \<notin> fst ` set t"
proof -
  have "filter (\<lambda>n. n \<notin> fst ` set t) [0..<Suc (length t)] \<noteq> []"
  proof
    assume "filter (\<lambda>n. n \<notin> fst ` set t) [0..<Suc (length t)] = []"
    then have "{0..<Suc (length t)} \<subseteq> fst ` set t" by (auto simp: filter_empty_conv simp del: upt_Suc)
    then have "card {0..<Suc (length t)} \<le> card (fst ` set t)" by (intro card_mono) auto
    also have "\<dots> \<le> length t" by (metis card_image_le card_length finite_set le_trans)
    finally show False by simp
  qed
  then have "lowest_free t \<in> set (filter (\<lambda>n. n \<notin> fst ` set t) [0..<Suc (length t)])" unfolding lowest_free_def by (rule hd_in_set)
  then show ?thesis by (simp del: upt_Suc)
qed

lemma reopen_fd_effect:
  assumes "open_error (f_path item) = None" "f_fd item \<in> fst ` set (fd_ref t)"
  obtains t' where "reopen_fd open_error item t = (Inr (), t')" "next_file t' = Suc (next_file t)"
    "map_of (fd_ref t') = (map_of (fd_ref t))(f_fd item \<mapsto> (next_file t, f_cloexec item))"
    "map_of (open_files t') = (map_of (open_files t))(next_file t \<mapsto> \<lparr>o_path = f_path item, o_flags = f_flags item AND NOT O_CLOEXEC\<rparr>)"
proof -
  let ?n = "lowest_free (fd_ref t)"
  have n: "?n \<noteq> f_fd item" using lowest_free_fresh [of "fd_ref t"] assms(2) by metis
  have "map_of (fd_ref t) ?n = None" using lowest_free_fresh [of "fd_ref t"] by (simp add: map_of_eq_None_iff)
  then have "((map_of (fd_ref t))(?n \<mapsto> (next_file t, True), f_fd item \<mapsto> (next_file t, f_cloexec item)))(?n := None)
    = (map_of (fd_ref t))(f_fd item \<mapsto> (next_file t, f_cloexec item))" using n by (auto simp: fun_upd_def)
  then show thesis using that n assms(1)
    by (simp add: reopen_fd_def os_open_def Let_def os_dup2_def os_close_def update_conv' delete_conv')
qed

lemma reopen_fds_effect:
  assumes "\<forall>p. open_error p = None" "f_fd ` set items \<subseteq> fst ` set (fd_ref t)" "distinct (map f_fd items)"
  shows "\<exists>t'. for_eff (reopen_fd open_error) items t = (Inr (), t')
    \<and> (\<forall>i \<in> set items. \<exists>file \<ge> next_file t. map_of (fd_ref t') (f_fd i) = Some (file, f_cloexec i)
         \<and> map_of (open_files t') file = Some \<lparr>o_path = f_path i, o_flags = f_flags i AND NOT O_CLOEXEC\<rparr>)
    \<and> (\<forall>fd. fd \<notin> f_fd ` set items \<longrightarrow> map_of (fd_ref t') fd = map_of (fd_ref t) fd)
    \<and> (\<forall>file < next_file t. map_of (open_files t') file = map_of (open_files t) file)"
  using assms
proof (induction items arbitrary: t)
  case (Cons x items)
  obtain t1 where t1: "reopen_fd open_error x t = (Inr (), t1)" "next_file t1 = Suc (next_file t)"
    "map_of (fd_ref t1) = (map_of (fd_ref t))(f_fd x \<mapsto> (next_file t, f_cloexec x))"
    "map_of (open_files t1) = (map_of (open_files t))(next_file t \<mapsto> \<lparr>o_path = f_path x, o_flags = f_flags x AND NOT O_CLOEXEC\<rparr>)"
    using reopen_fd_effect [of open_error x t] Cons.prems(1,2) by auto
  have "fst ` set (fd_ref t1) = insert (f_fd x) (fst ` set (fd_ref t))"
    using arg_cong [OF t1(3), of dom] by (simp add: dom_map_of_conv_image_fst)
  then have "f_fd ` set items \<subseteq> fst ` set (fd_ref t1)" using Cons.prems(2) by auto
  from Cons.IH [OF Cons.prems(1) this] Cons.prems(3) obtain t' where t': "for_eff (reopen_fd open_error) items t1 = (Inr (), t')"
    "\<forall>i \<in> set items. \<exists>file \<ge> next_file t1. map_of (fd_ref t') (f_fd i) = Some (file, f_cloexec i)
         \<and> map_of (open_files t') file = Some \<lparr>o_path = f_path i, o_flags = f_flags i AND NOT O_CLOEXEC\<rparr>"
    "\<forall>fd. fd \<notin> f_fd ` set items \<longrightarrow> map_of (fd_ref t') fd = map_of (fd_ref t1) fd"
    "\<forall>file < next_file t1. map_of (open_files t') file = map_of (open_files t1) file" by auto
  have x: "map_of (fd_ref t') (f_fd x) = Some (next_file t, f_cloexec x)"
    "map_of (open_files t') (next_file t) = Some \<lparr>o_path = f_path x, o_flags = f_flags x AND NOT O_CLOEXEC\<rparr>"
    using t'(3,4) t1(2-4) Cons.prems(3) by auto
  show ?case
  proof (intro exI [of _ t'] conjI ballI allI impI)
    fix i assume "i \<in> set (x # items)"
    then show "\<exists>file \<ge> next_file t. map_of (fd_ref t') (f_fd i) = Some (file, f_cloexec i)
         \<and> map_of (open_files t') file = Some \<lparr>o_path = f_path i, o_flags = f_flags i AND NOT O_CLOEXEC\<rparr>"
      using x t'(2) t1(2) by (metis Suc_leD le_refl set_ConsD)
  qed (use t1 t' in auto)
qed simp

text \<open>A path that was made absolute stays as it is.\<close>

lemma norm_step_chars: "set (norm_step r c cs) \<subseteq> insert c (set cs)"
  by (cases cs) (auto simp: norm_step_def)

lemma fold_norm_chars: "set (fold (norm_step r) ps cs) \<subseteq> set ps \<union> set cs"
proof (induction ps arbitrary: cs)
  case (Cons p ps)
  then show ?case using norm_step_chars [of r p cs] by fastforce
qed simp

lemma split_on_chars: "p \<in> set (split_on sep s) \<Longrightarrow> set p \<subseteq> set s"
proof (induction s arbitrary: p)
  case (Cons c s)
  obtain q qs where q: "split_on sep s = q # qs" using split_on_ne by (metis list.exhaust)
  have "set q \<subseteq> set s" "\<And>r. r \<in> set qs \<Longrightarrow> set r \<subseteq> set s" using Cons.IH by (simp_all add: q)
  then show ?case using Cons.prems by (fastforce simp: q split: if_splits)
qed simp

lemma join_on_chars: "set (join_on sep ps) \<subseteq> insert sep (\<Union> (set ` set ps))"
  by (induction sep ps rule: join_on.induct) auto

lemma normpath_chars: "prefix ''/'' p \<Longrightarrow> set (normpath p) \<subseteq> set p"
proof -
  assume p: "prefix ''/'' p"
  then have sl: "CHR ''/'' \<in> set p" by (auto simp: prefix_def)
  define cs where "cs = rev (fold (norm_step (initial_slashes p \<noteq> [])) (split_on (CHR ''/'') p) [])"
  have "set c \<subseteq> set p" if "c \<in> set cs" for c
  proof -
    have "c \<in> set (split_on (CHR ''/'') p)"
      using that fold_norm_chars [of "initial_slashes p \<noteq> []" "split_on (CHR ''/'') p" "[]"] by (auto simp: cs_def)
    then show ?thesis by (rule split_on_chars)
  qed
  then have "set (join_on (CHR ''/'') cs) \<subseteq> set p" using join_on_chars [of "CHR ''/''" cs] sl by blast
  moreover have "normpath p = initial_slashes p @ join_on (CHR ''/'') cs"
    using p by (auto simp: normpath_def Let_def cs_def initial_slashes_def)
  moreover have "set (initial_slashes p) \<subseteq> set p" using sl by (auto simp: initial_slashes_def)
  ultimately show ?thesis by auto
qed

lemma absolute_again:
  assumes "absolute p = Inr q"
  shows "absolute q = Inr q"
proof -
  have p: "prefix ''/'' p" "CHR 0x00 \<notin> set p" "q = normpath p" using assms by (auto simp: absolute_def split: if_splits)
  have "prefix ''/'' q" using p(1,3) by (auto simp: normpath_def Let_def initial_slashes_def)
  moreover have "CHR 0x00 \<notin> set q" using normpath_chars [OF p(1)] p(2,3) by auto
  ultimately show ?thesis using p(3) by (simp add: absolute_def normpath_idempotent)
qed


text \<open>
  C23. The contract of an accepted worker is carried out in the disposable copy without a refusal: once the transports can be opened,
  every descriptor of the contract refers, under its old number and with its old inheritance, to an open file of its own
  with the recorded path and flags; no descriptor outside the contract changes, and no open file that the worker uses.
\<close>

theorem frozen_copy_private:
  assumes v: "validate_replay_resources v pid overlay allowed fifos stdio = Inr c"
    and names: "fd_first v = Inr names" "distinct (map dec_val names)" "dec_val ` set names \<subseteq> fst ` set (fd_ref t)"
    and opens: "\<forall>p. open_error p = None" and lowers: "\<forall>p \<in> set lower_layers. prefix ''/'' p \<and> CHR 0x00 \<notin> set p"
  shows "\<exists>k w t'. dump_child_contract c = Inr k \<and> freeze_dump_view open_error k lower_layers t = (Inr w, t') \<and> v_overlay w = c_overlay c
    \<and> (\<forall>i \<in> set (c_fds c). \<exists>file \<ge> next_file t. map_of (fd_ref t') (i_fd i) = Some (file, i_cloexec i)
         \<and> map_of (open_files t') file = Some \<lparr>o_path = i_path i, o_flags = i_flags i AND NOT O_CLOEXEC\<rparr>)
    \<and> (\<forall>fd. fd \<notin> i_fd ` set (c_fds c) \<longrightarrow> map_of (fd_ref t') fd = map_of (fd_ref t) fd)
    \<and> (\<forall>file < next_file t. map_of (open_files t') file = map_of (open_files t) file)"
proof -
  obtain fs ss where p: "absolute overlay = Inr (c_overlay c)" "check_cwd (c_overlay c) (c_cwd c) = Inr ()"
    "c_version c = 1" "c_fifos_external c" "\<not> c_mutable_refs c"
    "map_result absolute (case fifos of None \<Rightarrow> DEFAULT_FIFOS | Some ps \<Rightarrow> ps) = Inr fs"
    "map_result absolute (case stdio of None \<Rightarrow> DEFAULT_STDIO | Some ps \<Rightarrow> ps) = Inr ss"
    using accepted_parts [OF v] by metis
  note base = absolute_again [OF p(1)]
  define items where "items = map (\<lambda>i. \<lparr>f_fd = i_fd i, f_path = i_path i, f_flags = i_flags i, f_kind = i_kind i, f_cloexec = i_cloexec i\<rparr>) (c_fds c)"
  define k where "k = \<lparr>k_version = c_version c, k_overlay = c_overlay c, k_cwd = c_cwd c, k_fifos_external = c_fifos_external c,
    k_mutable_refs = c_mutable_refs c, k_fds = items\<rparr>"
  have k: "dump_child_contract c = Inr k" using p base by (simp add: dump_child_contract_def validate_contract_def unsupported_if_def k_def items_def)
  have fd: "map i_fd (c_fds c) = map dec_val (sort_key dec_val names)"
    using accepted_fds(1) [OF v names(1) p(6,7)] by (induction rule: list_all2_induct) (auto simp: fd_read_as_def decimal_def split: if_splits)
  have keys: "f_fd ` set items \<subseteq> fst ` set (fd_ref t)"
    using arg_cong [OF fd, of set] names(3) by (simp add: items_def image_image)
  have "mset (map dec_val (sort_key dec_val names)) = mset (map dec_val names)" by simp
  then have "distinct (map i_fd (c_fds c))" unfolding fd using names(2) mset_eq_imp_distinct_iff by blast
  then have "distinct (map f_fd items)" by (simp add: items_def comp_def)
  from reopen_fds_effect [OF opens keys this] obtain t' where t': "for_eff (reopen_fd open_error) items t = (Inr (), t')"
    "\<forall>i \<in> set items. \<exists>file \<ge> next_file t. map_of (fd_ref t') (f_fd i) = Some (file, f_cloexec i)
         \<and> map_of (open_files t') file = Some \<lparr>o_path = f_path i, o_flags = f_flags i AND NOT O_CLOEXEC\<rparr>"
    "\<forall>fd. fd \<notin> f_fd ` set items \<longrightarrow> map_of (fd_ref t') fd = map_of (fd_ref t) fd"
    "\<forall>file < next_file t. map_of (open_files t') file = map_of (open_files t) file" by blast
  have "map_result absolute lower_layers = Inr (map normpath lower_layers)" using lowers by (induction lower_layers) (auto simp: absolute_def)
  then have "freeze_dump_view open_error k lower_layers t = (Inr \<lparr>v_overlay = c_overlay c, v_lowers = map normpath lower_layers\<rparr>, t')"
    using p base t'(1) by (simp add: freeze_dump_view_def validate_child_contract_def unsupported_if_def k_def check_cwd_iff)
  moreover have "f_fd ` set items = i_fd ` set (c_fds c)" by (force simp: items_def)
  ultimately show ?thesis using k t' by (intro exI [of _ k] exI [of _ "\<lparr>v_overlay = c_overlay c, v_lowers = map normpath lower_layers\<rparr>"] exI [of _ t'])
      (auto simp: items_def)
qed

section \<open>Descriptors of a restore are closed again\<close>

definition inherit_inv :: "fd_table \<Rightarrow> inherit_state \<times> fd_table \<Rightarrow> bool" where
  "inherit_inv t0 = (\<lambda>(h, t). (\<forall>fd \<in> set (h_fds h). map_of (fd_ref t0) fd = None)
     \<and> (\<forall>fd. fd \<notin> set (h_fds h) \<longrightarrow> map_of (fd_ref t) fd = map_of (fd_ref t0) fd))"

lemma inherit_fd_inv:
  assumes "inherit_inv t0 s" "inherit_fd open_error type_of_path item s = (r, s')"
  shows "inherit_inv t0 s'"
proof -
  obtain h t where s: "s = (h, t)" by fastforce
  let ?n = "lowest_free (fd_ref t)"
  have n: "map_of (fd_ref t) ?n = None" using lowest_free_fresh [of "fd_ref t"] by (simp add: map_of_eq_None_iff)
  then have "map_of (fd_ref t0) ?n = None" using assms(1) by (cases "?n \<in> set (h_fds h)") (auto simp: inherit_inv_def s)
  then show ?thesis using assms
    by (auto simp: inherit_fd_def inherit_inv_def s os_open_def Let_def update_conv' split: if_splits option.splits)
qed

lemma inherit_fds_inv:
  "\<lbrakk>for_eff (inherit_fd open_error type_of_path) items s = (r, s'); inherit_inv t0 s\<rbrakk> \<Longrightarrow> inherit_inv t0 s'"
  by (erule for_eff_invariant) (auto intro: inherit_fd_inv)

lemma close_fds: "map_of (fd_ref (fold os_close fds t)) fd = (if fd \<in> set fds then None else map_of (fd_ref t) fd)"
  by (induction fds arbitrary: t) (auto simp: os_close_def delete_conv')

lemma inherit_closed:
  assumes "inherit_inv t0 (h, t)"
  shows "map_of (fd_ref (close_inherited (h_fds h) t)) = map_of (fd_ref t0)"
  using assms by (auto simp: close_inherited_def close_fds inherit_inv_def)

text \<open>What has been handed over so far: one descriptor and one argument per transport.\<close>

definition inherit_arg :: "nat \<Rightarrow> string \<Rightarrow> string list" where
  "inherit_arg fd path = [''--inherit-fd'', ''fd['' @ dec fd @ '']:'' @ dropWhile (\<lambda>c. c = CHR ''/'') path]"

definition refers_to :: "fd_table \<Rightarrow> nat \<Rightarrow> string \<Rightarrow> bool" where
  "refers_to t fd path \<longleftrightarrow> (\<exists>file ce f. map_of (fd_ref t) fd = Some (file, ce) \<and> file < next_file t \<and> map_of (open_files t) file = Some f \<and> o_path f = path)"

definition handed :: "inherit_state \<times> fd_table \<Rightarrow> bool" where
  "handed = (\<lambda>(h, t). distinct (h_seen h) \<and> list_all2 (refers_to t) (h_fds h) (rev (h_seen h))
     \<and> h_args h = concat (map2 inherit_arg (h_fds h) (rev (h_seen h))))"

definition transport :: "fd_item \<Rightarrow> bool" where
  "transport i \<longleftrightarrow> i_kind i \<noteq> Null_stdio"

lemma open_refers:
  assumes "os_open open_error path flags t = (Inr fd, t')"
  shows "refers_to t' fd path" "refers_to t x q \<Longrightarrow> refers_to t' x q"
proof -
  have n: "map_of (fd_ref t) (lowest_free (fd_ref t)) = None" using lowest_free_fresh [of "fd_ref t"] by (simp add: map_of_eq_None_iff)
  have "open_error path = None" using assms by (auto simp: os_open_def split: option.splits)
  then have t': "fd = lowest_free (fd_ref t)" "t' = t\<lparr>fd_ref := AList.update fd (next_file t, True) (fd_ref t),
      open_files := AList.update (next_file t) \<lparr>o_path = path, o_flags = flags\<rparr> (open_files t), next_file := Suc (next_file t)\<rparr>"
    using assms by (auto simp: os_open_def Let_def)
  show "refers_to t' fd path" by (auto simp: refers_to_def t'(2) update_conv')
  assume "refers_to t x q"
  then obtain x1 ce f where r: "map_of (fd_ref t) x = Some (x1, ce)" "x1 < next_file t" "map_of (open_files t) x1 = Some f" "o_path f = q"
    by (auto simp: refers_to_def)
  then have "x \<noteq> fd" "x1 \<noteq> next_file t" using n t'(1) by auto
  then show "refers_to t' x q" using r by (auto simp: refers_to_def t'(2) update_conv' intro!: exI [of _ x1] exI [of _ ce])
qed

lemma inherit_fd_ok:
  assumes "inherit_fd open_error type_of_path item (h, t) = (Inr (), (h', t'))" "handed (h, t)"
  shows "handed (h', t')" "set (h_seen h') = set (h_seen h) \<union> (if transport item then {i_path item} else {})"
proof -
  have k: "i_kind item \<notin> {Protocol_fifo, Diagnostic_stdio} \<longleftrightarrow> \<not> transport item" by (cases "i_kind item") (auto simp: transport_def)
  have "handed (h', t') \<and> set (h_seen h') = set (h_seen h) \<union> (if transport item then {i_path item} else {})"
  proof (cases "\<not> transport item \<or> i_path item \<in> set (h_seen h)")
    case True
    then show ?thesis using assms k by (auto simp: inherit_fd_def)
  next
    case False
    obtain fd where o: "os_open open_error (i_path item) (i_flags item AND NOT O_CLOEXEC) t = (Inr fd, t')"
      and h': "h' = h\<lparr>h_seen := i_path item # h_seen h, h_fds := h_fds h @ [fd], h_args := h_args h @ inherit_arg fd (i_path item)\<rparr>"
      using assms(1) False unfolding inherit_fd_def k by (auto simp: inherit_arg_def Let_def split: prod.splits sum.splits if_splits)
    have "list_all2 (refers_to t') (h_fds h) (rev (h_seen h))"
      by (rule list.rel_mono_strong [of "refers_to t"]) (use assms(2) open_refers(2) [OF o] in \<open>auto simp: handed_def\<close>)
    moreover have "length (h_fds h) = length (rev (h_seen h))" using assms(2) by (auto simp: handed_def list_all2_lengthD)
    ultimately show ?thesis using assms(2) False open_refers(1) [OF o] by (auto simp: handed_def h' list_all2_appendI)
  qed
  then show "handed (h', t')" "set (h_seen h') = set (h_seen h) \<union> (if transport item then {i_path item} else {})" by auto
qed

lemma inherit_fds_ok:
  "\<lbrakk>for_eff (inherit_fd open_error type_of_path) items (h, t) = (Inr (), (h', t')); handed (h, t)\<rbrakk>
    \<Longrightarrow> handed (h', t') \<and> set (h_seen h') = set (h_seen h) \<union> i_path ` {i \<in> set items. transport i}"
proof (induction items arbitrary: h t)
  case (Cons i items)
  then obtain h1 t1 where 1: "inherit_fd open_error type_of_path i (h, t) = (Inr (), (h1, t1))"
    and rest: "for_eff (inherit_fd open_error type_of_path) items (h1, t1) = (Inr (), (h', t'))"
    by (auto simp: bind_eff_def split: prod.splits sum.splits)
  note i = inherit_fd_ok [OF 1 Cons.prems(2)]
  show ?case using Cons.IH [OF rest i(1)] i(2) by auto
qed simp

text \<open>
  C24. The descriptors that a restore hands to CRIU never leak: if the opening of the transports fails half-way, and after a restore that used
  them, the controller has the same descriptors as before. When it succeeds, the descriptors refer one to one to the external
  transports of the contract, and the arguments name them.
\<close>

theorem restore_fds_released:
  assumes "protocol_restore_fds open_error type_of_path c t = (r, t')"
  shows "case r of Inl e \<Rightarrow> map_of (fd_ref t') = map_of (fd_ref t)
     | Inr (args, fds) \<Rightarrow> map_of (fd_ref (close_inherited fds t')) = map_of (fd_ref t)
         \<and> (\<exists>paths. distinct paths \<and> set paths = i_path ` {i \<in> set (c_fds c). transport i}
             \<and> list_all2 (refers_to t') fds paths \<and> args = concat (map2 inherit_arg fds paths))"
proof (cases "validate_contract c")
  case (Inr base)
  define h0 where "h0 = \<lparr>h_seen = [], h_fds = [], h_args = []\<rparr>"
  have h0: "inherit_inv t (h0, t)" "handed (h0, t)" "h_seen h0 = []" by (simp_all add: inherit_inv_def handed_def h0_def)
  obtain q h1 t1 where f: "for_eff (inherit_fd open_error type_of_path) (c_fds c) (h0, t) = (q, (h1, t1))" by (metis prod.exhaust)
  note closed = inherit_closed [OF inherit_fds_inv [OF f h0(1)]]
  show ?thesis
  proof (cases q)
    case (Inl e)
    then show ?thesis using assms Inr f closed by (auto simp: protocol_restore_fds_def h0_def)
  next
    case (Inr u)
    then have "r = Inr (h_args h1, h_fds h1)" "t' = t1" using assms \<open>validate_contract c = Inr base\<close> f by (auto simp: protocol_restore_fds_def h0_def)
    moreover have "handed (h1, t1)" "set (h_seen h1) = i_path ` {i \<in> set (c_fds c). transport i}"
      using inherit_fds_ok [of open_error type_of_path "c_fds c" h0 t h1 t1] f Inr h0 by simp_all
    ultimately show ?thesis using closed by (auto simp: handed_def intro!: exI [of _ "rev (h_seen h1)"])
  qed
qed (use assms in \<open>auto simp: protocol_restore_fds_def\<close>)

section \<open>Errors\<close>

text \<open>An error that the checks raise themselves, or that they turn into one of their own.\<close>

definition tame :: "'a result \<Rightarrow> bool" where
  "tame r \<longleftrightarrow> (\<forall>e. r = Inl e \<longrightarrow> caught e \<or> (\<exists>m. e = UnsupportedAsyncResources m))"

lemma tame_basic [simp]:
  "tame (Inr a)" "tame (Inl (UnsupportedAsyncResources m))" "tame (unsupported_if c m)" "tame (need (ValueError m) x)" "tame (need (KeyError m) x)" "tame (absolute p)" "tame (sorted_names ns)"
  by (simp_all add: tame_def unsupported_if_def raise_if_def need_def absolute_def sorted_names_def split: option.splits)

lemma tame_andthen: "\<lbrakk>tame r; \<And>a. r = Inr a \<Longrightarrow> tame (f a)\<rbrakk> \<Longrightarrow> tame (andthen r f)"
  by (cases r) (auto simp: tame_def)

lemma tame_fold: "(\<And>x s. x \<in> set xs \<Longrightarrow> tame (f x s)) \<Longrightarrow> tame (fold_result f xs s)"
  by (induction xs arbitrary: s) (auto intro: tame_andthen)

lemma tame_map: "(\<And>x. x \<in> set xs \<Longrightarrow> tame (f x)) \<Longrightarrow> tame (map_result f xs)"
  by (induction xs) (auto intro!: tame_andthen)

lemma tame_guarded: "tame r \<Longrightarrow> tame (guarded m r)"
  by (cases r) (auto simp: tame_def guarded_def)

text \<open>Reading \<^verbatim>\<open>/proc\<close> fails with errors of the operating system only.\<close>

definition os_errors :: "worker_view \<Rightarrow> bool" where
  "os_errors v \<longleftrightarrow> tame (stat_first v) \<and> tame (stat_again v) \<and> tame (task_names v) \<and> tame (children_text v) \<and> (\<forall>k. tame (child_stat v k))
     \<and> tame (cwd_link v) \<and> tame (exe_link v) \<and> tame (fd_first v) \<and> tame (fd_again v) \<and> tame (maps_text v)
     \<and> (\<forall>n. tame (r_link (fd_reading_of v n)) \<and> tame (r_info (fd_reading_of v n)) \<and> tame (r_mode (fd_reading_of v n)) \<and> tame (r_inode (fd_reading_of v n)))"

lemma tame_identity: "tame stat \<Longrightarrow> tame (status_identity stat)" "tame stat \<Longrightarrow> tame (identity stat)"
proof -
  assume t: "tame stat"
  show s: "tame (status_identity stat)" unfolding status_identity_def
    by (rule tame_andthen [OF t]) (auto simp: Let_def split: prod.splits intro!: tame_andthen)
  show "tame (identity stat)" unfolding identity_def by (rule tame_andthen [OF s]) auto
qed

lemma tame_child: "tame (child_stat v k) \<Longrightarrow> tame (child_exited v k)"
  using tame_identity(1) [of "child_stat v k"] by (auto simp: child_exited_def tame_def split: sum.splits py_error.splits)

lemma tame_children: "os_errors v \<Longrightarrow> tame (validate_replay_children v allowed)"
  unfolding validate_replay_children_def
  by (intro tame_guarded tame_andthen) (auto simp: os_errors_def Let_def intro!: tame_andthen tame_map tame_child)

lemma tame_check_fd: "os_errors v \<Longrightarrow> tame (check_fd v fifos stdio n st)"
proof -
  assume v: "os_errors v"
  have "tame (fd_kind_of fifos stdio fd path flags mode seen)" for fd path flags mode seen
    by (auto simp: fd_kind_of_def intro!: tame_andthen)
  then show ?thesis using v unfolding check_fd_def os_errors_def Let_def by (auto split: prod.splits intro!: tame_andthen)
qed

lemma tame_check_mapping: "tame (check_mapping overlay line ms)"
  by (auto simp: check_mapping_def Let_def intro!: tame_andthen)

definition refuses :: "'a result \<Rightarrow> bool" where
  "refuses r \<longleftrightarrow> (\<forall>e. r = Inl e \<longrightarrow> (\<exists>m. e = UnsupportedAsyncResources m))"

lemma refuses_andthen: "\<lbrakk>refuses r; \<And>a. refuses (f a)\<rbrakk> \<Longrightarrow> refuses (andthen r f)"
  by (cases r) (auto simp: refuses_def)

lemma refuses_absolute: "refuses (absolute p)"
  by (simp add: refuses_def absolute_def)

lemma refuses_map_absolute: "refuses (map_result absolute ps)"
  by (induction ps) (auto intro!: refuses_andthen refuses_absolute, simp_all add: refuses_def)

lemma refuses_guarded: "tame r \<Longrightarrow> refuses (guarded m r)"
  by (auto simp: refuses_def guarded_def tame_def split: sum.splits)

lemma validation_refuses:
  assumes "os_errors v"
  shows "refuses (validate_replay_resources v pid overlay allowed fifos stdio)"
proof -
  have v: "tame (stat_first v)" "tame (stat_again v)" "tame (task_names v)" "tame (cwd_link v)" "tame (exe_link v)" "tame (fd_first v)" "tame (fd_again v)"
    "tame (maps_text v)" using assms by (simp_all add: os_errors_def)
  note ok = v tame_identity(2) [OF v(1)] tame_identity(2) [OF v(2)] tame_children [OF assms] tame_fold tame_check_fd [OF assms] tame_check_mapping
  show ?thesis unfolding validate_replay_resources_def check_cwd_def check_executable_def
    by (intro refuses_andthen refuses_absolute refuses_map_absolute refuses_guarded) (auto intro!: tame_andthen ok)
qed

text \<open>
  POSIX keeps exactly two leading slashes, and so does \<^verbatim>\<open>normpath\<close>: an overlay given as \<^verbatim>\<open>//testbed\<close> is accepted as it is, and the paths that
  \<^verbatim>\<open>/proc\<close> shows below \<^verbatim>\<open>/testbed\<close> do not count as paths within it.
\<close>

lemma double_slash_overlay:
  "absolute ''//testbed'' = Inr ''//testbed'' \<and> \<not> within ''/testbed/repo'' ''//testbed'' \<and> check_cwd ''//testbed'' ''/testbed/repo'' = Inr ()"
  by code_simp

section \<open>A concrete worker\<close>

definition wit_stat :: string where
  "wit_stat = ''5 (p) S 1 1 1 0 0 0 0 0 0 0 0 0 0 0 20 0 1 0 77''"

definition wit_fd :: "string \<Rightarrow> fd_reading" where
  "wit_fd n = (if n = ''3'' then \<lparr>r_link = Inr ''/tmp/agent.in'', r_info = Inr ''
flags:04002
mnt_id:21
'', r_mode = Inr Fifo, r_inode = Inr 9\<rparr>
     else \<lparr>r_link = Inr ''/dev/null'', r_info = Inr ''flags:0
mnt_id:20
'', r_mode = Inr Chr_dev, r_inode = Inr 4\<rparr>)"

definition wit_map_text :: string where
  "wit_map_text = ''5-6 r-xp 0 08:01 1 /bin/p
7-8 rw-p 0 00:00 0 [heap]
''"

definition wit_view :: worker_view where
  "wit_view = \<lparr>stat_first = Inr wit_stat, stat_again = Inr wit_stat, task_names = Inr [''5''], children_text = Inr ''8 '',
     child_stat = (\<lambda>_. Inl (FileNotFoundError [])), cwd_link = Inr ''/'', exe_link = Inr ''/bin/p'',
     fd_first = Inr [''3'', ''0''], fd_again = Inr [''0'', ''3''], fd_reading_of = wit_fd,
     maps_text = Inr wit_map_text\<rparr>"

definition wit_contract :: contract where
  "wit_contract = \<lparr>c_version = 1, c_pid = 5, c_starttime = 77, c_overlay = ''/testbed'', c_cwd = ''/'', c_executable = ''/bin/p'',
     c_fds = [\<lparr>i_fd = 0, i_path = ''/dev/null'', i_flags = 0, i_kind = Null_stdio, i_cloexec = False, i_inode = 4, i_mnt_id = 20\<rparr>,
       \<lparr>i_fd = 3, i_path = ''/tmp/agent.in'', i_flags = 2050, i_kind = Protocol_fifo, i_cloexec = False, i_inode = 9, i_mnt_id = 21\<rparr>],
     c_mappings = [\<lparr>m_address = ''5-6'', m_perms = ''r-xp'', m_path = ''/bin/p''\<rparr>], c_fifos_external = True, c_mutable_refs = False,
     c_exited = [8]\<rparr>"

lemma wit_stages:
  "identity (Inr wit_stat) = Inr 77" "absolute ''/testbed/'' = Inr ''/testbed''" "map_result absolute [''/tmp/agent.in''] = Inr [''/tmp/agent.in'']"
  "validate_replay_children wit_view [] = Inr [8]" "check_cwd ''/testbed'' ''/'' = Inr ()" "check_executable ''/testbed'' ''/bin/p'' = Inr ()"
  "sorted_names [''3'', ''0''] = Inr [''0'', ''3'']" "sorted_names [''0'', ''3''] = Inr [''0'', ''3'']" "dec 5 = ''5''"
  by code_simp+

lemma wit_fds: "fold_result (check_fd wit_view [''/tmp/agent.in''] []) [''0'', ''3''] ([], []) = Inr ([''/tmp/agent.in''], c_fds wit_contract)"
  by code_simp

lemma wit_maps: "fold_result (check_mapping ''/testbed'') (splitlines wit_map_text) [] = Inr (c_mappings wit_contract)"
  by code_simp

lemma wit_selectors:
  "stat_first wit_view = Inr wit_stat" "stat_again wit_view = Inr wit_stat" "task_names wit_view = Inr [''5'']" "cwd_link wit_view = Inr ''/''"
  "exe_link wit_view = Inr ''/bin/p''" "fd_first wit_view = Inr [''3'', ''0'']" "fd_again wit_view = Inr [''0'', ''3'']"
  "maps_text wit_view = Inr wit_map_text"
  by (simp_all add: wit_view_def)

lemma wit_accepted: "validate_replay_resources wit_view 5 ''/testbed/'' [] (Some [''/tmp/agent.in'']) (Some []) = Inr wit_contract"
  unfolding validate_replay_resources_def option.case wit_stages wit_selectors andthen_simps map_result.simps(1) wit_fds wit_maps unsupported_if_def
  by (simp add: guarded_def wit_stages wit_maps, simp add: wit_contract_def)

definition wit_table :: fd_table where
  "wit_table = \<lparr>fd_ref = [(0, 0, False), (3, 1, False)], open_files = [(0, \<lparr>o_path = ''/dev/null'', o_flags = 0\<rparr>), (1, \<lparr>o_path = ''/tmp/agent.in'', o_flags = 2050\<rparr>)],
     next_file = 2\<rparr>"


theorem frozen_copy_private_witness:
  "\<exists>k w t'. dump_child_contract wit_contract = Inr k \<and> freeze_dump_view (\<lambda>_. None) k [''/l/1''] wit_table = (Inr w, t')
     \<and> (\<exists>f \<ge> 2. map_of (fd_ref t') 3 = Some (f, False) \<and> map_of (open_files t') f = Some \<lparr>o_path = ''/tmp/agent.in'', o_flags = 2050\<rparr>)"
proof -
  have n: "fd_first wit_view = Inr [''3'', ''0'']" by (simp add: wit_view_def)
  have d: "distinct (map dec_val [''3'', ''0''])" "dec_val ` set [''3'', ''0''] \<subseteq> fst ` set (fd_ref wit_table)" by code_simp+
  have l: "\<forall>p \<in> set [''/l/1'']. prefix ''/'' p \<and> CHR 0x00 \<notin> set p" by code_simp
  have i: "\<lparr>i_fd = 3, i_path = ''/tmp/agent.in'', i_flags = 2050, i_kind = Protocol_fifo, i_cloexec = False, i_inode = 9, i_mnt_id = 21\<rparr> \<in> set (c_fds wit_contract)"
    by (simp add: wit_contract_def)
  have f: "2050 AND NOT O_CLOEXEC = 2050" by code_simp
  from frozen_copy_private [OF wit_accepted n d(1,2) _ l, of "\<lambda>_. None"] obtain k w t' where
    "dump_child_contract wit_contract = Inr k" "freeze_dump_view (\<lambda>_. None) k [''/l/1''] wit_table = (Inr w, t')"
    and fds: "\<forall>i \<in> set (c_fds wit_contract). \<exists>f \<ge> next_file wit_table. map_of (fd_ref t') (i_fd i) = Some (f, i_cloexec i)
         \<and> map_of (open_files t') f = Some \<lparr>o_path = i_path i, o_flags = i_flags i AND NOT O_CLOEXEC\<rparr>" by auto
  then show ?thesis using bspec [OF fds i] f by (auto simp: wit_table_def)
qed

theorem restore_fds_released_witness:
  "\<exists>t'. protocol_restore_fds (\<lambda>_. None) (\<lambda>_. Fifo) wit_contract wit_table = (Inr ([''--inherit-fd'', ''fd[1]:tmp/agent.in''], [1]), t')
     \<and> map_of (fd_ref (close_inherited [1] t')) = map_of (fd_ref wit_table)"
proof -
  have "fst (protocol_restore_fds (\<lambda>_. None) (\<lambda>_. Fifo) wit_contract wit_table) = Inr ([''--inherit-fd'', ''fd[1]:tmp/agent.in''], [1])" by code_simp
  then obtain t' where r: "protocol_restore_fds (\<lambda>_. None) (\<lambda>_. Fifo) wit_contract wit_table = (Inr ([''--inherit-fd'', ''fd[1]:tmp/agent.in''], [1]), t')"
    by (metis prod.collapse)
  then show ?thesis using restore_fds_released [OF r] by simp
qed

end
