(* ===== verification/Control_Channel.thy ===== *)
theory Control_Channel
  imports Json_Values Paths
begin

text \<open>
  The control channel of the replay, \<^verbatim>\<open>replay/guest/control_channel.py\<close>: requests tagged with an epoch and a sequence number on one FIFO, replies
  as lines on another, and one deadline for opening, writing and reading. What the operating system answers to each call before
  the deadline is a list; when the list ends, the deadline has passed, and it may pass earlier while replies are being read. The encoding and decoding of JSON texts are arguments.
\<close>

section \<open>The probe\<close>

record probe =
  in_fd :: bool
  out_fd :: bool
  out_buf :: string
  ctrl_seq :: nat
  wire :: string

definition new_probe :: probe where
  "new_probe = \<lparr>in_fd = False, out_fd = False, out_buf = [], ctrl_seq = 0, wire = []\<rparr>"

datatype open_answer = Opened | No_reader | Open_error py_error
datatype write_answer = Wrote nat | Write_blocks | Write_error py_error
datatype read_answer = Not_ready | Read_blocks | Chunk string | Read_error py_error | Past_deadline

record channel_env =
  epoch_text :: "int result"
  out_open :: "py_error option"
  in_opens :: "open_answer list"
  writes :: "write_answer list"
  reads :: "read_answer list"

definition expired :: py_error where
  "expired = TimeoutError ''agent channel deadline expired''"

definition read_epoch :: "channel_env \<Rightarrow> int result" where
  "read_epoch env = andthen (epoch_text env) (\<lambda>epoch. if epoch < 0 then Inl (ValueError ''negative replay epoch'') else Inr epoch)"

fun open_in :: "open_answer list \<Rightarrow> probe \<Rightarrow> (unit, probe) eff" where
  "open_in [] p = (Inl expired, p)"
| "open_in (Opened # _) p = (Inr (), p\<lparr>in_fd := True\<rparr>)"
| "open_in (No_reader # answers) p = open_in answers p"
| "open_in (Open_error e # _) p = (Inl e, p)"

definition connect_until :: "channel_env \<Rightarrow> probe \<Rightarrow> (unit, probe) eff" where
  "connect_until env p =
     bind_eff (if out_fd p then (Inr (), p) else case out_open env of Some e \<Rightarrow> (Inl e, p) | None \<Rightarrow> (Inr (), p\<lparr>out_fd := True\<rparr>))
       (\<lambda>_ p. if in_fd p then (Inr (), p) else open_in (in_opens env) p)"

definition reset :: "probe \<Rightarrow> probe" where
  "reset p = p\<lparr>in_fd := False, out_fd := False, out_buf := []\<rparr>"

text \<open>Writing the rest of a frame; \<^verbatim>\<open>os.write\<close> writes at most what it is given.\<close>

fun write_loop :: "string \<Rightarrow> write_answer list \<Rightarrow> probe \<Rightarrow> (unit, probe) eff" where
  "write_loop [] answers p = (Inr (), p)"
| "write_loop (c # frame) [] p = (Inl expired, p)"
| "write_loop (c # frame) (Write_blocks # answers) p = write_loop (c # frame) answers p"
| "write_loop (c # frame) (Write_error e # answers) p = (Inl e, p)"
| "write_loop (c # frame) (Wrote n # answers) p =
     (if n = 0 then (Inl (BrokenPipeError ''agent request write made no progress''), p)
      else write_loop (drop n (c # frame)) answers (p\<lparr>wire := wire p @ take n (c # frame)\<rparr>))"

definition frame_of :: "(dict \<Rightarrow> string) \<Rightarrow> dict \<Rightarrow> string" where
  "frame_of dumps payload = CHR 0x1E # dumps payload @ [CHR 0x0A]"

definition send :: "(dict \<Rightarrow> string) \<Rightarrow> dict \<Rightarrow> channel_env \<Rightarrow> probe \<Rightarrow> (unit, probe) eff" where
  "send dumps payload env p = bind_eff (connect_until env p) (\<lambda>_. write_loop (frame_of dumps payload) (writes env))"

section \<open>Replies\<close>

record counters =
  chunks_read :: nat
  bytes_read :: nat

text \<open>Reading until the buffer has a line; the answers that are left belong to the next reply.\<close>

fun await_line :: "read_answer list \<Rightarrow> probe \<times> counters \<Rightarrow> (read_answer list, probe \<times> counters) eff" where
  "await_line answers (p, n) =
     (if CHR 0x0A \<in> set (out_buf p) then (Inr answers, (p, n))
      else case answers of
          [] \<Rightarrow> (Inl expired, (p, n))
        | Past_deadline # _ \<Rightarrow> (Inl expired, (p, n))
        | Read_error e # _ \<Rightarrow> (Inl e, (p, n))
        | Chunk s # answers \<Rightarrow> await_line answers
            (if s = [] then (p, n) else (p\<lparr>out_buf := out_buf p @ s\<rparr>, n\<lparr>chunks_read := Suc (chunks_read n), bytes_read := bytes_read n + length s\<rparr>))
        | _ # answers \<Rightarrow> await_line answers (p, n))"

declare await_line.simps [simp del]

lemma await_steps:
  "CHR 0x0A \<in> set (out_buf p) \<Longrightarrow> await_line answers (p, n) = (Inr answers, (p, n))"
  "CHR 0x0A \<notin> set (out_buf p) \<Longrightarrow> await_line [] (p, n) = (Inl expired, (p, n))"
  "CHR 0x0A \<notin> set (out_buf p) \<Longrightarrow> await_line (Not_ready # answers) (p, n) = await_line answers (p, n)"
  "CHR 0x0A \<notin> set (out_buf p) \<Longrightarrow> await_line (Read_blocks # answers) (p, n) = await_line answers (p, n)"
  "CHR 0x0A \<notin> set (out_buf p) \<Longrightarrow> await_line (Past_deadline # answers) (p, n) = (Inl expired, (p, n))"
  "CHR 0x0A \<notin> set (out_buf p) \<Longrightarrow> await_line (Read_error e # answers) (p, n) = (Inl e, (p, n))"
  "CHR 0x0A \<notin> set (out_buf p) \<Longrightarrow> await_line (Chunk s # answers) (p, n) = await_line answers
     (if s = [] then (p, n) else (p\<lparr>out_buf := out_buf p @ s\<rparr>, n\<lparr>chunks_read := Suc (chunks_read n), bytes_read := bytes_read n + length s\<rparr>))"
  by (simp_all add: await_line.simps [of _ p n])

definition pop_line :: "probe \<Rightarrow> string \<times> probe" where
  "pop_line p = (takeWhile (\<lambda>c. c \<noteq> CHR 0x0A) (out_buf p), p\<lparr>out_buf := drop 1 (dropWhile (\<lambda>c. c \<noteq> CHR 0x0A) (out_buf p))\<rparr>)"

definition decode :: "(string \<Rightarrow> json result) \<Rightarrow> string \<Rightarrow> dict result" where
  "decode loads line = andthen (loads line) (\<lambda>j. case j of JObj d \<Rightarrow> Inr d | _ \<Rightarrow> Inl (ValueError ''agent reply must be an object''))"

definition read_reply :: "(string \<Rightarrow> json result) \<Rightarrow> read_answer list \<Rightarrow> probe \<times> counters \<Rightarrow> (dict \<times> read_answer list, probe \<times> counters) eff" where
  "read_reply loads answers s = bind_eff (await_line answers s) (\<lambda>answers (p, n).
     case pop_line p of (line, p) \<Rightarrow> (andthen (decode loads line) (\<lambda>d. Inr (d, answers)), (p, n)))"

text \<open>What is still to be read: every reply takes at least the end of its line from it.\<close>

fun unread :: "read_answer \<Rightarrow> nat" where
  "unread (Chunk s) = length s"
| "unread _ = 0"

definition backlog :: "read_answer list \<Rightarrow> probe \<Rightarrow> nat" where
  "backlog answers p = length (out_buf p) + sum_list (map unread answers)"

lemma await_line_backlog:
  "await_line answers (p, n) = (Inr answers', (p', n')) \<Longrightarrow> backlog answers' p' \<le> backlog answers p \<and> CHR 0x0A \<in> set (out_buf p')"
proof (induction answers arbitrary: p n)
  case Nil
  then show ?case by (cases "CHR 0x0A \<in> set (out_buf p)") (auto simp: await_steps)
next
  case (Cons a answers)
  show ?case
  proof (cases "CHR 0x0A \<in> set (out_buf p)")
    case True
    then show ?thesis using Cons.prems by (auto simp: await_steps)
  next
    case False
    show ?thesis
    proof (cases a)
      case (Chunk x)
      define q where "q = (if x = [] then p else p\<lparr>out_buf := out_buf p @ x\<rparr>)"
      obtain m where "await_line answers (q, m) = (Inr answers', (p', n'))"
        using Cons.prems False by (auto simp: Chunk await_steps q_def split: if_splits)
      from Cons.IH [OF this] show ?thesis by (simp add: backlog_def Chunk q_def split: if_splits)
    qed (use Cons.prems Cons.IH [of p n] False in \<open>auto simp: await_steps backlog_def\<close>)
  qed
qed

lemma read_reply_backlog:
  assumes "read_reply loads answers (p, n) = (Inr (d, answers'), (p', n'))"
  shows "backlog answers' p' < backlog answers p"
proof -
  obtain p1 where a: "await_line answers (p, n) = (Inr answers', (p1, n'))" and p': "p' = snd (pop_line p1)"
    using assms by (auto simp: read_reply_def bind_eff_def pop_line_def andthen_Inr_iff split: prod.splits sum.splits)
  have l: "CHR 0x0A \<in> set (out_buf p1)" "backlog answers' p1 \<le> backlog answers p" using await_line_backlog [OF a] by auto
  have "length (drop 1 (dropWhile (\<lambda>c. c \<noteq> CHR 0x0A) (out_buf p1))) < length (out_buf p1)"
    using l(1) length_dropWhile_le [of "\<lambda>c. c \<noteq> CHR 0x0A" "out_buf p1"] by (cases "out_buf p1") auto
  then show ?thesis using l(2) by (simp add: p' pop_line_def backlog_def)
qed

section \<open>Requests\<close>

text \<open>The loop of \<^verbatim>\<open>control\<close>: replies to other requests are skipped.\<close>

function reply_loop ::
  "(string \<Rightarrow> json result) \<Rightarrow> dict \<Rightarrow> read_answer list \<Rightarrow> probe \<times> counters \<Rightarrow> json list \<Rightarrow> (dict, (probe \<times> counters) \<times> json list) eff" where
  "reply_loop loads request answers s skipped =
     (case (if prefix [Past_deadline] answers then (Inl expired, s) else read_reply loads answers s) of
        (Inl e, s) \<Rightarrow> (Inl e, (s, skipped))
      | (Inr (reply, answers), s) \<Rightarrow>
          if jget reply ''ctrl_id'' \<noteq> jget request ''ctrl_id'' \<or> jget reply ''ctrl'' \<noteq> jget request ''ctrl''
          then reply_loop loads request answers s (skipped @ [jget reply ''ctrl_id''])
          else (Inr reply, (s, skipped)))"
  by pat_completeness auto
termination
  by (relation "measure (\<lambda>(loads, request, answers, (p, n), skipped). backlog answers p)") (auto dest!: read_reply_backlog [OF sym] split: if_splits)

declare reply_loop.simps [simp del]

datatype outcome = Answered dict | Failed dict

fun outcome_dict :: "outcome \<Rightarrow> dict" where
  "outcome_dict (Answered d) = d"
| "outcome_dict (Failed d) = d"

definition ctrl_id_of :: "int \<Rightarrow> nat \<Rightarrow> string" where
  "ctrl_id_of epoch n = ''ep'' @ dec (nat epoch) @ ''.ctrl-'' @ dec n"

definition tagged :: "dict \<Rightarrow> int \<Rightarrow> nat \<Rightarrow> dict" where
  "tagged payload epoch n = AList.update ''_replay_epoch'' (JInt epoch) (AList.update ''ctrl_id'' (JStr (ctrl_id_of epoch n)) payload)"

definition failure :: "py_error \<Rightarrow> dict \<Rightarrow> counters \<Rightarrow> nat \<Rightarrow> json list \<Rightarrow> dict" where
  "failure e request n buffered skipped =
     [(''ok'', JBool False), (''err'', JStr (case e of TimeoutError _ \<Rightarrow> ''timeout'' | _ \<Rightarrow> err_name e)), (''msg'', JStr (err_msg e)),
      (''ctrl'', jget request ''ctrl''), (''ctrl_id'', jget request ''ctrl_id''), (''epoch'', jget request ''_replay_epoch''),
      (''chunks_read'', JInt (int (chunks_read n))), (''bytes_read'', JInt (int (bytes_read n))), (''out_buf_len'', JInt (int buffered)),
      (''skipped_ctrl_ids'', JList (drop (length skipped - 16) skipped))]"

definition channel_error :: "py_error \<Rightarrow> bool" where
  "channel_error e \<longleftrightarrow> os_error e \<or> (case e of ValueError _ \<Rightarrow> True | _ \<Rightarrow> False)"

definition fail_with :: "py_error \<Rightarrow> dict \<Rightarrow> counters \<Rightarrow> json list \<Rightarrow> probe \<Rightarrow> (outcome, probe) eff" where
  "fail_with e request n skipped p =
     (if channel_error e then (Inr (Failed (failure e request n (length (out_buf p)) skipped)), reset p) else (Inl e, p))"

definition no_counters :: counters where
  "no_counters = \<lparr>chunks_read = 0, bytes_read = 0\<rparr>"

definition control :: "(dict \<Rightarrow> string) \<Rightarrow> (string \<Rightarrow> json result) \<Rightarrow> dict \<Rightarrow> channel_env \<Rightarrow> probe \<Rightarrow> (outcome, probe) eff" where
  "control dumps loads payload env p =
     (case read_epoch env of
        Inl e \<Rightarrow> fail_with e payload no_counters [] p
      | Inr epoch \<Rightarrow>
          let p = p\<lparr>ctrl_seq := Suc (ctrl_seq p)\<rparr>; request = tagged payload epoch (ctrl_seq p) in
          (case send dumps request env p of
             (Inl e, p) \<Rightarrow> fail_with e request no_counters [] p
           | (Inr _, p) \<Rightarrow> (case reply_loop loads request (reads env) (p, no_counters) [] of
                 (Inl e, ((p, n), skipped)) \<Rightarrow> fail_with e request n skipped p
               | (Inr reply, ((p, n), skipped)) \<Rightarrow> (Inr (Answered reply), p))))"

definition control_fresh :: "(dict \<Rightarrow> string) \<Rightarrow> (string \<Rightarrow> json result) \<Rightarrow> dict \<Rightarrow> channel_env \<Rightarrow> probe \<Rightarrow> (outcome, probe) eff" where
  "control_fresh dumps loads payload env p = (case control dumps loads payload env (reset p) of (r, p) \<Rightarrow> (r, reset p))"

text \<open>\<^verbatim>\<open>request\<close>: the answer says whether a reply came, and whether the token is missing in its text.\<close>

definition probe_token :: "string \<Rightarrow> nat \<Rightarrow> int \<Rightarrow> string" where
  "probe_token phase step_idx epoch = ''replay probe '' @ phase @ '' step='' @ dec step_idx @ '' epoch='' @ dec (nat epoch)"

definition probe_request ::
  "(dict \<Rightarrow> string) \<Rightarrow> (string \<Rightarrow> json result) \<Rightarrow> string \<Rightarrow> nat \<Rightarrow> channel_env \<Rightarrow> probe \<Rightarrow> (bool \<times> bool, probe) eff" where
  "probe_request dumps loads phase step_idx env p =
     (case (case read_epoch env of
          Inl e \<Rightarrow> (Inl e, p)
        | Inr epoch \<Rightarrow> let token = probe_token phase step_idx epoch in
            bind_eff (send dumps [(''messages'', JList [JObj [(''role'', JStr ''user''), (''content'', JStr token)]]),
              (''temperature'', JInt 0), (''_replay_epoch'', JInt epoch)] env p) (\<lambda>_ p.
            case read_reply loads (reads env) (p, no_counters) of
              (Inl e, (p, n)) \<Rightarrow> (Inl e, p)
            | (Inr (reply, _), (p, n)) \<Rightarrow> (Inr (True, \<not> sublist token (dumps (sort_key fst reply))), p))) of
        (Inl e, p) \<Rightarrow> if channel_error e then (Inr (False, True), reset p) else (Inl e, p)
      | (Inr a, p) \<Rightarrow> (Inr a, p))"

section \<open>Activation after a restore\<close>

definition ready_request :: dict where
  "ready_request = [(''ctrl'', JStr ''replay_ready'')]"

text \<open>The attempts that start before the deadline; only a broken pipe is tried again.\<close>

fun ready_loop :: "(dict \<Rightarrow> string) \<Rightarrow> (string \<Rightarrow> json result) \<Rightarrow> channel_env list \<Rightarrow> nat \<Rightarrow> dict \<Rightarrow> probe \<Rightarrow> (dict \<times> nat, probe) eff" where
  "ready_loop dumps loads [] attempts ready p = (Inr (ready, attempts), p)"
| "ready_loop dumps loads (env # envs) attempts ready p = bind_eff (control_fresh dumps loads ready_request env p) (\<lambda>out p.
     let ready = outcome_dict out in
     if jget ready ''err'' \<noteq> JStr ''BrokenPipeError'' then (Inr (ready, Suc attempts), p) else ready_loop dumps loads envs (Suc attempts) ready p)"

fun is_epoch :: "json \<Rightarrow> int \<Rightarrow> bool" where
  "is_epoch (JInt i) e = (i = e)"
| "is_epoch (JBool b) e = ((if b then 1 else 0) = e)"
| "is_epoch _ e = False"

record restore_world =
  w_probe :: probe
  w_owned :: "nat list"

record restore_run =
  restore_result :: "dict result"
  ns_before :: nat
  ns_after :: nat
  has_resources :: bool
  own_error :: "py_error option"
  has_channel :: bool
  attempts_env :: "channel_env list"
  final_epoch :: "int result"

text \<open>The \<^verbatim>\<open>finally\<close> block: a new namespace is owned whether the restore succeeded or not.\<close>

definition own_namespace :: "restore_run \<Rightarrow> restore_world \<Rightarrow> (dict, restore_world) eff" where
  "own_namespace x w =
     (if has_resources x \<and> ns_after x \<noteq> ns_before x then
        (case own_error x of
           None \<Rightarrow> (restore_result x, w\<lparr>w_owned := ns_after x # w_owned w\<rparr>)
         | Some e \<Rightarrow> (case restore_result x of Inr _ \<Rightarrow> (Inl e, w) | Inl e' \<Rightarrow> (Inl e', w)))
      else (restore_result x, w))"

definition restore_with_ready :: "(dict \<Rightarrow> string) \<Rightarrow> (string \<Rightarrow> json result) \<Rightarrow> restore_run \<Rightarrow> restore_world \<Rightarrow> (dict, restore_world) eff" where
  "restore_with_ready dumps loads x w = bind_eff (own_namespace x w) (\<lambda>result w.
     if \<not> has_channel x \<or> jget result ''path'' = JStr ''warm-template'' then (Inr result, w)
     else case ready_loop dumps loads (attempts_env x) 0 [(''ok'', JBool False), (''err'', JStr ''timeout'')] (w_probe w) of
         (Inl e, p) \<Rightarrow> (Inl e, w\<lparr>w_probe := p\<rparr>)
       | (Inr (ready, attempts), p) \<Rightarrow>
           let w = w\<lparr>w_probe := p\<rparr> in
           if \<not> truthy (jget ready ''ok'') then (Inl (RuntimeError ''restored agent activation failed''), w)
           else case final_epoch x of
               Inl e \<Rightarrow> (Inl e, w)
             | Inr epoch \<Rightarrow> if \<not> is_epoch (jget ready ''epoch'') epoch then (Inl (RuntimeError ''restored agent activation failed''), w)
                 else (Inr (AList.update ''restore_replay_ready_retries'' (JInt (int (attempts - 1))) result), w))"

section \<open>One request\<close>

lemma write_loop_wire:
  "write_loop frame answers p = (r, p') \<Longrightarrow> \<exists>w. p' = p\<lparr>wire := wire p @ w\<rparr> \<and> prefix w frame \<and> (r = Inr () \<longrightarrow> w = frame)"
proof (induction frame answers p rule: write_loop.induct)
  case (5 c frame n answers p)
  show ?case
  proof (cases "n = 0")
    case True
    then show ?thesis using 5(2) by (intro exI [of _ "[]"]) auto
  next
    case False
    then obtain w where "p' = p\<lparr>wire := wire p @ take n (c # frame) @ w\<rparr>" "prefix w (drop n (c # frame))" "r = Inr () \<longrightarrow> w = drop n (c # frame)"
      using 5 by force
    then show ?thesis by (intro exI [of _ "take n (c # frame) @ w"]) (metis append_take_drop_id same_prefix_prefix)
  qed
qed (auto intro: exI [of _ "[]"])

definition same_stream :: "probe \<Rightarrow> probe \<Rightarrow> bool" where
  "same_stream p p' \<longleftrightarrow> out_buf p' = out_buf p \<and> ctrl_seq p' = ctrl_seq p \<and> wire p' = wire p"

lemma open_in_same: "open_in answers p = (r, p') \<Longrightarrow> same_stream p p' \<and> out_fd p' = out_fd p \<and> (r = Inr () \<longrightarrow> in_fd p')"
  by (induction answers p rule: open_in.induct) (auto simp: same_stream_def)

lemma connect_same: "connect_until env p = (r, p') \<Longrightarrow> same_stream p p' \<and> (r = Inr () \<longrightarrow> in_fd p' \<and> out_fd p')"
  by (auto simp: connect_until_def same_stream_def split: if_splits option.splits dest: open_in_same)

lemma send_wire:
  assumes "send dumps request env p = (r, p')"
  shows "\<exists>w. wire p' = wire p @ w \<and> prefix w (frame_of dumps request) \<and> out_buf p' = out_buf p \<and> ctrl_seq p' = ctrl_seq p
    \<and> (r = Inr () \<longrightarrow> in_fd p' \<and> out_fd p' \<and> w = frame_of dumps request)"
proof -
  obtain r1 p1 where c: "connect_until env p = (r1, p1)" by fastforce
  note p1 = connect_same [OF c]
  show ?thesis
  proof (cases r1)
    case (Inl e)
    then show ?thesis using assms c p1 by (intro exI [of _ "[]"]) (auto simp: send_def same_stream_def)
  next
    case (Inr u)
    then have "write_loop (frame_of dumps request) (writes env) p1 = (r, p')" using assms c by (simp add: send_def)
    from write_loop_wire [OF this] obtain w where "p' = p1\<lparr>wire := wire p1 @ w\<rparr>" "prefix w (frame_of dumps request)"
      "r = Inr () \<longrightarrow> w = frame_of dumps request" by blast
    then show ?thesis using p1 Inr by (intro exI [of _ w]) (auto simp: same_stream_def)
  qed
qed

lemma await_line_same: "await_line answers (p, n) = (r, (p', n')) \<Longrightarrow> \<exists>buf. p' = p\<lparr>out_buf := buf\<rparr>"
proof (induction answers arbitrary: p n)
  case Nil
  then show ?case by (cases "CHR 0x0A \<in> set (out_buf p)") (auto simp: await_steps intro: exI [of _ "out_buf p"])
next
  case (Cons a answers)
  show ?case
  proof (cases "CHR 0x0A \<in> set (out_buf p)")
    case True
    then show ?thesis using Cons.prems by (auto simp: await_steps intro: exI [of _ "out_buf p"])
  next
    case False
    show ?thesis
    proof (cases a)
      case (Chunk x)
      define q where "q = (if x = [] then p else p\<lparr>out_buf := out_buf p @ x\<rparr>)"
      obtain m where "await_line answers (q, m) = (r, (p', n'))"
        using Cons.prems False by (auto simp: Chunk await_steps q_def split: if_splits)
      from Cons.IH [OF this] show ?thesis by (auto simp: q_def split: if_splits)
    qed (use Cons.prems Cons.IH [of p n] False in \<open>auto simp: await_steps intro: exI [of _ "out_buf p"]\<close>)
  qed
qed

lemma read_reply_same:
  assumes "read_reply loads answers (p, n) = (r, (p', n'))"
  shows "\<exists>buf. p' = p\<lparr>out_buf := buf\<rparr>"
proof -
  obtain r1 p1 n1 where a: "await_line answers (p, n) = (r1, (p1, n1))" by (metis prod.exhaust)
  then obtain buf where "p1 = p\<lparr>out_buf := buf\<rparr>" using await_line_same by blast
  then show ?thesis using assms a by (cases r1) (auto simp: read_reply_def pop_line_def)
qed

lemma reply_loop_result:
  "reply_loop loads request answers (p, n) skipped = (r, ((p', n'), skipped'))
    \<Longrightarrow> (\<exists>buf. p' = p\<lparr>out_buf := buf\<rparr>)
      \<and> (\<forall>reply. r = Inr reply \<longrightarrow> jget reply ''ctrl_id'' = jget request ''ctrl_id'' \<and> jget reply ''ctrl'' = jget request ''ctrl'')"
proof (induction "backlog answers p" arbitrary: answers p n skipped rule: less_induct)
  case less
  show ?case
  proof (cases "prefix [Past_deadline] answers")
    case True
    then show ?thesis using less.prems by (auto simp: reply_loop.simps [of loads request answers "(p, n)" skipped] intro: exI [of _ "out_buf p"])
  next
    case False
    obtain r1 p1 n1 where rr: "read_reply loads answers (p, n) = (r1, (p1, n1))" by (metis prod.exhaust)
    obtain buf where p1: "p1 = p\<lparr>out_buf := buf\<rparr>" using read_reply_same [OF rr] by blast
    note eq = less.prems [unfolded reply_loop.simps [of loads request answers "(p, n)" skipped]] False rr
    show ?thesis
    proof (cases r1)
      case (Inl e)
      then show ?thesis using eq p1 by auto
    next
      case (Inr da)
      obtain d rest where da: "da = (d, rest)" by fastforce
      show ?thesis
      proof (cases "jget d ''ctrl_id'' \<noteq> jget request ''ctrl_id'' \<or> jget d ''ctrl'' \<noteq> jget request ''ctrl''")
        case True
        then have "reply_loop loads request rest (p1, n1) (skipped @ [jget d ''ctrl_id'']) = (r, ((p', n'), skipped'))" using eq Inr da by simp
        with less.hyps [OF read_reply_backlog] rr Inr da show ?thesis by (fastforce simp: p1)
      next
        case False
        then show ?thesis using eq Inr da p1 by auto
      qed
    qed
  qed
qed

lemma jget_tagged: "jget (tagged payload epoch n) ''ctrl'' = jget payload ''ctrl''" "jget (tagged payload epoch n) ''ctrl_id'' = JStr (ctrl_id_of epoch n)"
  by (simp_all add: tagged_def jget_def update_conv')

lemma reset_fields [simp]: "wire (reset p) = wire p" "ctrl_seq (reset p) = ctrl_seq p" "\<not> in_fd (reset p)" "\<not> out_fd (reset p)" "out_buf (reset p) = []"
  by (simp_all add: reset_def)

lemma fail_with_cases:
  assumes "fail_with e request n skipped p = (r, p')"
  shows "wire p' = wire p" "ctrl_seq p' = ctrl_seq p" "r = Inl e \<and> \<not> channel_error e \<or> (\<exists>d. r = Inr (Failed d) \<and> jget d ''ok'' = JBool False \<and> p' = reset p)"
  using assms by (auto simp: fail_with_def failure_def jget_def split: if_splits)

lemma control_cases:
  assumes "control dumps loads payload env p = (r, p')"
  shows "\<exists>w epoch. wire p' = wire p @ w \<and> prefix w (frame_of dumps (tagged payload epoch (Suc (ctrl_seq p))))
    \<and> ctrl_seq p \<le> ctrl_seq p' \<and> ctrl_seq p' \<le> Suc (ctrl_seq p)
    \<and> (case r of Inl e \<Rightarrow> \<not> channel_error e
       | Inr (Failed d) \<Rightarrow> jget d ''ok'' = JBool False \<and> \<not> in_fd p' \<and> \<not> out_fd p' \<and> out_buf p' = []
       | Inr (Answered reply) \<Rightarrow> read_epoch env = Inr epoch \<and> ctrl_seq p' = Suc (ctrl_seq p) \<and> w = frame_of dumps (tagged payload epoch (Suc (ctrl_seq p)))
           \<and> jget reply ''ctrl_id'' = JStr (ctrl_id_of epoch (Suc (ctrl_seq p))) \<and> jget reply ''ctrl'' = jget payload ''ctrl'')"
proof (cases "read_epoch env")
  case (Inl e)
  then have "fail_with e payload no_counters [] p = (r, p')" using assms by (simp add: control_def)
  from fail_with_cases [OF this] show ?thesis by (intro exI [of _ "[]"]) auto
next
  case (Inr epoch)
  define p1 where "p1 = p\<lparr>ctrl_seq := Suc (ctrl_seq p)\<rparr>"
  define request where "request = tagged payload epoch (Suc (ctrl_seq p))"
  obtain r2 p2 where snd: "send dumps request env p1 = (r2, p2)" by fastforce
  from send_wire [OF snd] obtain w where w: "wire p2 = wire p @ w" "prefix w (frame_of dumps request)" "ctrl_seq p2 = Suc (ctrl_seq p)"
    "r2 = Inr () \<longrightarrow> w = frame_of dumps request" by (auto simp: p1_def)
  show ?thesis
  proof (cases r2)
    case (Inl e)
    then have "fail_with e request no_counters [] p2 = (r, p')" using assms Inr snd by (simp add: control_def Let_def p1_def request_def)
    from fail_with_cases [OF this] w show ?thesis by (intro exI [of _ w] exI [of _ epoch]) (auto simp: request_def)
  next
    case (Inr u)
    obtain r3 p3 n skipped where l: "reply_loop loads request (reads env) (p2, no_counters) [] = (r3, ((p3, n), skipped))" by (metis prod.exhaust)
    from reply_loop_result [OF l] have p3: "wire p3 = wire p2" "ctrl_seq p3 = ctrl_seq p2"
      and m: "\<And>reply. r3 = Inr reply \<Longrightarrow> jget reply ''ctrl_id'' = jget request ''ctrl_id'' \<and> jget reply ''ctrl'' = jget request ''ctrl''" by auto
    show ?thesis
    proof (cases r3)
      case (Inl e)
      then have "fail_with e request n skipped p3 = (r, p')" using assms \<open>read_epoch env = Inr epoch\<close> snd Inr l by (simp add: control_def Let_def p1_def request_def)
      from fail_with_cases [OF this] w p3 show ?thesis by (intro exI [of _ w] exI [of _ epoch]) (auto simp: request_def)
    next
      case (Inr reply)
      then have "r = Inr (Answered reply)" "p' = p3"
        using assms \<open>read_epoch env = Inr epoch\<close> snd \<open>r2 = Inr u\<close> l by (simp_all add: control_def Let_def p1_def request_def)
      then show ?thesis using w p3 m [OF Inr] \<open>r2 = Inr u\<close> \<open>read_epoch env = Inr epoch\<close>
        by (intro exI [of _ w] exI [of _ epoch]) (simp add: request_def jget_tagged)
    qed
  qed
qed

section \<open>Many requests\<close>

text \<open>The calls of a driver on one probe, with what each of them gives.\<close>

fun run_calls :: "(dict \<Rightarrow> string) \<Rightarrow> (string \<Rightarrow> json result) \<Rightarrow> (dict \<times> channel_env) list \<Rightarrow> probe \<Rightarrow> (dict \<times> outcome result) list \<times> probe" where
  "run_calls dumps loads [] p = ([], p)"
| "run_calls dumps loads ((payload, env) # cs) p = (case control dumps loads payload env p of (r, p) \<Rightarrow>
     case run_calls dumps loads cs p of (rs, p) \<Rightarrow> ((payload, r) # rs, p))"

definition answered_ids :: "(dict \<times> outcome result) list \<Rightarrow> json list" where
  "answered_ids rs = List.map_filter (\<lambda>(_, r). case r of Inr (Answered d) \<Rightarrow> Some (jget d ''ctrl_id'') | _ \<Rightarrow> None) rs"

lemma ctrl_id_inj: "ctrl_id_of e m = ctrl_id_of e' n \<Longrightarrow> m = n"
proof -
  assume "ctrl_id_of e m = ctrl_id_of e' n"
  then have eq: "dec (nat e) @ CHR ''.'' # ''ctrl-'' @ dec m = dec (nat e') @ CHR ''.'' # ''ctrl-'' @ dec n" by (simp add: ctrl_id_of_def)
  have no: "CHR ''.'' \<notin> set (dec k)" for k using isdigit_dec [of k] by (auto simp: isdigit_def list_all_iff is_digit_def)
  have "''ctrl-'' @ dec m = ''ctrl-'' @ dec n" by (rule conjunct2 [OF first_sep_unique [OF no no eq]])
  then show "m = n" by (simp add: dec_inj)
qed

lemma run_calls_ids:
  "run_calls dumps loads cs p = (rs, p') \<Longrightarrow> ctrl_seq p \<le> ctrl_seq p'
    \<and> (\<forall>i \<in> set (answered_ids rs). \<exists>e n. i = JStr (ctrl_id_of e n) \<and> ctrl_seq p < n \<and> n \<le> ctrl_seq p') \<and> distinct (answered_ids rs)"
proof (induction cs arbitrary: p rs)
  case (Cons c cs)
  obtain payload env where c: "c = (payload, env)" by fastforce
  obtain r p1 where r: "control dumps loads payload env p = (r, p1)" by fastforce
  obtain rs1 where rs1: "run_calls dumps loads cs p1 = (rs1, p')" and rs: "rs = (payload, r) # rs1" using Cons.prems r by (auto simp: c split: prod.splits)
  note IH = Cons.IH [OF rs1]
  from control_cases [OF r] have seq: "ctrl_seq p \<le> ctrl_seq p1" by blast
  have later: "\<exists>e n. i = JStr (ctrl_id_of e n) \<and> ctrl_seq p1 < n \<and> n \<le> ctrl_seq p'" if "i \<in> set (answered_ids rs1)" for i using IH that by blast
  show ?case
  proof (cases "\<exists>d. r = Inr (Answered d)")
    case True
    then obtain d where d: "r = Inr (Answered d)" by blast
    from control_cases [OF r] obtain e where e: "ctrl_seq p1 = Suc (ctrl_seq p)" "jget d ''ctrl_id'' = JStr (ctrl_id_of e (Suc (ctrl_seq p)))"
      by (auto simp: d)
    have ids: "answered_ids rs = jget d ''ctrl_id'' # answered_ids rs1" by (simp add: rs d answered_ids_def List.map_filter_simps)
    have "jget d ''ctrl_id'' \<notin> set (answered_ids rs1)"
    proof
      assume "jget d ''ctrl_id'' \<in> set (answered_ids rs1)"
      from later [OF this] obtain e' n where "JStr (ctrl_id_of e (Suc (ctrl_seq p))) = JStr (ctrl_id_of e' n)" "ctrl_seq p1 < n" by (auto simp: e)
      then show False using ctrl_id_inj e(1) by fastforce
    qed
    moreover have "\<exists>e n. i = JStr (ctrl_id_of e n) \<and> ctrl_seq p < n \<and> n \<le> ctrl_seq p'" if "i \<in> set (answered_ids rs)" for i
    proof (cases "i \<in> set (answered_ids rs1)")
      case True
      then show ?thesis using later e(1) by fastforce
    next
      case False
      then have "i = JStr (ctrl_id_of e (Suc (ctrl_seq p)))" using that by (simp add: ids e(2))
      then show ?thesis using e(1) IH by auto
    qed
    ultimately show ?thesis using IH seq ids by auto
  next
    case False
    then have "answered_ids rs = answered_ids rs1" by (auto simp: rs answered_ids_def List.map_filter_simps split: sum.splits outcome.splits)
    then show ?thesis using IH seq later by fastforce
  qed
qed (simp add: answered_ids_def List.map_filter_simps)

lemma run_calls_nth:
  "\<lbrakk>run_calls dumps loads cs p = (rs, p'); k < length cs; cs ! k = (payload, env)\<rbrakk>
    \<Longrightarrow> length rs = length cs \<and> (\<exists>p1 p2 r. control dumps loads payload env p1 = (r, p2) \<and> rs ! k = (payload, r) \<and> ctrl_seq p \<le> ctrl_seq p1)"
proof (induction cs arbitrary: p rs k)
  case (Cons c cs)
  obtain payload0 env0 where c: "c = (payload0, env0)" by fastforce
  obtain r p1 where r: "control dumps loads payload0 env0 p = (r, p1)" by fastforce
  obtain rs1 where rs1: "run_calls dumps loads cs p1 = (rs1, p')" and rs: "rs = (payload0, r) # rs1" using Cons.prems(1) r by (auto simp: c split: prod.splits)
  from control_cases [OF r] have seq: "ctrl_seq p \<le> ctrl_seq p1" by blast
  have len: "length rs1 = length cs"
    using rs1 by (induction cs arbitrary: p1 rs1) (auto split: prod.splits)
  show ?case
  proof (cases k)
    case 0
    then show ?thesis using r len Cons.prems(3) by (auto simp: rs c)
  next
    case (Suc j)
    then show ?thesis using Cons.IH [OF rs1, of j] Cons.prems(2,3) len seq by (auto simp: rs intro: le_trans)
  qed
qed simp

text \<open>What one request may do between two states of the probe.\<close>

definition call_ok :: "(dict \<Rightarrow> string) \<Rightarrow> dict \<Rightarrow> channel_env \<Rightarrow> probe \<Rightarrow> outcome result \<Rightarrow> probe \<Rightarrow> bool" where
  "call_ok dumps payload env p1 r p2 \<longleftrightarrow> (case r of
       Inl e \<Rightarrow> \<not> channel_error e
     | Inr (Answered reply) \<Rightarrow> (\<exists>epoch. read_epoch env = Inr epoch \<and> jget reply ''ctrl_id'' = JStr (ctrl_id_of epoch (Suc (ctrl_seq p1)))
         \<and> jget reply ''ctrl'' = jget payload ''ctrl'' \<and> wire p2 = wire p1 @ frame_of dumps (tagged payload epoch (Suc (ctrl_seq p1))))
     | Inr (Failed d) \<Rightarrow> jget d ''ok'' = JBool False \<and> \<not> in_fd p2 \<and> \<not> out_fd p2 \<and> out_buf p2 = []
         \<and> (\<exists>epoch w. wire p2 = wire p1 @ w \<and> prefix w (frame_of dumps (tagged payload epoch (Suc (ctrl_seq p1))))))"

lemma control_call_ok: "control dumps loads payload env p = (r, p') \<Longrightarrow> call_ok dumps payload env p r p'"
  by (drule control_cases) (auto simp: call_ok_def split: sum.splits outcome.splits)

text \<open>
  C18. A driver that makes any number of requests on a probe, each with its own epoch and whatever the pipes answer, never takes the reply to one
  request for the reply to another: an accepted reply carries the identifier of its own request and answers the command that was
  asked, no identifier is accepted twice, and a request is on the wire completely and once when its reply is accepted. A
  request that fails closes the channel and forgets the bytes read so far, and has sent at most a beginning of its frame.
\<close>

theorem replies_never_mixed:
  assumes "run_calls dumps loads cs p = (rs, p')" "k < length cs" "cs ! k = (payload, env)"
  shows "length rs = length cs \<and> distinct (answered_ids rs)
    \<and> (\<exists>p1 p2 r. control dumps loads payload env p1 = (r, p2) \<and> rs ! k = (payload, r) \<and> ctrl_seq p \<le> ctrl_seq p1 \<and> call_ok dumps payload env p1 r p2)"
  using run_calls_nth [OF assms] run_calls_ids [OF assms(1)] control_call_ok by blast

section \<open>The handshake\<close>

definition ready_wire :: "(dict \<Rightarrow> string) \<Rightarrow> string \<Rightarrow> bool" where
  "ready_wire dumps w \<longleftrightarrow> (\<exists>epoch n. prefix w (frame_of dumps (tagged ready_request epoch n)))"

lemma control_fresh_wire:
  assumes "control_fresh dumps loads payload env p = (r, p')"
  shows "\<exists>w epoch n. wire p' = wire p @ w \<and> prefix w (frame_of dumps (tagged payload epoch n))" "\<not> in_fd p' \<and> \<not> out_fd p' \<and> out_buf p' = []"
proof -
  obtain q where q: "control dumps loads payload env (reset p) = (r, q)" "p' = reset q" using assms by (auto simp: control_fresh_def split: prod.splits)
  from control_cases [OF q(1)] show "\<exists>w epoch n. wire p' = wire p @ w \<and> prefix w (frame_of dumps (tagged payload epoch n))" by (auto simp: q(2))
  show "\<not> in_fd p' \<and> \<not> out_fd p' \<and> out_buf p' = []" by (simp add: q(2))
qed

lemma ready_loop_result:
  "ready_loop dumps loads envs a ready p = (r, p') \<Longrightarrow>
    (\<exists>ws. wire p' = wire p @ concat ws \<and> (\<forall>w \<in> set ws. ready_wire dumps w))
    \<and> (\<forall>d n. r = Inr (d, n) \<longrightarrow> d = ready \<and> n = a \<or> a < n \<and> n \<le> a + length envs
        \<and> (\<exists>env \<in> set envs. \<exists>q q' out. control_fresh dumps loads ready_request env q = (Inr out, q') \<and> d = outcome_dict out))"
proof (induction envs arbitrary: a ready p)
  case (Cons env envs)
  obtain r1 p1 where c: "control_fresh dumps loads ready_request env p = (r1, p1)" by fastforce
  obtain w epoch n where w: "wire p1 = wire p @ w" "prefix w (frame_of dumps (tagged ready_request epoch n))" using control_fresh_wire(1) [OF c] by blast
  then have rw: "ready_wire dumps w" by (auto simp: ready_wire_def)
  show ?case
  proof (cases r1)
    case (Inl e)
    then show ?thesis using Cons.prems c w rw by (auto intro!: exI [of _ "[w]"])
  next
    case (Inr out)
    show ?thesis
    proof (cases "jget (outcome_dict out) ''err'' \<noteq> JStr ''BrokenPipeError''")
      case True
      then have "r = Inr (outcome_dict out, Suc a)" "p' = p1" using Cons.prems c Inr by simp_all
      then show ?thesis using c Inr w rw by (auto intro!: exI [of _ "[w]"])
    next
      case False
      then have l: "ready_loop dumps loads envs (Suc a) (outcome_dict out) p1 = (r, p')" using Cons.prems c Inr by simp
      from Cons.IH [OF l] obtain ws where ws: "wire p' = wire p1 @ concat ws" "\<forall>w \<in> set ws. ready_wire dumps w"
        and d: "\<And>d n. r = Inr (d, n) \<Longrightarrow> d = outcome_dict out \<and> n = Suc a \<or> Suc a < n \<and> n \<le> Suc a + length envs
          \<and> (\<exists>env \<in> set envs. \<exists>q q' out. control_fresh dumps loads ready_request env q = (Inr out, q') \<and> d = outcome_dict out)" by blast
      have "wire p' = wire p @ concat (w # ws)" "\<forall>x \<in> set (w # ws). ready_wire dumps x" using ws w rw by simp_all
      moreover have "a < n \<and> n \<le> a + length (env # envs)
          \<and> (\<exists>e \<in> set (env # envs). \<exists>q q' out. control_fresh dumps loads ready_request e q = (Inr out, q') \<and> d = outcome_dict out)" if "r = Inr (d, n)" for d n
        using d [OF that]
      proof
        assume "d = outcome_dict out \<and> n = Suc a"
        then show ?thesis using c Inr by auto
      next
        assume "Suc a < n \<and> n \<le> Suc a + length envs
          \<and> (\<exists>env \<in> set envs. \<exists>q q' out. control_fresh dumps loads ready_request env q = (Inr out, q') \<and> d = outcome_dict out)"
        then have "n \<le> a + length (env # envs)" "a < n" by simp_all
        then show ?thesis using \<open>Suc a < n \<and> _\<close> by (meson list.set_intros(2))
      qed
      ultimately show ?thesis by blast
    qed
  qed
qed (auto intro: exI [of _ "[]"])

text \<open>
  C26. The activation handshake after a restore. Whatever happens, a namespace that the restore created is handed to the owner of resources whenever that is
  possible, also when the restore itself fails; only readiness requests are ever written to the channel, at most one per attempt;
  and a cold restore returns only if an attempt was answered positively with the current epoch. A warm restore sends nothing.
\<close>

theorem restore_ready_activates:
  assumes "restore_with_ready dumps loads x w = (r, w')"
  shows "(has_resources x \<and> ns_after x \<noteq> ns_before x \<and> own_error x = None \<longrightarrow> ns_after x \<in> set (w_owned w'))
    \<and> (\<exists>ws. wire (w_probe w') = wire (w_probe w) @ concat ws \<and> (\<forall>v \<in> set ws. ready_wire dumps v))
    \<and> (\<forall>result. r = Inr result \<longrightarrow> (\<exists>result0. restore_result x = Inr result0 \<and>
         (if has_channel x \<and> jget result0 ''path'' \<noteq> JStr ''warm-template''
          then \<exists>env \<in> set (attempts_env x). \<exists>q q' out epoch. control_fresh dumps loads ready_request env q = (Inr out, q')
            \<and> truthy (jget (outcome_dict out) ''ok'') \<and> final_epoch x = Inr epoch \<and> is_epoch (jget (outcome_dict out) ''epoch'') epoch
          else result = result0 \<and> w_probe w' = w_probe w)))"
proof -
  obtain r0 w0 where o: "own_namespace x w = (r0, w0)" by fastforce
  have own: "w_probe w0 = w_probe w" "has_resources x \<and> ns_after x \<noteq> ns_before x \<and> own_error x = None \<Longrightarrow> ns_after x \<in> set (w_owned w0)"
    "\<And>d. r0 = Inr d \<Longrightarrow> restore_result x = Inr d"
    using o by (auto simp: own_namespace_def split: if_splits option.splits sum.splits)
  show ?thesis
  proof (cases "\<exists>d. r0 = Inr d \<and> has_channel x \<and> jget d ''path'' \<noteq> JStr ''warm-template''")
    case False
    then have "w' = w0" "\<And>d. r = Inr d \<Longrightarrow> r0 = Inr d" using assms o by (cases r0; auto simp: restore_with_ready_def)+
    then show ?thesis using own False by (auto intro: exI [of _ "[]"])
  next
    case True
    then obtain d where d: "r0 = Inr d" "has_channel x" "jget d ''path'' \<noteq> JStr ''warm-template''" by blast
    let ?start = "[(''ok'', JBool False), (''err'', JStr ''timeout'')]"
    obtain rl p where l: "ready_loop dumps loads (attempts_env x) 0 ?start (w_probe w0) = (rl, p)" by fastforce
    have w': "w_owned w' = w_owned w0" "w_probe w' = p"
      using assms o d l by (auto simp: restore_with_ready_def Let_def split: sum.splits if_splits)
    note loop = ready_loop_result [OF l]
    have "\<exists>env \<in> set (attempts_env x). \<exists>q q' out epoch. control_fresh dumps loads ready_request env q = (Inr out, q')
            \<and> truthy (jget (outcome_dict out) ''ok'') \<and> final_epoch x = Inr epoch \<and> is_epoch (jget (outcome_dict out) ''epoch'') epoch" if res: "r = Inr result" for result
    proof -
      obtain ready n epoch where ready: "rl = Inr (ready, n)" "truthy (jget ready ''ok'')" "final_epoch x = Inr epoch" "is_epoch (jget ready ''epoch'') epoch"
        using assms o d l res by (auto simp: restore_with_ready_def Let_def split: sum.splits if_splits)
      then have "ready \<noteq> ?start" by (auto simp: jget_def)
      then show ?thesis using loop ready by blast
    qed
    then show ?thesis using own w' d loop by auto
  qed
qed

section \<open>A concrete exchange\<close>

text \<open>An encoding that is enough for the exchange: the identifier of the request, and a reply that repeats it.\<close>

definition wit_dumps :: "dict \<Rightarrow> string" where
  "wit_dumps d = (case jget d ''ctrl_id'' of JStr s \<Rightarrow> s | _ \<Rightarrow> [])"

definition wit_loads :: "string \<Rightarrow> json result" where
  "wit_loads s = Inr (JObj [(''ctrl_id'', JStr s), (''ctrl'', JStr ''replay_ready''), (''ok'', JBool True), (''epoch'', JInt 2)])"

definition wit_env :: "string \<Rightarrow> channel_env" where
  "wit_env reply = \<lparr>epoch_text = Inr 2, out_open = None, in_opens = [No_reader, Opened], writes = [Wrote 4, Write_blocks, Wrote 20],
     reads = [Not_ready, Chunk ''ep1.ctrl-1'', Chunk (CHR 0x0A # reply @ [CHR 0x0A])]\<rparr>"

definition wit_calls :: "(dict \<times> channel_env) list" where
  "wit_calls = [(ready_request, wit_env ''ep2.ctrl-1''), (ready_request, wit_env ''ep2.ctrl-2'')]"

theorem replies_never_mixed_witness:
  "\<exists>rs p'. run_calls wit_dumps wit_loads wit_calls new_probe = (rs, p') \<and> answered_ids rs = [JStr ''ep2.ctrl-1'', JStr ''ep2.ctrl-2''] \<and> distinct (answered_ids rs)"
proof -
  obtain rs p' where r: "run_calls wit_dumps wit_loads wit_calls new_probe = (rs, p')" by fastforce
  have "answered_ids (fst (run_calls wit_dumps wit_loads wit_calls new_probe)) = [JStr ''ep2.ctrl-1'', JStr ''ep2.ctrl-2'']" by code_simp
  then have "answered_ids rs = [JStr ''ep2.ctrl-1'', JStr ''ep2.ctrl-2'']" by (simp add: r)
  moreover have "1 < length wit_calls" "wit_calls ! 1 = (ready_request, wit_env ''ep2.ctrl-2'')" by (simp_all add: wit_calls_def)
  ultimately show ?thesis using replies_never_mixed [OF r] r by blast
qed

definition wit_restore :: restore_run where
  "wit_restore = \<lparr>restore_result = Inr [(''path'', JStr ''criu'')], ns_before = 3, ns_after = 7, has_resources = True, own_error = None, has_channel = True,
     attempts_env = [(wit_env [])\<lparr>writes := [Write_error (BrokenPipeError [])]\<rparr>, wit_env ''ep2.ctrl-2''], final_epoch = Inr 2\<rparr>"

theorem restore_ready_activates_witness:
  "\<exists>r w'. restore_with_ready wit_dumps wit_loads wit_restore \<lparr>w_probe = new_probe, w_owned = []\<rparr> = (r, w') \<and> w_owned w' = [7]
     \<and> r = Inr [(''path'', JStr ''criu''), (''restore_replay_ready_retries'', JInt 1)]
     \<and> (\<exists>ws. wire (w_probe w') = concat ws \<and> (\<forall>v \<in> set ws. ready_wire wit_dumps v))"
proof -
  obtain r w' where r: "restore_with_ready wit_dumps wit_loads wit_restore \<lparr>w_probe = new_probe, w_owned = []\<rparr> = (r, w')" by fastforce
  have "fst (restore_with_ready wit_dumps wit_loads wit_restore \<lparr>w_probe = new_probe, w_owned = []\<rparr>) = Inr [(''path'', JStr ''criu''), (''restore_replay_ready_retries'', JInt 1)]"
    "w_owned (snd (restore_with_ready wit_dumps wit_loads wit_restore \<lparr>w_probe = new_probe, w_owned = []\<rparr>)) = [7]" by code_simp+
  then have "r = Inr [(''path'', JStr ''criu''), (''restore_replay_ready_retries'', JInt 1)]" "w_owned w' = [7]" unfolding r by simp_all
  moreover have "wire new_probe = []" by (simp add: new_probe_def)
  ultimately show ?thesis using restore_ready_activates [OF r] r by (metis append_Nil restore_world.select_convs(1))
qed

end
