(* ===== verification/Search_Schedule.thy ===== *)
theory Search_Schedule
  imports Branching Paths Json_Values Complex_Main
begin

text \<open>
  The conversion of a recorded search tree into a replay schedule, \<^verbatim>\<open>replay/tree_to_schedule.py\<close>: the walk
  over the tree, the choice of the checkpoint strategy, the translation of recorded actions into worker
  operations and the schedule itself. Actions and observations are JSON values, since the code inspects their types; the nodes are a datatype with the
  fields that the code reads. The digest of a string is an argument.
\<close>

section \<open>Names\<close>

text \<open>\<^verbatim>\<open>x.rsplit(".", 1)[-1]\<close>\<close>

definition short_name :: "string \<Rightarrow> string" where
  "short_name s = last (split_on (CHR ''.'') s)"

section \<open>Actions\<close>

definition FS_MUTATING_ACTIONS :: "string list" where
  "FS_MUTATING_ACTIONS = [''StringReplaceArgs'', ''CreateFileArgs'', ''AppendStringArgs'', ''InsertLineArgs'',
     ''RewriteFileArgs'', ''RunTestsArgs'', ''EditCode'']"

definition action_class :: "dict \<Rightarrow> string result" where
  "action_class action = (case por (jget action ''action_args_class'') (JStr []) of
       JStr s \<Rightarrow> Inr (short_name s)
     | j \<Rightarrow> Inl (AttributeError (type_of j @ '' object has no attribute rsplit'')))"

definition view_op :: "dict \<Rightarrow> json \<Rightarrow> dict option result" where
  "view_op base file_row = (case file_row of
       JObj row \<Rightarrow> Inr (if truthy (jget row ''file_path'')
         then Some (base @ [(''type'', JStr ''view_file''), (''path'', jget row ''file_path''),
           (''start_line'', jget row ''start_line''), (''end_line'', jget row ''end_line'')])
         else None)
     | j \<Rightarrow> Inl (AttributeError (type_of j @ '' object has no attribute get'')))"

definition view_ops :: "dict \<Rightarrow> json \<Rightarrow> dict list result" where
  "view_ops base files = andthen
     (case files of
        JList rows \<Rightarrow> map_result (view_op base) rows
      | JStr (c # cs) \<Rightarrow> Inl (AttributeError ''str object has no attribute get'')
      | JObj (kv # kvs) \<Rightarrow> Inl (AttributeError ''str object has no attribute get'')
      | JBool True \<Rightarrow> Inl (TypeError ''bool object is not iterable'')
      | JInt i \<Rightarrow> if i = 0 then Inr [] else Inl (TypeError ''int object is not iterable'')
      | _ \<Rightarrow> Inr [])
     (\<lambda>ops. let ops = List.map_filter id ops in
       Inr (if ops = [] then [base @ [(''type'', JStr ''noop''), (''note'', JStr ''view_code_no_files'')]] else ops))"

definition action_to_worker_ops :: "json \<Rightarrow> dict list result" where
  "action_to_worker_ops act = (case act of JObj action \<Rightarrow>
     andthen (action_class action) (\<lambda>cls.
       let base = [(''action_class'', JStr cls)]; get = jget action in
       if cls = ''ViewCodeArgs'' then view_ops base (get ''files'')
       else Inr [base @ (
         if cls = ''FindClassArgs'' then
           [(''type'', JStr ''find_symbol''), (''symbol_kind'', JStr ''class''),
            (''file_pattern'', por (get ''file_pattern'') (JStr ''**/*.py'')), (''name'', por (get ''class_name'') (JStr []))]
         else if cls = ''FindFunctionArgs'' then
           [(''type'', JStr ''find_symbol''), (''symbol_kind'', JStr ''function''),
            (''file_pattern'', por (get ''file_pattern'') (JStr ''**/*.py'')), (''name'', por (get ''function_name'') (JStr []))]
         else if cls = ''FindCodeSnippetArgs'' then
           [(''type'', JStr ''grep''), (''file_pattern'', por (get ''file_pattern'') (JStr ''**/*'')),
            (''pattern'', por (get ''code_snippet'') (JStr []))]
         else if cls = ''StringReplaceArgs'' then
           [(''type'', JStr ''replace''), (''path'', get ''path''), (''old_str'', jget_or action ''old_str'' (JStr [])),
            (''new_str'', jget_or action ''new_str'' (JStr []))]
         else if cls = ''CreateFileArgs'' then
           [(''type'', JStr ''write_file''), (''path'', get ''path''), (''content'', jget_or action ''file_text'' (JStr []))]
         else if cls = ''AppendStringArgs'' then
           [(''type'', JStr ''append_file''), (''path'', get ''path''), (''content'', jget_or action ''new_str'' (JStr []))]
         else if cls = ''RunTestsArgs'' then
           [(''type'', JStr ''run_tests''), (''test_files'', por (get ''test_files'') (JList []))]
         else if cls = ''VerifiedFinishArgs'' then [(''type'', JStr ''noop''), (''note'', JStr ''verified_finish'')]
         else [(''type'', JStr ''noop''), (''note'', JStr (''unhandled_action:'' @ cls))])])
   | _ \<Rightarrow> Inr [])"

section \<open>Nodes\<close>

record astep =
  s_action :: json
  s_observation :: json

datatype tnode = TNode (node_id: "int option") (is_duplicate: bool) (action_steps: "astep list") (children: "tnode list")

definition test_file_names :: "dict \<Rightarrow> string list option" where
  "test_file_names op = (case jget op ''test_files'' of
       JList fs \<Rightarrow> if fs \<noteq> [] \<and> list_all (\<lambda>f. case f of JStr s \<Rightarrow> s \<noteq> [] | _ \<Rightarrow> False) fs
         then Some (List.map_filter (\<lambda>f. case f of JStr s \<Rightarrow> Some s | _ \<Rightarrow> None) fs) else None
     | _ \<Rightarrow> None)"

fun comma_join :: "string list \<Rightarrow> string" where
  "comma_join [] = []"
| "comma_join [x] = x"
| "comma_join (x # y # xs) = x @ '', '' @ comma_join (y # xs)"

definition as_dict :: "json \<Rightarrow> dict" where
  "as_dict j = (case j of JObj d \<Rightarrow> d | _ \<Rightarrow> [])"

text \<open>A recorded failure to find the test files, which the replay has to reproduce.\<close>

definition expect_outcome :: "dict \<Rightarrow> string \<times> string \<Rightarrow> dict \<Rightarrow> dict" where
  "expect_outcome observation = (\<lambda>(kind, detail) op. case test_file_names op of
       Some files \<Rightarrow>
         if jget op ''type'' = JStr ''run_tests'' \<and> jget (as_dict (jget observation ''properties'')) ''fail_reason'' = JStr ''no_test_files''
            \<and> jget observation ''message'' = JStr (''Unable to run tests: '' @ detail @ comma_join files)
         then AList.update ''expected_outcome'' (JObj [(''kind'', JStr kind), (''test_files'', jget op ''test_files''),
           (''recorded_message'', jget observation ''message''), (''recorded_fail_reason'', JStr ''no_test_files'')]) op
         else op
     | None \<Rightarrow> op)"

definition annotate_op :: "nat \<Rightarrow> astep \<Rightarrow> dict \<Rightarrow> dict" where
  "annotate_op step_idx step op =
     (let op = (if map_of op ''action_step_idx'' = None then op @ [(''action_step_idx'', JInt (int step_idx))] else op) in
      fold (expect_outcome (as_dict (s_observation step)))
        [(''missing_test_files'', ''Files not found: ''), (''test_directories'', ''Directories provided instead of files: '')] op)"

definition node_worker_ops :: "tnode \<Rightarrow> dict list result" where
  "node_worker_ops node = andthen
     (map_result (\<lambda>(i, step). andthen (action_to_worker_ops (por (s_action step) (JObj []))) (\<lambda>ops. Inr (map (annotate_op i step) ops)))
        (enumerate 0 (action_steps node)))
     (\<lambda>opss. Inr (concat opss))"

text \<open>A step that changes files, by the class of its arguments or by its old name.\<close>

definition mutating_step :: "astep \<Rightarrow> bool result" where
  "mutating_step step = (case por (s_action step) (JObj []) of
       JObj act \<Rightarrow>
         if (case jget act ''action_args_class'' of JStr cls \<Rightarrow> short_name cls \<in> set FS_MUTATING_ACTIONS | _ \<Rightarrow> False) then Inr True
         else (case jget act ''name'' of
             JStr name \<Rightarrow> Inr (name \<in> set FS_MUTATING_ACTIONS)
           | JList _ \<Rightarrow> Inl (TypeError ''unhashable type: list'')
           | JObj _ \<Rightarrow> Inl (TypeError ''unhashable type: dict'')
           | _ \<Rightarrow> Inr False)
     | _ \<Rightarrow> Inr False)"

fun strategy_loop :: "astep list \<Rightarrow> string result" where
  "strategy_loop [] = Inr ''lightweight''"
| "strategy_loop (step # steps) = andthen (mutating_step step) (\<lambda>m. if m then Inr ''standard'' else strategy_loop steps)"

definition node_strategy :: "tnode \<Rightarrow> string result" where
  "node_strategy node = strategy_loop (action_steps node)"

fun walk_with_parents :: "tnode \<Rightarrow> tnode option \<Rightarrow> (tnode \<times> tnode option) list" where
  "walk_with_parents (TNode i d ss cs) parent =
     (TNode i d ss cs, parent) # concat (map (\<lambda>c. walk_with_parents c (Some (TNode i d ss cs))) cs)"

section \<open>The schedule\<close>

datatype sched_event =
    Ckpt_event (ev_iter: nat) (ckpt_id: string) (ev_strategy: string) (dump_size_mb: rat) (ev_node: "int option")
      (worker_ops: "dict list") (ops_required: bool)
  | Restore_event (ev_iter: nat) (restore_to: string)

record conv =
  schedule :: "sched_event list"
  node_to_ckpt :: "(int \<times> string) list"
  iter_i :: nat
  prev_node :: "int option"

definition ckpt_name :: "(string \<Rightarrow> string) \<Rightarrow> string \<Rightarrow> int \<Rightarrow> string" where
  "ckpt_name sha1_hex instance_id nid =
     take 8 (sha1_hex (instance_id @ ''::'' @ (if nid < 0 then ''-'' else []) @ dec (nat \<bar>nid\<bar>)))"

definition by_id :: "tnode \<Rightarrow> (int \<times> tnode \<times> tnode option) list" where
  "by_id top_node = fold (\<lambda>(n, p) m. case node_id n of Some i \<Rightarrow> AList.update i (n, p) m | None \<Rightarrow> m) (walk_with_parents top_node None) []"

definition add_event :: "(nat \<Rightarrow> sched_event) \<Rightarrow> conv \<Rightarrow> conv" where
  "add_event ev c = c\<lparr>schedule := schedule c @ [ev (iter_i c)], iter_i := Suc (iter_i c)\<rparr>"

definition expand_root :: "(int \<Rightarrow> string) \<Rightarrow> int \<Rightarrow> conv \<Rightarrow> conv" where
  "expand_root cid nid c =
     (add_event (\<lambda>i. Ckpt_event i (cid nid) ''standard'' (78 / 10) None [] False)
       (c\<lparr>node_to_ckpt := AList.update nid (cid nid) (node_to_ckpt c)\<rparr>))\<lparr>prev_node := Some nid\<rparr>"

definition jump_back :: "int option \<Rightarrow> conv \<Rightarrow> conv" where
  "jump_back parent_id c =
     (if prev_node c \<noteq> parent_id then
        (case Option.bind parent_id (map_of (node_to_ckpt c)) of
           Some target \<Rightarrow> add_event (\<lambda>i. Restore_event i target) c
         | None \<Rightarrow> c)
      else c)"

definition expand_child :: "(int \<Rightarrow> string) \<Rightarrow> int \<Rightarrow> tnode \<Rightarrow> tnode \<Rightarrow> conv \<Rightarrow> conv result" where
  "expand_child cid nid node parent c =
     (let c = jump_back (node_id parent) c in
      if is_duplicate node then Inr (c\<lparr>prev_node := Some nid\<rparr>)
      else
        let c = c\<lparr>node_to_ckpt := AList.update nid (cid nid) (node_to_ckpt c)\<rparr> in
        andthen (node_strategy node) (\<lambda>strat. andthen (node_worker_ops node) (\<lambda>ops.
          Inr ((add_event (\<lambda>i. Ckpt_event i (cid nid) strat (if strat = ''standard'' then 78 / 10 else 0) (Some nid) ops True) c)
            \<lparr>prev_node := Some nid\<rparr>))))"

definition expand :: "(int \<Rightarrow> string) \<Rightarrow> (int \<times> tnode \<times> tnode option) list \<Rightarrow> int \<Rightarrow> conv \<Rightarrow> conv result" where
  "expand cid nodes nid c = (case map_of nodes nid of
       Some (node, None) \<Rightarrow> Inr (expand_root cid nid c)
     | Some (node, Some parent) \<Rightarrow> expand_child cid nid node parent c
     | None \<Rightarrow> Inl (KeyError []))"

definition start_conv :: conv where
  "start_conv = \<lparr>schedule = [], node_to_ckpt = [], iter_i = 1, prev_node = None\<rparr>"

definition convert :: "(string \<Rightarrow> string) \<Rightarrow> tnode option \<Rightarrow> string \<Rightarrow> sched_event list result" where
  "convert sha1_hex tree instance_id = (case tree of
       None \<Rightarrow> Inl (SystemExit ''trajectory has no `root` node'')
     | Some top_node \<Rightarrow>
         let nodes = by_id top_node in
         if nodes = [] then Inl (SystemExit ''no nodes with node_id found'')
         else andthen (fold_result (expand (ckpt_name sha1_hex instance_id) nodes) (sort (map fst nodes)) start_conv)
           (\<lambda>c. Inr (schedule c)))"

section \<open>Lightweight nodes change nothing\<close>

definition read_only_op :: "dict \<Rightarrow> bool" where
  "read_only_op op \<longleftrightarrow> jget op ''type'' \<in> JStr ` {''view_file'', ''find_symbol'', ''grep'', ''noop''}"

lemma jget_snoc: "k \<noteq> k' \<Longrightarrow> jget (op @ [(k', v)]) k = jget op k"
  by (auto simp: jget_def map_add_def split: option.splits)

lemma expect_outcome_type [simp]: "jget (expect_outcome obs kd op) ''type'' = jget op ''type''"
  by (auto simp: expect_outcome_def jget_def update_conv split: option.splits prod.splits)

lemma annotate_op_type [simp]: "jget (annotate_op i step op) ''type'' = jget op ''type''"
  by (simp add: annotate_op_def Let_def jget_snoc)

lemma map_result_mem: "\<lbrakk>map_result f xs = Inr ys; y \<in> set ys\<rbrakk> \<Longrightarrow> \<exists>x \<in> set xs. f x = Inr y"
  by (induction xs arbitrary: ys) (auto simp: andthen_Inr_iff)

lemma view_op_read_only: "view_op [(''action_class'', JStr cls)] row = Inr (Some op) \<Longrightarrow> read_only_op op"
  by (auto simp: view_op_def read_only_op_def jget_def split: json.splits if_splits)

lemma view_ops_read_only:
  assumes "view_ops [(''action_class'', JStr cls)] files = Inr ops" "op \<in> set ops"
  shows "read_only_op op"
proof -
  let ?base = "[(''action_class'', JStr cls)]"
  obtain os where os: "(\<forall>o' \<in> set os. \<forall>op. o' = Some op \<longrightarrow> read_only_op op)"
    and ops: "ops = (if List.map_filter id os = [] then [?base @ [(''type'', JStr ''noop''), (''note'', JStr ''view_code_no_files'')]]
      else List.map_filter id os)"
  proof (cases files)
    case (JList rows)
    then obtain os where m: "map_result (view_op ?base) rows = Inr os"
      "ops = (if List.map_filter id os = [] then [?base @ [(''type'', JStr ''noop''), (''note'', JStr ''view_code_no_files'')]]
      else List.map_filter id os)"
      using assms(1) by (auto simp: view_ops_def andthen_Inr_iff Let_def)
    have "\<forall>o' \<in> set os. \<forall>op. o' = Some op \<longrightarrow> read_only_op op"
      using map_result_mem [OF m(1)] view_op_read_only by blast
    then show thesis using m(2) that by blast
  qed (use assms(1) that [of "[]"] in \<open>auto simp: view_ops_def Let_def map_filter_def split: list.splits if_splits bool.splits\<close>)
  show ?thesis
  proof (cases "List.map_filter id os = []")
    case True
    then show ?thesis using ops assms(2) by (simp add: read_only_op_def jget_def)
  next
    case False
    then show ?thesis using ops assms(2) os by (auto simp: map_filter_def)
  qed
qed

lemma action_ops_read_only:
  assumes "action_to_worker_ops act = Inr ops" "op \<in> set ops"
    and "\<And>d cls. \<lbrakk>act = JObj d; action_class d = Inr cls\<rbrakk> \<Longrightarrow> cls \<notin> set FS_MUTATING_ACTIONS"
  shows "read_only_op op"
proof (cases act)
  case (JObj d)
  obtain cls where c: "action_class d = Inr cls" using assms(1) JObj by (auto simp: action_to_worker_ops_def andthen_Inr_iff)
  then have "cls \<notin> set FS_MUTATING_ACTIONS" using assms(3) JObj by blast
  then show ?thesis using assms(1,2) JObj c view_ops_read_only
    by (auto simp: action_to_worker_ops_def andthen_Inr_iff Let_def FS_MUTATING_ACTIONS_def read_only_op_def jget_def split: if_splits)
qed (use assms(1,2) in \<open>simp_all add: action_to_worker_ops_def\<close>)

lemma strategy_loop_light: "strategy_loop ss = Inr ''lightweight'' \<Longrightarrow> step \<in> set ss \<Longrightarrow> mutating_step step = Inr False"
  by (induction ss) (auto simp: andthen_Inr_iff split: if_splits)

lemma light_step_class:
  assumes "mutating_step step = Inr False" "por (s_action step) (JObj []) = JObj d" "action_class d = Inr cls"
  shows "cls \<notin> set FS_MUTATING_ACTIONS"
proof (cases "jget d ''action_args_class''")
  case (JStr s)
  then show ?thesis using assms
    by (cases "s = []") (auto simp: mutating_step_def action_class_def por_def short_name_def FS_MUTATING_ACTIONS_def split: if_splits)
qed (use assms in \<open>auto simp: action_class_def por_def short_name_def FS_MUTATING_ACTIONS_def split: if_splits\<close>)

lemma light_node_read_only:
  assumes "node_strategy n = Inr ''lightweight''" "node_worker_ops n = Inr ops" "op \<in> set ops"
  shows "read_only_op op"
proof -
  obtain opss where m: "map_result (\<lambda>(i, step). andthen (action_to_worker_ops (por (s_action step) (JObj [])))
      (\<lambda>ops. Inr (map (annotate_op i step) ops))) (enumerate 0 (action_steps n)) = Inr opss" "ops = concat opss"
    using assms(2) by (auto simp: node_worker_ops_def andthen_Inr_iff)
  then obtain os where os: "os \<in> set opss" "op \<in> set os" using assms(3) by auto
  then obtain i step os' where s: "(i, step) \<in> set (enumerate 0 (action_steps n))"
    "action_to_worker_ops (por (s_action step) (JObj [])) = Inr os'" "os = map (annotate_op i step) os'"
    using map_result_mem [OF m(1)] by (fastforce simp: andthen_Inr_iff)
  have "mutating_step step = Inr False"
    using strategy_loop_light [of "action_steps n" step] assms(1) s(1) by (auto simp: node_strategy_def in_set_enumerate_eq)
  then have "read_only_op op'" if "op' \<in> set os'" for op'
    using action_ops_read_only [OF s(2) that] light_step_class by blast
  then show ?thesis using os(2) s(3) unfolding read_only_op_def by force
qed

definition light_reads :: "sched_event \<Rightarrow> bool" where
  "light_reads ev \<longleftrightarrow> (case ev of Ckpt_event _ _ s _ _ ops _ \<Rightarrow> s = ''lightweight'' \<longrightarrow> list_all read_only_op ops | _ \<Rightarrow> True)"

lemma jump_back_light: "list_all light_reads (schedule c) \<Longrightarrow> list_all light_reads (schedule (jump_back p c))"
  by (auto simp: jump_back_def add_event_def light_reads_def split: option.splits)

lemma expand_light: "\<lbrakk>expand cid ns nid c = Inr c'; list_all light_reads (schedule c)\<rbrakk> \<Longrightarrow> list_all light_reads (schedule c')"
  using jump_back_light light_node_read_only
  by (auto simp: expand_def expand_root_def expand_child_def Let_def add_event_def andthen_Inr_iff light_reads_def list_all_iff
    split: option.splits if_splits)

text \<open>
  A scheduled checkpoint that is lightweight, which the replay does not save but reproduces by running its
  operations again, has only operations that read: whatever the recorded tree looks like, an action that writes a file or
  runs tests makes the checkpoint of its node a full one.
\<close>

theorem schedule_light_reads:
  assumes "convert sha1_hex tree inst = Inr evs"
  shows "list_all light_reads evs"
proof -
  obtain top_node c where "fold_result (expand (ckpt_name sha1_hex inst) (by_id top_node)) (sort (map fst (by_id top_node))) start_conv = Inr c"
    "evs = schedule c"
    using assms by (auto simp: convert_def Let_def andthen_Inr_iff split: option.splits if_splits)
  then show ?thesis using fold_result_invariant [of _ _ _ c "\<lambda>c. list_all light_reads (schedule c)"] expand_light
    by (fastforce simp: start_conv_def)
qed

lemma walk_root: "(n, None) \<in> set (walk_with_parents r p) \<Longrightarrow> p = None \<and> n = r"
  by (induction r p rule: walk_with_parents.induct) auto

lemma walk_parent:
  "(n, Some q) \<in> set (walk_with_parents r p) \<Longrightarrow> (p = Some q \<and> n = r) \<or> (\<exists>p'. (q, p') \<in> set (walk_with_parents r p))"
  by (induction r p rule: walk_with_parents.induct) fastforce

lemma walk_self: "(r, p) \<in> set (walk_with_parents r p)"
  by (cases r) simp

section \<open>The schedule follows the tree\<close>

text \<open>How the replay carries out an event: the worker runs the operations, then the checkpoint is taken.\<close>

definition event_ops :: "sched_event \<Rightarrow> dict list op list" where
  "event_ops ev = (case ev of Ckpt_event _ c _ _ _ ops _ \<Rightarrow> [Write ops, Checkpoint c] | Restore_event _ c \<Rightarrow> [Restore c])"

definition sched_ops :: "sched_event list \<Rightarrow> dict list op list" where
  "sched_ops evs = concat (map event_ops evs)"

text \<open>
  A recorded tree as the search leaves it: every node has a number of its own, a node is numbered after
  its parent, and a duplicate has not been expanded.
\<close>

definition the_id :: "tnode \<Rightarrow> int" where
  "the_id n = the (node_id n)"

definition tree_ok :: "tnode \<Rightarrow> bool" where
  "tree_ok t \<longleftrightarrow> (let ws = walk_with_parents t None in
     list_all (\<lambda>(n, p). node_id n \<noteq> None) ws \<and> distinct (map (\<lambda>(n, p). the_id n) ws)
     \<and> list_all (\<lambda>(n, p). case p of Some q \<Rightarrow> the_id q < the_id n \<and> \<not> is_duplicate q | None \<Rightarrow> True) ws)"

text \<open>What has to be checkpointed, in the order of expansion, each with the parent and the operations.\<close>

definition node_line :: "(int \<Rightarrow> string) \<Rightarrow> tnode \<times> tnode option \<Rightarrow> string option \<times> dict list list \<times> string" where
  "node_line cid = (\<lambda>(n, p). (map_option (\<lambda>q. cid (the_id q)) p,
     [case p of None \<Rightarrow> [] | Some q \<Rightarrow> (case node_worker_ops n of Inr ops \<Rightarrow> ops | Inl _ \<Rightarrow> [])], cid (the_id n)))"

definition kept_nodes :: "(int \<times> tnode \<times> tnode option) list \<Rightarrow> int list \<Rightarrow> (tnode \<times> tnode option) list" where
  "kept_nodes nodes is = filter (\<lambda>(n, p). p = None \<or> \<not> is_duplicate n) (map (\<lambda>i. the (map_of nodes i)) is)"

definition search_lines :: "(int \<Rightarrow> string) \<Rightarrow> tnode \<Rightarrow> (string option \<times> dict list list \<times> string) list" where
  "search_lines cid t = map (node_line cid) (filter (\<lambda>(n, p). p = None \<or> \<not> is_duplicate n)
     (sort_key (\<lambda>(n, p). the_id n) (walk_with_parents t None)))"

lemma by_id_fold:
  "\<lbrakk>list_all (\<lambda>(n, p). node_id n \<noteq> None) ws; distinct (map (\<lambda>(n, p). the_id n) ws); \<forall>(n, p) \<in> set ws. the_id n \<notin> fst ` set m\<rbrakk>
   \<Longrightarrow> fold (\<lambda>(n, p) m. case node_id n of Some i \<Rightarrow> AList.update i (n, p) m | None \<Rightarrow> m) ws m = m @ map (\<lambda>(n, p). (the_id n, n, p)) ws"
proof (induction ws arbitrary: m)
  case (Cons x ws)
  obtain n p where x: "x = (n, p)" by (cases x)
  obtain i where i: "node_id n = Some i" using Cons.prems(1) x by auto
  then have "AList.update i (n, p) m = m @ [(the_id n, n, p)]" using Cons.prems(3) x by (simp add: the_id_def update_new_key)
  moreover have "\<forall>(n', p') \<in> set ws. the_id n' \<notin> fst ` set (m @ [(the_id n, n, p)])"
    using Cons.prems(2,3) x by (force simp: case_prod_unfold)
  ultimately show ?case using Cons.IH [of "m @ [(the_id n, n, p)]"] Cons.prems(1,2) x i by simp
qed simp

lemma by_id_walk:
  assumes "tree_ok t"
  shows "by_id t = map (\<lambda>(n, p). (the_id n, n, p)) (walk_with_parents t None)"
  unfolding by_id_def using assms by (subst by_id_fold) (auto simp: tree_ok_def Let_def)

lemma by_id_distinct: "tree_ok t \<Longrightarrow> distinct (map fst (by_id t))"
  by (simp add: by_id_walk tree_ok_def Let_def comp_def case_prod_unfold)

lemma by_id_lookup:
  assumes "tree_ok t"
  shows "map_of (by_id t) i = Some (n, p) \<longleftrightarrow> (n, p) \<in> set (walk_with_parents t None) \<and> the_id n = i"
  using by_id_distinct [OF assms] by_id_walk [OF assms] by (auto simp: map_of_eq_Some_iff)

definition kept_id :: "(int \<times> tnode \<times> tnode option) list \<Rightarrow> int \<Rightarrow> bool" where
  "kept_id nodes i \<longleftrightarrow> (case map_of nodes i of Some (n, p) \<Rightarrow> p = None \<or> \<not> is_duplicate n | None \<Rightarrow> False)"

text \<open>The node whose state the sandbox has after node \<open>i\<close>: a duplicate leaves that of its parent.\<close>

definition base_id :: "(int \<times> tnode \<times> tnode option) list \<Rightarrow> int \<Rightarrow> int" where
  "base_id nodes i = (case map_of nodes i of Some (n, Some q) \<Rightarrow> if is_duplicate n then the_id q else i | _ \<Rightarrow> i)"

definition events_inv :: "(int \<Rightarrow> string) \<Rightarrow> (int \<times> tnode \<times> tnode option) list \<Rightarrow> int list \<Rightarrow> conv \<Rightarrow> bool" where
  "events_inv cid nodes is c \<longleftrightarrow> (let ops = sched_ops (schedule c) in
     (\<forall>i. map_of (node_to_ckpt c) i = (if i \<in> set is \<and> kept_id nodes i then Some (cid i) else None))
     \<and> lineage None [] ops = map (node_line cid) (kept_nodes nodes is)
     \<and> orderly {} ops \<and> set (taken ops) = cid ` {i \<in> set is. kept_id nodes i}
     \<and> map ev_iter (schedule c) = [1..<Suc (length (schedule c))] \<and> iter_i c = Suc (length (schedule c)))"

definition sched_inv :: "(int \<Rightarrow> string) \<Rightarrow> (int \<times> tnode \<times> tnode option) list \<Rightarrow> int list \<Rightarrow> conv \<Rightarrow> bool" where
  "sched_inv cid nodes is c \<longleftrightarrow> events_inv cid nodes is c
     \<and> (if is = [] then schedule c = [] \<and> prev_node c = None
        else prev_node c = Some (last is) \<and> based_on None [] (sched_ops (schedule c)) = (Some (cid (base_id nodes (last is))), []))"

lemma sched_ops_simps [simp]: "sched_ops [] = []" "sched_ops (evs @ [e]) = sched_ops evs @ event_ops e"
  by (simp_all add: sched_ops_def)

lemma jump_back_inv:
  assumes inv: "sched_inv cid nodes is c" and q: "node_id q = Some j" "j \<in> set is" "kept_id nodes j"
    and b: "base_id nodes j = j"
  shows "events_inv cid nodes is (jump_back (node_id q) c)
    \<and> based_on None [] (sched_ops (schedule (jump_back (node_id q) c))) = (Some (cid j), [])"
proof (cases "prev_node c = Some j")
  case True
  then have "last is = j" using inv q(2) by (auto simp: sched_inv_def split: if_splits)
  then show ?thesis using inv True q b by (auto simp: sched_inv_def jump_back_def split: if_splits)
next
  case False
  have "map_of (node_to_ckpt c) j = Some (cid j)" using inv q by (simp add: sched_inv_def events_inv_def Let_def)
  then have j: "jump_back (node_id q) c = add_event (\<lambda>i. Restore_event i (cid j)) c" using False q by (simp add: jump_back_def)
  obtain b' ws' where bo: "based_on None [] (sched_ops (schedule c)) = (b', ws')" by fastforce
  have "cid j \<in> set (taken (sched_ops (schedule c)))" using inv q by (auto simp: sched_inv_def events_inv_def Let_def)
  then show ?thesis using inv unfolding j
    by (simp add: sched_inv_def events_inv_def add_event_def Let_def event_ops_def bo)
qed

lemma add_ckpt_inv:
  assumes inv: "events_inv cid nodes is c" and bo: "based_on None [] (sched_ops (schedule c)) = (b, [])"
    and n: "map_of nodes i = Some (n, p)" "p = None \<or> \<not> is_duplicate n" "i \<notin> set is" "the_id n = i"
    and line: "node_line cid (n, p) = (b, [ops], cid i)" and inj: "inj_on cid (set (i # is))"
    and c': "c' = (add_event (\<lambda>k. Ckpt_event k (cid i) st sz nd ops req) (c\<lparr>node_to_ckpt := AList.update i (cid i) (node_to_ckpt c)\<rparr>))
       \<lparr>prev_node := Some i\<rparr>"
  shows "sched_inv cid nodes (is @ [i]) c'"
proof -
  have k: "kept_id nodes i" using n by (simp add: kept_id_def)
  have b: "base_id nodes i = i" using n by (auto simp: base_id_def split: option.splits)
  have "cid i \<notin> cid ` {j \<in> set is. kept_id nodes j}" using inj n(3) by (auto simp: inj_on_def)
  moreover have "kept_nodes nodes (is @ [i]) = kept_nodes nodes is @ [(n, p)]" using n by (auto simp: kept_nodes_def)
  ultimately show ?thesis using inv k line b
    by (auto simp: sched_inv_def events_inv_def Let_def c' add_event_def event_ops_def bo update_conv)
qed

lemma walk_min:
  "\<forall>(n, p) \<in> set (walk_with_parents r p0). case p of Some q \<Rightarrow> the_id q < the_id n | None \<Rightarrow> True
   \<Longrightarrow> (n, p) \<in> set (walk_with_parents r p0) \<Longrightarrow> the_id r \<le> the_id n"
proof (induction r p0 arbitrary: n p rule: walk_with_parents.induct)
  case (1 i d ss cs parent)
  let ?r = "TNode i d ss cs"
  consider "n = ?r" | c where "c \<in> set cs" "(n, p) \<in> set (walk_with_parents c (Some ?r))" using 1(3) by auto
  then show ?case
  proof cases
    case 2
    have "the_id c \<le> the_id n" using 1(1) [OF 2(1) _ 2(2)] 1(2) 2(1) by auto
    moreover have "the_id ?r < the_id c" using 1(2) 2(1) walk_self [of c "Some ?r"] by fastforce
    ultimately show ?thesis by simp
  qed simp
qed

lemma tree_okD:
  assumes "tree_ok t" "(n, p) \<in> set (walk_with_parents t None)"
  shows "node_id n = Some (the_id n)" "the_id t \<le> the_id n" "p = None \<Longrightarrow> n = t"
    "p = Some q \<Longrightarrow> the_id q < the_id n \<and> \<not> is_duplicate q \<and> (\<exists>r. (q, r) \<in> set (walk_with_parents t None))"
proof -
  note l = assms(1) [unfolded tree_ok_def Let_def list_all_iff]
  show "node_id n = Some (the_id n)" using l assms(2) by (auto simp: the_id_def)
  have "\<forall>(n, p) \<in> set (walk_with_parents t None). case p of Some q \<Rightarrow> the_id q < the_id n | None \<Rightarrow> True"
    using l by (auto split: option.splits)
  then show "the_id t \<le> the_id n" using walk_min assms(2) by blast
  show "p = None \<Longrightarrow> n = t" using walk_root assms(2) by blast
  show "p = Some q \<Longrightarrow> the_id q < the_id n \<and> \<not> is_duplicate q \<and> (\<exists>r. (q, r) \<in> set (walk_with_parents t None))"
    using l assms(2) walk_parent [of n q t None] by fastforce
qed

lemma expand_inv:
  assumes t: "tree_ok t" and inj: "inj_on cid (fst ` set (by_id t))"
    and inv: "sched_inv cid (by_id t) is c" and ids: "set is = {j \<in> fst ` set (by_id t). j < i}"
    and c': "expand cid (by_id t) i c = Inr c'" and i: "i \<in> fst ` set (by_id t)"
  shows "sched_inv cid (by_id t) (is @ [i]) c'"
proof -
  let ?nodes = "by_id t"
  obtain n p where np: "map_of ?nodes i = Some (n, p)" using i by (metis map_of_eq_None_iff not_None_eq surj_pair)
  then have w: "(n, p) \<in> set (walk_with_parents t None)" "the_id n = i" using by_id_lookup [OF t] by blast+
  have inj': "inj_on cid (set (i # is))" by (rule inj_on_subset [OF inj]) (use i ids in auto)
  have new: "i \<notin> set is" using ids by simp
  show ?thesis
  proof (cases p)
    case None
    then have "n = t" using tree_okD(3) [OF t w(1)] by blast
    have "is = []"
    proof (rule ccontr)
      assume "is \<noteq> []"
      then obtain j where j: "j \<in> fst ` set ?nodes" "j < i" using ids last_in_set by fastforce
      then obtain m r where "map_of ?nodes j = Some (m, r)" by (metis map_of_eq_None_iff not_None_eq surj_pair)
      then show False using tree_okD(2) [OF t, of m r] by_id_lookup [OF t, of j m r] j(2) w(2) \<open>n = t\<close> by auto
    qed
    moreover have "c' = expand_root cid i c" using c' np None by (simp add: expand_def)
    ultimately show ?thesis
      using inv add_ckpt_inv [of cid ?nodes "is" c None i n p "[]" c' "''standard''" "78 / 10" None False, OF _ _ np _ new w(2) _ inj'] None
      by (simp add: expand_root_def sched_inv_def node_line_def w(2))
  next
    case (Some q)
    from tree_okD(4) [OF t w(1) Some] obtain r where q: "the_id q < i" "\<not> is_duplicate q" "(q, r) \<in> set (walk_with_parents t None)"
      using w(2) by blast
    have lq: "map_of ?nodes (the_id q) = Some (q, r)" using by_id_lookup [OF t] q(3) by blast
    then have jq: "the_id q \<in> set is" "kept_id ?nodes (the_id q)" "base_id ?nodes (the_id q) = the_id q"
      using ids q(1,2) by (auto simp: kept_id_def base_id_def split: option.splits dest: map_of_SomeD intro: rev_image_eqI)
    define c1 where "c1 = jump_back (node_id q) c"
    note jb = jump_back_inv [OF inv tree_okD(1) [OF t q(3)] jq, folded c1_def]
    have ex: "expand_child cid i n q c = Inr c'" using c' np Some by (simp add: expand_def)
    show ?thesis
    proof (cases "is_duplicate n")
      case True
      then have "c' = c1\<lparr>prev_node := Some i\<rparr>" using ex by (simp add: expand_child_def c1_def)
      moreover have "\<not> kept_id ?nodes i" "base_id ?nodes i = the_id q" "kept_nodes ?nodes (is @ [i]) = kept_nodes ?nodes is"
        using np Some True by (simp_all add: kept_id_def base_id_def kept_nodes_def)
      ultimately show ?thesis using jb by (auto simp: sched_inv_def events_inv_def Let_def)
    next
      case False
      then obtain st ops where so: "node_strategy n = Inr st" "node_worker_ops n = Inr ops"
        "c' = (add_event (\<lambda>k. Ckpt_event k (cid i) st (if st = ''standard'' then 78 / 10 else 0) (Some i) ops True)
            (c1\<lparr>node_to_ckpt := AList.update i (cid i) (node_to_ckpt c1)\<rparr>))\<lparr>prev_node := Some i\<rparr>"
        using ex by (auto simp: expand_child_def c1_def Let_def andthen_Inr_iff)
      have "node_line cid (n, p) = (Some (cid (the_id q)), [ops], cid i)" using Some so(2) w(2) by (simp add: node_line_def)
      then show ?thesis using add_ckpt_inv [OF _ _ np _ new w(2) _ inj' so(3)] jb False by blast
    qed
  qed
qed

lemma expand_all_inv:
  assumes t: "tree_ok t" and inj: "inj_on cid (fst ` set (by_id t))"
    and "fold_result (expand cid (by_id t)) js c = Inr c'" "sched_inv cid (by_id t) is c"
    and "is @ js = sort (map fst (by_id t))"
  shows "sched_inv cid (by_id t) (is @ js) c'"
  using assms(3-)
proof (induction js arbitrary: c "is")
  case (Cons j js)
  from Cons.prems(1) obtain c1 where c1: "expand cid (by_id t) j c = Inr c1" "fold_result (expand cid (by_id t)) js c1 = Inr c'"
    by (auto simp: andthen_Inr_iff)
  have d: "distinct (is @ j # js)" "sorted (is @ j # js)" "set (is @ j # js) = fst ` set (by_id t)"
    unfolding Cons.prems(3) using by_id_distinct [OF t] by simp_all
  have "set is = {k \<in> set (is @ j # js). k < j}" using d(1,2) by (force simp: sorted_append less_le)
  then have "set is = {k \<in> fst ` set (by_id t). k < j}" unfolding d(3) .
  then have "sched_inv cid (by_id t) (is @ [j]) c1"
    using expand_inv [OF t inj Cons.prems(2) _ c1(1)] d(3) by auto
  then show ?case using Cons.IH [OF c1(2)] Cons.prems(3) by simp
qed simp

lemma search_lines_kept:
  assumes "tree_ok t"
  shows "map (node_line cid) (kept_nodes (by_id t) (sort (map fst (by_id t)))) = search_lines cid t"
proof -
  let ?ws = "walk_with_parents t None" and ?f = "\<lambda>(n, p). the_id n"
  have d: "distinct (map ?f ?ws)" using assms by (simp add: tree_ok_def Let_def)
  have "sort (map fst (by_id t)) = map ?f (sort_key ?f ?ws)"
  proof (rule sorted_distinct_set_unique)
    show "distinct (map ?f (sort_key ?f ?ws))" using d unfolding distinct_map set_sort distinct_sort .
    have "fst ` set (by_id t) = ?f ` set ?ws" unfolding by_id_walk [OF assms] by (simp add: image_image case_prod_unfold)
    then show "set (sort (map fst (by_id t))) = set (map ?f (sort_key ?f ?ws))" by simp
  qed (use by_id_distinct [OF assms] in simp_all)
  moreover have "map (\<lambda>i. the (map_of (by_id t) i)) (map ?f (sort_key ?f ?ws)) = sort_key ?f ?ws"
  proof -
    have "the (map_of (by_id t) (?f x)) = x" if "x \<in> set ?ws" for x
      using by_id_lookup [OF assms, of "?f x" "fst x" "snd x"] that by (simp add: case_prod_unfold)
    then show ?thesis unfolding map_map comp_def by (intro map_idI) simp
  qed
  ultimately show ?thesis by (simp add: kept_nodes_def search_lines_def)
qed

lemma convert_inv:
  assumes "tree_ok t" "inj_on (ckpt_name sha1_hex inst) (fst ` set (by_id t))" "convert sha1_hex (Some t) inst = Inr evs"
  shows "\<exists>c. evs = schedule c \<and> events_inv (ckpt_name sha1_hex inst) (by_id t) (sort (map fst (by_id t))) c"
proof -
  let ?cid = "ckpt_name sha1_hex inst"
  obtain c where c: "fold_result (expand ?cid (by_id t)) (sort (map fst (by_id t))) start_conv = Inr c" "evs = schedule c"
    using assms(3) by (auto simp: convert_def Let_def andthen_Inr_iff split: if_splits)
  have "sched_inv ?cid (by_id t) [] start_conv" by (simp add: sched_inv_def events_inv_def start_conv_def kept_nodes_def)
  from expand_all_inv [OF assms(1,2) c(1) this] show ?thesis using c(2) by (auto simp: sched_inv_def)
qed

text \<open>
  C19. The schedule follows the recorded search. For a tree in which nodes are numbered in the order of
  expansion and duplicates were not expanded, and as long as the shortened digests do not collide: every node
  that is not a duplicate gets exactly one checkpoint, in the order of expansion, taken after exactly the
  operations of the node were run on the state of the checkpoint of its parent; only checkpoints that exist are
  restored; and the events are numbered one by one from 1.
\<close>

theorem schedule_follows_tree:
  assumes "tree_ok t" "inj_on (ckpt_name sha1_hex inst) (fst ` set (by_id t))" "convert sha1_hex (Some t) inst = Inr evs"
  shows "lineage None [] (sched_ops evs) = search_lines (ckpt_name sha1_hex inst) t
    \<and> orderly {} (sched_ops evs) \<and> map ev_iter evs = [1..<Suc (length evs)]"
  using convert_inv [OF assms] search_lines_kept [OF assms(1)] by (auto simp: events_inv_def Let_def)

section \<open>Witnesses\<close>

definition wit_act :: "string \<Rightarrow> astep" where
  "wit_act cls = \<lparr>s_action = JObj [(''action_args_class'', JStr (''moatless.actions.'' @ cls)), (''path'', JStr ''a.py'')], s_observation = JNull\<rparr>"

definition wit_tree :: tnode where
  "wit_tree = TNode (Some 0) False []
     [TNode (Some 1) False [wit_act ''StringReplaceArgs''] [TNode (Some 4) False [wit_act ''ViewCodeArgs''] []],
      TNode (Some 2) False [wit_act ''FindClassArgs''] [], TNode (Some 3) True [wit_act ''FindClassArgs''] []]"

definition wit_sched :: "sched_event list" where
  "wit_sched = (case convert rev (Some wit_tree) ''x'' of Inr evs \<Rightarrow> evs | Inl _ \<Rightarrow> [])"

lemma wit_sched_ok: "convert rev (Some wit_tree) ''x'' = Inr wit_sched"
proof -
  have "\<not> isl (convert rev (Some wit_tree) ''x'')" by code_simp
  then show ?thesis by (auto simp: wit_sched_def split: sum.splits)
qed

theorem schedule_follows_tree_witness:
  "lineage None [] (sched_ops wit_sched) = search_lines (ckpt_name rev ''x'') wit_tree
    \<and> map ev_iter wit_sched = [1, 2, 3, 4, 5, 6, 7] \<and> map (\<lambda>(b, ws, c). (b, c)) (lineage None [] (sched_ops wit_sched))
      = [(None, ''0::x''), (Some ''0::x'', ''1::x''), (Some ''0::x'', ''2::x''), (Some ''1::x'', ''4::x'')]"
proof -
  have "tree_ok wit_tree" by code_simp
  moreover have "inj_on (ckpt_name rev ''x'') (fst ` set (by_id wit_tree))" by code_simp
  ultimately have "lineage None [] (sched_ops wit_sched) = search_lines (ckpt_name rev ''x'') wit_tree"
    using schedule_follows_tree [OF _ _ wit_sched_ok] by blast
  moreover have "map ev_iter wit_sched = [1, 2, 3, 4, 5, 6, 7]" by code_simp
  moreover have "map (\<lambda>(b, ws, c). (b, c)) (lineage None [] (sched_ops wit_sched))
      = [(None, ''0::x''), (Some ''0::x'', ''1::x''), (Some ''0::x'', ''2::x''), (Some ''1::x'', ''4::x'')]" by code_simp
  ultimately show ?thesis by blast
qed

theorem schedule_light_reads_witness:
  "list_all light_reads wit_sched \<and> filter (\<lambda>s. s = ''lightweight'') (map ev_strategy (filter is_Ckpt_event wit_sched)) \<noteq> []"
proof -
  have "filter (\<lambda>s. s = ''lightweight'') (map ev_strategy (filter is_Ckpt_event wit_sched)) \<noteq> []" by code_simp
  then show ?thesis using schedule_light_reads [OF wit_sched_ok] by blast
qed

text \<open>
  A child of a duplicate that is expanded after a jump is run on the state of an unrelated node: the
  duplicate has no checkpoint, so no restore is scheduled.
\<close>

definition wit_dup_tree :: tnode where
  "wit_dup_tree = TNode (Some 0) False []
     [TNode (Some 1) True [] [TNode (Some 3) False [wit_act ''FindClassArgs''] []], TNode (Some 2) False [wit_act ''StringReplaceArgs''] []]"

lemma duplicate_child_runs_elsewhere:
  "map_option (map (\<lambda>(b, ws, c). (b, c)))
     (case convert rev (Some wit_dup_tree) ''x'' of Inr evs \<Rightarrow> Some (lineage None [] (sched_ops evs)) | Inl _ \<Rightarrow> None)
   = Some [(None, ''0::x''), (Some ''0::x'', ''2::x''), (Some ''2::x'', ''3::x'')]"
  by code_simp

end
