(* ===== verification/Tree_Search.thy ===== *)
theory Tree_Search
  imports Branching Semantic_Parser Complex_Main
begin

text \<open>
  The tree search on the host, \<^verbatim>\<open>agent/host/decoupled_mcts.py\<close>: selection by UCT, one expansion per iteration
  (restore, step of the worker, checkpoint), evaluation, back-propagation, the choice of the best node. The
  nodes are a list; a node is its position, as the code numbers them. Sums of values are rational numbers, and
  the floating-point value of the UCT formula is an argument. What the sandbox and the worker answer in an
  iteration is a record; the calls to the sandbox are collected as operations of the rollback contract.
\<close>

section \<open>Nodes\<close>

record snode =
  n_parent :: "nat option"
  n_ckpt :: string
  n_action :: "string option"
  n_obs :: string
  n_finished :: bool
  n_depth :: nat
  n_children :: "nat list"
  n_visits :: nat
  n_value_sum :: rat
  n_reward :: rat

text \<open>The UCT value of a child; \<^verbatim>\<open>inf\<close> is \<open>None\<close>.\<close>

type_synonym uct_float = "nat \<Rightarrow> rat \<Rightarrow> nat \<Rightarrow> rat"

definition uct :: "uct_float \<Rightarrow> snode \<Rightarrow> nat \<Rightarrow> rat option" where
  "uct score child parent_visits =
     (if n_visits child = 0 then None else Some (score (n_visits child) (n_value_sum child) parent_visits))"

definition uct_less :: "rat option \<Rightarrow> rat option \<Rightarrow> bool" where
  "uct_less a b = (case (a, b) of (Some x, Some y) \<Rightarrow> x < y | (Some _, None) \<Rightarrow> True | (None, _) \<Rightarrow> False)"

text \<open>Python's \<^verbatim>\<open>max\<close> keeps the first of the largest elements.\<close>

fun max_by :: "('k \<Rightarrow> 'k \<Rightarrow> bool) \<Rightarrow> ('a \<Rightarrow> 'k) \<Rightarrow> 'a \<Rightarrow> 'a list \<Rightarrow> 'a" where
  "max_by lt key b [] = b"
| "max_by lt key b (x # xs) = max_by lt key (if lt (key b) (key x) then x else b) xs"

partial_function (option) select :: "uct_float \<Rightarrow> nat \<Rightarrow> snode list \<Rightarrow> nat \<Rightarrow> nat option option" where
  "select score max_expansions nodes i =
     (let node = nodes ! i in
      if \<not> n_finished node \<and> length (n_children node) < max_expansions then Some (Some i)
      else (case n_children node of
          [] \<Rightarrow> Some None
        | c # cs \<Rightarrow> select score max_expansions nodes
            (max_by uct_less (\<lambda>c. uct score (nodes ! c) (n_visits node)) c cs)))"

declare select.simps [code]

definition add_value :: "rat \<Rightarrow> snode \<Rightarrow> snode" where
  "add_value v n = n\<lparr>n_visits := Suc (n_visits n), n_value_sum := n_value_sum n + v\<rparr>"

partial_function (option) backprop :: "rat \<Rightarrow> nat option \<Rightarrow> snode list \<Rightarrow> snode list option" where
  "backprop v cur nodes = (case cur of
       None \<Rightarrow> Some nodes
     | Some i \<Rightarrow> backprop v (n_parent (nodes ! i)) (nodes[i := add_value v (nodes ! i)]))"

declare backprop.simps [code]

section \<open>Evaluation\<close>

definition edit_actions :: "string list" where
  "edit_actions = [''stringreplace'', ''replacelines'', ''regexreplace'', ''applypatch'', ''createfile'', ''appendstring'']"

text \<open>The runs of the verification command: at most three, as long as a failure looks transient.\<close>

fun verify_loop :: "(nat \<Rightarrow> int \<times> string) \<Rightarrow> nat list \<Rightarrow> int \<Rightarrow> int" where
  "verify_loop outcome [] rc = rc"
| "verify_loop outcome (a # attempts) rc = (case outcome a of (rc, out) \<Rightarrow>
     if rc = 0 \<or> \<not> contains ''not found'' out \<and> \<not> contains ''no tests ran'' out then rc else verify_loop outcome attempts rc)"

record iter_env =
  restore_answer :: "bool result"
  reopen_error :: "py_error option"
  step_answer :: "(string option \<times> string \<times> bool) result"
  ckpt_answer :: "string result"
  verify_outcome :: "nat \<Rightarrow> int \<times> string"
  diff_present :: bool

definition is_edit :: "snode \<Rightarrow> bool" where
  "is_edit n \<longleftrightarrow> (case n_action n of Some a \<Rightarrow> map lower_char a \<in> set edit_actions | None \<Rightarrow> False)"

text \<open>The value of a new node, and its reward.\<close>

definition evaluate :: "iter_env \<Rightarrow> bool \<Rightarrow> snode \<Rightarrow> rat \<times> rat" where
  "evaluate env verify_cmd child =
     (let obs = map lower_char (n_obs child) in
      if n_finished child then
        (let r = (if verify_cmd then (if verify_loop (verify_outcome env) [0, 1, 2] 1 = 0 then 1 else 1 / 5)
                  else if diff_present env then 7 / 10 else 3 / 10) in (r, r))
      else (if is_edit child \<and> \<not> contains ''not found'' obs \<and> \<not> contains ''error'' obs then 3 / 5
            else if contains ''not found'' obs \<or> contains ''raised'' obs \<or> contains ''invalid'' obs then 3 / 20
            else 2 / 5, n_reward child))"

section \<open>The search\<close>

record search =
  s_nodes :: "snode list"
  s_current :: nat
  s_candidates :: "nat list"
  s_ops :: "nat op list"
  n_restores :: nat
  warm_forks :: nat
  step_failures :: nat

definition add_op :: "nat op \<Rightarrow> search \<Rightarrow> search" where
  "add_op x st = st\<lparr>s_ops := s_ops st @ [x]\<rparr>"

definition new_node :: "nat option \<Rightarrow> string \<Rightarrow> nat \<Rightarrow> snode" where
  "new_node parent ck depth = \<lparr>n_parent = parent, n_ckpt = ck, n_action = None, n_obs = [], n_finished = False, n_depth = depth,
     n_children = [], n_visits = 0, n_value_sum = 0, n_reward = 0\<rparr>"

definition start_search :: "string \<Rightarrow> search" where
  "start_search root_ck = \<lparr>s_nodes = [new_node None root_ck 0], s_current = 0, s_candidates = [], s_ops = [Checkpoint root_ck],
     n_restores = 0, warm_forks = 0, step_failures = 0\<rparr>"

definition goto_node :: "iter_env \<Rightarrow> nat \<Rightarrow> search \<Rightarrow> (unit, search) eff" where
  "goto_node env target st =
     (case restore_answer env of
        Inl e \<Rightarrow> (Inl e, st)
      | Inr fork \<Rightarrow>
          let st = (add_op (Restore (n_ckpt (s_nodes st ! target))) st)
            \<lparr>n_restores := Suc (n_restores st), warm_forks := warm_forks st + (if fork then 1 else 0)\<rparr> in
          (case reopen_error env of Some e \<Rightarrow> (Inl e, st) | None \<Rightarrow> (Inr (), st\<lparr>s_current := target\<rparr>)))"

definition attach :: "nat \<Rightarrow> snode \<Rightarrow> snode list \<Rightarrow> snode list" where
  "attach target child nodes = nodes[target := (nodes ! target)\<lparr>n_children := n_children (nodes ! target) @ [length nodes]\<rparr>] @ [child]"

definition expand_node :: "iter_env \<Rightarrow> nat \<Rightarrow> search \<Rightarrow> (nat, search) eff" where
  "expand_node env target st =
     bind_eff (if target \<noteq> s_current st then goto_node env target st else (Inr (), st)) (\<lambda>_ st.
       case step_answer env of
         Inl e \<Rightarrow> (Inl (RuntimeError ''worker step failed''), st\<lparr>step_failures := Suc (step_failures st)\<rparr>)
       | Inr (action, obs, finished) \<Rightarrow>
           let st = add_op (Write (length (s_nodes st))) st in
           (case ckpt_answer env of
              Inl e \<Rightarrow> (Inl e, st)
            | Inr ck \<Rightarrow>
                let child = (new_node (Some target) ck (Suc (n_depth (s_nodes st ! target))))
                      \<lparr>n_action := action, n_obs := obs, n_finished := finished\<rparr>;
                    i = length (s_nodes st);
                    st = (add_op (Checkpoint ck) st)\<lparr>s_nodes := attach target child (s_nodes st), s_current := i\<rparr> in
                (Inr i, st)))"

definition record_value :: "iter_env \<Rightarrow> bool \<Rightarrow> nat \<Rightarrow> search \<Rightarrow> search option" where
  "record_value env verify_cmd i st =
     (case evaluate env verify_cmd (s_nodes st ! i) of (value, reward) \<Rightarrow>
      let nodes = (s_nodes st)[i := (s_nodes st ! i)\<lparr>n_reward := reward\<rparr>] in
      map_option (\<lambda>nodes. st\<lparr>s_nodes := nodes,
          s_candidates := (if n_finished (s_nodes st ! i) then s_candidates st @ [i] else s_candidates st)\<rparr>)
        (backprop value (Some i) nodes))"

text \<open>The iterations. The result says whether the search still runs; \<open>None\<close> means that a loop does not end.\<close>

definition iteration :: "uct_float \<Rightarrow> nat \<Rightarrow> bool \<Rightarrow> iter_env \<Rightarrow> search \<Rightarrow> (bool, search) eff option" where
  "iteration score max_exp verify_cmd env st =
     (case select score max_exp (s_nodes st) 0 of
        None \<Rightarrow> None
      | Some None \<Rightarrow> Some (Inr False, st)
      | Some (Some target) \<Rightarrow>
          (case expand_node env target st of
             (Inl e, st) \<Rightarrow> Some (Inl e, st)
           | (Inr i, st) \<Rightarrow> map_option (Pair (Inr True)) (record_value env verify_cmd i st)))"

fun search_loop :: "uct_float \<Rightarrow> nat \<Rightarrow> bool \<Rightarrow> iter_env list \<Rightarrow> search \<Rightarrow> (unit, search) eff option" where
  "search_loop score max_exp verify_cmd [] st = Some (Inr (), st)"
| "search_loop score max_exp verify_cmd (env # envs) st =
     (case iteration score max_exp verify_cmd env st of
        None \<Rightarrow> None
      | Some (Inl e, st) \<Rightarrow> Some (Inl e, st)
      | Some (Inr go, st) \<Rightarrow> if go then search_loop score max_exp verify_cmd envs st else Some (Inr (), st))"

text \<open>The best node: the finished one with the highest reward, else the deepest edit.\<close>

definition reward_less :: "rat \<times> nat \<Rightarrow> rat \<times> nat \<Rightarrow> bool" where
  "reward_less a b \<longleftrightarrow> fst a < fst b \<or> fst a = fst b \<and> snd a < snd b"

definition best_node :: "search \<Rightarrow> nat option" where
  "best_node st =
     (case s_candidates st of
        c # cs \<Rightarrow> Some (max_by reward_less (\<lambda>i. (n_reward (s_nodes st ! i), n_depth (s_nodes st ! i))) c cs)
      | [] \<Rightarrow> (case filter (\<lambda>i. is_edit (s_nodes st ! i)) [0..<length (s_nodes st)] of
            c # cs \<Rightarrow> Some (max_by (<) (\<lambda>i. n_depth (s_nodes st ! i)) c cs)
          | [] \<Rightarrow> None))"

record search_result =
  r_ok :: bool
  r_solved :: bool
  best_node_id :: "nat option"
  n_iterations :: nat
  r_nodes :: nat
  r_restores :: nat
  n_finished_nodes :: nat

definition search_answer :: "bool \<Rightarrow> nat option \<Rightarrow> search \<Rightarrow> search_result" where
  "search_answer verify_cmd best st = \<lparr>r_ok = (length (s_nodes st) > 1 \<and> step_failures st = 0),
     r_solved = (case best of Some b \<Rightarrow> n_finished (s_nodes st ! b) \<and> verify_cmd \<and> n_reward (s_nodes st ! b) = 1 | None \<Rightarrow> False),
     best_node_id = best, n_iterations = length (s_nodes st) - 1, r_nodes = length (s_nodes st), r_restores = n_restores st,
     n_finished_nodes = length (s_candidates st)\<rparr>"

text \<open>The environment of the last restore, which puts the best node into place.\<close>

definition finish_search :: "iter_env \<Rightarrow> bool \<Rightarrow> search \<Rightarrow> (search_result, search) eff" where
  "finish_search env verify_cmd st =
     (let best = best_node st in
      bind_eff (case best of
          Some b \<Rightarrow> if b \<noteq> s_current st then goto_node (env\<lparr>reopen_error := None\<rparr>) b st else (Inr (), st)
        | None \<Rightarrow> (Inr (), st)) (\<lambda>_ st. (Inr (search_answer verify_cmd best st), st)))"

definition run_decoupled ::
  "uct_float \<Rightarrow> nat \<Rightarrow> bool \<Rightarrow> string result \<Rightarrow> iter_env list \<Rightarrow> iter_env \<Rightarrow> (search_result, search) eff option" where
  "run_decoupled score max_exp verify_cmd root_ck envs last_env =
     (case root_ck of
        Inl e \<Rightarrow> Some (Inl e, (start_search [])\<lparr>s_nodes := [], s_ops := []\<rparr>)
      | Inr ck \<Rightarrow> map_option (\<lambda>r. bind_eff r (\<lambda>_. finish_search last_env verify_cmd)) (search_loop score max_exp verify_cmd envs (start_search ck)))"

section \<open>The tree\<close>

definition parent_of :: "snode list \<Rightarrow> nat \<Rightarrow> nat \<Rightarrow> bool" where
  "parent_of nodes p i \<longleftrightarrow> i < length nodes \<and> n_parent (nodes ! i) = Some p"

abbreviation above :: "snode list \<Rightarrow> nat \<Rightarrow> nat \<Rightarrow> bool" where
  "above nodes \<equiv> (parent_of nodes)\<^sup>*\<^sup>*"

text \<open>
  The shape of the tree: the root is the first node, parents come before their children and the two links
  agree; a finished node has no children and no node has too many.
\<close>

definition shape :: "nat \<Rightarrow> snode list \<Rightarrow> bool" where
  "shape max_exp nodes \<longleftrightarrow> nodes \<noteq> [] \<and> n_parent (nodes ! 0) = None \<and> n_depth (nodes ! 0) = 0
     \<and> (\<forall>i < length nodes. 0 < i \<longrightarrow> (\<exists>p < i. n_parent (nodes ! i) = Some p \<and> i \<in> set (n_children (nodes ! p))
          \<and> n_depth (nodes ! i) = Suc (n_depth (nodes ! p))))
     \<and> (\<forall>i < length nodes. distinct (n_children (nodes ! i)) \<and> length (n_children (nodes ! i)) \<le> max_exp
          \<and> (\<forall>c \<in> set (n_children (nodes ! i)). c < length nodes \<and> n_parent (nodes ! c) = Some i)
          \<and> (n_finished (nodes ! i) \<longrightarrow> n_children (nodes ! i) = []))"

lemma shapeD:
  assumes "shape m nodes"
  shows "0 < length nodes" "n_parent (nodes ! 0) = None"
    "\<lbrakk>i < length nodes; n_parent (nodes ! i) = Some p\<rbrakk> \<Longrightarrow> p < i \<and> i \<in> set (n_children (nodes ! p)) \<and> n_depth (nodes ! i) = Suc (n_depth (nodes ! p))"
    "\<lbrakk>i < length nodes; c \<in> set (n_children (nodes ! i))\<rbrakk> \<Longrightarrow> i < c \<and> c < length nodes \<and> n_parent (nodes ! c) = Some i"
    "\<lbrakk>i < length nodes; 0 < i\<rbrakk> \<Longrightarrow> \<exists>p < i. n_parent (nodes ! i) = Some p"
proof -
  show "0 < length nodes" "n_parent (nodes ! 0) = None" using assms by (auto simp: shape_def)
  show par: "p < i \<and> i \<in> set (n_children (nodes ! p)) \<and> n_depth (nodes ! i) = Suc (n_depth (nodes ! p))"
    if "i < length nodes" "n_parent (nodes ! i) = Some p" for i p
    using that assms unfolding shape_def by (cases "i = 0") fastforce+
  show "i < c \<and> c < length nodes \<and> n_parent (nodes ! c) = Some i" if "i < length nodes" "c \<in> set (n_children (nodes ! i))"
    using that assms par unfolding shape_def by blast
  show "\<lbrakk>i < length nodes; 0 < i\<rbrakk> \<Longrightarrow> \<exists>p < i. n_parent (nodes ! i) = Some p" using assms unfolding shape_def by blast
qed

lemma above_below:
  assumes "\<forall>i < length nodes. \<forall>p. n_parent (nodes ! i) = Some p \<longrightarrow> p < i" "above nodes k i"
  shows "k \<le> i"
  using assms(2)
proof (induction rule: rtranclp_induct)
  case (step a b)
  then show ?case using assms(1) by (force simp: parent_of_def)
qed simp

lemma above_le: "\<lbrakk>shape m nodes; above nodes k i\<rbrakk> \<Longrightarrow> k \<le> i"
  using above_below shapeD(3) by metis

lemma above_parent:
  assumes "i < length nodes" "n_parent (nodes ! i) = Some p"
  shows "above nodes k i \<longleftrightarrow> k = i \<or> above nodes k p"
proof
  assume "above nodes k i"
  then show "k = i \<or> above nodes k p" using assms by (cases rule: rtranclp.cases) (auto simp: parent_of_def)
next
  assume "k = i \<or> above nodes k p"
  then show "above nodes k i" using assms by (auto simp: parent_of_def intro: rtranclp.rtrancl_into_rtrancl)
qed

lemma max_by_mem: "max_by lt key b xs \<in> set (b # xs)"
  by (induction lt key b xs rule: max_by.induct) auto

section \<open>Selection\<close>

text \<open>The descent ends at a node that can be expanded or at a leaf that cannot.\<close>

lemma select_spec:
  assumes sh: "shape m nodes" and "i < length nodes" "0 < max_exp"
  shows "\<exists>r. select score max_exp nodes i = Some r
    \<and> (case r of Some t \<Rightarrow> t < length nodes \<and> above nodes i t \<and> \<not> n_finished (nodes ! t) \<and> length (n_children (nodes ! t)) < max_exp
       | None \<Rightarrow> \<exists>t < length nodes. above nodes i t \<and> n_finished (nodes ! t) \<and> n_children (nodes ! t) = [])"
  using assms(2)
proof (induction "length nodes - i" arbitrary: i rule: less_induct)
  case less
  show ?case
  proof (cases "\<not> n_finished (nodes ! i) \<and> length (n_children (nodes ! i)) < max_exp")
    case True
    then show ?thesis using less.prems by (simp add: select.simps)
  next
    case False
    show ?thesis
    proof (cases "n_children (nodes ! i)")
      case Nil
      then show ?thesis using False less.prems assms(3) by (auto simp: select.simps)
    next
      case (Cons c cs)
      define j where "j = max_by uct_less (\<lambda>c. uct score (nodes ! c) (n_visits (nodes ! i))) c cs"
      have "j \<in> set (n_children (nodes ! i))" unfolding j_def Cons by (rule max_by_mem)
      then have j: "i < j" "j < length nodes" "n_parent (nodes ! j) = Some i" using shapeD(4) [OF sh less.prems] by blast+
      have sel: "select score max_exp nodes i = select score max_exp nodes j"
        by (subst select.simps) (use False Cons in \<open>auto simp: j_def\<close>)
      have up: "above nodes i t" if "above nodes j t" for t
        using that j by (auto simp: parent_of_def intro: converse_rtranclp_into_rtranclp)
      show ?thesis unfolding sel using less.hyps [OF _ j(2)] j(1,2) up by (fastforce split: option.splits)
    qed
  qed
qed

section \<open>Back-propagation\<close>

lemma add_value_simps [simp]:
  "n_parent (add_value v n) = n_parent n" "n_children (add_value v n) = n_children n" "n_finished (add_value v n) = n_finished n"
  "n_ckpt (add_value v n) = n_ckpt n" "n_depth (add_value v n) = n_depth n"
  "n_visits (add_value v n) = Suc (n_visits n)" "n_value_sum (add_value v n) = n_value_sum n + v"
  by (simp_all add: add_value_def)

lemma parent_of_cong:
  "\<lbrakk>length nodes' = length nodes; \<And>i. i < length nodes \<Longrightarrow> n_parent (nodes' ! i) = n_parent (nodes ! i)\<rbrakk>
   \<Longrightarrow> parent_of nodes' = parent_of nodes"
  by (auto simp: parent_of_def fun_eq_iff)

lemma backprop_parents:
  assumes "\<forall>i < length nodes. \<forall>p. n_parent (nodes ! i) = Some p \<longrightarrow> p < i" "i < length nodes"
  shows "backprop v (Some i) nodes = Some (map (\<lambda>k. if above nodes k i then add_value v (nodes ! k) else nodes ! k) [0..<length nodes])"
  using assms
proof (induction i arbitrary: nodes rule: less_induct)
  case (less i)
  define nodes1 where "nodes1 = nodes[i := add_value v (nodes ! i)]"
  have n1: "length nodes1 = length nodes" "\<And>k. k < length nodes \<Longrightarrow> n_parent (nodes1 ! k) = n_parent (nodes ! k)"
    using less.prems(2) by (simp_all add: nodes1_def nth_list_update)
  have po: "parent_of nodes1 = parent_of nodes" by (rule parent_of_cong [OF n1])
  have unf: "backprop v (Some i) nodes = backprop v (n_parent (nodes ! i)) nodes1" by (subst backprop.simps) (simp add: nodes1_def)
  show ?case
  proof (cases "n_parent (nodes ! i)")
    case None
    have "above nodes k i \<longleftrightarrow> k = i" for k using None by (auto simp: parent_of_def elim: rtranclp.cases)
    then show ?thesis unfolding unf None
      by (subst backprop.simps) (auto simp: nodes1_def nth_list_update intro!: nth_equalityI)
  next
    case (Some p)
    then have p: "p < i" "p < length nodes1" using less.prems n1(1) by auto
    have "\<forall>i < length nodes1. \<forall>p. n_parent (nodes1 ! i) = Some p \<longrightarrow> p < i" using less.prems(1) n1 by auto
    from less.IH [OF p(1) this p(2)] have
      "backprop v (Some i) nodes = Some (map (\<lambda>k. if above nodes k p then add_value v (nodes1 ! k) else nodes1 ! k) [0..<length nodes])"
      by (simp only: unf Some po n1(1))
    moreover have "(if above nodes k p then add_value v (nodes1 ! k) else nodes1 ! k)
        = (if above nodes k i then add_value v (nodes ! k) else nodes ! k)" if "k < length nodes" for k
      using that above_parent [OF less.prems(2) Some, of k] above_below [OF less.prems(1), of k p] p(1)
      by (auto simp: nodes1_def nth_list_update)
    ultimately show ?thesis by simp
  qed
qed

lemma backprop_spec:
  assumes "shape m nodes" "i < length nodes"
  shows "backprop v (Some i) nodes = Some (map (\<lambda>k. if above nodes k i then add_value v (nodes ! k) else nodes ! k) [0..<length nodes])"
  by (rule backprop_parents [OF _ assms(2)]) (use shapeD(3) [OF assms(1)] in blast)

section \<open>One expansion\<close>

text \<open>
  What an expansion does to the state: it goes to the target unless the sandbox is there, steps and checkpoints; the
  new node is the last one.
\<close>

definition fresh_child :: "snode list \<Rightarrow> nat \<Rightarrow> snode \<Rightarrow> bool" where
  "fresh_child nodes target c \<longleftrightarrow> n_parent c = Some target \<and> n_children c = [] \<and> n_depth c = Suc (n_depth (nodes ! target))
     \<and> n_visits c = 0 \<and> n_value_sum c = 0"

definition go_ops :: "nat \<Rightarrow> search \<Rightarrow> nat op list" where
  "go_ops target st = (if target = s_current st then [] else [Restore (n_ckpt (s_nodes st ! target))])"

lemma expand_node_ok:
  assumes "expand_node env target st = (Inr i, st')"
  shows "i = length (s_nodes st) \<and> s_current st' = i \<and> s_candidates st' = s_candidates st
    \<and> (\<exists>c. fresh_child (s_nodes st) target c \<and> s_nodes st' = attach target c (s_nodes st)
         \<and> s_ops st' = s_ops st @ go_ops target st @ [Write i, Checkpoint (n_ckpt c)])"
proof -
  obtain s1 where s1: "(if target \<noteq> s_current st then goto_node env target st else (Inr (), st)) = (Inr (), s1)"
    using assms unfolding expand_node_def bind_eff_Inr_iff by (metis (full_types) old.unit.exhaust)
  then have s2: "s_nodes s1 = s_nodes st" "s_candidates s1 = s_candidates st" "s_ops s1 = s_ops st @ go_ops target st"
    by (auto simp: goto_node_def add_op_def go_ops_def Let_def split: if_splits sum.splits option.splits)
  obtain a obs fin ck where c: "step_answer env = Inr (a, obs, fin)" "ckpt_answer env = Inr ck"
    using assms s1(1) by (auto simp: expand_node_def Let_def split: sum.splits)
  define child where "child = (new_node (Some target) ck (Suc (n_depth (s_nodes st ! target))))\<lparr>n_action := a, n_obs := obs, n_finished := fin\<rparr>"
  have "i = length (s_nodes st)" "st' = (add_op (Checkpoint ck) (add_op (Write i) s1))\<lparr>s_nodes := attach target child (s_nodes st), s_current := i\<rparr>"
    using assms s1 s2 c by (auto simp: expand_node_def Let_def child_def add_op_def)
  moreover have "fresh_child (s_nodes st) target child" "n_ckpt child = ck" by (simp_all add: child_def fresh_child_def new_node_def)
  ultimately show ?thesis using s2 by (auto simp: add_op_def intro!: exI [of _ child])
qed

lemma expand_node_failed:
  assumes "expand_node env target st = (Inl e, st')"
  shows "s_nodes st' = s_nodes st \<and> s_candidates st' = s_candidates st
    \<and> (s_ops st' = s_ops st \<or> (\<exists>ws. (\<forall>w \<in> set ws. \<exists>i. w = Write i) \<and> s_ops st' = s_ops st @ go_ops target st @ ws))"
proof -
  have "s_nodes st' = s_nodes st \<and> s_candidates st' = s_candidates st
    \<and> (s_ops st' = s_ops st \<or> s_ops st' = s_ops st @ go_ops target st @ [] \<or> (\<exists>i. s_ops st' = s_ops st @ go_ops target st @ [Write i]))"
    using assms
    by (auto simp: expand_node_def goto_node_def add_op_def Let_def go_ops_def split: if_splits sum.splits option.splits)
  then show ?thesis by (metis empty_iff empty_set set_ConsD)
qed

lemma attach_nth:
  "target < length nodes \<Longrightarrow> length (attach target child nodes) = Suc (length nodes)"
  "target < length nodes \<Longrightarrow> attach target child nodes ! length nodes = child"
  "\<lbrakk>target < length nodes; k < length nodes\<rbrakk> \<Longrightarrow> attach target child nodes ! k
    = (if k = target then (nodes ! k)\<lparr>n_children := n_children (nodes ! k) @ [length nodes]\<rparr> else nodes ! k)"
  by (auto simp: attach_def nth_append nth_list_update)

lemma attach_shape:
  assumes sh: "shape m nodes" and t: "target < length nodes" "\<not> n_finished (nodes ! target)" "length (n_children (nodes ! target)) < m"
    and c: "fresh_child nodes target child"
  shows "shape m (attach target child nodes)"
proof -
  let ?ns = "attach target child nodes" and ?n = "length nodes"
  note l = attach_nth(1) [OF t(1), of child] and new = attach_nth(2) [OF t(1), of child] and old = attach_nth(3) [OF t(1), of _ child]
  have par: "n_parent (?ns ! k) = n_parent (nodes ! k)" "n_depth (?ns ! k) = n_depth (nodes ! k)" "n_finished (?ns ! k) = n_finished (nodes ! k)"
    if "k < ?n" for k using old [OF that] by auto
  have "?ns \<noteq> [] \<and> n_parent (?ns ! 0) = None \<and> n_depth (?ns ! 0) = 0"
    using sh l par(1,2) [of 0] shapeD(1) [OF sh] by (auto simp: shape_def)
  moreover have "\<exists>p < i. n_parent (?ns ! i) = Some p \<and> i \<in> set (n_children (?ns ! p)) \<and> n_depth (?ns ! i) = Suc (n_depth (?ns ! p))"
    if il: "i < length ?ns" and i0: "0 < i" for i
  proof (cases "i = ?n")
    case True
    then show ?thesis using new old [OF t(1)] t(1) c par(2) [OF t(1)] by (auto simp: fresh_child_def)
  next
    case False
    then have i: "i < ?n" using il l by simp
    then obtain p where p: "p < i" "n_parent (nodes ! i) = Some p" "i \<in> set (n_children (nodes ! p))" "n_depth (nodes ! i) = Suc (n_depth (nodes ! p))"
      using sh i0 unfolding shape_def by blast
    then show ?thesis using par [OF i] old [of p] i by (intro exI [of _ p]) auto
  qed
  moreover have "distinct (n_children (?ns ! i)) \<and> length (n_children (?ns ! i)) \<le> m
      \<and> (\<forall>k \<in> set (n_children (?ns ! i)). k < length ?ns \<and> n_parent (?ns ! k) = Some i)
      \<and> (n_finished (?ns ! i) \<longrightarrow> n_children (?ns ! i) = [])" if "i < length ?ns" for i
  proof (cases "i = ?n")
    case True
    then show ?thesis using new c by (simp add: fresh_child_def)
  next
    case False
    then have i: "i < ?n" using that l by simp
    have ch: "distinct (n_children (nodes ! i)) \<and> length (n_children (nodes ! i)) \<le> m
      \<and> (\<forall>k \<in> set (n_children (nodes ! i)). k < ?n \<and> n_parent (nodes ! k) = Some i) \<and> (n_finished (nodes ! i) \<longrightarrow> n_children (nodes ! i) = [])"
      using sh i unfolding shape_def by blast
    then show ?thesis using old [OF i] par [OF i] par(1) new t l c by (auto simp: fresh_child_def)
  qed
  ultimately show ?thesis unfolding shape_def by blast
qed

text \<open>The ancestors of the old nodes stay, those of the new node are the target's and itself.\<close>

lemma attach_above:
  assumes sh: "shape m nodes" and t: "target < length nodes" and c: "fresh_child nodes target child"
  shows "j < length nodes \<Longrightarrow> above (attach target child nodes) k j \<longleftrightarrow> above nodes k j"
    "above (attach target child nodes) k (length nodes) \<longleftrightarrow> k = length nodes \<or> above nodes k target"
proof -
  let ?ns = "attach target child nodes"
  have po: "parent_of ?ns p j \<longleftrightarrow> parent_of nodes p j" if "j < length nodes" for p j
    using attach_nth(1,3) [OF t] that by (auto simp: parent_of_def)
  show old: "above ?ns k j \<longleftrightarrow> above nodes k j" if "j < length nodes" for k j
    using that
  proof (induction j rule: less_induct)
    case (less j)
    show ?case
    proof (cases "n_parent (nodes ! j)")
      case None
      then have "\<not> parent_of ?ns p j" "\<not> parent_of nodes p j" for p using po [OF less.prems] by (auto simp: parent_of_def)
      then show ?thesis by (metis rtranclp.simps)
    next
      case (Some p)
      then have p: "p < j" using shapeD(3) [OF sh less.prems] by blast
      have q: "j < length ?ns" "n_parent (?ns ! j) = Some p" using po [OF less.prems, of p] Some less.prems by (auto simp: parent_of_def)
      show ?thesis using above_parent [OF less.prems Some] above_parent [OF q] less.IH [OF p] p less.prems by simp
    qed
  qed
  have "length nodes < length ?ns" "n_parent (?ns ! length nodes) = Some target"
    using attach_nth(1,2) [OF t, of child] c by (simp_all add: fresh_child_def)
  from above_parent [OF this] show "above ?ns k (length nodes) \<longleftrightarrow> k = length nodes \<or> above nodes k target"
    using old [OF t] by simp
qed

section \<open>Values\<close>

definition same_tree :: "snode list \<Rightarrow> snode list \<Rightarrow> bool" where
  "same_tree nodes nodes' \<longleftrightarrow> length nodes' = length nodes \<and> (\<forall>i < length nodes. n_parent (nodes' ! i) = n_parent (nodes ! i)
     \<and> n_children (nodes' ! i) = n_children (nodes ! i) \<and> n_finished (nodes' ! i) = n_finished (nodes ! i)
     \<and> n_depth (nodes' ! i) = n_depth (nodes ! i) \<and> n_ckpt (nodes' ! i) = n_ckpt (nodes ! i))"

lemma same_tree_shape:
  assumes st: "same_tree nodes nodes'" and sh: "shape m nodes"
  shows "shape m nodes'"
proof -
  have l: "length nodes' = length nodes" using st by (simp add: same_tree_def)
  have e: "n_parent (nodes' ! i) = n_parent (nodes ! i)" "n_children (nodes' ! i) = n_children (nodes ! i)"
    "n_finished (nodes' ! i) = n_finished (nodes ! i)" "n_depth (nodes' ! i) = n_depth (nodes ! i)" if "i < length nodes" for i
    using st that by (simp_all add: same_tree_def)
  have "\<exists>p < i. n_parent (nodes' ! i) = Some p \<and> i \<in> set (n_children (nodes' ! p)) \<and> n_depth (nodes' ! i) = Suc (n_depth (nodes' ! p))"
    if il: "i < length nodes" and i0: "0 < i" for i
  proof -
    obtain p where "p < i" "n_parent (nodes ! i) = Some p" "i \<in> set (n_children (nodes ! p))" "n_depth (nodes ! i) = Suc (n_depth (nodes ! p))"
      using sh il i0 unfolding shape_def by blast
    then show ?thesis using e [OF il] e [of p] il by auto
  qed
  moreover have "distinct (n_children (nodes' ! i)) \<and> length (n_children (nodes' ! i)) \<le> m
      \<and> (\<forall>c \<in> set (n_children (nodes' ! i)). c < length nodes' \<and> n_parent (nodes' ! c) = Some i)
      \<and> (n_finished (nodes' ! i) \<longrightarrow> n_children (nodes' ! i) = [])" if "i < length nodes" for i
  proof -
    have "distinct (n_children (nodes ! i)) \<and> length (n_children (nodes ! i)) \<le> m
      \<and> (\<forall>c \<in> set (n_children (nodes ! i)). c < length nodes \<and> n_parent (nodes ! c) = Some i)
      \<and> (n_finished (nodes ! i) \<longrightarrow> n_children (nodes ! i) = [])" using sh that unfolding shape_def by blast
    then show ?thesis using e [OF that] e(1) l by simp
  qed
  moreover have "nodes' \<noteq> [] \<and> n_parent (nodes' ! 0) = None \<and> n_depth (nodes' ! 0) = 0"
    using sh e [OF shapeD(1) [OF sh]] l by (auto simp: shape_def)
  ultimately show ?thesis unfolding shape_def l by blast
qed

lemma same_tree_above: "same_tree nodes nodes' \<Longrightarrow> above nodes' = above nodes"
  using parent_of_cong [of nodes' nodes] by (simp add: same_tree_def)

lemma evaluate_bounds: "evaluate env v n = (value, reward) \<Longrightarrow> 3 / 20 \<le> value \<and> value \<le> 1"
  by (auto simp: evaluate_def Let_def split: if_splits)

text \<open>Recording a value always ends; it adds the value to the node and all its ancestors.\<close>

lemma record_value_ok:
  assumes sh: "shape m (s_nodes st)" and i: "i < length (s_nodes st)"
  shows "\<exists>v nodes. record_value env vc i st = Some (st\<lparr>s_nodes := nodes,
      s_candidates := (if n_finished (s_nodes st ! i) then s_candidates st @ [i] else s_candidates st)\<rparr>)
    \<and> 3 / 20 \<le> v \<and> v \<le> 1 \<and> same_tree (s_nodes st) nodes
    \<and> (\<forall>k < length nodes. n_visits (nodes ! k) = n_visits (s_nodes st ! k) + (if above (s_nodes st) k i then 1 else 0)
         \<and> n_value_sum (nodes ! k) = n_value_sum (s_nodes st ! k) + (if above (s_nodes st) k i then v else 0))"
proof -
  obtain v rw where e: "evaluate env vc (s_nodes st ! i) = (v, rw)" by fastforce
  define ns where "ns = (s_nodes st)[i := (s_nodes st ! i)\<lparr>n_reward := rw\<rparr>]"
  define ns' where "ns' = map (\<lambda>k. if above ns k i then add_value v (ns ! k) else ns ! k) [0..<length ns]"
  have st: "same_tree (s_nodes st) ns" using i by (auto simp: same_tree_def ns_def nth_list_update)
  have "backprop v (Some i) ns = Some ns'"
    unfolding ns'_def using backprop_spec [OF same_tree_shape [OF st sh]] i by (simp add: ns_def)
  then have rv: "record_value env vc i st = Some (st\<lparr>s_nodes := ns',
      s_candidates := (if n_finished (s_nodes st ! i) then s_candidates st @ [i] else s_candidates st)\<rparr>)"
    by (simp add: record_value_def e ns_def [symmetric])
  have "same_tree (s_nodes st) ns'" using st by (auto simp: same_tree_def ns'_def)
  moreover have "n_visits (ns' ! k) = n_visits (s_nodes st ! k) + (if above (s_nodes st) k i then 1 else 0)
         \<and> n_value_sum (ns' ! k) = n_value_sum (s_nodes st ! k) + (if above (s_nodes st) k i then v else 0)" if "k < length ns'" for k
    using that i by (auto simp: ns'_def same_tree_above [OF st]) (simp_all add: ns_def nth_list_update)
  ultimately show ?thesis using rv evaluate_bounds [OF e] by (intro exI [of _ v] exI [of _ ns']) blast
qed

text \<open>The nodes below a node, the root left out.\<close>

definition below :: "snode list \<Rightarrow> nat \<Rightarrow> nat set" where
  "below nodes k = {j. 0 < j \<and> j < length nodes \<and> above nodes k j}"

definition counted :: "(nat \<Rightarrow> rat) \<Rightarrow> snode list \<Rightarrow> bool" where
  "counted val nodes \<longleftrightarrow> (\<forall>k < length nodes. n_visits (nodes ! k) = card (below nodes k) \<and> n_value_sum (nodes ! k) = sum val (below nodes k))"

lemma finite_below [simp]: "finite (below nodes k)"
  by (rule finite_subset [of _ "{..<length nodes}"]) (auto simp: below_def)

lemma attach_below:
  assumes sh: "shape m nodes" and t: "target < length nodes" and c: "fresh_child nodes target child"
  shows "k < length nodes \<Longrightarrow> below (attach target child nodes) k = (if above nodes k target then {length nodes} else {}) \<union> below nodes k"
    "below (attach target child nodes) (length nodes) = {length nodes}"
proof -
  note ab = attach_above [OF sh t c] and l = attach_nth(1) [OF t, of child]
  show "below (attach target child nodes) k = (if above nodes k target then {length nodes} else {}) \<union> below nodes k" if "k < length nodes"
    using that ab shapeD(1) [OF sh] by (auto simp: below_def l less_Suc_eq)
  have "\<not> above nodes (length nodes) j" if "j < length nodes" for j using above_le [OF sh, of "length nodes" j] that by auto
  then show "below (attach target child nodes) (length nodes) = {length nodes}"
    using ab shapeD(1) [OF sh] by (auto simp: below_def l less_Suc_eq)
qed

lemma counted_step:
  assumes cn: "counted val nodes" and sh: "shape m nodes" and t: "target < length nodes" and c: "fresh_child nodes target child"
    and st: "same_tree (attach target child nodes) nodes'"
    and upd: "\<forall>k < length nodes'. n_visits (nodes' ! k) = n_visits (attach target child nodes ! k) + (if above (attach target child nodes) k (length nodes) then 1 else 0)
       \<and> n_value_sum (nodes' ! k) = n_value_sum (attach target child nodes ! k) + (if above (attach target child nodes) k (length nodes) then v else 0)"
  shows "counted (val(length nodes := v)) nodes'"
proof -
  let ?n = "length nodes"
  have bl: "below nodes' = below (attach target child nodes)"
    using st by (auto simp: fun_eq_iff below_def same_tree_above [OF st]) (auto simp: same_tree_def)
  have notin: "?n \<notin> below nodes k" for k by (auto simp: below_def)
  have old: "sum (val(?n := v)) (below nodes k) = sum val (below nodes k)" for k using notin by (intro sum.cong) auto
  show ?thesis unfolding counted_def
  proof (intro allI impI)
    fix k assume k: "k < length nodes'"
    have l: "length nodes' = Suc ?n" using st attach_nth(1) [OF t] by (simp add: same_tree_def)
    show "n_visits (nodes' ! k) = card (below nodes' k) \<and> n_value_sum (nodes' ! k) = sum (val(?n := v)) (below nodes' k)"
    proof (cases "k = ?n")
      case True
      then show ?thesis using upd k attach_nth(2) [OF t, of child] c attach_below(2) [OF sh t c] attach_above(2) [OF sh t c]
        by (simp add: bl fresh_child_def)
    next
      case False
      then have kn: "k < ?n" using k l by simp
      have "attach target child nodes ! k = nodes ! k \<or> n_visits (attach target child nodes ! k) = n_visits (nodes ! k)
        \<and> n_value_sum (attach target child nodes ! k) = n_value_sum (nodes ! k)" using attach_nth(3) [OF t kn, of child] by auto
      then have "n_visits (attach target child nodes ! k) = card (below nodes k)" "n_value_sum (attach target child nodes ! k) = sum val (below nodes k)"
        using cn kn by (auto simp: counted_def)
      then show ?thesis using upd k attach_below(1) [OF sh t c kn] attach_above(2) [OF sh t c, of k] kn notin [of k] old [of k]
        by (simp add: bl)
    qed
  qed
qed

section \<open>The invariant of the search\<close>

definition node_lines :: "snode list \<Rightarrow> (string option \<times> nat list \<times> string) list" where
  "node_lines nodes = map (\<lambda>i. (map_option (\<lambda>p. n_ckpt (nodes ! p)) (n_parent (nodes ! i)), if i = 0 then [] else [i], n_ckpt (nodes ! i)))
     [0..<length nodes]"

definition trace_ok :: "search \<Rightarrow> bool" where
  "trace_ok st \<longleftrightarrow> lineage None [] (s_ops st) = node_lines (s_nodes st) \<and> taken (s_ops st) = map n_ckpt (s_nodes st)
     \<and> (distinct (map n_ckpt (s_nodes st)) \<longrightarrow> orderly {} (s_ops st))"

definition val_ok :: "(nat \<Rightarrow> rat) \<Rightarrow> bool" where
  "val_ok val \<longleftrightarrow> (\<forall>j. 3 / 20 \<le> val j \<and> val j \<le> 1)"

definition tree_inv :: "nat \<Rightarrow> search \<Rightarrow> bool" where
  "tree_inv m st \<longleftrightarrow> shape m (s_nodes st) \<and> trace_ok st
     \<and> s_candidates st = filter (\<lambda>i. n_finished (s_nodes st ! i)) [0..<length (s_nodes st)]
     \<and> (\<exists>val. val_ok val \<and> counted val (s_nodes st))"

text \<open>Between two iterations the sandbox is at the current node.\<close>

definition at_node :: "search \<Rightarrow> bool" where
  "at_node st \<longleftrightarrow> s_current st < length (s_nodes st) \<and> based_on None [] (s_ops st) = (Some (n_ckpt (s_nodes st ! s_current st)), [])"

lemma start_inv: "0 < m \<Longrightarrow> tree_inv m (start_search ck) \<and> at_node (start_search ck)"
proof -
  have "below [new_node None ck 0] 0 = {}" by (auto simp: below_def)
  then have "counted (\<lambda>_. 1) [new_node None ck 0]" by (simp add: counted_def new_node_def)
  then have "\<exists>val. val_ok val \<and> counted val [new_node None ck 0]"
    by (intro exI [of _ "\<lambda>_. 1"]) (simp add: val_ok_def)
  then show ?thesis
    by (auto simp: tree_inv_def at_node_def trace_ok_def start_search_def shape_def node_lines_def new_node_def)
qed

lemma same_lines: "same_tree nodes nodes' \<Longrightarrow> shape m nodes \<Longrightarrow> node_lines nodes' = node_lines nodes \<and> map n_ckpt nodes' = map n_ckpt nodes"
proof -
  assume st: "same_tree nodes nodes'" and sh: "shape m nodes"
  have "n_ckpt (nodes' ! p) = n_ckpt (nodes ! p)" if "i < length nodes" "n_parent (nodes ! i) = Some p" for i p
    using shapeD(3) [OF sh that] st that by (auto simp: same_tree_def)
  then show ?thesis using st
    by (auto simp: node_lines_def same_tree_def map_option_case split: option.splits intro!: nth_equalityI)
qed

lemma attach_lines:
  assumes sh: "shape m nodes" and t: "target < length nodes" and c: "fresh_child nodes target child"
  shows "node_lines (attach target child nodes) = node_lines nodes @ [(Some (n_ckpt (nodes ! target)), [length nodes], n_ckpt child)]"
    "map n_ckpt (attach target child nodes) = map n_ckpt nodes @ [n_ckpt child]"
proof -
  have ck: "n_ckpt (attach target child nodes ! p) = n_ckpt (nodes ! p)" "n_parent (attach target child nodes ! p) = n_parent (nodes ! p)"
    if "p < length nodes" for p using attach_nth(3) [OF t that] by simp_all
  have "map_option (\<lambda>p. n_ckpt (attach target child nodes ! p)) (n_parent (attach target child nodes ! i))
      = map_option (\<lambda>p. n_ckpt (nodes ! p)) (n_parent (nodes ! i))" if "i < length nodes" for i
    using ck [OF that] ck(1) shapeD(3) [OF sh that] that by (cases "n_parent (nodes ! i)") auto
  then show "node_lines (attach target child nodes) = node_lines nodes @ [(Some (n_ckpt (nodes ! target)), [length nodes], n_ckpt child)]"
    using attach_nth(1,2) [OF t, of child] ck c t shapeD(1) [OF sh] by (auto simp: node_lines_def fresh_child_def)
  show "map n_ckpt (attach target child nodes) = map n_ckpt nodes @ [n_ckpt child]"
    using t by (simp add: attach_def map_update) (metis list_update_id length_map nth_map)
qed

text \<open>The trace after going to the target.\<close>

lemma go_trace:
  assumes "trace_ok st" "at_node st" "target < length (s_nodes st)"
  shows "lineage None [] (s_ops st @ go_ops target st) = node_lines (s_nodes st)" "taken (s_ops st @ go_ops target st) = map n_ckpt (s_nodes st)"
    "based_on None [] (s_ops st @ go_ops target st) = (Some (n_ckpt (s_nodes st ! target)), [])"
    "distinct (map n_ckpt (s_nodes st)) \<Longrightarrow> orderly {} (s_ops st @ go_ops target st)"
  using assms by (auto simp: trace_ok_def at_node_def go_ops_def)

lemma writes_trace:
  assumes "\<forall>w \<in> set ws. \<exists>i. w = Write i"
  shows "lineage b us ws = []" "taken ws = []" "orderly K ws"
  using assms by (induction ws arbitrary: us) auto

lemma failed_trace:
  assumes tr: "trace_ok st" "at_node st" and t: "target < length (s_nodes st)" and f: "expand_node env target st = (Inl e, st1)"
  shows "trace_ok st1"
proof -
  note f = expand_node_failed [OF f]
  note go = go_trace [OF tr t]
  show ?thesis
  proof (cases "s_ops st1 = s_ops st")
    case False
    then obtain ws where ws: "\<forall>w \<in> set ws. \<exists>i. w = Write i" "s_ops st1 = (s_ops st @ go_ops target st) @ ws" using f by auto
    show ?thesis unfolding trace_ok_def ws(2) lineage_append [of _ _ "s_ops st @ go_ops target st"]
        taken_append [of "s_ops st @ go_ops target st"] orderly_append [of _ "s_ops st @ go_ops target st"]
      using go writes_trace [OF ws(1)] f by simp
  qed (use f tr in \<open>simp add: trace_ok_def\<close>)
qed

lemma expanded_trace:
  assumes tr: "trace_ok st" "at_node st" and sh: "shape m (s_nodes st)" and t: "target < length (s_nodes st)"
    and c: "fresh_child (s_nodes st) target c" and ns: "s_nodes st1 = attach target c (s_nodes st)"
    and ops: "s_ops st1 = s_ops st @ go_ops target st @ [Write (length (s_nodes st)), Checkpoint (n_ckpt c)]"
  shows "trace_ok st1" "based_on None [] (s_ops st1) = (Some (n_ckpt c), [])"
proof -
  note go = go_trace [OF tr t]
  have ops': "s_ops st1 = (s_ops st @ go_ops target st) @ [Write (length (s_nodes st)), Checkpoint (n_ckpt c)]" using ops by simp
  show "trace_ok st1" unfolding trace_ok_def ops' lineage_append [of _ _ "s_ops st @ go_ops target st"]
      taken_append [of "s_ops st @ go_ops target st"] orderly_append [of _ "s_ops st @ go_ops target st"]
    using go by (simp add: ns attach_lines [OF sh t c])
  show "based_on None [] (s_ops st1) = (Some (n_ckpt c), [])"
    unfolding ops' based_on_append [of _ _ "s_ops st @ go_ops target st"] go(3) by simp
qed

lemma expanded_inv:
  assumes inv: "tree_inv m st" "at_node st" and t: "target < length (s_nodes st)" "\<not> n_finished (s_nodes st ! target)"
      "length (n_children (s_nodes st ! target)) < m" and ex: "expand_node env target st = (Inr i, st1)"
  shows "\<exists>st2. record_value env' vc i st1 = Some st2 \<and> tree_inv m st2 \<and> at_node st2 \<and> length (s_nodes st2) = Suc (length (s_nodes st))"
proof -
  have sh: "shape m (s_nodes st)" using inv by (simp add: tree_inv_def)
  obtain c where i: "i = length (s_nodes st)" "s_current st1 = i" "s_candidates st1 = s_candidates st"
    and c: "fresh_child (s_nodes st) target c" "s_nodes st1 = attach target c (s_nodes st)"
      "s_ops st1 = s_ops st @ go_ops target st @ [Write (length (s_nodes st)), Checkpoint (n_ckpt c)]"
    using expand_node_ok [OF ex] by blast
  have sh1: "shape m (s_nodes st1)" using attach_shape [OF sh t c(1)] c(2) by simp
  have l1: "length (s_nodes st1) = Suc i" "s_nodes st1 ! i = c" using attach_nth(1,2) [OF t(1)] c(2) i(1) by simp_all
  obtain v ns where v: "record_value env' vc i st1 = Some (st1\<lparr>s_nodes := ns,
      s_candidates := (if n_finished (s_nodes st1 ! i) then s_candidates st1 @ [i] else s_candidates st1)\<rparr>)"
    "3 / 20 \<le> v" "v \<le> 1" "same_tree (s_nodes st1) ns"
    "\<forall>k < length ns. n_visits (ns ! k) = n_visits (s_nodes st1 ! k) + (if above (s_nodes st1) k i then 1 else 0)
      \<and> n_value_sum (ns ! k) = n_value_sum (s_nodes st1 ! k) + (if above (s_nodes st1) k i then v else 0)"
    using record_value_ok [OF sh1, of i env' vc] l1(1) by auto
  define st2 where "st2 = st1\<lparr>s_nodes := ns,
      s_candidates := (if n_finished (s_nodes st1 ! i) then s_candidates st1 @ [i] else s_candidates st1)\<rparr>"
  have tr0: "trace_ok st" using inv(1) by (simp add: tree_inv_def)
  note tr = expanded_trace [OF tr0 inv(2) sh t(1) c]
  have l2: "length ns = Suc i" "n_ckpt (ns ! i) = n_ckpt c" using v(4) l1 by (simp_all add: same_tree_def)
  have "trace_ok st2" using tr(1) same_lines [OF v(4) sh1] by (simp add: trace_ok_def st2_def)
  moreover have "shape m ns" by (rule same_tree_shape [OF v(4) sh1])
  moreover have "s_candidates st2 = filter (\<lambda>i. n_finished (ns ! i)) [0..<length ns]"
  proof -
    have "n_finished (ns ! k) = n_finished (s_nodes st1 ! k)" if "k < Suc i" for k using v(4) l1(1) that by (simp add: same_tree_def)
    moreover have "n_finished (s_nodes st1 ! k) = n_finished (s_nodes st ! k)" if "k < i" for k
      using attach_nth(3) [OF t(1), of k c] c(2) i(1) that by simp
    ultimately have "filter (\<lambda>k. n_finished (ns ! k)) [0..<i] = filter (\<lambda>k. n_finished (s_nodes st ! k)) [0..<i]"
      by (intro filter_cong) auto
    then show ?thesis using inv(1) i l2(1) v(4) l1 by (simp add: st2_def tree_inv_def same_tree_def)
  qed
  moreover obtain val where "val_ok val" "counted val (s_nodes st)" using inv(1) by (auto simp: tree_inv_def)
  then have "counted (val(i := v)) ns" "val_ok (val(i := v))"
    using counted_step [OF _ sh t(1) c(1)] v c(2) i(1) by (auto simp: val_ok_def)
  ultimately have "tree_inv m st2" unfolding tree_inv_def st2_def by auto
  moreover have "at_node st2" using tr(2) l2 i(2) by (simp add: at_node_def st2_def)
  ultimately show ?thesis using v(1) l2 i(1) by (auto simp: st2_def)
qed

lemma iteration_inv:
  assumes inv: "tree_inv m st" "at_node st" and m: "0 < m"
  shows "\<exists>r st'. iteration score m vc env st = Some (r, st') \<and> tree_inv m st' \<and> (\<forall>b. r = Inr b \<longrightarrow> at_node st')
    \<and> (r = Inr True \<longrightarrow> length (s_nodes st') = Suc (length (s_nodes st)))
    \<and> (r = Inr False \<longrightarrow> st' = st \<and> s_candidates st \<noteq> [])"
proof -
  have sh: "shape m (s_nodes st)" using inv by (simp add: tree_inv_def)
  obtain r where r: "select score m (s_nodes st) 0 = Some r"
    "case r of Some t \<Rightarrow> t < length (s_nodes st) \<and> above (s_nodes st) 0 t \<and> \<not> n_finished (s_nodes st ! t) \<and> length (n_children (s_nodes st ! t)) < m
       | None \<Rightarrow> \<exists>t < length (s_nodes st). above (s_nodes st) 0 t \<and> n_finished (s_nodes st ! t) \<and> n_children (s_nodes st ! t) = []"
    using select_spec [OF sh shapeD(1) [OF sh] m] by blast
  show ?thesis
  proof (cases r)
    case None
    then obtain t where t: "t < length (s_nodes st)" "n_finished (s_nodes st ! t)" using r(2) by auto
    have "t \<in> set (filter (\<lambda>i. n_finished (s_nodes st ! i)) [0..<length (s_nodes st)])" using t by simp
    then have "s_candidates st \<noteq> []" using inv(1) unfolding tree_inv_def by (metis empty_iff empty_set)
    then show ?thesis using r(1) None inv by (simp add: iteration_def)
  next
    case (Some target)
    then have t: "target < length (s_nodes st)" "\<not> n_finished (s_nodes st ! target)" "length (n_children (s_nodes st ! target)) < m" using r(2) by auto
    note go = go_trace [OF _ inv(2) t(1)]
    show ?thesis
    proof (cases "expand_node env target st")
      case (Pair rx st1)
      show ?thesis
      proof (cases rx)
        case (Inl e)
        note f = expand_node_failed [OF Pair [unfolded Inl]]
        have "trace_ok st1" using failed_trace [OF _ inv(2) t(1) Pair [unfolded Inl]] inv(1) by (simp add: tree_inv_def)
        then have "tree_inv m st1" using inv(1) f by (simp add: tree_inv_def)
        then show ?thesis using r(1) Some Pair Inl by (simp add: iteration_def)
      next
        case (Inr i)
        then show ?thesis using expanded_inv [OF inv t Pair [unfolded Inr], of env vc] r(1) Some Pair
          by (auto simp: iteration_def)
      qed
    qed
  qed
qed

lemma search_loop_inv:
  assumes "tree_inv m st" "at_node st" "0 < m"
  shows "\<exists>r st'. search_loop score m vc envs st = Some (r, st') \<and> tree_inv m st' \<and> (r = Inr () \<longrightarrow> at_node st'
    \<and> (length (s_nodes st') = length (s_nodes st) + length envs \<or> s_candidates st' \<noteq> []))"
  using assms
proof (induction envs arbitrary: st)
  case (Cons env envs)
  obtain r st1 where r: "iteration score m vc env st = Some (r, st1)" "tree_inv m st1" "\<forall>b. r = Inr b \<longrightarrow> at_node st1"
    "r = Inr True \<longrightarrow> length (s_nodes st1) = Suc (length (s_nodes st))" "r = Inr False \<longrightarrow> st1 = st \<and> s_candidates st \<noteq> []"
    using iteration_inv [OF Cons.prems] by blast
  consider (err) e where "r = Inl e" | (stop) "r = Inr False" | (go) "r = Inr True" by (cases r) auto
  then show ?case
  proof cases
    case go
    then have "at_node st1" using r(3) by blast
    from Cons.IH [OF r(2) this Cons.prems(3)] show ?thesis using go r(1,4) by fastforce
  qed (use r in auto)
qed simp

lemma best_node_index:
  assumes "tree_inv m st" "best_node st = Some b"
  shows "b < length (s_nodes st)"
proof -
  have "b \<in> set [0..<length (s_nodes st)]"
  proof (cases "s_candidates st")
    case (Cons c cs)
    then have b: "b = max_by reward_less (\<lambda>i. (n_reward (s_nodes st ! i), n_depth (s_nodes st ! i))) c cs" using assms(2) by (simp add: best_node_def)
    have "b \<in> set (c # cs)" unfolding b by (rule max_by_mem)
    then have "b \<in> set (s_candidates st)" unfolding Cons .
    then show ?thesis using assms(1) by (auto simp: tree_inv_def)
  next
    case Nil
    obtain c cs where c: "filter (\<lambda>i. is_edit (s_nodes st ! i)) [0..<length (s_nodes st)] = c # cs"
      "b = max_by (<) (\<lambda>i. n_depth (s_nodes st ! i)) c cs" using assms(2) Nil by (auto simp: best_node_def split: list.splits)
    have "b \<in> set (c # cs)" unfolding c(2) by (rule max_by_mem)
    then show ?thesis unfolding c(1) [symmetric] by simp
  qed
  then show ?thesis by simp
qed

lemma goto_node_ops:
  assumes "goto_node env t st = (r, st')"
  shows "s_nodes st' = s_nodes st \<and> s_candidates st' = s_candidates st
    \<and> (s_ops st' = s_ops st \<or> s_ops st' = s_ops st @ [Restore (n_ckpt (s_nodes st ! t))])"
  using assms by (auto simp: goto_node_def add_op_def Let_def split: sum.splits option.splits)

lemma finish_search_inv:
  assumes inv: "tree_inv m st" "at_node st" and f: "finish_search env vc st = (r, st')"
  shows "tree_inv m st'"
proof (cases "\<exists>b. best_node st = Some b \<and> b \<noteq> s_current st")
  case True
  then obtain b where b: "best_node st = Some b" "b \<noteq> s_current st" by blast
  obtain r1 s1 where g: "goto_node (env\<lparr>reopen_error := None\<rparr>) b st = (r1, s1)" by fastforce
  then have "st' = s1" using f b by (cases r1) (simp_all add: finish_search_def Let_def)
  moreover have "trace_ok s1"
  proof -
    have "s_ops s1 = s_ops st \<or> s_ops s1 = s_ops st @ go_ops b st" using goto_node_ops [OF g] b(2) by (simp add: go_ops_def)
    then show ?thesis
      using go_trace [OF _ inv(2) best_node_index [OF inv(1) b(1)]] inv(1) goto_node_ops [OF g] unfolding tree_inv_def trace_ok_def by fastforce
  qed
  ultimately show ?thesis using inv(1) goto_node_ops [OF g] by (simp add: tree_inv_def)
next
  case False
  then have "st' = st" using f by (auto simp: finish_search_def Let_def split: option.splits)
  then show ?thesis using inv(1) by simp
qed

lemma run_inv:
  assumes "0 < m"
  shows "\<exists>r st. run_decoupled score m vc (Inr ck) envs le = Some (r, st) \<and> tree_inv m st"
proof -
  obtain r st where st: "search_loop score m vc envs (start_search ck) = Some (r, st)" "tree_inv m st" "r = Inr () \<longrightarrow> at_node st"
    using search_loop_inv [OF _ _ assms] start_inv [OF assms, of ck] by blast
  show ?thesis
  proof (cases r)
    case (Inr u)
    obtain r' st' where "finish_search le vc st = (r', st')" by fastforce
    then show ?thesis using st Inr finish_search_inv [of m st le vc r' st'] by (simp add: run_decoupled_def)
  qed (use st in \<open>simp add: run_decoupled_def\<close>)
qed

section \<open>Properties of the search\<close>

text \<open>
  C20. The search ends whatever the sandbox and the worker answer, and every node of the tree stands for a
  checkpoint that was taken after exactly one step of the worker on the state of the checkpoint of its parent,
  also in a run that fails half-way; as long as the sandbox gives every checkpoint a new name, the search
  never restores a checkpoint that does not exist.
\<close>

theorem search_checkpoints_tree:
  assumes "0 < max_exp"
  shows "\<exists>r st. run_decoupled score max_exp vc (Inr ck) envs le = Some (r, st)
    \<and> lineage None [] (s_ops st) = node_lines (s_nodes st) \<and> (distinct (map n_ckpt (s_nodes st)) \<longrightarrow> orderly {} (s_ops st))"
  using run_inv [OF assms, of score vc ck envs le] by (auto simp: tree_inv_def trace_ok_def)

text \<open>
  C22. Back-propagation counts every expansion once at each of its ancestors: in the tree that a search leaves,
  the visits of a node are the number of nodes below it, itself included and the root left out, and its sum of
  values is the sum of their values, each between 0.15 and 1; parents come before their children, no node has more
  children than allowed, and a finished node has none.
\<close>

theorem search_counts:
  assumes "0 < max_exp" "run_decoupled score max_exp vc (Inr ck) envs le = Some (r, st)"
  shows "shape max_exp (s_nodes st) \<and> (\<exists>val. val_ok val \<and> counted val (s_nodes st))"
  using run_inv [OF assms(1), of score vc ck envs le] assms(2) by (auto simp: tree_inv_def)


section \<open>Concrete searches\<close>

definition wit_iter :: "string \<Rightarrow> bool \<Rightarrow> iter_env" where
  "wit_iter ck fin = \<lparr>restore_answer = Inr True, reopen_error = None, step_answer = Inr (Some ''ViewCode'', [], fin), ckpt_answer = Inr ck,
     verify_outcome = (\<lambda>_. (0, [])), diff_present = True\<rparr>"

definition wit_score :: uct_float where
  "wit_score v s p = s / of_nat v"

definition wit_run :: "(search_result, search) eff option" where
  "wit_run = run_decoupled wit_score 2 True (Inr ''r'') [wit_iter ''a'' False, wit_iter ''b'' False, wit_iter ''c'' True] (wit_iter [] False)"

lemma wit_run_shape:
  "map_option (\<lambda>(r, st). (map n_parent (s_nodes st), map n_visits (s_nodes st), s_ops st)) wit_run
   = Some ([None, Some 0, Some 0, Some 1], [3, 2, 1, 1],
       [Checkpoint ''r'', Write 1, Checkpoint ''a'', Restore ''r'', Write 2, Checkpoint ''b'', Restore ''a'', Write 3, Checkpoint ''c''])"
  by code_simp

theorem search_checkpoints_tree_witness:
  "\<exists>r st. wit_run = Some (r, st) \<and> lineage None [] (s_ops st) = node_lines (s_nodes st)
    \<and> map n_parent (s_nodes st) = [None, Some 0, Some 0, Some 1]"
proof -
  have "(0::nat) < 2" by simp
  from search_checkpoints_tree [OF this, of wit_score True "''r''" "[wit_iter ''a'' False, wit_iter ''b'' False, wit_iter ''c'' True]" "wit_iter [] False"]
  show ?thesis using wit_run_shape unfolding wit_run_def by fastforce
qed

theorem search_counts_witness:
  "\<exists>r st. wit_run = Some (r, st) \<and> (\<exists>val. val_ok val \<and> counted val (s_nodes st)) \<and> map n_visits (s_nodes st) = [3, 2, 1, 1]"
proof -
  obtain r st where w: "wit_run = Some (r, st)" "map n_visits (s_nodes st) = [3, 2, 1, 1]" using wit_run_shape by auto
  have "(0::nat) < 2" by simp
  from search_counts [OF this w(1) [unfolded wit_run_def]] show ?thesis using w by (intro exI [of _ r] exI [of _ st]) simp
qed

definition wit_loop :: "(unit, search) eff option" where
  "wit_loop = search_loop wit_score 2 True [wit_iter ''a'' True, wit_iter ''b'' False, wit_iter ''c'' False] (start_search ''r'')"

lemma wit_loop_ends:
  "map_option (\<lambda>(r, st). (isl r, length (s_nodes st), map n_finished (s_nodes st))) wit_loop = Some (False, 3, [False, True, False])"
  by code_simp


text \<open>
  The selection descends along the best child only, so the search can stop although a node can still be expanded:
  a finished child with the better value hides its unfinished sibling.
\<close>

lemma select_gives_up:
  assumes "\<not> score 1 1 2 < score 1 (2 / 5) 2"
  shows "select score 2 [(new_node None ''r'' 0)\<lparr>n_children := [1, 2], n_visits := 2, n_value_sum := 7 / 5\<rparr>,
      (new_node (Some 0) ''a'' 1)\<lparr>n_finished := True, n_visits := 1, n_value_sum := 1\<rparr>,
      (new_node (Some 0) ''b'' 1)\<lparr>n_visits := 1, n_value_sum := 2 / 5\<rparr>] 0 = Some None"
  using assms by (subst select.simps, subst select.simps) (simp add: new_node_def uct_def uct_less_def)

end
