(* ===== verification/Spec2Isabelle.thy ===== *)
theory Spec2Isabelle
  imports Prelude Paths Json_Values Python_Text Repo_Files Worker_Actions Llm_Proxy Agent_Worker Llm_Rounds Page_Stats Semantic_Parser Rollback Branching Root_Overlay Memory_Regions Registry Adaptive_Checkpoint
    Proc_Files Controller_State Active_Kill Snapshot_GC Legacy_Checkpoint Restore_Action Async_Checkpoint Async_Invariant Workspace_Rollback
    Lazy_Prestart Async_Resources Control_Channel Search_Schedule Tree_Search
begin

text \<open>
  DeltaBox runs a software agent in a sandbox and explores a tree of its states: it checkpoints files and
  processes after every step and goes back to earlier checkpoints. This development models the parts of the
  repository that decide what a checkpoint holds, what a restore brings back, and what may be deleted or
  killed in between, the host programs that drive them, and the worker inside the sandbox with its actions and its
  connection to the language model.

  \<^bold>\<open>The program and its theories.\<close> Paths are below \<^verbatim>\<open>src/\<close>; \<^verbatim>\<open>gsd\<close> stands for \<^verbatim>\<open>backends/deltabox/gsd\<close>.

  \<^item> \<open>Prelude\<close>, \<open>Paths\<close>: Python exceptions as values, results and effects with their sequencing
    operators, dictionaries in insertion order, \<^verbatim>\<open>str\<close> and \<^verbatim>\<open>os.path\<close> functions.
  \<^item> \<open>Page_Stats\<close>: \<^verbatim>\<open>gsd/criu_page_stats.py\<close>. Every accepted pagemap image has consistent totals within 64 bits;
    reading inverts writing.
  \<^item> \<open>Semantic_Parser\<close>: \<^verbatim>\<open>gsd/semantic_parser.py\<close>. Which shell commands need no new image.
  \<^item> \<open>Rollback\<close>, \<open>Branching\<close>: the contract of a checkpointing layer as locales (\<open>rollback_store\<close>,
    \<open>atomic_rollback_store\<close>) with the lemmas of its clients: any sequence of writes, checkpoints and restores, and the
    lineage of the checkpoints that a tree-shaped exploration takes.
  \<^item> \<open>Root_Overlay\<close>: \<^verbatim>\<open>gsd/root_overlay.py\<close>. One covered directory and the set of them keep that contract; mounting is
    all or nothing.
  \<^item> \<open>Memory_Regions\<close>: \<^verbatim>\<open>gsd/memory_classifier.py\<close>, \<^verbatim>\<open>gsd/prewarm.py\<close>, \<^verbatim>\<open>replay/guest/cooperative_prewarm.py\<close>. Zones and tiers are
    partitions, prefetches account for every page, range subtraction is exact.
  \<^item> \<open>Registry\<close>, \<open>Adaptive_Checkpoint\<close>: walks along parent links (locale \<open>parent_registry\<close>) and
    \<^verbatim>\<open>gsd/adaptive_checkpoint.py\<close>: the strategy, the image that an incremental dump builds on, pruning.
  \<^item> \<open>Proc_Files\<close>, \<open>Controller_State\<close>, \<open>Active_Kill\<close>, \<open>Snapshot_GC\<close>, \<open>Legacy_Checkpoint\<close>, \<open>Restore_Action\<close>,
    \<open>Workspace_Rollback\<close>: \<^verbatim>\<open>gsd/sandbox_controller.py\<close>: readings of \<^verbatim>\<open>/proc\<close>; the state with its registry, epoch and pool of
    warm templates (the operations of \<^verbatim>\<open>gsd/template_fork.py\<close> that it calls); which processes a restore kills; what a collection
    deletes; \<^verbatim>\<open>_checkpoint_legacy\<close>; \<^verbatim>\<open>restore_action\<close>; and what all of it does to the files of the workspace.
  \<^item> \<open>Lazy_Prestart\<close>: the daemons that serve pages of cold restores, with their background worker.
  \<^item> \<open>Async_Checkpoint\<close>, \<open>Async_Invariant\<close>: \<^verbatim>\<open>gsd/async_checkpoint.py\<close>, the transaction, the writers as interleaved pieces,
    and the invariant of the system under every interleaving.
  \<^item> \<open>Async_Resources\<close>: \<^verbatim>\<open>gsd/async_resources.py\<close>: what a worker may hold while it is dumped from a forked copy, and how the
    copy and a later restore get transports of their own.
  \<^item> \<open>Control_Channel\<close>: \<^verbatim>\<open>replay/guest/control_channel.py\<close>: requests and replies between the replay driver and the agent, and the
    handshake after a restore. \<open>Json_Values\<close>: the JSON values that it and the next theory inspect.
  \<^item> \<open>Search_Schedule\<close>: \<^verbatim>\<open>replay/tree_to_schedule.py\<close>, from a recorded tree to the schedule of a replay.
  \<^item> \<open>Tree_Search\<close>: \<^verbatim>\<open>agent/host/decoupled_mcts.py\<close>, the search on the host.
  \<^item> \<open>Python_Text\<close>, \<open>Repo_Files\<close>, \<open>Worker_Actions\<close>: \<^verbatim>\<open>agent/worker/worker_actions.py\<close>, on Python's texts and on a tree of files with symbolic
    links. No sequence of file actions reaches outside the repository (the locale \<open>confined\<close> states what an operation may change);
    the edits change just what they announce.
  \<^item> \<open>Llm_Proxy\<close>: \<^verbatim>\<open>agent/npd/npd.py\<close>, \<^verbatim>\<open>agent/npd/npd_client.py\<close> and the two operations of the controller on their files. A thread
    of the proxy is a list of stages, so that everything may happen between two of them.
  \<^item> \<open>Agent_Worker\<close>: \<^verbatim>\<open>agent/worker/agent_worker.py\<close>, one round of the loop as a function; its state is well-formed at every moment, and a
    response is delivered.
  \<^item> \<open>Llm_Rounds\<close>: worker, proxy, controller and other clients as one system of steps. Across checkpoints and restores every answer in
    a conversation was given to that conversation.
  \<^item> This theory composes the search with the covered directories.

  \<^bold>\<open>How the state is represented.\<close> Objects are records, dictionaries are association lists in insertion order,
  exceptions are values of \<open>py_error\<close> and a method that may raise returns a result together with the state it leaves behind
  (\<open>eff\<close>), so that a failure half-way is visible. Effects on the outside that a later part depends on (renames, overlay
  switches, signals, dumps) are recorded as events in order; \<open>Workspace_Rollback\<close> interprets the file-system ones. What
  the environment answers to a call (replies of the pool, outcomes of dumps, process tables, clocks that expire) is in a record
  that is an argument of the call, so the theorems hold for every answer. Pages, addresses and counters of images are
  integers with the checks of the code against \<open>2 ^ 64\<close>; bytes are 8-bit words.

  \<^bold>\<open>Loops.\<close> Loops over finite data are structural. The loops that follow links (parents, children of processes, UCT
  descent, back-propagation) are \<^theory_text>\<open>partial_function (option)\<close> or functions with a measure; that they return is a theorem
  wherever a property speaks of their result. There is no fuel.

  \<^bold>\<open>Assumptions.\<close> They are hypotheses of the theorems that need them, each with a witness.
  \<^item> \<open>kernel_ok\<close>: a successful overlay mount or switch gives the stack that its options name, and an empty layer on top changes
    nothing. \<open>ref_kernel\<close> is an instance. In \<open>Workspace_Rollback\<close>: a directory that is renamed while it is mounted stays mounted.
  \<^item> New checkpoint ids and process ids are fresh where a theorem says so; the process table is read once per call.
  \<^item> Asynchronous dumps: a call of the controller is atomic between two pieces of a writer, because both hold the lock.
  \<^item> Lazy-pages daemons: a process that was terminated and killed is gone.
  \<^item> Worker and proxy: \<^verbatim>\<open>uuid4\<close> gives identifiers that are new and hold no white space; the worker runs with one window size. What git, bash,
    regular expressions, \<^verbatim>\<open>fnmatch\<close> and the endpoint answer is arbitrary. Characters are single bytes.
  \<^item> The UCT value of a visited child and the hash of \<^verbatim>\<open>sha1\<close> are arguments. Rewards are rationals: the sums of the search are
    exact where the program rounds.

  \<^bold>\<open>Not modelled.\<close> Timings, logs and statistics; the template server inside the checkpointed process, which moves file
  descriptors and forks; in the worker the reaping of threads and the template endpoint; namespaces, pidfd and ctypes calls; the replay driver
  in the guest; the start of processes and virtual machines; the scripts of the evaluation; generated and vendored
  code. In the controller: the validation twin of a checkpoint, restamping, and the debug traces.
\<close>

section \<open>The search on the covered directories\<close>

context overlay_kernel
begin

lemma set_lineage:
  assumes "set_inv s" "orderly {} ops"
    and "for_eff (exec_op (set_checkpoint k) (set_restore k) (fold set_write)) ops s = (Inr (), s')"
    and "(Some j, us, c) \<in> set (lineage None [] ops)"
  shows "\<exists>sj. set_inv sj \<and> set_saved k s' j = Some (set_view k sj) \<and> set_saved k s' c = Some (set_view k (fold (fold set_write) us sj))"
  using rollback_store.lineage_holds [OF ovls.fold_store assms(3,2,1,4)] .

end

text \<open>
  C4. The search on the host and the overlays of the sandbox together. Mount the covered directories, run the
  operations of a search on them, with any writes to the directories in each step of the worker; if they all succeed and
  the checkpoints have names of their own, the checkpoint of a node shows exactly what the writes of its step make of
  the directories as the checkpoint of its parent shows them.
\<close>

theorem search_on_overlays:
  assumes "kernel_ok k" "lroot \<noteq> []" "\<not> suffix ''/'' lroot" "clean lroot"
    and "\<forall>t \<in> set ts. clean (normpath t)" "ovs = new_overlay_set (Some ts) lroot isdir"
    and "distinct (map o_root ovs)" "\<forall>ov \<in> set ovs. \<forall>n. dirs w (upper_dir ov n) = None"
    and "mount_all k lroot (ovs, w) = (Inr (), s)"
    and run: "0 < max_exp" "run_decoupled score max_exp vc (Inr ck) envs le = Some (r, st)" "distinct (map n_ckpt (s_nodes st))"
    and ops: "for_eff (exec_op (set_checkpoint k) (set_restore k) (fold set_write)) (map (map_op step_writes) (s_ops st)) s = (Inr (), s')"
    and i: "i < length (s_nodes st)" "n_parent (s_nodes st ! i) = Some p"
  shows "\<exists>sp. set_saved k s' (n_ckpt (s_nodes st ! p)) = Some (set_view k sp)
    \<and> set_saved k s' (n_ckpt (s_nodes st ! i)) = Some (set_view k (fold set_write (step_writes i) sp))"
proof -
  have inv: "tree_inv max_exp st" using run_inv [OF run(1), of score vc ck envs le] run(2) by auto
  then have tr: "lineage None [] (s_ops st) = node_lines (s_nodes st)" "orderly {} (s_ops st)" and sh: "shape max_exp (s_nodes st)"
    using run(3) by (simp_all add: tree_inv_def trace_ok_def)
  have "i \<noteq> 0" using shapeD(2) [OF sh] i(2) by (cases i) auto
  then have "(Some (n_ckpt (s_nodes st ! p)), [i], n_ckpt (s_nodes st ! i)) \<in> set (node_lines (s_nodes st))"
    using i by (force simp: node_lines_def)
  then have "(Some (n_ckpt (s_nodes st ! p)), [step_writes i], n_ckpt (s_nodes st ! i)) \<in> set (lineage None [] (map (map_op step_writes) (s_ops st)))"
    using lineage_map [of None step_writes "[]" "s_ops st"] tr(1) by force
  from overlay_kernel.set_lineage [OF overlay_kernel.intro [OF assms(1)] mount_all_set_inv [OF assms(1-9)] _ ops this] tr(2)
  show ?thesis by auto
qed

section \<open>A concrete run\<close>

definition wit_writes :: "nat \<Rightarrow> (nat \<times> file_layer) list" where
  "wit_writes i = [(0, [(''jq'', None)])]"

definition wit_search :: "search" where
  "wit_search = (case run_decoupled wit_score 1 True (Inr ''r'') [wit_iter ''a'' False] (wit_iter [] False) of Some (_, st) \<Rightarrow> st
     | None \<Rightarrow> start_search [])"

lemma wit_search_facts:
  "s_ops wit_search = [Checkpoint ''r'', Write 1, Checkpoint ''a'']" "map n_ckpt (s_nodes wit_search) = [''r'', ''a'']"
  "map n_parent (s_nodes wit_search) = [None, Some 0]"
  by code_simp+

lemma wit_overlay_run:
  "fst (for_eff (exec_op (set_checkpoint ref_kernel) (set_restore ref_kernel) (fold set_write))
     (map (map_op wit_writes) (s_ops wit_search)) sample_set_mounted) = Inr ()"
  by (simp add: wit_search_facts wit_writes_def sample_set_mounted_def sample_set_eq sample_overlay mount_all_def mount_def run_simps
    sample_world_def set_checkpoint_def checkpoint_def set_write_def)

theorem search_on_overlays_witness:
  "\<exists>s' sp. for_eff (exec_op (set_checkpoint ref_kernel) (set_restore ref_kernel) (fold set_write))
      (map (map_op wit_writes) (s_ops wit_search)) sample_set_mounted = (Inr (), s')
    \<and> set_saved ref_kernel s' ''r'' = Some (set_view ref_kernel sp)
    \<and> set_saved ref_kernel s' ''a'' = Some (set_view ref_kernel (fold set_write (wit_writes 1) sp))"
proof -
  obtain s' where s': "for_eff (exec_op (set_checkpoint ref_kernel) (set_restore ref_kernel) (fold set_write))
      (map (map_op wit_writes) (s_ops wit_search)) sample_set_mounted = (Inr (), s')" using wit_overlay_run by (metis prod.collapse)
  have m: "mount_all ref_kernel ''/l'' (sample_set, sample_world) = (Inr (), sample_set_mounted)"
    by (rule prod_eqI) (simp_all add: sample_set_mounted_def sample_set_eq sample_overlay mount_all_def mount_def run_simps sample_world_def)
  have "\<not> Option.is_none (run_decoupled wit_score 1 True (Inr ''r'') [wit_iter ''a'' False] (wit_iter [] False))" by code_simp
  then obtain r where run: "run_decoupled wit_score 1 True (Inr ''r'') [wit_iter ''a'' False] (wit_iter [] False) = Some (r, wit_search)"
    by (auto simp: wit_search_def Option.is_none_def split: option.splits)
  have n: "distinct (map n_ckpt (s_nodes wit_search))" "1 < length (s_nodes wit_search)" "n_parent (s_nodes wit_search ! 1) = Some 0"
    "n_ckpt (s_nodes wit_search ! 0) = ''r''" "n_ckpt (s_nodes wit_search ! 1) = ''a''"
    by code_simp+
  have c: "''/l'' \<noteq> []" "\<not> suffix ''/'' ''/l''" "clean ''/l''" "\<forall>t \<in> set [''/proc'', ''/u/'']. clean (normpath t)"
    "distinct (map o_root sample_set)" by code_simp+
  have d: "\<forall>ov \<in> set sample_set. \<forall>n. dirs sample_world (upper_dir ov n) = None"
    by (simp add: sample_set_eq sample_overlay sample_world_def upper_dir_def path_join_def)
  have "0 < (1::nat)" by simp
  from search_on_overlays [OF ref_kernel_ok c(1-4) sample_set_def c(5) d m this run n(1) s' n(2,3)] s' n(4,5)
  show ?thesis by auto
qed

end
